(* ===== verification/Prelude.thy ===== *)
theory Prelude
  imports Main
begin

text \<open>
  Shared vocabulary of the development.
  It holds the kernel's error numbers (\<^verbatim>\<open>os/src/utils/error.rs\<close>), the result type
  of fallible kernel functions, the Rust integer operations the modelled code relies on
  (checked, saturating and wrapping arithmetic at 64 bits), and the list operations that
  stand for \<^verbatim>\<open>VecDeque\<close>, \<^verbatim>\<open>Vec\<close> and iterator adaptors
  (\<^verbatim>\<open>position\<close>, \<^verbatim>\<open>remove\<close>, \<^verbatim>\<open>min_by_key\<close>), with the lemmas the
  component theories share.
\<close>

section \<open>Error numbers and results\<close>

text \<open>
  \<^verbatim>\<open>SysErrNo\<close> is a \<^verbatim>\<open>repr(i32)\<close> enumeration, so a value is its
  discriminant and every constructor of the source names one discriminant.
\<close>

datatype SysErrNo = SysErrNo int

abbreviation "EUNDEF \<equiv> SysErrNo 0"
abbreviation "EPERM \<equiv> SysErrNo 1"
abbreviation "ENOENT \<equiv> SysErrNo 2"
abbreviation "ESRCH \<equiv> SysErrNo 3"
abbreviation "EINTR \<equiv> SysErrNo 4"
abbreviation "EIO \<equiv> SysErrNo 5"
abbreviation "ENXIO \<equiv> SysErrNo 6"
abbreviation "E2BIG \<equiv> SysErrNo 7"
abbreviation "ENOEXEC \<equiv> SysErrNo 8"
abbreviation "EBADF \<equiv> SysErrNo 9"
abbreviation "ECHILD \<equiv> SysErrNo 10"
abbreviation "EAGAIN \<equiv> SysErrNo 11"
abbreviation "ENOMEM \<equiv> SysErrNo 12"
abbreviation "EACCES \<equiv> SysErrNo 13"
abbreviation "EFAULT \<equiv> SysErrNo 14"
abbreviation "ENOTBLK \<equiv> SysErrNo 15"
abbreviation "EBUSY \<equiv> SysErrNo 16"
abbreviation "EEXIST \<equiv> SysErrNo 17"
abbreviation "EXDEV \<equiv> SysErrNo 18"
abbreviation "ENODEV \<equiv> SysErrNo 19"
abbreviation "ENOTDIR \<equiv> SysErrNo 20"
abbreviation "EISDIR \<equiv> SysErrNo 21"
abbreviation "EINVAL \<equiv> SysErrNo 22"
abbreviation "ENFILE \<equiv> SysErrNo 23"
abbreviation "EMFILE \<equiv> SysErrNo 24"
abbreviation "ENOTTY \<equiv> SysErrNo 25"
abbreviation "ETXTBSY \<equiv> SysErrNo 26"
abbreviation "EFBIG \<equiv> SysErrNo 27"
abbreviation "ENOSPC \<equiv> SysErrNo 28"
abbreviation "ESPIPE \<equiv> SysErrNo 29"
abbreviation "EROFS \<equiv> SysErrNo 30"
abbreviation "EMLINK \<equiv> SysErrNo 31"
abbreviation "EPIPE \<equiv> SysErrNo 32"
abbreviation "EDOM \<equiv> SysErrNo 33"
abbreviation "ERANGE \<equiv> SysErrNo 34"
abbreviation "EDEADLK \<equiv> SysErrNo 35"
abbreviation "ENAMETOOLONG \<equiv> SysErrNo 36"
abbreviation "ENOLCK \<equiv> SysErrNo 37"
abbreviation "ENOSYS \<equiv> SysErrNo 38"
abbreviation "ENOTEMPTY \<equiv> SysErrNo 39"
abbreviation "ELOOP \<equiv> SysErrNo 40"
abbreviation "ENOMSG \<equiv> SysErrNo 42"
abbreviation "EIDRM \<equiv> SysErrNo 43"
abbreviation "ECHRNG \<equiv> SysErrNo 44"
abbreviation "EL2NSYNC \<equiv> SysErrNo 45"
abbreviation "EL3HLT \<equiv> SysErrNo 46"
abbreviation "EL3RST \<equiv> SysErrNo 47"
abbreviation "ELNRNG \<equiv> SysErrNo 48"
abbreviation "EUNATCH \<equiv> SysErrNo 49"
abbreviation "ENOCSI \<equiv> SysErrNo 50"
abbreviation "EL2HLT \<equiv> SysErrNo 51"
abbreviation "EBADE \<equiv> SysErrNo 52"
abbreviation "EBADR \<equiv> SysErrNo 53"
abbreviation "EXFULL \<equiv> SysErrNo 54"
abbreviation "ENOANO \<equiv> SysErrNo 55"
abbreviation "EBADRQC \<equiv> SysErrNo 56"
abbreviation "EBADSLT \<equiv> SysErrNo 57"
abbreviation "EBFONT \<equiv> SysErrNo 59"
abbreviation "ENOSTR \<equiv> SysErrNo 60"
abbreviation "ENODATA \<equiv> SysErrNo 61"
abbreviation "ETIME \<equiv> SysErrNo 62"
abbreviation "ENOSR \<equiv> SysErrNo 63"
abbreviation "ENONET \<equiv> SysErrNo 64"
abbreviation "ENOPKG \<equiv> SysErrNo 65"
abbreviation "EREMOTE \<equiv> SysErrNo 66"
abbreviation "ENOLINK \<equiv> SysErrNo 67"
abbreviation "EADV \<equiv> SysErrNo 68"
abbreviation "ESRMNT \<equiv> SysErrNo 69"
abbreviation "ECOMM \<equiv> SysErrNo 70"
abbreviation "EPROTO \<equiv> SysErrNo 71"
abbreviation "EMULTIHOP \<equiv> SysErrNo 72"
abbreviation "EDOTDOT \<equiv> SysErrNo 73"
abbreviation "EBADMSG \<equiv> SysErrNo 74"
abbreviation "EOVERFLOW \<equiv> SysErrNo 75"
abbreviation "ENOTUNIQ \<equiv> SysErrNo 76"
abbreviation "EBADFD \<equiv> SysErrNo 77"
abbreviation "EREMCHG \<equiv> SysErrNo 78"
abbreviation "ELIBACC \<equiv> SysErrNo 79"
abbreviation "ELIBBAD \<equiv> SysErrNo 80"
abbreviation "ELIBSCN \<equiv> SysErrNo 81"
abbreviation "ELIBMAX \<equiv> SysErrNo 82"
abbreviation "ELIBEXEC \<equiv> SysErrNo 83"
abbreviation "EILSEQ \<equiv> SysErrNo 84"
abbreviation "ERESTART \<equiv> SysErrNo 85"
abbreviation "ESTRPIPE \<equiv> SysErrNo 86"
abbreviation "EUSERS \<equiv> SysErrNo 87"
abbreviation "ENOTSOCK \<equiv> SysErrNo 88"
abbreviation "EDESTADDRREQ \<equiv> SysErrNo 89"
abbreviation "EMSGSIZE \<equiv> SysErrNo 90"
abbreviation "EPROTOTYPE \<equiv> SysErrNo 91"
abbreviation "ENOPROTOOPT \<equiv> SysErrNo 92"
abbreviation "EPROTONOSUPPORT \<equiv> SysErrNo 93"
abbreviation "ESOCKTNOSUPPORT \<equiv> SysErrNo 94"
abbreviation "EOPNOTSUPP \<equiv> SysErrNo 95"
abbreviation "EPFNOSUPPORT \<equiv> SysErrNo 96"
abbreviation "EAFNOSUPPORT \<equiv> SysErrNo 97"
abbreviation "EADDRINUSE \<equiv> SysErrNo 98"
abbreviation "EADDRNOTAVAIL \<equiv> SysErrNo 99"
abbreviation "ENETDOWN \<equiv> SysErrNo 100"
abbreviation "ENETUNREACH \<equiv> SysErrNo 101"
abbreviation "ENETRESET \<equiv> SysErrNo 102"
abbreviation "ECONNABORTED \<equiv> SysErrNo 103"
abbreviation "ECONNRESET \<equiv> SysErrNo 104"
abbreviation "ENOBUFS \<equiv> SysErrNo 105"
abbreviation "EISCONN \<equiv> SysErrNo 106"
abbreviation "ENOTCONN \<equiv> SysErrNo 107"
abbreviation "ESHUTDOWN \<equiv> SysErrNo 108"
abbreviation "ETOOMANYREFS \<equiv> SysErrNo 109"
abbreviation "ETIMEDOUT \<equiv> SysErrNo 110"
abbreviation "ECONNREFUSED \<equiv> SysErrNo 111"
abbreviation "EHOSTDOWN \<equiv> SysErrNo 112"
abbreviation "EHOSTUNREACH \<equiv> SysErrNo 113"
abbreviation "EALREADY \<equiv> SysErrNo 114"
abbreviation "EINPROGRESS \<equiv> SysErrNo 115"
abbreviation "ESTALE \<equiv> SysErrNo 116"
abbreviation "EUCLEAN \<equiv> SysErrNo 117"
abbreviation "ENOTNAM \<equiv> SysErrNo 118"
abbreviation "ENAVAIL \<equiv> SysErrNo 119"
abbreviation "EISNAM \<equiv> SysErrNo 120"
abbreviation "EREMOTEIO \<equiv> SysErrNo 121"
abbreviation "EDQUOT \<equiv> SysErrNo 122"
abbreviation "ENOMEDIUM \<equiv> SysErrNo 123"
abbreviation "EMEDIUMTYPE \<equiv> SysErrNo 124"
abbreviation "ECANCELED \<equiv> SysErrNo 125"
abbreviation "ENOKEY \<equiv> SysErrNo 126"
abbreviation "EKEYEXPIRED \<equiv> SysErrNo 127"
abbreviation "EKEYREVOKED \<equiv> SysErrNo 128"
abbreviation "EKEYREJECTED \<equiv> SysErrNo 129"
abbreviation "EOWNERDEAD \<equiv> SysErrNo 130"
abbreviation "ENOTRECOVERABLE \<equiv> SysErrNo 131"
abbreviation "ERFKILL \<equiv> SysErrNo 132"
abbreviation "EHWPOISON \<equiv> SysErrNo 133"
abbreviation "EDefault \<equiv> SysErrNo 255"

text \<open>\<^verbatim>\<open>SysResult<T>\<close> and \<^verbatim>\<open>SyscallRet\<close>: the error is the left summand.\<close>

type_synonym 'a sys_result = "SysErrNo + 'a"
type_synonym syscall_ret = "nat sys_result"

section \<open>Collections of rules\<close>

named_theorems rust_arith \<open>characterisations of the Rust integer operations\<close>
named_theorems inv_intros \<open>preservation of component invariants\<close>

section \<open>Rust integers\<close>

definition usize_max :: nat where
  "usize_max = 2 ^ 64 - 1"

definition i64_max :: int where
  "i64_max = 2 ^ 63 - 1"

definition i64_min :: int where
  "i64_min = - (2 ^ 63)"

definition i32_max :: int where
  "i32_max = 2 ^ 31 - 1"

text \<open>A value of type \<^verbatim>\<open>i64\<close> is an integer in this range.\<close>

definition is_i64 :: "int \<Rightarrow> bool" where
  "is_i64 x \<longleftrightarrow> i64_min \<le> x \<and> x \<le> i64_max"

definition checked_add_usize :: "nat \<Rightarrow> nat \<Rightarrow> nat option" where
  "checked_add_usize a b = (if a + b \<le> usize_max then Some (a + b) else None)"

definition checked_mul_usize :: "nat \<Rightarrow> nat \<Rightarrow> nat option" where
  "checked_mul_usize a b = (if a * b \<le> usize_max then Some (a * b) else None)"

definition checked_add_i32 :: "int \<Rightarrow> int \<Rightarrow> int option" where
  "checked_add_i32 a b = (if - (2 ^ 31) \<le> a + b \<and> a + b \<le> i32_max then Some (a + b) else None)"

definition clamp_i64 :: "int \<Rightarrow> int" where
  "clamp_i64 x = (if x < i64_min then i64_min else if i64_max < x then i64_max else x)"

definition saturating_add_i64 :: "int \<Rightarrow> int \<Rightarrow> int" where
  "saturating_add_i64 a b = clamp_i64 (a + b)"

definition saturating_sub_i64 :: "int \<Rightarrow> int \<Rightarrow> int" where
  "saturating_sub_i64 a b = clamp_i64 (a - b)"

definition saturating_neg_i64 :: "int \<Rightarrow> int" where
  "saturating_neg_i64 a = clamp_i64 (- a)"

text \<open>Sums and products of \<^verbatim>\<open>usize\<close> values wrap in a release build, and so does subtraction.\<close>

definition wrap64 :: "nat \<Rightarrow> nat" where "wrap64 n = n mod 2 ^ 64"

text \<open>Subtraction of \<^verbatim>\<open>usize\<close> values.\<close>

definition sub64 :: "nat \<Rightarrow> nat \<Rightarrow> nat" where "sub64 a b = wrap64 (a + (2 ^ 64 - wrap64 b))"

lemma sub64_le: "b \<le> a \<Longrightarrow> a < 2 ^ 64 \<Longrightarrow> sub64 a b = a - b"
  by (simp add: sub64_def wrap64_def mod_if)

lemma wrap64_id [simp]: "n < 2 ^ 64 \<Longrightarrow> wrap64 n = n"
  by (simp add: wrap64_def)

lemma clamp_i64_range [simp]: "is_i64 (clamp_i64 x)"
  by (simp add: clamp_i64_def is_i64_def i64_min_def i64_max_def)

lemma clamp_i64_id [rust_arith]: "is_i64 x \<Longrightarrow> clamp_i64 x = x"
  by (simp add: clamp_i64_def is_i64_def)

lemma checked_add_usize_Some [rust_arith]:
  "checked_add_usize a b = Some c \<longleftrightarrow> c = a + b \<and> a + b \<le> usize_max"
  by (auto simp: checked_add_usize_def)

lemma checked_add_i32_Some [rust_arith]:
  "checked_add_i32 a b = Some c \<longleftrightarrow> c = a + b \<and> - (2 ^ 31) \<le> a + b \<and> a + b \<le> i32_max"
  by (auto simp: checked_add_i32_def)

text \<open>Both platforms have pages of 4 KiB.\<close>

definition PAGE_SIZE :: nat where "PAGE_SIZE = 4096"

section \<open>Sequences\<close>

text \<open>\<^verbatim>\<open>Iterator::position\<close>: the index of the first element satisfying the predicate.\<close>

fun position :: "('a \<Rightarrow> bool) \<Rightarrow> 'a list \<Rightarrow> nat option" where
  "position P [] = None"
| "position P (x # xs) = (if P x then Some 0 else map_option Suc (position P xs))"

text \<open>\<^verbatim>\<open>VecDeque::remove\<close> and \<^verbatim>\<open>Vec::remove\<close>: delete one index, keep the order.\<close>

definition remove_nth :: "nat \<Rightarrow> 'a list \<Rightarrow> 'a list" where
  "remove_nth i xs = take i xs @ drop (Suc i) xs"

text \<open>
  \<^verbatim>\<open>Iterator::min_by_key\<close> returns the first of several minimal elements.
\<close>

fun min_by_key :: "('a \<Rightarrow> 'k::linorder) \<Rightarrow> 'a list \<Rightarrow> 'a option" where
  "min_by_key f [] = None"
| "min_by_key f (x # xs) =
     (case min_by_key f xs of
        None \<Rightarrow> Some x
      | Some y \<Rightarrow> if f x \<le> f y then Some x else Some y)"

lemma position_None [simp]: "position P xs = None \<longleftrightarrow> (\<forall>x \<in> set xs. \<not> P x)"
  by (induction xs) auto

lemma position_SomeD:
  "position P xs = Some i \<Longrightarrow> i < length xs \<and> P (xs ! i) \<and> (\<forall>j < i. \<not> P (xs ! j))"
proof (induction xs arbitrary: i)
  case Nil
  then show ?case by simp
next
  case (Cons x xs)
  show ?case
  proof (cases "P x")
    case True
    with Cons.prems show ?thesis by auto
  next
    case False
    with Cons.prems obtain k where k: "position P xs = Some k" and i: "i = Suc k"
      by auto
    from Cons.IH [OF k] False i show ?thesis
      by (auto simp: less_Suc_eq_0_disj)
  qed
qed

lemma position_SomeI:
  "i < length xs \<Longrightarrow> P (xs ! i) \<Longrightarrow> (\<And>j. j < i \<Longrightarrow> \<not> P (xs ! j)) \<Longrightarrow> position P xs = Some i"
proof (induction xs arbitrary: i)
  case Nil
  then show ?case by simp
next
  case (Cons x xs)
  show ?case
  proof (cases i)
    case 0
    with Cons.prems show ?thesis by simp
  next
    case (Suc k)
    have "position P xs = Some k"
    proof (rule Cons.IH)
      show "k < length xs" and "P (xs ! k)"
        using Cons.prems Suc by auto
      show "\<not> P (xs ! j)" if "j < k" for j
        using Cons.prems(3) [of "Suc j"] that Suc by auto
    qed
    moreover have "\<not> P x"
      using Cons.prems(3) [of 0] Suc by auto
    ultimately show ?thesis using Suc by simp
  qed
qed

lemma length_remove_nth [simp]:
  "length (remove_nth i xs) = (if i < length xs then length xs - 1 else length xs)"
  by (auto simp: remove_nth_def)

lemma set_remove_nth: "set (remove_nth i xs) \<subseteq> set xs"
  by (auto simp: remove_nth_def dest: in_set_takeD in_set_dropD)

lemma distinct_remove_nth: "distinct xs \<Longrightarrow> distinct (remove_nth i xs)"
  by (auto simp: remove_nth_def set_take_disj_set_drop_if_distinct)

lemma map_remove_nth: "map f (remove_nth i xs) = remove_nth i (map f xs)"
  by (simp add: remove_nth_def take_map drop_map)

lemma sum_list_remove_nth:
  "i < length xs \<Longrightarrow> sum_list (remove_nth i xs) + xs ! i = sum_list (xs :: nat list)"
proof -
  assume i: "i < length xs"
  have "sum_list xs = sum_list (take i xs @ xs ! i # drop (Suc i) xs)"
    using id_take_nth_drop [OF i] by simp
  then show ?thesis by (simp add: remove_nth_def)
qed

lemma min_by_key_None [simp]: "min_by_key f xs = None \<longleftrightarrow> xs = []"
  by (cases xs) (auto split: option.splits)

lemma min_by_key_SomeD:
  "min_by_key f xs = Some x \<Longrightarrow> x \<in> set xs \<and> (\<forall>y \<in> set xs. f x \<le> f y)"
proof (induction xs arbitrary: x)
  case Nil
  then show ?case by simp
next
  case (Cons a xs)
  show ?case
  proof (cases "min_by_key f xs")
    case None
    with Cons.prems show ?thesis by simp
  next
    case (Some y)
    from Cons.IH [OF Some] Cons.prems Some show ?thesis
      by (fastforce split: if_splits)
  qed
qed

lemma filter_enumerate_Nil:
  "filter (\<lambda>(index, m). P m) (enumerate n ms) = [] \<longleftrightarrow> (\<forall>m \<in> set ms. \<not> P m)"
  by (induction ms arbitrary: n) auto

lemma sum_list_le_length: "(\<And>x. x \<in> set xs \<Longrightarrow> 0 < x) \<Longrightarrow> length xs \<le> sum_list (xs :: nat list)"
proof (induction xs)
  case (Cons x xs)
  then have "0 < x" and "length xs \<le> sum_list xs" by auto
  then show ?case by simp
qed simp

end
