(* ===== verification/BTree_Map.thy ===== *)
theory BTree_Map
  imports Prelude
begin

text \<open>
  The kernel keeps most of its tables in \<^verbatim>\<open>alloc::collections::BTreeMap\<close>.
  The model represents such a table by the association list of its entries in ascending key
  order, which is also the order in which the code iterates over it.  The locale
  \<open>ordered_table\<close> states what the clients of a table rely on; it is interpreted on the
  list representation at the end of the theory.
\<close>

type_synonym ('k, 'v) btree_map = "('k \<times> 'v) list"

abbreviation bt_get :: "('k, 'v) btree_map \<Rightarrow> 'k \<Rightarrow> 'v option" where
  "bt_get \<equiv> map_of"

fun bt_insert :: "'k::linorder \<Rightarrow> 'v \<Rightarrow> ('k, 'v) btree_map \<Rightarrow> ('k, 'v) btree_map" where
  "bt_insert k v [] = [(k, v)]"
| "bt_insert k v ((k', v') # m) =
     (if k < k' then (k, v) # (k', v') # m
      else if k = k' then (k, v) # m
      else (k', v') # bt_insert k v m)"

definition bt_remove :: "'k \<Rightarrow> ('k, 'v) btree_map \<Rightarrow> ('k, 'v) btree_map" where
  "bt_remove k m = filter (\<lambda>e. fst e \<noteq> k) m"

text \<open>\<^verbatim>\<open>get_mut\<close> followed by an update of the value in place.\<close>

definition bt_alter :: "'k \<Rightarrow> ('v \<Rightarrow> 'v) \<Rightarrow> ('k, 'v) btree_map \<Rightarrow> ('k, 'v) btree_map" where
  "bt_alter k f m = map (\<lambda>(k', v). if k' = k then (k', f v) else (k', v)) m"

text \<open>\<^verbatim>\<open>entry(k).or_insert(v)\<close>: the table afterwards.\<close>

definition bt_or_insert :: "'k::linorder \<Rightarrow> 'v \<Rightarrow> ('k, 'v) btree_map \<Rightarrow> ('k, 'v) btree_map" where
  "bt_or_insert k v m = (case bt_get m k of None \<Rightarrow> bt_insert k v m | Some _ \<Rightarrow> m)"

definition bt_keys :: "('k, 'v) btree_map \<Rightarrow> 'k list" where
  "bt_keys m = map fst m"

definition bt_values :: "('k, 'v) btree_map \<Rightarrow> 'v list" where
  "bt_values m = map snd m"

definition bt_ok :: "('k::linorder, 'v) btree_map \<Rightarrow> bool" where
  "bt_ok m \<longleftrightarrow> sorted_wrt (<) (map fst m)"

section \<open>Lookup laws\<close>

lemma bt_keys_dom: "set (bt_keys m) = dom (bt_get m)"
  by (simp add: bt_keys_def dom_map_of_conv_image_fst)

lemma bt_ok_distinct: "bt_ok m \<Longrightarrow> distinct (map fst m)"
  by (simp add: bt_ok_def strict_sorted_iff)

lemma bt_get_insert [simp]: "bt_get (bt_insert k v m) = (bt_get m)(k \<mapsto> v)"
  by (induction k v m rule: bt_insert.induct) (auto simp: fun_eq_iff)

lemma bt_get_remove [simp]: "bt_get (bt_remove k m) = (bt_get m)(k := None)"
  by (induction m) (auto simp: bt_remove_def fun_eq_iff)

lemma bt_get_alter [simp]:
  "bt_get (bt_alter k f m) = (bt_get m)(k := map_option f (bt_get m k))"
  by (induction m) (auto simp: bt_alter_def fun_eq_iff)

lemma bt_get_or_insert [simp]:
  "bt_get (bt_or_insert k v m) = (bt_get m)(k := Some (case bt_get m k of None \<Rightarrow> v | Some w \<Rightarrow> w))"
  by (auto simp: bt_or_insert_def fun_eq_iff split: option.splits)

lemma bt_get_mapval: "bt_get (map (\<lambda>(k, v). (k, f k v)) m) k = map_option (f k) (bt_get m k)"
  by (induction m) auto

lemma bt_get_filter_val:
  "bt_ok m \<Longrightarrow> bt_get (filter (\<lambda>e. P (snd e)) m) k =
     (case bt_get m k of None \<Rightarrow> None | Some v \<Rightarrow> if P v then Some v else None)"
proof (induction m)
  case Nil
  then show ?case by simp
next
  case (Cons e m)
  obtain k' v' where e: "e = (k', v')" by (cases e)
  from Cons.prems have ok: "bt_ok m" and nin: "k' \<notin> fst ` set m"
    by (auto simp: bt_ok_def e)
  from nin have "bt_get m k' = None" by (simp add: map_of_eq_None_iff)
  with Cons.IH [OF ok] show ?case
    by (auto simp: e split: option.splits)
qed

section \<open>Order and size\<close>

lemma bt_ok_Nil [simp]: "bt_ok []"
  by (simp add: bt_ok_def)

lemma bt_insert_keys: "fst ` set (bt_insert k v m) = insert k (fst ` set m)"
  by (induction k v m rule: bt_insert.induct) auto

lemma bt_ok_insert [simp]: "bt_ok m \<Longrightarrow> bt_ok (bt_insert k v m)"
proof (induction k v m rule: bt_insert.induct)
  case (1 k v)
  then show ?case by (simp add: bt_ok_def)
next
  case (2 k v k' v' m)
  then show ?case
    by (cases "k < k'"; cases "k = k'") (fastforce simp: bt_ok_def bt_insert_keys)+
qed

lemma sorted_wrt_map_filter: "sorted_wrt R (map f xs) \<Longrightarrow> sorted_wrt R (map f (filter P xs))"
  by (induction xs) auto

lemma bt_ok_filter [simp]: "bt_ok m \<Longrightarrow> bt_ok (filter P m)"
  by (simp add: bt_ok_def sorted_wrt_map_filter)

lemma bt_ok_remove [simp]: "bt_ok m \<Longrightarrow> bt_ok (bt_remove k m)"
  by (simp add: bt_remove_def)

lemma map_fst_alter [simp]: "map fst (bt_alter k f m) = map fst m"
  by (induction m) (auto simp: bt_alter_def)

lemma bt_ok_alter [simp]: "bt_ok (bt_alter k f m) = bt_ok m"
  by (simp add: bt_ok_def)

lemma bt_ok_or_insert [simp]: "bt_ok m \<Longrightarrow> bt_ok (bt_or_insert k v m)"
  by (simp add: bt_or_insert_def split: option.splits)

lemma bt_length_card: "bt_ok m \<Longrightarrow> length m = card (dom (bt_get m))"
  using distinct_card [of "map fst m"] bt_ok_distinct [of m]
  by (simp add: dom_map_of_conv_image_fst)

lemma bt_get_in_set: "bt_ok m \<Longrightarrow> bt_get m k = Some v \<longleftrightarrow> (k, v) \<in> set m"
  by (simp add: bt_ok_distinct)

section \<open>The interface of a table\<close>

locale ordered_table =
  fixes empty :: 'm
    and get :: "'m \<Rightarrow> 'k::linorder \<Rightarrow> 'v option"
    and insert_entry :: "'k \<Rightarrow> 'v \<Rightarrow> 'm \<Rightarrow> 'm"
    and remove_entry :: "'k \<Rightarrow> 'm \<Rightarrow> 'm"
    and size_of :: "'m \<Rightarrow> nat"
    and ok :: "'m \<Rightarrow> bool"
  assumes get_empty: "get empty k = None"
    and get_insert: "ok m \<Longrightarrow> get (insert_entry k v m) = (get m)(k \<mapsto> v)"
    and get_remove: "ok m \<Longrightarrow> get (remove_entry k m) = (get m)(k := None)"
    and size_card: "ok m \<Longrightarrow> size_of m = card (dom (get m))"
    and finite_dom: "ok m \<Longrightarrow> finite (dom (get m))"
    and ok_empty: "ok empty"
    and ok_insert: "ok m \<Longrightarrow> ok (insert_entry k v m)"
    and ok_remove: "ok m \<Longrightarrow> ok (remove_entry k m)"
begin

lemma size_insert_new: "ok m \<Longrightarrow> get m k = None \<Longrightarrow> size_of (insert_entry k v m) = Suc (size_of m)"
  by (simp add: size_card ok_insert get_insert finite_dom domIff)

lemma size_insert_old: "ok m \<Longrightarrow> get m k \<noteq> None \<Longrightarrow> size_of (insert_entry k v m) = size_of m"
  by (auto simp: size_card ok_insert get_insert finite_dom insert_absorb domIff)

lemma size_remove_present: "ok m \<Longrightarrow> get m k \<noteq> None \<Longrightarrow> Suc (size_of (remove_entry k m)) = size_of m"
proof -
  assume ok: "ok m" and k: "get m k \<noteq> None"
  have "card (dom (get m)) \<noteq> 0"
    using finite_dom [OF ok] k by auto
  then show ?thesis
    using ok k by (simp add: size_card ok_remove get_remove domIff)
qed

lemma remove_insert_get: "ok m \<Longrightarrow> get (remove_entry k (insert_entry k v m)) = (get m)(k := None)"
  by (simp add: get_remove get_insert ok_insert)

end

interpretation btree: ordered_table "[]" bt_get bt_insert bt_remove length bt_ok
  by unfold_locales (auto simp: finite_dom_map_of bt_length_card)

end
