(* ===== verification/Poll_Set.thy ===== *)
theory Poll_Set
  imports Prelude
begin

text \<open>
  \<^verbatim>\<open>os/src/utils/poll.rs\<close>: the bounded set of wakers behind every blocking kernel
  object.  A waker is identified by the task it wakes, so \<^verbatim>\<open>will_wake\<close> is equality.
  Each operation returns the new set and the tasks it woke, in wake order.  The locale
  \<open>wait_set\<close> states what blocking code relies on (no registered task is forgotten); it
  is interpreted on \<^verbatim>\<open>PollSet\<close> and its lemmas are used by the message queues and
  the pipes.  \<^verbatim>\<open>futures_util::task::AtomicWaker\<close>, the one-slot waker used by the
  file locks, is modelled beside it.
\<close>

type_synonym waker = nat

definition POLL_SET_CAPACITY :: nat where
  "POLL_SET_CAPACITY = 64"

record poll_inner =
  entries :: "waker list"

definition Inner_new :: poll_inner where
  "Inner_new = \<lparr>entries = []\<rparr>"

definition Inner_register :: "waker \<Rightarrow> poll_inner \<Rightarrow> poll_inner \<times> waker option" where
  "Inner_register w s =
     (if list_ex (\<lambda>e. e = w) (entries s) then (s, None)
      else
        (let (es, displaced) =
           (if length (entries s) = POLL_SET_CAPACITY
            then (remove_nth 0 (entries s), Some (entries s ! 0))
            else (entries s, None))
         in (s\<lparr>entries := es @ [w]\<rparr>, displaced)))"

text \<open>The index loop of \<^verbatim>\<open>unregister\<close>.\<close>

function unregister_loop :: "waker \<Rightarrow> nat \<Rightarrow> waker list \<Rightarrow> waker list" where
  "unregister_loop w index es =
     (if index < length es then
        if es ! index = w then unregister_loop w index (remove_nth index es)
        else unregister_loop w (index + 1) es
      else es)"
  by pat_completeness auto
termination
  by (relation "measure (\<lambda>(w, index, es). length es - index)") auto

declare unregister_loop.simps [simp del]

definition Inner_unregister :: "waker \<Rightarrow> poll_inner \<Rightarrow> poll_inner" where
  "Inner_unregister w s = s\<lparr>entries := unregister_loop w 0 (entries s)\<rparr>"

definition Inner_take_one :: "poll_inner \<Rightarrow> poll_inner \<times> waker option" where
  "Inner_take_one s =
     (if entries s \<noteq> [] then (s\<lparr>entries := remove_nth 0 (entries s)\<rparr>, Some (entries s ! 0))
      else (s, None))"

definition PollSet_register :: "waker \<Rightarrow> poll_inner \<Rightarrow> poll_inner \<times> waker list" where
  "PollSet_register w s =
     (let (s', displaced) = Inner_register w s
      in case displaced of Some d \<Rightarrow> (s', [d]) | None \<Rightarrow> (s', []))"

definition PollSet_unregister :: "waker \<Rightarrow> poll_inner \<Rightarrow> poll_inner" where
  "PollSet_unregister w s = Inner_unregister w s"

text \<open>\<^verbatim>\<open>wake_one\<close> and \<^verbatim>\<open>wake\<close> return how many tasks they woke.\<close>

definition PollSet_wake_one :: "poll_inner \<Rightarrow> poll_inner \<times> waker list \<times> nat" where
  "PollSet_wake_one s =
     (let (s', w) = Inner_take_one s
      in case w of Some t \<Rightarrow> (s', [t], 1) | None \<Rightarrow> (s', [], 0))"

definition PollSet_wake :: "poll_inner \<Rightarrow> poll_inner \<times> waker list \<times> nat" where
  "PollSet_wake s = (let wakers = entries s in (s\<lparr>entries := []\<rparr>, wakers, length wakers))"

section \<open>Well-formedness\<close>

text \<open>A task is registered at most once and the set never exceeds its capacity.\<close>

definition poll_ok :: "poll_inner \<Rightarrow> bool" where
  "poll_ok s \<longleftrightarrow> distinct (entries s) \<and> length (entries s) \<le> POLL_SET_CAPACITY"

lemma unregister_loop_filter:
  "unregister_loop w i es = take i es @ filter (\<lambda>e. e \<noteq> w) (drop i es)"
proof (induction w i es rule: unregister_loop.induct)
  case (1 w i es)
  show ?case
  proof (cases "i < length es")
    case False
    then show ?thesis by (subst unregister_loop.simps) simp
  next
    case True
    then have d: "drop i es = es ! i # drop (Suc i) es" by (rule Cons_nth_drop_Suc [symmetric])
    show ?thesis
    proof (cases "es ! i = w")
      case eq: True
      have "unregister_loop w i es = unregister_loop w i (remove_nth i es)"
        using True eq by (subst unregister_loop.simps) simp
      also have "\<dots> = take i es @ filter (\<lambda>e. e \<noteq> w) (drop (Suc i) es)"
        using "1.IH"(1) [OF True eq] True by (simp add: remove_nth_def)
      finally show ?thesis using eq d by simp
    next
      case neq: False
      have "unregister_loop w i es = unregister_loop w (i + 1) es"
        using True neq by (subst unregister_loop.simps) simp
      also have "\<dots> = take (Suc i) es @ filter (\<lambda>e. e \<noteq> w) (drop (Suc i) es)"
        using "1.IH"(2) [OF True neq] by simp
      finally show ?thesis using neq d True by (simp add: take_Suc_conv_app_nth)
    qed
  qed
qed

lemma entries_unregister [simp]:
  "entries (Inner_unregister w s) = filter (\<lambda>e. e \<noteq> w) (entries s)"
  by (simp add: Inner_unregister_def unregister_loop_filter)

lemma remove_nth_0 [simp]: "remove_nth 0 xs = tl xs"
  by (simp add: remove_nth_def drop_Suc)

lemma poll_ok_register [inv_intros]: "poll_ok s \<Longrightarrow> poll_ok (fst (PollSet_register w s))"
  by (cases "entries s")
     (auto simp: poll_ok_def PollSet_register_def Inner_register_def POLL_SET_CAPACITY_def
       list_ex_iff)

lemma poll_ok_unregister [inv_intros]: "poll_ok s \<Longrightarrow> poll_ok (PollSet_unregister w s)"
  by (auto simp: poll_ok_def PollSet_unregister_def intro: le_trans [OF length_filter_le])

lemma poll_ok_wake_one [inv_intros]: "poll_ok s \<Longrightarrow> poll_ok (fst (PollSet_wake_one s))"
  by (auto simp: poll_ok_def PollSet_wake_one_def Inner_take_one_def distinct_tl)

lemma poll_ok_wake [inv_intros]: "poll_ok s \<Longrightarrow> poll_ok (fst (PollSet_wake s))"
  by (simp add: poll_ok_def PollSet_wake_def Let_def)

section \<open>The interface blocking code relies on\<close>

text \<open>A burst of registrations, collecting the tasks woken on the way.\<close>

fun register_all :: "(waker \<Rightarrow> 's \<Rightarrow> 's \<times> waker list) \<Rightarrow> waker list \<Rightarrow> 's \<Rightarrow> 's \<times> waker list" where
  "register_all reg [] s = (s, [])"
| "register_all reg (w # ws) s =
     (let (s1, woken1) = reg w s; (s2, woken2) = register_all reg ws s1 in (s2, woken1 @ woken2))"

locale wait_set =
  fixes ok :: "'s \<Rightarrow> bool"
    and members :: "'s \<Rightarrow> waker set"
    and register :: "waker \<Rightarrow> 's \<Rightarrow> 's \<times> waker list"
    and wake_all :: "'s \<Rightarrow> 's \<times> waker list \<times> nat"
  assumes register_ok: "ok s \<Longrightarrow> ok (fst (register w s))"
    and register_member: "ok s \<Longrightarrow> w \<in> members (fst (register w s))"
    and register_keeps: "ok s \<Longrightarrow> members s \<subseteq> members (fst (register w s)) \<union> set (snd (register w s))"
    and register_frame: "ok s \<Longrightarrow> members (fst (register w s)) \<subseteq> insert w (members s)"
    and wake_all_ok: "ok s \<Longrightarrow> ok (fst (wake_all s))"
    and wake_all_empties: "ok s \<Longrightarrow> members (fst (wake_all s)) = {}"
    and wake_all_wakes: "ok s \<Longrightarrow> set (fst (snd (wake_all s))) = members s"
begin

lemma register_all_ok: "ok s \<Longrightarrow> ok (fst (register_all register ws s))"
proof (induction ws arbitrary: s)
  case (Cons w ws)
  then show ?case
    using register_ok [OF Cons.prems, of w] Cons.IH [of "fst (register w s)"]
    by (simp add: Let_def split_beta)
qed simp

lemma register_all_no_loss:
  "ok s \<Longrightarrow> members s \<union> set ws \<subseteq>
     members (fst (register_all register ws s)) \<union> set (snd (register_all register ws s))"
proof (induction ws arbitrary: s)
  case Nil
  then show ?case by simp
next
  case (Cons w ws)
  obtain s1 woken1 where r: "register w s = (s1, woken1)" by (cases "register w s")
  have "ok s1" using register_ok [OF Cons.prems, of w] r by simp
  from Cons.IH [OF this] register_keeps [OF Cons.prems, of w] register_member [OF Cons.prems, of w] r
  show ?case by (auto simp: Let_def split: prod.splits)
qed

text \<open>Everything registered is woken by the burst itself or by the next wake-up.\<close>

lemma registered_then_woken:
  assumes "ok s"
  shows "members s \<union> set ws \<subseteq>
    set (snd (register_all register ws s)) \<union>
    set (fst (snd (wake_all (fst (register_all register ws s)))))"
  using register_all_no_loss [OF assms, of ws] wake_all_wakes [OF register_all_ok [OF assms]]
  by auto

end

lemma PollSet_register_cases:
  "PollSet_register w s =
     (if w \<in> set (entries s) then (s, [])
      else if length (entries s) = POLL_SET_CAPACITY
      then (s\<lparr>entries := tl (entries s) @ [w]\<rparr>, [hd (entries s)])
      else (s\<lparr>entries := entries s @ [w]\<rparr>, []))"
proof (cases "w \<in> set (entries s)")
  case True
  then show ?thesis by (simp add: PollSet_register_def Inner_register_def list_ex_iff)
next
  case False
  then show ?thesis
    by (cases "entries s")
       (auto simp: PollSet_register_def Inner_register_def list_ex_iff POLL_SET_CAPACITY_def)
qed

interpretation poll: wait_set poll_ok "\<lambda>s. set (entries s)" PollSet_register PollSet_wake
proof unfold_locales
  show "set (entries s) \<subseteq> set (entries (fst (PollSet_register w s))) \<union> set (snd (PollSet_register w s))"
    for s w
    by (cases "entries s") (auto simp: PollSet_register_cases)
  show "set (entries (fst (PollSet_register w s))) \<subseteq> insert w (set (entries s))" for s w
    by (cases "entries s") (auto simp: PollSet_register_cases)
  show "poll_ok (fst (PollSet_register w s))" if "poll_ok s" for s w
    using that by (rule poll_ok_register)
  show "poll_ok (fst (PollSet_wake s))" if "poll_ok s" for s
    using that by (rule poll_ok_wake)
qed (auto simp: PollSet_register_cases PollSet_wake_def Let_def)

section \<open>The one-slot waker\<close>

text \<open>
  \<^verbatim>\<open>AtomicWaker\<close> keeps only the waker registered last; \<^verbatim>\<open>wake\<close> takes it.
\<close>

type_synonym atomic_waker = "waker option"

definition AtomicWaker_register :: "waker \<Rightarrow> atomic_waker \<Rightarrow> atomic_waker" where
  "AtomicWaker_register w s = Some w"

definition AtomicWaker_wake :: "atomic_waker \<Rightarrow> atomic_waker \<times> waker list" where
  "AtomicWaker_wake s = (None, case s of Some w \<Rightarrow> [w] | None \<Rightarrow> [])"

section \<open>Properties\<close>

text \<open>
  No waiter is lost: whatever tasks register with a well-formed poll set (more than its
  64 slots included), each of them, and each task registered before, has been woken at the
  latest when the set is woken.
\<close>

lemma poll_set_wakes_every_registered_task:
  assumes "poll_ok s"
  shows "set (entries s) \<union> set ws \<subseteq>
    set (snd (register_all PollSet_register ws s)) \<union>
    set (fst (snd (PollSet_wake (fst (register_all PollSet_register ws s)))))"
  using assms by (rule poll.registered_then_woken)

lemma poll_set_wakes_every_registered_task_witness:
  "{3, 5} \<subseteq> set (fst (snd (PollSet_wake (fst (register_all PollSet_register [3, 5, 3] Inner_new)))))"
proof -
  have ok: "poll_ok Inner_new" by (simp add: poll_ok_def Inner_new_def)
  show ?thesis
    using poll_set_wakes_every_registered_task [OF ok, of "[3, 5, 3]"]
    by (simp add: PollSet_register_cases POLL_SET_CAPACITY_def Inner_new_def)
qed

end
