(* ===== verification/Blocking.thy ===== *)
theory Blocking
  imports Poll_Set
begin

text \<open>
  \<^verbatim>\<open>os/src/task/future/mod.rs\<close>: how a task blocks in the kernel.
  \<^verbatim>\<open>block_on\<close> polls a future until it is ready; between polls the task sleeps
  unless its waker was called meanwhile.  The first section is the executor as the other
  components use it.  The second is the protocol between the sleeping side and the waking
  side, as a step relation over the wake flag, the task status and the ready queue.
\<close>

section \<open>The executor\<close>

datatype 'a poll = Ready 'a | Pending

text \<open>
  \<^verbatim>\<open>block_on(interruptible(..))\<close>: before each poll the task checks for a pending
  interrupt.  The events say what happens before each poll: other tasks change the global
  state (the function) and the clock reads \<open>now\<close>, or an interrupt is pending.  The
  result is \<^const>\<open>None\<close> while the task is still blocked after all events.
\<close>

datatype 's wait_event = Resume "'s \<Rightarrow> 's" nat | Interrupt

fun block_on_interruptible ::
  "(nat \<Rightarrow> 's \<Rightarrow> 'a sys_result poll \<times> 's \<times> waker list) \<Rightarrow> 's \<Rightarrow> 's wait_event list \<Rightarrow>
   'a sys_result option \<times> 's \<times> waker list" where
  "block_on_interruptible f s [] = (None, s, [])"
| "block_on_interruptible f s (Interrupt # evs) = (Some (Inl EINTR), s, [])"
| "block_on_interruptible f s (Resume others now # evs) =
     (case f now (others s) of
        (Ready r, s1, woken) \<Rightarrow> (Some r, s1, woken)
      | (Pending, s1, woken) \<Rightarrow>
          (let (r, s2, woken2) = block_on_interruptible f s1 evs in (r, s2, woken @ woken2)))"

text \<open>What the other tasks may do while this one sleeps.\<close>

definition env_keeps :: "('s \<Rightarrow> bool) \<Rightarrow> 's wait_event list \<Rightarrow> bool" where
  "env_keeps I evs \<longleftrightarrow> (\<forall>g n. Resume g n \<in> set evs \<longrightarrow> (\<forall>s. I s \<longrightarrow> I (g s)))"

lemma env_keeps_simps [simp]:
  "env_keeps I []"
  "env_keeps I (Interrupt # evs) = env_keeps I evs"
  "env_keeps I (Resume g n # evs) \<longleftrightarrow> (\<forall>s. I s \<longrightarrow> I (g s)) \<and> env_keeps I evs"
  by (auto simp: env_keeps_def)

lemma block_on_keeps:
  "(\<And>now s. I s \<Longrightarrow> I (fst (snd (f now s)))) \<Longrightarrow> I s \<Longrightarrow> env_keeps I evs \<Longrightarrow> I (fst (snd (block_on_interruptible f s evs)))"
proof (induction f s evs rule: block_on_interruptible.induct)
  case (3 f s others now evs)
  then have "I (others s)" and evs: "env_keeps I evs" by auto
  then have s1: "I (fst (snd (f now (others s))))" using "3.prems"(1) by blast
  obtain p s2 woken where p: "f now (others s) = (p, s2, woken)"
    by (cases "f now (others s)") auto
  show ?case
  proof (cases p)
    case (Ready r)
    then show ?thesis using s1 p by simp
  next
    case Pending
    then show ?thesis
      using "3.IH" [OF p [symmetric] _ refl "3.prems"(1)] s1 evs p by (auto split: prod.split)
  qed
qed auto

text \<open>A future that is ready at some poll makes the call return.\<close>

lemma block_on_returns:
  assumes "\<And>s. \<exists>r s' woken. f now s = (Ready r, s', woken)"
  shows "\<exists>r. fst (block_on_interruptible f s (Resume others now # evs)) = Some r"
  using assms [of "others s"] by auto

section \<open>Sleeping, waking and switching\<close>

datatype TaskStatus = TReady | TRunning | TZombie | TBlocked | TStopped | TVforkBlocked

text \<open>
  Where the task is with respect to the harts: its code runs; its context is being switched
  out by the hart that ran it; a hart has fetched it from the ready queue; that hart has found that
  it may run there and will restore its context; nowhere.
\<close>

datatype place = Executing | SwitchedOut | Selected | Restoring | Nowhere

text \<open>
  The shared state of one blocking task.  \<open>woke\<close> is the flag of its waker, \<open>on_rq\<close>
  its mark of being queued, \<open>rq_entries\<close> the number of its entries in the heap of the ready queue,
  \<open>on_cpu\<close> the ownership flag.  \<open>leaving\<close> counts the
  harts that have cleared \<open>on_cpu\<close> in \<^verbatim>\<open>run_tasks\<close> and have not yet looked at
  the status, \<open>adds\<close> the calls of \<^verbatim>\<open>add_task\<close> that are decided but not yet
  performed.  \<open>polled\<close> is the position in the loop of \<^verbatim>\<open>block_on\<close> (a poll that
  will answer Pending has started) and \<open>missed\<close> records a wake since that poll started:
  the condition it tested may have changed.
\<close>

record blocking =
  woke :: bool
  task_status :: TaskStatus
  on_rq :: bool
  rq_entries :: nat
  on_cpu :: bool
  place :: place
  leaving :: nat
  adds :: nat
  polled :: bool
  missed :: bool

definition block_current_if_not_woken :: "blocking \<Rightarrow> blocking" where
  "block_current_if_not_woken b =
     (if woke b then b\<lparr>woke := False\<rparr>
      else b\<lparr>task_status := TBlocked, place := SwitchedOut\<rparr>)"

definition wake_by_ref :: "blocking \<Rightarrow> blocking" where
  "wake_by_ref b =
     (let b1 = b\<lparr>woke := True, missed := True\<rparr>;
          should_ready = (task_status b1 = TBlocked)
      in if should_ready then b1\<lparr>task_status := TReady, adds := adds b1 + 1\<rparr> else b1)"

text \<open>
  The effect of \<^verbatim>\<open>add_task\<close> on the task: an entry is pushed if the task is ready, off the CPU and
  not marked as queued already.
\<close>

definition enqueue :: "blocking \<Rightarrow> blocking" where
  "enqueue b =
     (if task_status b \<noteq> TReady \<or> on_cpu b then b
      else if on_rq b then b else b\<lparr>on_rq := True, rq_entries := rq_entries b + 1\<rparr>)"

definition leave_check :: "blocking \<Rightarrow> blocking" where
  "leave_check b =
     (if task_status b = TReady \<or> task_status b = TRunning
      then b\<lparr>leaving := leaving b - 1, adds := adds b + 1\<rparr> else b\<lparr>leaving := leaving b - 1\<rparr>)"

text \<open>
  The steps of the harts and wakers, each of which is one critical section: the loop starts a
  poll; the poll was pending; the timer preempts the task; a waker is called; a decided
  \<^verbatim>\<open>add_task\<close> is performed; the hart that switched the task out clears \<open>on_cpu\<close>,
  then looks at the status.  A hart that fetches from the ready queue takes an entry of the task and
  reserves it, or discards a stale entry; an entry whose task may not run on that hart is pushed back
  as it was.  The hart that holds the reservation checks the affinity once more: when it changed
  meanwhile, the task becomes ready again and is to be added (\<open>bounce\<close>); otherwise the task is running,
  and its context is restored after \<open>on_cpu\<close> is set.
\<close>

inductive block_step :: "blocking \<Rightarrow> blocking \<Rightarrow> bool" where
  poll_start: "place b = Executing \<Longrightarrow> \<not> polled b \<Longrightarrow>
     block_step b (b\<lparr>polled := True, missed := False\<rparr>)"
| poll_pending: "place b = Executing \<Longrightarrow> polled b \<Longrightarrow>
     block_step b ((block_current_if_not_woken b)\<lparr>polled := False\<rparr>)"
| preempt: "place b = Executing \<Longrightarrow>
     block_step b (b\<lparr>task_status := TReady, place := SwitchedOut\<rparr>)"
| wake: "block_step b (wake_by_ref b)"
| add: "0 < adds b \<Longrightarrow> block_step b ((enqueue b)\<lparr>adds := adds b - 1\<rparr>)"
| off_cpu: "place b = SwitchedOut \<Longrightarrow>
     block_step b (b\<lparr>on_cpu := False, place := Nowhere, leaving := leaving b + 1\<rparr>)"
| leave: "0 < leaving b \<Longrightarrow> block_step b (leave_check b)"
| select: "0 < rq_entries b \<Longrightarrow> task_status b = TReady \<Longrightarrow>
     block_step b (b\<lparr>on_rq := False, rq_entries := rq_entries b - 1, task_status := TRunning, place := Selected\<rparr>)"
| discard: "0 < rq_entries b \<Longrightarrow> task_status b \<noteq> TReady \<Longrightarrow>
     block_step b (b\<lparr>on_rq := False, rq_entries := rq_entries b - 1\<rparr>)"
| bounce: "place b = Selected \<Longrightarrow>
     block_step b (b\<lparr>task_status := TReady, place := Nowhere, adds := adds b + 1\<rparr>)"
| accept: "place b = Selected \<Longrightarrow> block_step b (b\<lparr>task_status := TRunning, place := Restoring\<rparr>)"
| restore: "place b = Restoring \<Longrightarrow> block_step b (b\<lparr>on_cpu := True, place := Executing\<rparr>)"

definition block_init :: blocking where
  "block_init = \<lparr>woke = False, task_status = TRunning, on_rq = False, rq_entries = 0, on_cpu = True,
     place = Executing, leaving = 0, adds = 0, polled = False, missed = False\<rparr>"

definition block_inv :: "blocking \<Rightarrow> bool" where
  "block_inv b \<longleftrightarrow>
     task_status b \<in> {TReady, TRunning, TBlocked} \<and>
     (on_cpu b \<longleftrightarrow> place b = Executing \<or> place b = SwitchedOut) \<and>
     (task_status b = TRunning \<longleftrightarrow> place b \<in> {Executing, Selected, Restoring}) \<and>
     rq_entries b = (if on_rq b then 1 else 0) \<and>
     (on_rq b \<longrightarrow> task_status b = TReady \<and> place b = Nowhere) \<and>
     (task_status b = TReady \<longrightarrow> on_rq b \<or> place b = SwitchedOut \<or> 0 < leaving b \<or> 0 < adds b) \<and>
     (polled b \<and> missed b \<longrightarrow> woke b) \<and>
     (task_status b = TBlocked \<longrightarrow> \<not> woke b \<and> \<not> missed b \<and> \<not> polled b)"

lemma block_inv_init: "block_inv block_init"
  by (simp add: block_inv_def block_init_def)

lemma block_inv_step: "block_step b b' \<Longrightarrow> block_inv b \<Longrightarrow> block_inv b'"
proof (induction rule: block_step.induct)
  case (poll_pending b)
  then show ?case by (cases "woke b") (simp_all add: block_inv_def block_current_if_not_woken_def)
next
  case (wake b)
  then show ?case by (cases "task_status b") (simp_all add: block_inv_def wake_by_ref_def)
next
  case (add b)
  then show ?case by (cases "task_status b"; cases "place b") (auto simp: block_inv_def enqueue_def)
next
  case (leave b)
  then show ?case by (cases "task_status b") (auto simp: block_inv_def leave_check_def)
qed (auto simp: block_inv_def)

lemma block_inv_reachable: "block_step\<^sup>*\<^sup>* block_init b \<Longrightarrow> block_inv b"
  by (induction rule: rtranclp_induct) (auto intro: block_inv_init block_inv_step)

text \<open>
  C8. Blocking and waking on several harts is safe.  In every state that the interleaving of a
  blocking task, its wakers and the scheduler loops can reach: a blocked task has received no
  wake since it last looked at its condition, and a wake makes it ready.  The heap of the ready queue
  never holds two entries of the task.  A ready task has exactly one once the hart that switches it
  out, the harts that still have to look at its status and the decided calls of \<^verbatim>\<open>add_task\<close> are done,
  and until then one of these is still due.  A task with an entry is ready and on no hart, so no
  other hart can fetch it while it executes.
\<close>

theorem block_on_loses_no_wakeup:
  assumes "block_step\<^sup>*\<^sup>* block_init b"
  shows "(task_status b = TBlocked \<longrightarrow> \<not> missed b \<and> task_status (wake_by_ref b) = TReady)
    \<and> rq_entries b \<le> 1
    \<and> (task_status b = TReady \<longrightarrow> rq_entries b = 1 \<or> place b = SwitchedOut \<or> 0 < leaving b \<or> 0 < adds b)
    \<and> (0 < rq_entries b \<longrightarrow> task_status b = TReady \<and> place b = Nowhere \<and> \<not> on_cpu b)"
  using block_inv_reachable [OF assms]
  by (auto simp: block_inv_def wake_by_ref_def Let_def split: if_splits)

text \<open>A run in which the task blocks and is woken before its hart has switched it out.\<close>

theorem block_on_loses_no_wakeup_witness:
  "\<exists>b. block_step\<^sup>*\<^sup>* block_init b \<and> task_status b = TReady \<and> place b = SwitchedOut \<and> rq_entries b = 0
     \<and> task_status b \<noteq> TBlocked"
proof -
  define b1 where "b1 = block_init\<lparr>polled := True, missed := False\<rparr>"
  define b2 where "b2 = (block_current_if_not_woken b1)\<lparr>polled := False\<rparr>"
  define b3 where "b3 = wake_by_ref b2"
  define b4 where "b4 = (enqueue b3)\<lparr>adds := adds b3 - 1\<rparr>"
  note defs = b4_def b3_def b2_def b1_def enqueue_def wake_by_ref_def block_current_if_not_woken_def block_init_def
  have "block_step block_init b1"
    unfolding b1_def by (rule block_step.poll_start) (simp_all add: block_init_def)
  moreover have "block_step b1 b2"
    unfolding b2_def by (rule block_step.poll_pending) (simp_all add: b1_def block_init_def)
  moreover have "block_step b2 b3" unfolding b3_def by (rule block_step.wake)
  moreover have "block_step b3 b4"
    unfolding b4_def by (rule block_step.add) (simp add: defs)
  ultimately have r: "block_step\<^sup>*\<^sup>* block_init b4" by simp
  have "task_status b4 = TReady" "place b4 = SwitchedOut" by (simp_all add: defs)
  moreover have "rq_entries b4 = 0" using block_on_loses_no_wakeup [OF r] \<open>place b4 = SwitchedOut\<close> by auto
  ultimately show ?thesis using r by (intro exI [of _ b4]) simp
qed

end
