(* ===== verification/Bytes.thy ===== *)
theory Bytes
  imports Prelude "HOL-Library.Word"
begin

text \<open>
  Native (little-endian, as on both supported architectures) byte encodings of Rust integers:
  \<^verbatim>\<open>to_ne_bytes\<close> and \<^verbatim>\<open>from_ne_bytes\<close> for the signed and unsigned
  types of every width, with their round trips.
\<close>

type_synonym byte = "8 word"

definition le_bytes :: "nat \<Rightarrow> int \<Rightarrow> byte list" where
  "le_bytes n x = map (\<lambda>i. word_of_int (x div 2 ^ (8 * i))) [0..<n]"

fun le_uint :: "byte list \<Rightarrow> int" where
  "le_uint [] = 0"
| "le_uint (b # bs) = uint b + 256 * le_uint bs"

definition le_sint :: "byte list \<Rightarrow> int" where
  "le_sint bs = (let u = le_uint bs; m = 2 ^ (8 * length bs) in if 2 * u < m then u else u - m)"

text \<open>A value of an n-byte signed integer type.\<close>

definition fits_signed :: "nat \<Rightarrow> int \<Rightarrow> bool" where
  "fits_signed n x \<longleftrightarrow> - (2 ^ (8 * n)) \<le> 2 * x \<and> 2 * x < 2 ^ (8 * n)"

lemma length_le_bytes [simp]: "length (le_bytes n x) = n"
  by (simp add: le_bytes_def)

lemma le_bytes_0 [simp]: "le_bytes 0 x = []"
  by (simp add: le_bytes_def)

lemma le_bytes_Suc: "le_bytes (Suc n) x = word_of_int x # le_bytes n (x div 256)"
proof -
  have "x div 2 ^ (8 * Suc i) = x div 256 div 2 ^ (8 * i)" for i
    by (simp add: power_add zdiv_zmult2_eq)
  then show ?thesis
    by (simp add: le_bytes_def upt_conv_Cons map_Suc_upt [symmetric] comp_def del: upt_Suc map_Suc_upt)
qed

lemma le_uint_bytes [simp]: "le_uint (le_bytes n x) = x mod 2 ^ (8 * n)"
proof (induction n arbitrary: x)
  case (Suc n)
  have "x mod (256 * 2 ^ (8 * n)) = 256 * (x div 256 mod 2 ^ (8 * n)) + x mod 256"
    by (rule zmod_zmult2_eq) simp
  with Suc show ?case
    by (simp add: le_bytes_Suc uint_word_of_int power_add)
qed simp

lemma le_sint_bytes: "fits_signed n x \<Longrightarrow> le_sint (le_bytes n x) = x"
proof -
  assume f: "fits_signed n x"
  let ?m = "2 ^ (8 * n) :: int"
  show ?thesis
  proof (cases "0 \<le> x")
    case True
    with f have "x mod ?m = x" by (simp add: fits_signed_def)
    with f True show ?thesis by (simp add: le_sint_def fits_signed_def)
  next
    case False
    have "x mod ?m = (x + ?m) mod ?m" by simp
    also have "\<dots> = x + ?m"
      using f False by (intro mod_pos_pos_trivial) (auto simp: fits_signed_def)
    finally show ?thesis using f False by (simp add: le_sint_def fits_signed_def)
  qed
qed

lemma le_uint_range: "0 \<le> le_uint bs \<and> le_uint bs < 2 ^ (8 * length bs)"
proof (induction bs)
  case (Cons b bs)
  have "uint b < 256" "0 \<le> uint b" using uint_lt2p [of b] by simp_all
  with Cons show ?case by (simp add: power_add)
qed simp

lemma fits_signed_le_sint: "fits_signed (length bs) (le_sint bs)"
  using le_uint_range [of bs] by (auto simp: fits_signed_def le_sint_def Let_def)

end
