(* ===== verification/Msg_Queue.thy ===== *)
theory Msg_Queue
  imports BTree_Map Blocking Bytes "HOL-Library.Word" "HOL-Library.Product_Lexorder"
begin

unbundle bit_operations_syntax

text \<open>
  \<^verbatim>\<open>os/src/syscall/ipc/msg.rs\<close>: System V message queues.
  \<^verbatim>\<open>MSG_MANAGER\<close> maps ids to \<^verbatim>\<open>Arc<MsgQueue>\<close> and keys to ids.  A blocked
  sender or receiver keeps its \<^verbatim>\<open>Arc\<close> after the queue left the table, so the model
  has a heap of queue objects: the address of an object is the id it was created with.
  \<^verbatim>\<open>i32\<close> flag words are \<^typ>\<open>32 word\<close>, ids, keys and message types are
  \<^typ>\<open>int\<close>, sizes are \<^typ>\<open>nat\<close>.  The clock, the credentials of the caller and the
  outcome of each user-memory access are arguments.
\<close>

section \<open>Constants and data\<close>

type_synonym flags = "32 word"

definition IPC_PRIVATE :: int where "IPC_PRIVATE = 0"
definition IPC_CREAT :: flags where "IPC_CREAT = 512"
definition IPC_EXCL :: flags where "IPC_EXCL = 1024"
definition IPC_NOWAIT :: flags where "IPC_NOWAIT = 2048"

definition IPC_RMID :: int where "IPC_RMID = 0"
definition IPC_SET :: int where "IPC_SET = 1"
definition IPC_STAT :: int where "IPC_STAT = 2"
definition IPC_INFO :: int where "IPC_INFO = 3"
definition MSG_STAT :: int where "MSG_STAT = 11"
definition MSG_INFO :: int where "MSG_INFO = 12"
definition MSG_STAT_ANY :: int where "MSG_STAT_ANY = 13"

definition MSG_NOERROR :: flags where "MSG_NOERROR = 4096"
definition MSG_EXCEPT :: flags where "MSG_EXCEPT = 8192"
definition MSG_COPY :: flags where "MSG_COPY = 16384"

definition MSGMNI :: nat where "MSGMNI = 32000"
definition MSGMAX :: nat where "MSGMAX = 8192"
definition MSGMNB :: nat where "MSGMNB = 16384"

lemmas msg_consts =
  IPC_PRIVATE_def IPC_CREAT_def IPC_EXCL_def IPC_NOWAIT_def IPC_RMID_def IPC_SET_def IPC_STAT_def
  IPC_INFO_def MSG_STAT_def MSG_INFO_def MSG_STAT_ANY_def MSG_NOERROR_def MSG_EXCEPT_def
  MSG_COPY_def MSGMNI_def MSGMAX_def MSGMNB_def

abbreviation has_flag :: "flags \<Rightarrow> flags \<Rightarrow> bool" where
  "has_flag fl b \<equiv> fl AND b \<noteq> 0"

record IpcPerm =
  p_key :: int
  p_uid :: nat
  p_gid :: nat
  p_cuid :: nat
  p_cgid :: nat
  p_mode :: flags
  p_seq :: int

record Message =
  m_kind :: int
  m_text :: "byte list"

record QueueState =
  perm :: IpcPerm
  messages :: "Message list"
  bytes :: nat
  qbytes :: nat
  stime :: nat
  rtime :: nat
  ctime :: nat
  lspid :: nat
  lrpid :: nat
  removed :: bool

record MsgQueue =
  state :: QueueState
  recv_wait :: poll_inner
  send_wait :: poll_inner

type_synonym arc = int

record MsgManager =
  next_id :: int
  queues :: "(int, arc) btree_map"
  keys :: "(int, int) btree_map"

definition MsgManager_new :: MsgManager where
  "MsgManager_new = \<lparr>next_id = 1, queues = [], keys = []\<rparr>"

text \<open>The global state of the module: the manager and the queue objects behind the Arcs.\<close>

record ipc =
  manager :: MsgManager
  heap :: "arc \<Rightarrow> MsgQueue"

text \<open>
  The user-visible structures.  \<^verbatim>\<open>mode\<close> is 16 bits wide on riscv64 and 32 bits on
  loongarch64; it only ever carries nine permission bits.
\<close>

record UserIpcPerm =
  up_key :: int
  up_uid :: nat
  up_gid :: nat
  up_cuid :: nat
  up_cgid :: nat
  up_mode :: flags
  up_seq :: int

record UserMsqidDs =
  msg_perm :: UserIpcPerm
  msg_stime :: nat
  msg_rtime :: nat
  msg_ctime :: nat
  msg_cbytes :: nat
  msg_qnum :: nat
  msg_qbytes :: nat
  msg_lspid :: nat
  msg_lrpid :: nat

record UserMsgInfo =
  msgpool :: int
  msgmap :: int
  msgmax :: int
  msgmnb :: int
  msgmni :: int
  msgssz :: int
  msgtql :: int
  msgseg :: nat

datatype user_value = UInfo UserMsgInfo | UDs UserMsqidDs

text \<open>\<^verbatim>\<open>current_credentials\<close>: effective uid, effective gid and pid, if there is a task.\<close>

record creds =
  c_uid :: nat
  c_gid :: nat
  c_pid :: nat

definition current_credentials :: "creds option \<Rightarrow> creds sys_result" where
  "current_credentials cur = (case cur of None \<Rightarrow> Inl ESRCH | Some c \<Rightarrow> Inr c)"

section \<open>Permissions\<close>

definition has_cap_or_root :: "nat \<Rightarrow> bool" where
  "has_cap_or_root uid \<longleftrightarrow> uid = 0"

definition access_allowed :: "IpcPerm \<Rightarrow> nat \<Rightarrow> nat \<Rightarrow> bool \<Rightarrow> bool \<Rightarrow> bool" where
  "access_allowed p uid gid rd wr =
     (if has_cap_or_root uid then True
      else
        (let bits = (if uid = p_uid p then drop_bit 6 (p_mode p) AND 7
                     else if gid = p_gid p then drop_bit 3 (p_mode p) AND 7
                     else p_mode p AND 7)
         in (\<not> rd \<or> bits AND 4 \<noteq> 0) \<and> (\<not> wr \<or> bits AND 2 \<noteq> 0)))"

definition owner_allowed :: "IpcPerm \<Rightarrow> nat \<Rightarrow> bool" where
  "owner_allowed p uid \<longleftrightarrow> has_cap_or_root uid \<or> uid = p_uid p \<or> uid = p_cuid p"

section \<open>The queue table\<close>

definition get_queue :: "ipc \<Rightarrow> int \<Rightarrow> arc sys_result" where
  "get_queue s msqid =
     (if msqid < 0 then Inl EINVAL
      else case bt_get (queues (manager s)) msqid of None \<Rightarrow> Inl EINVAL | Some q \<Rightarrow> Inr q)"

definition new_queue :: "int \<Rightarrow> flags \<Rightarrow> nat \<Rightarrow> nat \<Rightarrow> nat \<Rightarrow> MsgQueue" where
  "new_queue key msgflg uid gid now =
     \<lparr>state = \<lparr>perm = \<lparr>p_key = key, p_uid = uid, p_gid = gid, p_cuid = uid, p_cgid = gid,
                       p_mode = msgflg AND 511, p_seq = 0\<rparr>,
               messages = [], bytes = 0, qbytes = MSGMNB, stime = 0, rtime = 0, ctime = now,
               lspid = 0, lrpid = 0, removed = False\<rparr>,
      recv_wait = Inner_new, send_wait = Inner_new\<rparr>"

definition create_queue :: "ipc \<Rightarrow> nat \<Rightarrow> int \<Rightarrow> flags \<Rightarrow> nat \<Rightarrow> nat \<Rightarrow> syscall_ret \<times> ipc" where
  "create_queue s now key msgflg uid gid =
     (let m = manager s in
      if length (queues m) \<ge> MSGMNI then (Inl ENOSPC, s)
      else
        (let id = next_id m in
         case checked_add_i32 (next_id m) 1 of
           None \<Rightarrow> (Inl ENOSPC, s)
         | Some next \<Rightarrow>
             (let m1 = m\<lparr>next_id := next, queues := bt_insert id id (queues m)\<rparr>;
                  m2 = (if key \<noteq> IPC_PRIVATE then m1\<lparr>keys := bt_insert key id (keys m1)\<rparr> else m1)
              in (Inr (nat id),
                  s\<lparr>manager := m2, heap := (heap s)(id := new_queue key msgflg uid gid now)\<rparr>))))"

definition queue_snapshot :: "QueueState \<Rightarrow> UserMsqidDs" where
  "queue_snapshot st =
     (let p = perm st in
      \<lparr>msg_perm = \<lparr>up_key = p_key p, up_uid = p_uid p, up_gid = p_gid p, up_cuid = p_cuid p,
                   up_cgid = p_cgid p, up_mode = p_mode p, up_seq = 0\<rparr>,
       msg_stime = stime st, msg_rtime = rtime st, msg_ctime = ctime st, msg_cbytes = bytes st,
       msg_qnum = length (messages st), msg_qbytes = qbytes st, msg_lspid = lspid st,
       msg_lrpid = lrpid st\<rparr>)"

text \<open>\<^verbatim>\<open>as i32\<close> keeps the low 32 bits of a \<^verbatim>\<open>usize\<close>, read as two's complement.\<close>

definition as_i32 :: "nat \<Rightarrow> int" where
  "as_i32 n = sint (word_of_nat n :: 32 word)"

definition queue_info :: "ipc \<Rightarrow> UserMsgInfo" where
  "queue_info s =
     (let qs = map (\<lambda>a. state (heap s a)) (bt_values (queues (manager s)))
      in \<lparr>msgpool = as_i32 (length (queues (manager s))),
          msgmap = as_i32 (\<Sum>st \<leftarrow> qs. length (messages st)),
          msgmax = as_i32 MSGMAX, msgmnb = as_i32 MSGMNB, msgmni = as_i32 MSGMNI, msgssz = 1,
          msgtql = as_i32 (\<Sum>st \<leftarrow> qs. bytes st), msgseg = 65535\<rparr>)"

section \<open>Selecting, sending and receiving a message\<close>

definition find_message :: "QueueState \<Rightarrow> int \<Rightarrow> flags \<Rightarrow> nat option" where
  "find_message st msgtyp fl =
     (if has_flag fl MSG_COPY then
        (if msgtyp < 0 then None
         else if nat msgtyp < length (messages st) then Some (nat msgtyp) else None)
      else if msgtyp = 0 then (if messages st \<noteq> [] then Some 0 else None)
      else if msgtyp > 0 then
        position (\<lambda>m. if has_flag fl MSG_EXCEPT then m_kind m \<noteq> msgtyp else m_kind m = msgtyp)
          (messages st)
      else
        (let limit = saturating_neg_i64 msgtyp
         in map_option fst
              (min_by_key (\<lambda>(index, m). (m_kind m, index))
                (filter (\<lambda>(index, m). m_kind m \<le> limit) (enumerate 0 (messages st))))))"

definition try_send :: "nat \<Rightarrow> QueueState \<Rightarrow> Message \<Rightarrow> nat \<Rightarrow> bool sys_result \<times> QueueState" where
  "try_send now st msg pid =
     (if removed st then (Inl EIDRM, st)
      else
        (let size = length (m_text msg) in
         if size > qbytes st - bytes st \<or> length (messages st) \<ge> qbytes st then (Inr False, st)
         else
           (Inr True,
            st\<lparr>bytes := bytes st + size, messages := messages st @ [msg],
               stime := now, lspid := pid\<rparr>)))"

definition try_receive ::
  "nat \<Rightarrow> QueueState \<Rightarrow> int \<Rightarrow> flags \<Rightarrow> nat \<Rightarrow> nat \<Rightarrow> Message option sys_result \<times> QueueState" where
  "try_receive now st msgtyp msgflg msgsz pid =
     (if removed st then (Inl EIDRM, st)
      else
        case find_message st msgtyp msgflg of
          None \<Rightarrow> (Inr None, st)
        | Some index \<Rightarrow>
            (let msg = messages st ! index in
             if \<not> has_flag msgflg MSG_COPY \<and> length (m_text msg) > msgsz \<and>
                \<not> has_flag msgflg MSG_NOERROR
             then (Inl E2BIG, st)
             else if has_flag msgflg MSG_COPY
             then (Inr (Some \<lparr>m_kind = m_kind msg, m_text = m_text msg\<rparr>), st)
             else if \<not> index < length (messages st) then (Inl EIDRM, st)
             else
               (Inr (Some msg),
                st\<lparr>messages := remove_nth index (messages st),
                   bytes := bytes st - length (m_text msg),
                   rtime := now, lrpid := pid\<rparr>)))"

section \<open>Critical sections\<close>

text \<open>
  A call is a sequence of critical sections: the manager lock protects the tables, the lock of a queue
  its state, and each wait set has a lock of its own.  The sections on one queue object:
\<close>

definition put_queue :: "arc \<Rightarrow> MsgQueue \<Rightarrow> ipc \<Rightarrow> ipc" where
  "put_queue a q s = s\<lparr>heap := (heap s)(a := q)\<rparr>"

definition set_state :: "arc \<Rightarrow> QueueState \<Rightarrow> ipc \<Rightarrow> ipc" where
  "set_state a st s = put_queue a ((heap s a)\<lparr>state := st\<rparr>) s"

definition wake_receivers :: "arc \<Rightarrow> ipc \<Rightarrow> ipc \<times> waker list" where
  "wake_receivers a s =
     (let q = heap s a; (rw, woken, _) = PollSet_wake (recv_wait q) in (put_queue a (q\<lparr>recv_wait := rw\<rparr>) s, woken))"

definition wake_senders :: "arc \<Rightarrow> ipc \<Rightarrow> ipc \<times> waker list" where
  "wake_senders a s =
     (let q = heap s a; (sw, woken, _) = PollSet_wake (send_wait q) in (put_queue a (q\<lparr>send_wait := sw\<rparr>) s, woken))"

definition register_receiver :: "waker \<Rightarrow> arc \<Rightarrow> ipc \<Rightarrow> ipc \<times> waker list" where
  "register_receiver w a s =
     (let q = heap s a; (rw, woken) = PollSet_register w (recv_wait q) in (put_queue a (q\<lparr>recv_wait := rw\<rparr>) s, woken))"

definition register_sender :: "waker \<Rightarrow> arc \<Rightarrow> ipc \<Rightarrow> ipc \<times> waker list" where
  "register_sender w a s =
     (let q = heap s a; (sw, woken) = PollSet_register w (send_wait q) in (put_queue a (q\<lparr>send_wait := sw\<rparr>) s, woken))"

section \<open>Blocking\<close>

text \<open>
  \<open>others now i\<close> is what other tasks do in gap \<open>i\<close> between two sections of a call or, for the polls
  of a blocked call, of the poll at the time \<open>now\<close>.
\<close>

type_synonym gaps = "nat \<Rightarrow> nat \<Rightarrow> ipc \<Rightarrow> ipc"

text \<open>
  One poll of the future of \<^verbatim>\<open>wait_send\<close>: try, register the waker, try again.
  The third component lists the tasks woken meanwhile.
\<close>

definition wait_send_poll ::
  "nat \<Rightarrow> gaps \<Rightarrow> arc \<Rightarrow> Message \<Rightarrow> nat \<Rightarrow> waker \<Rightarrow> ipc \<Rightarrow> unit sys_result poll \<times> ipc \<times> waker list" where
  "wait_send_poll now others a msg pid w s =
     (case try_send now (state (heap s a)) msg pid of
        (Inr True, st) \<Rightarrow> (Ready (Inr ()), set_state a st s, [])
      | (Inr False, st) \<Rightarrow>
          (let (s1, woken) = register_sender w a (others now 3 (set_state a st s));
               s2 = others now 4 s1
           in case try_send now (state (heap s2 a)) msg pid of
                (Inr True, st2) \<Rightarrow> (Ready (Inr ()), set_state a st2 s2, woken)
              | (Inr False, st2) \<Rightarrow> (Pending, set_state a st2 s2, woken)
              | (Inl e, st2) \<Rightarrow> (Ready (Inl e), set_state a st2 s2, woken))
      | (Inl e, st) \<Rightarrow> (Ready (Inl e), set_state a st s, []))"

definition wait_receive_poll ::
  "nat \<Rightarrow> gaps \<Rightarrow> arc \<Rightarrow> int \<Rightarrow> flags \<Rightarrow> nat \<Rightarrow> nat \<Rightarrow> waker \<Rightarrow> ipc \<Rightarrow>
   Message sys_result poll \<times> ipc \<times> waker list" where
  "wait_receive_poll now others a msgtyp msgflg msgsz pid w s =
     (case try_receive now (state (heap s a)) msgtyp msgflg msgsz pid of
        (Inr (Some m), st) \<Rightarrow> (Ready (Inr m), set_state a st s, [])
      | (Inr None, st) \<Rightarrow>
          (let (s1, woken) = register_receiver w a (others now 3 (set_state a st s));
               s2 = others now 4 s1
           in case try_receive now (state (heap s2 a)) msgtyp msgflg msgsz pid of
                (Inr (Some m), st2) \<Rightarrow> (Ready (Inr m), set_state a st2 s2, woken)
              | (Inr None, st2) \<Rightarrow> (Pending, set_state a st2 s2, woken)
              | (Inl e, st2) \<Rightarrow> (Ready (Inl e), set_state a st2 s2, woken))
      | (Inl e, st) \<Rightarrow> (Ready (Inl e), set_state a st s, []))"

definition wait_send ::
  "ipc \<Rightarrow> gaps \<Rightarrow> arc \<Rightarrow> Message \<Rightarrow> nat \<Rightarrow> waker \<Rightarrow> ipc wait_event list \<Rightarrow>
   syscall_ret option \<times> ipc \<times> waker list" where
  "wait_send s others a msg pid w evs =
     block_on_interruptible
       (\<lambda>now s1. let (r, s2, woken) = wait_send_poll now others a msg pid w s1
                in (map_poll (map_sum id (\<lambda>_. 0)) r, s2, woken)) s evs"

definition wait_receive ::
  "ipc \<Rightarrow> gaps \<Rightarrow> arc \<Rightarrow> int \<Rightarrow> flags \<Rightarrow> nat \<Rightarrow> nat \<Rightarrow> waker \<Rightarrow> ipc wait_event list \<Rightarrow>
   Message sys_result option \<times> ipc \<times> waker list" where
  "wait_receive s others a msgtyp msgflg msgsz pid w evs =
     block_on_interruptible (\<lambda>now. wait_receive_poll now others a msgtyp msgflg msgsz pid w) s evs"

section \<open>System calls\<close>

text \<open>
  \<^verbatim>\<open>msgget\<close> looks the key up under the manager lock, releases it, and takes it again to find the
  queue or to create one.
\<close>

definition sys_msgget :: "ipc \<Rightarrow> creds option \<Rightarrow> nat \<Rightarrow> gaps \<Rightarrow> int \<Rightarrow> flags \<Rightarrow> syscall_ret \<times> ipc" where
  "sys_msgget s cur now others key msgflg =
     (case current_credentials cur of
        Inl e \<Rightarrow> (Inl e, s)
      | Inr c \<Rightarrow>
          if key \<noteq> IPC_PRIVATE then
            (case bt_get (keys (manager s)) key of
               Some msqid \<Rightarrow>
                 (let s1 = others now 0 s in
                  case get_queue s1 msqid of
                    Inl e \<Rightarrow> (Inl e, s1)
                  | Inr a \<Rightarrow>
                      (let s2 = others now 1 s1 in
                       if has_flag msgflg IPC_CREAT \<and> has_flag msgflg IPC_EXCL then (Inl EEXIST, s2)
                       else
                         (let rd = has_flag msgflg 292; wr = has_flag msgflg 146 in
                          if \<not> access_allowed (perm (state (heap s2 a))) (c_uid c) (c_gid c) rd wr
                          then (Inl EACCES, s2)
                          else (Inr (nat msqid), s2))))
             | None \<Rightarrow>
                 if \<not> has_flag msgflg IPC_CREAT then (Inl ENOENT, s)
                 else create_queue (others now 0 s) now key msgflg (c_uid c) (c_gid c))
          else create_queue s now key msgflg (c_uid c) (c_gid c))"

text \<open>
  The user buffer of \<^verbatim>\<open>msgsnd\<close> is read in two accesses: \<open>read_kind\<close> is the result
  of reading the type (as \<^verbatim>\<open>i64\<close>) at the pointer, \<open>read_text\<close> the result of reading
  the text eight bytes further.
\<close>

definition sys_msgsnd ::
  "ipc \<Rightarrow> creds option \<Rightarrow> nat \<Rightarrow> gaps \<Rightarrow> int sys_result \<Rightarrow> byte list sys_result \<Rightarrow> waker \<Rightarrow>
   ipc wait_event list \<Rightarrow> int \<Rightarrow> nat \<Rightarrow> nat \<Rightarrow> flags \<Rightarrow> syscall_ret option \<times> ipc \<times> waker list" where
  "sys_msgsnd s cur now others read_kind read_text w evs msqid msgp msgsz msgflg =
     (if msgsz > MSGMAX then (Some (Inl EINVAL), s, [])
      else case get_queue s msqid of
        Inl e \<Rightarrow> (Some (Inl e), s, [])
      | Inr a \<Rightarrow>
      case current_credentials cur of
        Inl e \<Rightarrow> (Some (Inl e), s, [])
      | Inr c \<Rightarrow>
      let s1 = others now 0 s in
      if \<not> access_allowed (perm (state (heap s1 a))) (c_uid c) (c_gid c) False True
      then (Some (Inl EACCES), s1, [])
      else case read_kind of
        Inl e \<Rightarrow> (Some (Inl e), s1, [])
      | Inr kind \<Rightarrow>
      if kind \<le> 0 then (Some (Inl EINVAL), s1, [])
      else case checked_add_usize msgp 8 of
        None \<Rightarrow> (Some (Inl EFAULT), s1, [])
      | Some text_addr \<Rightarrow>
      case read_text of
        Inl e \<Rightarrow> (Some (Inl e), s1, [])
      | Inr text \<Rightarrow>
      (let msg = \<lparr>m_kind = kind, m_text = text\<rparr>; s2 = others now 1 s1 in
       case try_send now (state (heap s2 a)) msg (c_pid c) of
         (Inl e, _) \<Rightarrow> (Some (Inl e), s2, [])
       | (Inr True, st) \<Rightarrow>
           (let (s3, woken) = wake_receivers a (others now 2 (set_state a st s2)) in (Some (Inr 0), s3, woken))
       | (Inr False, _) \<Rightarrow>
           if has_flag msgflg IPC_NOWAIT then (Some (Inl EAGAIN), s2, [])
           else wait_send s2 others a msg (c_pid c) w evs))"

text \<open>\<^verbatim>\<open>msgrcv\<close> gets a message, at once or by waiting.\<close>

definition obtain_message ::
  "ipc \<Rightarrow> nat \<Rightarrow> gaps \<Rightarrow> arc \<Rightarrow> int \<Rightarrow> flags \<Rightarrow> nat \<Rightarrow> nat \<Rightarrow> waker \<Rightarrow> ipc wait_event list \<Rightarrow>
   Message sys_result option \<times> ipc \<times> waker list" where
  "obtain_message s now others a msgtyp msgflg msgsz pid w evs =
     (if has_flag msgflg IPC_NOWAIT then
        (case try_receive now (state (heap s a)) msgtyp msgflg msgsz pid of
           (Inl e, st) \<Rightarrow> (Some (Inl e), set_state a st s, [])
         | (Inr None, st) \<Rightarrow> (Some (Inl ENOMSG), set_state a st s, [])
         | (Inr (Some m), st) \<Rightarrow> (Some (Inr m), set_state a st s, []))
      else wait_receive s others a msgtyp msgflg msgsz pid w evs)"

text \<open>
  \<^verbatim>\<open>msgrcv\<close> after a message was obtained: copy it out, then wake the senders.
  \<open>write_user\<close> is the result of writing the bytes at the user pointer, and the bytes are
  the native (little-endian) encoding of the type followed by the text.
\<close>

definition finish_msgrcv ::
  "arc \<Rightarrow> Message \<Rightarrow> nat \<Rightarrow> flags \<Rightarrow> (byte list \<Rightarrow> nat sys_result) \<Rightarrow> ipc \<Rightarrow> syscall_ret \<times> ipc \<times> waker list" where
  "finish_msgrcv a msg msgsz msgflg write_user s =
     (let copy_len = min (length (m_text msg)) msgsz;
          result = le_bytes 8 (m_kind msg) @ take copy_len (m_text msg)
      in case write_user result of
           Inl e \<Rightarrow> (Inl e, s, [])
         | Inr _ \<Rightarrow>
             if \<not> has_flag msgflg MSG_COPY
             then (let (s1, woken) = wake_senders a s in (Inr copy_len, s1, woken))
             else (Inr copy_len, s, []))"

definition sys_msgrcv ::
  "ipc \<Rightarrow> creds option \<Rightarrow> nat \<Rightarrow> gaps \<Rightarrow> (byte list \<Rightarrow> nat sys_result) \<Rightarrow> waker \<Rightarrow> ipc wait_event list \<Rightarrow>
   int \<Rightarrow> nat \<Rightarrow> int \<Rightarrow> flags \<Rightarrow> syscall_ret option \<times> ipc \<times> waker list" where
  "sys_msgrcv s cur now others write_user w evs msqid msgsz msgtyp msgflg =
     (if msgsz > MSGMAX
         \<or> (has_flag msgflg MSG_COPY \<and> \<not> has_flag msgflg IPC_NOWAIT)
         \<or> (has_flag msgflg MSG_COPY \<and> has_flag msgflg MSG_EXCEPT)
      then (Some (Inl EINVAL), s, [])
      else case get_queue s msqid of
        Inl e \<Rightarrow> (Some (Inl e), s, [])
      | Inr a \<Rightarrow>
      case current_credentials cur of
        Inl e \<Rightarrow> (Some (Inl e), s, [])
      | Inr c \<Rightarrow>
      let s1 = others now 0 s in
      if \<not> access_allowed (perm (state (heap s1 a))) (c_uid c) (c_gid c) True False
      then (Some (Inl EACCES), s1, [])
      else
        (let s2 = others now 1 s1;
             (received, s3, woken1) = obtain_message s2 now others a msgtyp msgflg msgsz (c_pid c) w evs
         in case received of
              None \<Rightarrow> (None, s3, woken1)
            | Some (Inl e) \<Rightarrow> (Some (Inl e), s3, woken1)
            | Some (Inr m) \<Rightarrow>
                (let (ret, s4, woken2) = finish_msgrcv a m msgsz msgflg write_user (others now 2 s3)
                 in (Some ret, s4, woken1 @ woken2))))"

text \<open>
  \<^verbatim>\<open>msgctl\<close>: \<open>write_user\<close> and \<open>read_ds\<close> are the results of writing a structure to,
  and of reading a \<^verbatim>\<open>msqid64_ds\<close> from, the user pointer.
\<close>

definition msgctl_stat ::
  "ipc \<Rightarrow> creds \<Rightarrow> (user_value \<Rightarrow> unit sys_result) \<Rightarrow> arc \<Rightarrow> int \<Rightarrow> int \<Rightarrow> syscall_ret" where
  "msgctl_stat s c write_user a msqid cmd =
     (if cmd \<noteq> MSG_STAT_ANY \<and>
         \<not> access_allowed (perm (state (heap s a))) (c_uid c) (c_gid c) True False
      then Inl EACCES
      else case write_user (UDs (queue_snapshot (state (heap s a)))) of
        Inl e \<Rightarrow> Inl e
      | Inr _ \<Rightarrow> if cmd = MSG_STAT \<or> cmd = MSG_STAT_ANY then Inr (nat msqid) else Inr 0)"

definition requested_state :: "nat \<Rightarrow> UserMsqidDs \<Rightarrow> QueueState \<Rightarrow> QueueState" where
  "requested_state now requested st =
     st\<lparr>perm := (perm st)\<lparr>p_uid := up_uid (msg_perm requested), p_gid := up_gid (msg_perm requested),
                         p_mode := up_mode (msg_perm requested) AND 511\<rparr>,
        qbytes := msg_qbytes requested, ctime := now\<rparr>"

definition msgctl_set ::
  "ipc \<Rightarrow> creds \<Rightarrow> nat \<Rightarrow> gaps \<Rightarrow> UserMsqidDs sys_result \<Rightarrow> arc \<Rightarrow> syscall_ret \<times> ipc \<times> waker list" where
  "msgctl_set s c now others read_ds a =
     (case read_ds of
        Inl e \<Rightarrow> (Inl e, s, [])
      | Inr requested \<Rightarrow>
      (let st = state (heap s a)
       in if \<not> owner_allowed (perm st) (c_uid c) then (Inl EPERM, s, [])
          else if up_uid (msg_perm requested) \<noteq> p_uid (perm st) \<and> \<not> has_cap_or_root (c_uid c) then (Inl EPERM, s, [])
          else if up_gid (msg_perm requested) \<noteq> p_gid (perm st) \<and> \<not> has_cap_or_root (c_uid c) then (Inl EPERM, s, [])
          else if msg_qbytes requested > MSGMNB \<and> \<not> has_cap_or_root (c_uid c)
          then (Inl EPERM, s, [])
          else
            (let queue_was_full = (bytes st \<ge> qbytes st \<or> length (messages st) \<ge> qbytes st);
                 s1 = set_state a (requested_state now requested st) s
             in if queue_was_full
                then (let (s2, woken) = wake_senders a (others now 1 s1) in (Inr 0, s2, woken))
                else (Inr 0, s1, []))))"

text \<open>
  The section of \<^verbatim>\<open>IPC_RMID\<close> under the manager lock.  It is one step: no other task can take the
  manager lock meanwhile, and a section of another task on the queue object that falls into it has the
  same effect as one that comes before.
\<close>

definition remove_queue :: "int \<Rightarrow> ipc \<Rightarrow> syscall_ret \<times> ipc \<times> waker list" where
  "remove_queue msqid s =
     (case bt_get (queues (manager s)) msqid of
        None \<Rightarrow> (Inl EINVAL, s, [])
      | Some existing \<Rightarrow>
          (let m = manager s;
               m1 = m\<lparr>queues := bt_remove msqid (queues m)\<rparr>;
               q = heap s existing;
               key = p_key (perm (state q));
               m2 = (if key \<noteq> IPC_PRIVATE then m1\<lparr>keys := bt_remove key (keys m1)\<rparr> else m1);
               (rw, woken1, _) = PollSet_wake (recv_wait q);
               (sw, woken2, _) = PollSet_wake (send_wait q);
               q' = q\<lparr>state := (state q)\<lparr>removed := True\<rparr>, recv_wait := rw, send_wait := sw\<rparr>
           in (Inr 0, s\<lparr>manager := m2, heap := (heap s)(existing := q')\<rparr>, woken1 @ woken2)))"

definition msgctl_rmid :: "ipc \<Rightarrow> creds \<Rightarrow> nat \<Rightarrow> gaps \<Rightarrow> arc \<Rightarrow> int \<Rightarrow> syscall_ret \<times> ipc \<times> waker list" where
  "msgctl_rmid s c now others a msqid =
     (if \<not> owner_allowed (perm (state (heap s a))) (c_uid c) then (Inl EPERM, s, [])
      else remove_queue msqid (others now 1 s))"

definition sys_msgctl ::
  "ipc \<Rightarrow> creds option \<Rightarrow> nat \<Rightarrow> gaps \<Rightarrow> (user_value \<Rightarrow> unit sys_result) \<Rightarrow> UserMsqidDs sys_result \<Rightarrow>
   int \<Rightarrow> int \<Rightarrow> syscall_ret \<times> ipc \<times> waker list" where
  "sys_msgctl s cur now others write_user read_ds msqid cmd =
     (if cmd = IPC_INFO \<or> cmd = MSG_INFO then
        (case write_user (UInfo (queue_info s)) of
           Inl e \<Rightarrow> (Inl e, s, [])
         | Inr _ \<Rightarrow>
             (let s1 = others now 0 s in
              (Inr (case bt_keys (queues (manager s1)) of [] \<Rightarrow> 0 | ks \<Rightarrow> nat (last ks)), s1, [])))
      else case get_queue s msqid of
        Inl e \<Rightarrow> (Inl e, s, [])
      | Inr a \<Rightarrow>
      case current_credentials cur of
        Inl e \<Rightarrow> (Inl e, s, [])
      | Inr c \<Rightarrow>
      let s1 = others now 0 s in
      if cmd = IPC_STAT \<or> cmd = MSG_STAT \<or> cmd = MSG_STAT_ANY then
        (msgctl_stat s1 c write_user a msqid cmd, s1, [])
      else if cmd = IPC_SET then msgctl_set s1 c now others read_ds a
      else if cmd = IPC_RMID then msgctl_rmid s1 c now others a msqid
      else (Inl EINVAL, s1, []))"

text \<open>
  The critical sections that change something, as steps of the system.  What a section does depends
  only on the state it finds, so every call, however its sections interleave with those of others, is
  a sequence of these steps.
\<close>

inductive msg_section :: "ipc \<Rightarrow> ipc \<Rightarrow> bool" where
  create: "msg_section s (snd (create_queue s now key msgflg uid gid))"
| send: "0 < m_kind msg \<Longrightarrow> msg_section s (set_state a (snd (try_send now (state (heap s a)) msg pid)) s)"
| receive: "msg_section s (set_state a (snd (try_receive now (state (heap s a)) msgtyp msgflg msgsz pid)) s)"
| await_room: "msg_section s (fst (register_sender w a s))"
| await_message: "msg_section s (fst (register_receiver w a s))"
| announce_room: "msg_section s (fst (wake_senders a s))"
| announce_message: "msg_section s (fst (wake_receivers a s))"
| change: "msg_section s (set_state a (requested_state now requested (state (heap s a))) s)"
| remove: "msg_section s (fst (snd (remove_queue msqid s)))"

section \<open>Well-formedness\<close>

definition text_size :: "Message list \<Rightarrow> nat" where
  "text_size ms = (\<Sum>m \<leftarrow> ms. length (m_text m))"

text \<open>The byte count is the size of the stored texts and every message has a positive type.\<close>

definition queue_ok :: "QueueState \<Rightarrow> bool" where
  "queue_ok st \<longleftrightarrow> bytes st = text_size (messages st) \<and> (\<forall>m \<in> set (messages st). 0 < m_kind m)"

definition obj_ok :: "MsgQueue \<Rightarrow> bool" where
  "obj_ok q \<longleftrightarrow> queue_ok (state q) \<and> poll_ok (recv_wait q) \<and> poll_ok (send_wait q)"

text \<open>
  The tables agree with each other and with the objects: ids are positive, below
  \<open>next_id\<close> and name their own object; an object is in the table exactly until it is marked
  removed; every entry of the key table names a queue of the table that was created with that key.
\<close>

definition ids_ok :: "MsgManager \<Rightarrow> bool" where
  "ids_ok m \<longleftrightarrow> (\<forall>id a. bt_get (queues m) id = Some a \<longrightarrow> a = id \<and> 0 < id \<and> id < next_id m)"

definition objs_ok :: "ipc \<Rightarrow> bool" where
  "objs_ok s \<longleftrightarrow> (\<forall>id. 0 < id \<and> id < next_id (manager s) \<longrightarrow>
     obj_ok (heap s id) \<and> (removed (state (heap s id)) \<longleftrightarrow> bt_get (queues (manager s)) id = None))"

definition keys_ok :: "ipc \<Rightarrow> bool" where
  "keys_ok s \<longleftrightarrow> (\<forall>key id. bt_get (keys (manager s)) key = Some id \<longrightarrow>
     key \<noteq> IPC_PRIVATE \<and> bt_get (queues (manager s)) id = Some id \<and>
     p_key (perm (state (heap s id))) = key)"

text \<open>Conversely every queue with a key is listed; calls that race for a key may break this.\<close>

definition keys_complete :: "ipc \<Rightarrow> bool" where
  "keys_complete s \<longleftrightarrow> (\<forall>id. bt_get (queues (manager s)) id = Some id \<and> p_key (perm (state (heap s id))) \<noteq> IPC_PRIVATE \<longrightarrow>
     bt_get (keys (manager s)) (p_key (perm (state (heap s id)))) = Some id)"

definition ipc_ok :: "ipc \<Rightarrow> bool" where
  "ipc_ok s \<longleftrightarrow>
     bt_ok (queues (manager s)) \<and> bt_ok (keys (manager s)) \<and> 1 \<le> next_id (manager s) \<and>
     length (queues (manager s)) \<le> MSGMNI \<and> ids_ok (manager s) \<and> objs_ok s \<and> keys_ok s"

lemma text_size_simps [simp]:
  "text_size [] = 0"
  "text_size (m # ms) = length (m_text m) + text_size ms"
  "text_size (ms @ ns) = text_size ms + text_size ns"
  by (simp_all add: text_size_def)

lemma text_size_remove_nth:
  "i < length ms \<Longrightarrow> text_size (remove_nth i ms) = text_size ms - length (m_text (ms ! i))"
  using sum_list_remove_nth [of i "map (\<lambda>m. length (m_text m)) ms"]
  by (simp add: text_size_def map_remove_nth)

lemma find_message_in_range: "find_message st mt fl = Some i \<Longrightarrow> i < length (messages st)"
proof -
  have "i < length (messages st)"
    if "min_by_key (\<lambda>(index, m). (m_kind m, index))
          (filter (\<lambda>(index, m). m_kind m \<le> limit) (enumerate 0 (messages st))) = Some (i, x)" for limit x
    using min_by_key_SomeD [OF that] by (auto simp: in_set_enumerate_eq)
  then show "find_message st mt fl = Some i \<Longrightarrow> i < length (messages st)"
    by (auto simp: find_message_def Let_def split: if_splits dest: position_SomeD)
qed

section \<open>Preservation\<close>

lemma try_send_ok:
  "queue_ok st \<Longrightarrow> 0 < m_kind msg \<Longrightarrow> queue_ok (snd (try_send now st msg pid))"
  by (auto simp: try_send_def queue_ok_def Let_def)

lemma try_receive_ok: "queue_ok st \<Longrightarrow> queue_ok (snd (try_receive now st mt fl sz pid))"
  by (auto simp: try_receive_def queue_ok_def Let_def text_size_remove_nth find_message_in_range
      split: option.splits dest: set_remove_nth [THEN subsetD])

lemma try_send_frame:
  "perm (snd (try_send now st msg pid)) = perm st"
  "removed (snd (try_send now st msg pid)) = removed st"
  "qbytes (snd (try_send now st msg pid)) = qbytes st"
  by (auto simp: try_send_def Let_def)

lemma try_receive_frame:
  "perm (snd (try_receive now st mt fl sz pid)) = perm st"
  "removed (snd (try_receive now st mt fl sz pid)) = removed st"
  "qbytes (snd (try_receive now st mt fl sz pid)) = qbytes st"
  by (auto simp: try_receive_def Let_def split: option.splits)

text \<open>Updates of one object that keep its well-formedness, its key and its removed flag.\<close>

definition obj_step :: "MsgQueue \<Rightarrow> MsgQueue \<Rightarrow> bool" where
  "obj_step q q' \<longleftrightarrow> (obj_ok q \<longrightarrow> obj_ok q') \<and> p_key (perm (state q')) = p_key (perm (state q)) \<and>
     removed (state q') = removed (state q)"

lemma ipc_ok_put_queue:
  assumes "ipc_ok s" and "obj_step (heap s a) q"
  shows "ipc_ok (put_queue a q s)"
  using assms by (auto simp: ipc_ok_def ids_ok_def objs_ok_def keys_ok_def obj_step_def put_queue_def)

lemma obj_step_refl [simp]: "obj_step q q"
  by (simp add: obj_step_def)

lemma obj_step_trans: "obj_step q1 q2 \<Longrightarrow> obj_step q2 q3 \<Longrightarrow> obj_step q1 q3"
  by (auto simp: obj_step_def)

lemma obj_step_state:
  assumes "queue_ok (state q) \<Longrightarrow> queue_ok st" and "perm st = perm (state q)"
    and "removed st = removed (state q)"
  shows "obj_step q (q\<lparr>state := st\<rparr>)"
  using assms by (auto simp: obj_step_def obj_ok_def)

lemma obj_step_recv_wait: "(poll_ok (recv_wait q) \<Longrightarrow> poll_ok p) \<Longrightarrow> obj_step q (q\<lparr>recv_wait := p\<rparr>)"
  by (auto simp: obj_step_def obj_ok_def)

lemma obj_step_send_wait: "(poll_ok (send_wait q) \<Longrightarrow> poll_ok p) \<Longrightarrow> obj_step q (q\<lparr>send_wait := p\<rparr>)"
  by (auto simp: obj_step_def obj_ok_def)

lemma obj_step_try_send:
  "try_send now (state q) msg pid = (r, st) \<Longrightarrow> 0 < m_kind msg \<Longrightarrow> obj_step q (q\<lparr>state := st\<rparr>)"
  using try_send_ok [of "state q" msg now pid] try_send_frame [of now "state q" msg pid]
  by (intro obj_step_state) auto

lemma obj_step_try_receive:
  "try_receive now (state q) mt fl sz pid = (r, st) \<Longrightarrow> obj_step q (q\<lparr>state := st\<rparr>)"
  using try_receive_ok [of "state q" now mt fl sz pid] try_receive_frame [of now "state q" mt fl sz pid]
  by (intro obj_step_state) auto

lemmas obj_step_try_send_snd = obj_step_try_send [OF surjective_pairing]
lemmas obj_step_try_receive_snd = obj_step_try_receive [OF surjective_pairing]

lemma ipc_ok_create_queue:
  assumes ok: "ipc_ok s"
  shows "ipc_ok (snd (create_queue s now key fl uid gid))"
proof (cases "length (queues (manager s)) \<ge> MSGMNI \<or> checked_add_i32 (next_id (manager s)) 1 = None")
  case True
  with ok show ?thesis by (auto simp: create_queue_def Let_def)
next
  case False
  let ?m = "manager s" and ?q = "new_queue key fl uid gid now"
  let ?n = "next_id ?m"
  have new: "bt_get (queues ?m) ?n = None"
    using ok by (cases "bt_get (queues ?m) ?n") (auto simp: ipc_ok_def ids_ok_def)
  have obj: "obj_ok ?q" and key: "p_key (perm (state ?q)) = key" and live: "\<not> removed (state ?q)"
    by (simp_all add: obj_ok_def new_queue_def queue_ok_def poll_ok_def Inner_new_def)
  have len: "length (bt_insert ?n ?n (queues ?m)) \<le> MSGMNI"
    using False ok btree.size_insert_new [OF _ new, of ?n] by (auto simp: ipc_ok_def)
  define s' where "s' = s\<lparr>manager := \<lparr>next_id = ?n + 1, queues = bt_insert ?n ?n (queues ?m),
      keys = (if key \<noteq> IPC_PRIVATE then bt_insert key ?n (keys ?m) else keys ?m)\<rparr>,
      heap := (heap s)(?n := ?q)\<rparr>"
  have res: "snd (create_queue s now key fl uid gid) = s'"
    using False
    by (auto simp: s'_def create_queue_def Let_def checked_add_i32_def split: if_splits)
  have "ids_ok (manager s')"
    using ok new by (fastforce simp: s'_def ipc_ok_def ids_ok_def)
  moreover have "objs_ok s'"
    using ok new obj live by (auto simp: s'_def ipc_ok_def objs_ok_def)
  moreover have "keys_ok s'"
    using ok new key unfolding s'_def ipc_ok_def keys_ok_def by (auto split: if_splits)
  ultimately show ?thesis
    using ok len unfolding res by (simp add: s'_def ipc_ok_def)
qed

lemma ipc_ok_remove_queue:
  assumes ok: "ipc_ok s"
  shows "ipc_ok (fst (snd (remove_queue msqid s)))"
proof (cases "bt_get (queues (manager s)) msqid")
  case None
  with ok show ?thesis by (simp add: remove_queue_def)
next
  case (Some b)
  let ?m = "manager s" and ?q = "heap s msqid"
  let ?key = "p_key (perm (state ?q))"
  have b: "b = msqid" using ok Some by (auto simp: ipc_ok_def ids_ok_def)
  define s' where "s' = s\<lparr>manager := ?m\<lparr>queues := bt_remove msqid (queues ?m),
        keys := (if ?key \<noteq> IPC_PRIVATE then bt_remove ?key (keys ?m) else keys ?m)\<rparr>,
      heap := (heap s)(msqid := ?q\<lparr>state := (state ?q)\<lparr>removed := True\<rparr>,
        recv_wait := (recv_wait ?q)\<lparr>entries := []\<rparr>, send_wait := (send_wait ?q)\<lparr>entries := []\<rparr>\<rparr>)\<rparr>"
  have "length (bt_remove msqid (queues ?m)) \<le> MSGMNI"
    using ok by (auto simp: ipc_ok_def bt_remove_def intro: le_trans [OF length_filter_le])
  moreover have "ids_ok (manager s')"
    using ok by (auto simp: s'_def ipc_ok_def ids_ok_def)
  moreover have "objs_ok s'"
    using ok by (auto simp: s'_def ipc_ok_def objs_ok_def obj_ok_def queue_ok_def poll_ok_def)
  moreover have "keys_ok s'"
    using ok unfolding s'_def ipc_ok_def keys_ok_def by (auto split: if_splits)
  ultimately have "ipc_ok s'"
    using ok by (simp add: s'_def ipc_ok_def)
  moreover have "fst (snd (remove_queue msqid s)) = s'"
    using Some b by (auto simp: s'_def remove_queue_def Let_def PollSet_wake_def)
  ultimately show ?thesis by simp
qed

text \<open>Every critical section keeps the tables well-formed, whatever state it finds.\<close>

lemma ipc_ok_section: "msg_section s s' \<Longrightarrow> ipc_ok s \<Longrightarrow> ipc_ok s'"
proof (induction rule: msg_section.induct)
  case (create s now key msgflg uid gid)
  then show ?case by (rule ipc_ok_create_queue)
next
  case (send msg s a now pid)
  then show ?case unfolding set_state_def by (intro ipc_ok_put_queue obj_step_try_send_snd)
next
  case (receive s a now msgtyp msgflg msgsz pid)
  then show ?case unfolding set_state_def by (intro ipc_ok_put_queue obj_step_try_receive_snd)
next
  case (await_room s w a)
  then show ?case using poll_ok_register [of "send_wait (heap s a)" w]
    by (auto simp: register_sender_def Let_def split_beta intro!: ipc_ok_put_queue obj_step_send_wait)
next
  case (await_message s w a)
  then show ?case using poll_ok_register [of "recv_wait (heap s a)" w]
    by (auto simp: register_receiver_def Let_def split_beta intro!: ipc_ok_put_queue obj_step_recv_wait)
next
  case (announce_room s a)
  then show ?case using poll_ok_wake [of "send_wait (heap s a)"]
    by (auto simp: wake_senders_def Let_def split_beta intro!: ipc_ok_put_queue obj_step_send_wait)
next
  case (announce_message s a)
  then show ?case using poll_ok_wake [of "recv_wait (heap s a)"]
    by (auto simp: wake_receivers_def Let_def split_beta intro!: ipc_ok_put_queue obj_step_recv_wait)
next
  case (change s a now requested)
  then show ?case unfolding set_state_def
    by (intro ipc_ok_put_queue) (auto simp: obj_step_def obj_ok_def queue_ok_def requested_state_def)
next
  case (remove s msqid)
  then show ?case by (rule ipc_ok_remove_queue)
qed

lemma ipc_ok_sections: "msg_section\<^sup>*\<^sup>* s s' \<Longrightarrow> ipc_ok s \<Longrightarrow> ipc_ok s'"
  by (induction rule: rtranclp_induct) (auto intro: ipc_ok_section)

lemma ipc_ok_start: "manager s = MsgManager_new \<Longrightarrow> ipc_ok s"
  by (auto simp: ipc_ok_def MsgManager_new_def ids_ok_def objs_ok_def keys_ok_def)

section \<open>Calls as sequences of sections\<close>

text \<open>A predicate that every section keeps, and that the others keep, holds after every call.\<close>

definition closed :: "(ipc \<Rightarrow> bool) \<Rightarrow> gaps \<Rightarrow> bool" where
  "closed I others \<longleftrightarrow> (\<forall>s s'. I s \<and> msg_section s s' \<longrightarrow> I s') \<and> (\<forall>n i s. I s \<longrightarrow> I (others n i s))"

lemma closedD:
  assumes "closed I others" and s: "I s"
  shows "I (snd (create_queue s now key fl uid gid))"
    and "0 < m_kind msg \<Longrightarrow> I (set_state a (snd (try_send now (state (heap s a)) msg pid)) s)"
    and "I (set_state a (snd (try_receive now (state (heap s a)) mt fl sz pid)) s)"
    and "I (fst (register_sender w a s))" "I (fst (register_receiver w a s))"
    and "I (fst (wake_senders a s))" "I (fst (wake_receivers a s))"
    and "I (set_state a (requested_state now requested (state (heap s a))) s)"
    and "I (fst (snd (remove_queue msqid s)))"
    and "I (others n i s)"
  using assms unfolding closed_def by (blast intro: msg_section.intros)+

lemma closed_wait_send_poll:
  assumes c: "closed I others" and s: "I s" and k: "0 < m_kind msg"
  shows "I (fst (snd (wait_send_poll now others a msg pid w s)))"
proof -
  note D = closedD [OF c]
  obtain r st where t: "try_send now (state (heap s a)) msg pid = (r, st)" by fastforce
  have s0: "I (set_state a st s)" using D(2) [OF s k, of a now pid] t by simp
  obtain s1 woken where g: "register_sender w a (others now 3 (set_state a st s)) = (s1, woken)" by fastforce
  have "I (fst (register_sender w a (others now 3 (set_state a st s))))" by (intro D(4) D(10) s0)
  then have s2: "I (others now 4 s1)" unfolding g by (intro D(10)) simp
  obtain r2 st2 where t2: "try_send now (state (heap (others now 4 s1) a)) msg pid = (r2, st2)" by fastforce
  have s3: "I (set_state a st2 (others now 4 s1))" using D(2) [OF s2 k, of a now pid] t2 by simp
  show ?thesis using s0 s3 by (auto simp: wait_send_poll_def Let_def t g t2 split: sum.split bool.split)
qed

lemma closed_wait_receive_poll:
  assumes c: "closed I others" and s: "I s"
  shows "I (fst (snd (wait_receive_poll now others a mt fl sz pid w s)))"
proof -
  note D = closedD [OF c]
  obtain r st where t: "try_receive now (state (heap s a)) mt fl sz pid = (r, st)" by fastforce
  have s0: "I (set_state a st s)" using D(3) [OF s, of a now mt fl sz pid] t by simp
  obtain s1 woken where g: "register_receiver w a (others now 3 (set_state a st s)) = (s1, woken)" by fastforce
  have "I (fst (register_receiver w a (others now 3 (set_state a st s))))" by (intro D(5) D(10) s0)
  then have s2: "I (others now 4 s1)" unfolding g by (intro D(10)) simp
  obtain r2 st2 where t2: "try_receive now (state (heap (others now 4 s1) a)) mt fl sz pid = (r2, st2)" by fastforce
  have s3: "I (set_state a st2 (others now 4 s1))" using D(3) [OF s2, of a now mt fl sz pid] t2 by simp
  show ?thesis using s0 s3 by (auto simp: wait_receive_poll_def Let_def t g t2 split: sum.split option.split)
qed

lemma closed_wait_send:
  assumes c: "closed I others" and s: "I s" and k: "0 < m_kind msg" and e: "env_keeps I evs"
  shows "I (fst (snd (wait_send s others a msg pid w evs)))"
  unfolding wait_send_def
proof (rule block_on_keeps [OF _ s e])
  fix now s1 assume "I s1"
  from closed_wait_send_poll [OF c this k, of now a pid w]
  show "I (fst (snd (let (r, s2, woken) = wait_send_poll now others a msg pid w s1
      in (map_poll (map_sum id (\<lambda>_. 0)) r, s2, woken))))"
    by (simp add: split_beta)
qed

lemma closed_wait_receive:
  assumes c: "closed I others" and s: "I s" and e: "env_keeps I evs"
  shows "I (fst (snd (wait_receive s others a mt fl sz pid w evs)))"
  unfolding wait_receive_def by (rule block_on_keeps [OF closed_wait_receive_poll [OF c] s e])

lemma closed_sys_msgget:
  assumes c: "closed I others" and s: "I s"
  shows "I (snd (sys_msgget s cur now others key fl))"
  by (auto simp: sys_msgget_def Let_def s intro!: closedD(1,10) [OF c] split: sum.split option.split)

lemma closed_sys_msgsnd:
  assumes c: "closed I others" and s: "I s" and e: "env_keeps I evs"
  shows "I (fst (snd (sys_msgsnd s cur now others rk rt w evs msqid msgp sz fl)))"
proof -
  note D = closedD [OF c]
  have s2: "I (others now 1 (others now 0 s))" by (intro D(10) s)
  have sent: "I (fst (snd (case try_send now (state (heap s2 a)) msg pid of
         (Inl e, _) \<Rightarrow> (Some (Inl e), s2, [])
       | (Inr True, st) \<Rightarrow>
           (let (s3, woken) = wake_receivers a (others now 2 (set_state a st s2)) in (Some (Inr 0), s3, woken))
       | (Inr False, _) \<Rightarrow>
           if has_flag fl IPC_NOWAIT then (Some (Inl EAGAIN), s2, [])
           else wait_send s2 others a msg pid w evs)))" (is "I (fst (snd ?r))")
    if "I s2" "0 < m_kind msg" for s2 a msg pid
  proof -
    obtain r st where t: "try_send now (state (heap s2 a)) msg pid = (r, st)" by fastforce
    have "I (set_state a st s2)" using D(2) [OF that, of a now pid] t by simp
    then have "I (fst (wake_receivers a (others now 2 (set_state a st s2))))" by (intro D(7) D(10))
    then show ?thesis using that closed_wait_send [OF c that e] by (simp add: t split_beta split: sum.split bool.split)
  qed
  show ?thesis
    by (simp add: sys_msgsnd_def Let_def s D(10) sent split: sum.split option.split)
qed

lemma closed_finish_msgrcv:
  assumes c: "closed I others" and s: "I s"
  shows "I (fst (snd (finish_msgrcv a m sz fl wr s)))"
  using s closedD(6) [OF c s, of a] by (simp add: finish_msgrcv_def Let_def split_beta split: sum.split)

lemma closed_obtain_message:
  assumes c: "closed I others" and s: "I s" and e: "env_keeps I evs"
  shows "I (fst (snd (obtain_message s now others a mt fl sz pid w evs)))"
proof -
  obtain r st where t: "try_receive now (state (heap s a)) mt fl sz pid = (r, st)" by fastforce
  have "I (set_state a st s)" using closedD(3) [OF c s, of a now mt fl sz pid] t by simp
  then show ?thesis using closed_wait_receive [OF c s e] by (simp add: obtain_message_def t split: sum.split option.split)
qed

lemma closed_sys_msgrcv:
  assumes c: "closed I others" and s: "I s" and e: "env_keeps I evs"
  shows "I (fst (snd (sys_msgrcv s cur now others wr w evs msqid sz mt fl)))"
proof -
  note D = closedD(10) [OF c]
  have got: "I (fst (snd (obtain_message (others now 1 (others now 0 s)) now others a mt fl sz pid w evs)))" for a pid
    by (intro closed_obtain_message [OF c _ e] D s)
  have fin: "I (fst (snd (finish_msgrcv a m sz fl wr (others now 2
      (fst (snd (obtain_message (others now 1 (others now 0 s)) now others a mt fl sz pid w evs)))))))" for a pid m
    by (intro closed_finish_msgrcv [OF c] D got)
  show ?thesis
    unfolding sys_msgrcv_def Let_def split_beta by (auto simp del: One_nat_def simp: s D got fin split: sum.split option.split)
qed

lemma closed_msgctl_set:
  assumes c: "closed I others" and s: "I s"
  shows "I (fst (snd (msgctl_set s cr now others ds a)))"
  using s closedD(8) [OF c s, of a now] closedD(6,10) [OF c]
  by (simp add: msgctl_set_def Let_def split_beta split: sum.split)

lemma closed_sys_msgctl:
  assumes c: "closed I others" and s: "I s"
  shows "I (fst (snd (sys_msgctl s cur now others wr ds msqid cmd)))"
  using s closedD(10) [OF c] closedD(9) [OF c] closed_msgctl_set [OF c]
  by (simp add: sys_msgctl_def msgctl_rmid_def Let_def split: sum.split)

lemma get_queue_Inr:
  "get_queue s msqid = Inr a \<Longrightarrow> ipc_ok s \<Longrightarrow> a = msqid \<and> bt_get (queues (manager s)) msqid = Some msqid"
  by (auto simp: get_queue_def ipc_ok_def ids_ok_def split: if_splits option.splits)

section \<open>Selection of a message\<close>

lemma find_message_negative:
  assumes "\<not> has_flag fl MSG_COPY" and "mt < 0" and "find_message st mt fl = Some i"
  shows "m_kind (messages st ! i) \<le> saturating_neg_i64 mt"
    and "j < length (messages st) \<Longrightarrow> m_kind (messages st ! j) \<le> saturating_neg_i64 mt \<Longrightarrow>
      (m_kind (messages st ! i), i) \<le> (m_kind (messages st ! j), j)"
proof -
  let ?f = "\<lambda>(index, m). (m_kind m, index :: nat)"
  let ?xs = "filter (\<lambda>(index, m). m_kind m \<le> saturating_neg_i64 mt) (enumerate 0 (messages st))"
  obtain m where m: "min_by_key ?f ?xs = Some (i, m)"
    using assms by (auto simp: find_message_def Let_def)
  from min_by_key_SomeD [OF m] have mem: "(i, m) \<in> set ?xs" and least: "\<forall>y \<in> set ?xs. ?f (i, m) \<le> ?f y"
    by auto
  from mem have i: "i < length (messages st)" "m = messages st ! i" "m_kind m \<le> saturating_neg_i64 mt"
    by (auto simp: in_set_enumerate_eq)
  then show "m_kind (messages st ! i) \<le> saturating_neg_i64 mt" by simp
  assume "j < length (messages st)" and "m_kind (messages st ! j) \<le> saturating_neg_i64 mt"
  then have "(j, messages st ! j) \<in> set ?xs" by (auto simp: in_set_enumerate_eq)
  with least i show "(m_kind (messages st ! i), i) \<le> (m_kind (messages st ! j), j)" by fastforce
qed

lemma find_message_None:
  "find_message st mt fl = None \<longleftrightarrow>
     (if has_flag fl MSG_COPY then mt < 0 \<or> length (messages st) \<le> nat mt
      else if mt = 0 then messages st = []
      else if mt > 0 then
        (\<forall>m \<in> set (messages st). if has_flag fl MSG_EXCEPT then m_kind m = mt else m_kind m \<noteq> mt)
      else (\<forall>m \<in> set (messages st). \<not> m_kind m \<le> saturating_neg_i64 mt))"
  by (auto simp: find_message_def Let_def filter_enumerate_Nil)

text \<open>The message that a receive asks for, by its type argument and flags\<close>

definition wanted :: "QueueState \<Rightarrow> int \<Rightarrow> flags \<Rightarrow> nat \<Rightarrow> bool" where
  "wanted st mt fl i \<longleftrightarrow> i < length (messages st) \<and>
     (if has_flag fl MSG_COPY then int i = mt
      else if mt = 0 then i = 0
      else if mt > 0 then
        (let hit = (\<lambda>j. if has_flag fl MSG_EXCEPT then m_kind (messages st ! j) \<noteq> mt else m_kind (messages st ! j) = mt)
         in hit i \<and> (\<forall>j < i. \<not> hit j))
      else m_kind (messages st ! i) \<le> - mt \<and>
        (\<forall>j < length (messages st). m_kind (messages st ! j) \<le> - mt \<longrightarrow>
           m_kind (messages st ! i) < m_kind (messages st ! j) \<or>
           m_kind (messages st ! i) = m_kind (messages st ! j) \<and> i \<le> j))"

lemma saturating_neg_limit: "k \<le> 2 ^ 63 - 1 \<Longrightarrow> mt < 0 \<Longrightarrow> k \<le> saturating_neg_i64 mt \<longleftrightarrow> k \<le> - mt"
  by (auto simp: saturating_neg_i64_def clamp_i64_def i64_max_def i64_min_def)

lemma find_message_wanted:
  assumes kinds: "\<forall>m \<in> set (messages st). m_kind m \<le> 2 ^ 63 - 1" and f: "find_message st mt fl = Some i"
  shows "wanted st mt fl i"
proof -
  note lt = find_message_in_range [OF f]
  have kind: "m_kind (messages st ! j) \<le> 2 ^ 63 - 1" if "j < length (messages st)" for j using kinds that by simp
  show ?thesis
  proof (cases "\<not> has_flag fl MSG_COPY \<and> mt < 0")
    case True
    then have neg: "m_kind (messages st ! i) \<le> saturating_neg_i64 mt"
      "\<And>j. j < length (messages st) \<Longrightarrow> m_kind (messages st ! j) \<le> saturating_neg_i64 mt \<Longrightarrow>
        (m_kind (messages st ! i), i) \<le> (m_kind (messages st ! j), j)"
      using find_message_negative [OF _ _ f] by blast+
    have "m_kind (messages st ! i) \<le> - mt" using neg(1) saturating_neg_limit [OF kind [OF lt]] True by blast
    moreover have "m_kind (messages st ! i) < m_kind (messages st ! j) \<or> m_kind (messages st ! i) = m_kind (messages st ! j) \<and> i \<le> j"
      if "j < length (messages st)" "m_kind (messages st ! j) \<le> - mt" for j
      using neg(2) [OF that(1)] saturating_neg_limit [OF kind [OF that(1)]] True that(2) by (auto simp: less_eq_prod_simp)
    ultimately show ?thesis using lt True by (simp add: wanted_def)
  next
    case False
    then show ?thesis using f lt by (auto simp: wanted_def find_message_def Let_def split: if_splits dest: position_SomeD)
  qed
qed

lemma wanted_not_less:
  assumes "wanted st mt fl i" "wanted st mt fl j"
  shows "\<not> i < j"
proof
  assume lt: "i < j"
  show False
  proof (cases "has_flag fl MSG_COPY \<or> 0 \<le> mt")
    case True
    then show False using assms lt unfolding wanted_def Let_def by (metis linorder_neq_iff not_less of_nat_eq_iff)
  next
    case False
    let ?k = "\<lambda>n. m_kind (messages st ! n)"
    have "?k i < ?k j \<or> ?k i = ?k j \<and> i \<le> j" "?k j < ?k i \<or> ?k j = ?k i \<and> j \<le> i"
      using assms False by (auto simp: wanted_def)
    then show False using lt by linarith
  qed
qed

lemma wanted_unique: "wanted st mt fl i \<Longrightarrow> wanted st mt fl j \<Longrightarrow> i = j"
  using wanted_not_less [of st mt fl i j] wanted_not_less [of st mt fl j i] by simp

lemma wanted_found:
  assumes kinds: "\<forall>m \<in> set (messages st). m_kind m \<le> 2 ^ 63 - 1" and w: "wanted st mt fl i"
  shows "find_message st mt fl \<noteq> None"
proof
  assume none: "find_message st mt fl = None"
  have lt: "i < length (messages st)" and mem: "messages st ! i \<in> set (messages st)" using w by (auto simp: wanted_def)
  show False
  proof (cases "\<not> has_flag fl MSG_COPY \<and> mt < 0")
    case True
    then have "m_kind (messages st ! i) \<le> - mt" using w by (simp add: wanted_def)
    then have "m_kind (messages st ! i) \<le> saturating_neg_i64 mt" using saturating_neg_limit kinds mem True by blast
    then show False using none mem True unfolding find_message_None by simp
  next
    case False
    then show False using none lt mem w unfolding find_message_None by (auto simp: wanted_def Let_def split: if_splits)
  qed
qed

section \<open>Properties\<close>

text \<open>
  C1. However the message-queue calls of any number of tasks interleave, the id table, the key table
  and the queue objects stay consistent.  The locks are released between the critical sections of a
  call (so that \<^verbatim>\<open>msgget\<close> looks a key up in one section and creates the queue in another), and in every
  gap, and while a call sleeps, the other tasks run any number of sections of their own.  Starting
  from the empty tables, what a call leaves behind is again reached by such sections, and in it: the
  ids are positive and below the next id; a queue object is marked removed exactly when it is not in
  the id table; its byte count is the size of the stored texts, and their types are positive; every
  key in the key table names a live queue created with it; there are at most MSGMNI queues.
\<close>

theorem msg_syscalls_keep_tables_consistent:
  assumes start: "manager s0 = MsgManager_new" and run: "msg_section\<^sup>*\<^sup>* s0 s"
    and others: "\<And>n i s. msg_section\<^sup>*\<^sup>* s (others n i s)"
    and evs: "\<And>g n s. Resume g n \<in> set evs \<Longrightarrow> msg_section\<^sup>*\<^sup>* s (g s)"
    and s': "s' \<in> {snd (sys_msgget s cur now others key fl),
      fst (snd (sys_msgsnd s cur now others rk rt w evs msqid msgp sz fl)),
      fst (snd (sys_msgrcv s cur now others wr w evs msqid sz mt fl)),
      fst (snd (sys_msgctl s cur now others wv ds msqid cmd))}"
  shows "msg_section\<^sup>*\<^sup>* s0 s' \<and> ipc_ok s'"
proof -
  have c: "closed (\<lambda>x. msg_section\<^sup>*\<^sup>* s0 x) others"
    unfolding closed_def using others by (meson rtranclp.rtrancl_into_rtrancl rtranclp_trans)
  have e: "env_keeps (\<lambda>x. msg_section\<^sup>*\<^sup>* s0 x) evs"
    unfolding env_keeps_def using evs by (meson rtranclp_trans)
  have "msg_section\<^sup>*\<^sup>* s0 s'"
    using s' by (elim insertE emptyE) (simp_all add: closed_sys_msgget [OF c run] closed_sys_msgsnd [OF c run e]
        closed_sys_msgrcv [OF c run e] closed_sys_msgctl [OF c run])
  then show ?thesis using ipc_ok_sections ipc_ok_start [OF start] by blast
qed

definition demo_ipc :: ipc where
  "demo_ipc = \<lparr>manager = MsgManager_new, heap = (\<lambda>_. new_queue 0 0 0 0 0)\<rparr>"

lemma demo_ipc_ok: "ipc_ok demo_ipc"
  by (rule ipc_ok_start) (simp add: demo_ipc_def)

definition root_creds :: creds where
  "root_creds = \<lparr>c_uid = 0, c_gid = 0, c_pid = 1\<rparr>"

text \<open>No other task runs; another task creates a queue with the key 42 in every gap.\<close>

definition quiet :: gaps where
  "quiet n i s = s"

definition racing :: gaps where
  "racing n i s = snd (create_queue s n 42 896 0 0)"

lemma quiet_simp [simp]: "quiet n i s = s"
  by (simp add: quiet_def)


lemma racing_msgget:
  "sys_msgget demo_ipc (Some root_creds) 7 racing 42 1920 =
     (Inr 2, \<lparr>manager = \<lparr>next_id = 3, queues = [(1, 1), (2, 2)], keys = [(42, 2)]\<rparr>,
              heap = (heap demo_ipc)(1 := new_queue 42 896 0 0 7, 2 := new_queue 42 1920 0 0 7)\<rparr>)"
  by (simp add: demo_ipc_def MsgManager_new_def sys_msgget_def current_credentials_def create_queue_def racing_def
      root_creds_def checked_add_i32_def i32_max_def msg_consts)

theorem msg_syscalls_keep_tables_consistent_witness:
  "ipc_ok (snd (sys_msgget demo_ipc (Some root_creds) 7 racing 42 1920))
   \<and> bt_get (keys (manager (snd (sys_msgget demo_ipc (Some root_creds) 7 racing 42 1920)))) 42 = Some 2"
proof -
  have m: "manager demo_ipc = MsgManager_new" by (simp add: demo_ipc_def)
  have o: "msg_section\<^sup>*\<^sup>* s (racing n i s)" for n i s unfolding racing_def by (rule r_into_rtranclp) (rule msg_section.create)
  have e: "Resume g n \<in> set [] \<Longrightarrow> msg_section\<^sup>*\<^sup>* s (g s)" for g n s by simp
  let ?s = "snd (sys_msgget demo_ipc (Some root_creds) 7 racing 42 1920)"
  have "ipc_ok ?s"
    using msg_syscalls_keep_tables_consistent [where s' = ?s and others = racing and evs = "[]" and cur = "Some root_creds" and now = 7
        and key = 42 and fl = 1920, OF m rtranclp.rtrancl_refl] o e by simp
  then show ?thesis by (simp add: racing_msgget)
qed

text \<open>
  Alone between its lookup and its creation, \<^verbatim>\<open>msgget\<close> also keeps the converse: every live queue with a
  key is listed under it.
\<close>

lemma msgget_alone_keeps_keys_complete:
  assumes ok: "ipc_ok s" and complete: "keys_complete s"
  shows "keys_complete (snd (sys_msgget s cur now quiet key fl))"
proof -
  have "keys_complete (snd (create_queue s now key fl uid gid))"
    if fresh: "key \<noteq> IPC_PRIVATE \<longrightarrow> bt_get (keys (manager s)) key = None" for uid gid
  proof (cases "length (queues (manager s)) \<ge> MSGMNI \<or> checked_add_i32 (next_id (manager s)) 1 = None")
    case True
    with complete show ?thesis by (auto simp: create_queue_def Let_def)
  next
    case False
    let ?n = "next_id (manager s)"
    define s' where "s' = s\<lparr>manager := \<lparr>next_id = ?n + 1, queues = bt_insert ?n ?n (queues (manager s)),
        keys = (if key \<noteq> IPC_PRIVATE then bt_insert key ?n (keys (manager s)) else keys (manager s))\<rparr>,
        heap := (heap s)(?n := new_queue key fl uid gid now)\<rparr>"
    have "snd (create_queue s now key fl uid gid) = s'"
      using False by (auto simp: s'_def create_queue_def Let_def checked_add_i32_def split: if_splits)
    moreover have "keys_complete s'"
      using complete fresh by (auto simp: keys_complete_def s'_def new_queue_def)
    ultimately show ?thesis by simp
  qed
  then show ?thesis using complete by (auto simp: sys_msgget_def Let_def split: sum.split option.split)
qed

text \<open>
  C22. \<^verbatim>\<open>msgrcv\<close> picks exactly the message the manual page asks for, and none exactly when there is
  no such message: with MSG_COPY the one at the given position; otherwise the oldest one for type 0,
  the oldest of the type (or, with MSG_EXCEPT, of another type) for a positive type, and for a
  negative type the oldest among those of the least type not above its absolute value.  The types of
  the stored messages are 64-bit integers.
\<close>

theorem find_message_picks_as_documented:
  assumes "\<forall>m \<in> set (messages st). m_kind m \<le> 2 ^ 63 - 1"
  shows "find_message st mt fl = Some i \<longleftrightarrow> i < length (messages st) \<and>
     (if has_flag fl MSG_COPY then int i = mt
      else if mt = 0 then i = 0
      else if mt > 0 then
        (let hit = (\<lambda>j. if has_flag fl MSG_EXCEPT then m_kind (messages st ! j) \<noteq> mt else m_kind (messages st ! j) = mt)
         in hit i \<and> (\<forall>j < i. \<not> hit j))
      else m_kind (messages st ! i) \<le> - mt \<and>
        (\<forall>j < length (messages st). m_kind (messages st ! j) \<le> - mt \<longrightarrow>
           m_kind (messages st ! i) < m_kind (messages st ! j) \<or>
           m_kind (messages st ! i) = m_kind (messages st ! j) \<and> i \<le> j))"
  unfolding wanted_def [symmetric]
proof
  show "wanted st mt fl i" if "find_message st mt fl = Some i" using find_message_wanted [OF assms that] .
  show "find_message st mt fl = Some i" if w: "wanted st mt fl i"
  proof -
    obtain j where j: "find_message st mt fl = Some j" using wanted_found [OF assms w] by blast
    then show ?thesis using wanted_unique [OF w find_message_wanted [OF assms j]] by simp
  qed
qed

definition demo_state :: QueueState where
  "demo_state = (state (new_queue 0 384 0 0 0))
     \<lparr>messages := [\<lparr>m_kind = 5, m_text = [1, 2]\<rparr>, \<lparr>m_kind = 3, m_text = [9]\<rparr>, \<lparr>m_kind = 3, m_text = []\<rparr>],
      bytes := 3\<rparr>"

theorem find_message_picks_as_documented_witness:
  "find_message demo_state (-4) 0 = Some 1 \<and> find_message demo_state (-2) 0 = None \<and> find_message demo_state 2 MSG_COPY = Some 2"
proof -
  have k: "\<forall>m \<in> set (messages demo_state). m_kind m \<le> 2 ^ 63 - 1" by (simp add: demo_state_def)
  note T = find_message_picks_as_documented [OF k]
  have m: "length (messages demo_state) = 3" "m_kind (messages demo_state ! 0) = 5" "m_kind (messages demo_state ! 1) = 3"
    "m_kind (messages demo_state ! 2) = 3" by (simp_all add: demo_state_def)
  have all: "(\<forall>j < 3. P j) \<longleftrightarrow> P 0 \<and> P 1 \<and> P 2" for P :: "nat \<Rightarrow> bool"
    by (auto simp: numeral_3_eq_3 less_Suc_eq numeral_2_eq_2)
  have "find_message demo_state (-4) 0 = Some 1" unfolding T m(1) all by (simp add: m m(3) [simplified])
  moreover have "find_message demo_state (-2) 0 = None"
    unfolding find_message_None by (simp add: demo_state_def saturating_neg_i64_def clamp_i64_def i64_max_def i64_min_def)
  moreover have "find_message demo_state 2 MSG_COPY = Some 2" unfolding T m(1) by (simp add: msg_consts)
  ultimately show ?thesis by blast
qed




text \<open>
  Removing a queue wakes every task blocked on it, takes its id and its key out of the
  tables, and makes every later poll of a sender or receiver that still holds the object
  return EIDRM.
\<close>

lemma msg_rmid_releases_all_waiters:
  assumes ok: "ipc_ok s" and q: "bt_get (queues (manager s)) msqid = Some a" and r: "remove_queue msqid s = (ret, s', woken)"
  shows "ret = Inr 0
    \<and> set woken = set (entries (recv_wait (heap s a))) \<union> set (entries (send_wait (heap s a)))
    \<and> get_queue s' msqid = Inl EINVAL
    \<and> (\<forall>key. bt_get (keys (manager s')) key \<noteq> Some msqid)
    \<and> fst (wait_send_poll t others a msg pid w s') = Ready (Inl EIDRM)
    \<and> fst (wait_receive_poll t others a mt fl sz pid w s') = Ready (Inl EIDRM)"
proof -
  have a: "a = msqid" using ok q by (auto simp: ipc_ok_def ids_ok_def)
  have ok': "ipc_ok s'" using ipc_ok_remove_queue [OF ok, of msqid] r by simp
  have gone: "bt_get (queues (manager s')) msqid = None"
    and marked: "removed (state (heap s' msqid))" and "ret = Inr 0"
    and "set woken = set (entries (recv_wait (heap s a))) \<union> set (entries (send_wait (heap s a)))"
    using r q a by (auto simp: remove_queue_def Let_def PollSet_wake_def)
  moreover have "\<forall>key. bt_get (keys (manager s')) key \<noteq> Some msqid"
    using ok' gone by (auto simp: ipc_ok_def keys_ok_def)
  ultimately show ?thesis
    using a by (auto simp: get_queue_def wait_send_poll_def wait_receive_poll_def try_send_def try_receive_def)
qed

text \<open>
  A sender that had to wait stores its message without waking the receivers: polling
  \<^verbatim>\<open>wait_send\<close> to success never touches the receive wait set (only the tasks displaced
  from the send set can be woken), whereas the non-blocking path of \<^verbatim>\<open>msgsnd\<close> wakes
  all of them.
\<close>

lemma blocked_send_does_not_wake_receivers:
  assumes "wait_send_poll now quiet a msg pid w s = (Ready (Inr ()), s', woken)"
  shows "last (messages (state (heap s' a))) = msg
    \<and> recv_wait (heap s' a) = recv_wait (heap s a)
    \<and> set woken \<subseteq> set (entries (send_wait (heap s a)))"
  using assms
  by (auto simp: wait_send_poll_def try_send_def register_sender_def set_state_def put_queue_def Let_def
      PollSet_register_cases POLL_SET_CAPACITY_def split: if_splits dest: hd_in_set)

text \<open>
  A run that ends with a receiver asleep although its message is there: task 20 waits for type
  5 on a full queue of type 1, sender 10 waits to send type 5, a third task takes one message
  out and wakes the sender, whose message is stored; nobody wakes task 20.
\<close>

definition full_queue :: MsgQueue where
  "full_queue = (new_queue 0 384 0 0 0)\<lparr>state := (state (new_queue 0 384 0 0 0))
     \<lparr>qbytes := 1, messages := [\<lparr>m_kind = 1, m_text = [0]\<rparr>], bytes := 1\<rparr>\<rparr>"

lemma put_put_queue [simp]: "put_queue a q (put_queue a q' s) = put_queue a q s"
  by (simp add: put_queue_def)

lemma heap_put_queue [simp]: "heap (put_queue a q s) a = q"
  by (simp add: put_queue_def)

lemma blocked_send_does_not_wake_receivers_witness:
  "\<exists>q1 q2 q3 q4 st.
     wait_receive_poll 1 quiet 1 5 0 10 200 20 (put_queue 1 full_queue demo_ipc) = (Pending, put_queue 1 q1 demo_ipc, [])
     \<and> wait_send_poll 2 quiet 1 \<lparr>m_kind = 5, m_text = [7]\<rparr> 100 10 (put_queue 1 q1 demo_ipc) = (Pending, put_queue 1 q2 demo_ipc, [])
     \<and> try_receive 3 (state q2) 1 IPC_NOWAIT 10 300 = (Inr (Some \<lparr>m_kind = 1, m_text = [0]\<rparr>), st)
     \<and> finish_msgrcv 1 \<lparr>m_kind = 1, m_text = [0]\<rparr> 10 IPC_NOWAIT (\<lambda>_. Inr 0) (put_queue 1 (q2\<lparr>state := st\<rparr>) demo_ipc) =
         (Inr 1, put_queue 1 q3 demo_ipc, [10])
     \<and> wait_send_poll 4 quiet 1 \<lparr>m_kind = 5, m_text = [7]\<rparr> 100 10 (put_queue 1 q3 demo_ipc) = (Ready (Inr ()), put_queue 1 q4 demo_ipc, [])
     \<and> entries (recv_wait q4) = [20]
     \<and> find_message (state q4) 5 0 = Some 0"
proof -
  define q1 where "q1 = full_queue\<lparr>recv_wait := \<lparr>entries = [20]\<rparr>\<rparr>"
  define q2 where "q2 = q1\<lparr>send_wait := \<lparr>entries = [10]\<rparr>\<rparr>"
  define st where "st = (state q2)\<lparr>messages := [], bytes := 0, rtime := 3, lrpid := 300\<rparr>"
  define q3 where "q3 = q2\<lparr>state := st, send_wait := \<lparr>entries = []\<rparr>\<rparr>"
  define q4 where "q4 = q3\<lparr>state := st\<lparr>bytes := 1, messages := [\<lparr>m_kind = 5, m_text = [7]\<rparr>],
      stime := 4, lspid := 100\<rparr>\<rparr>"
  note defs = q1_def q2_def st_def q3_def full_queue_def new_queue_def Inner_new_def
    try_send_def try_receive_def find_message_def wait_send_poll_def wait_receive_poll_def set_state_def register_sender_def
    register_receiver_def wake_senders_def finish_msgrcv_def PollSet_register_cases PollSet_wake_def POLL_SET_CAPACITY_def
    remove_nth_def msg_consts
  have p5: "wait_send_poll 4 quiet 1 \<lparr>m_kind = 5, m_text = [7]\<rparr> 100 10 (put_queue 1 q3 demo_ipc) = (Ready (Inr ()), put_queue 1 q4 demo_ipc, [])"
    by (simp add: defs q4_def)
  have "recv_wait q4 = recv_wait q3"
    using blocked_send_does_not_wake_receivers [OF p5] by simp
  then have "entries (recv_wait q4) = [20]" by (simp add: defs)
  moreover have "find_message (state q4) 5 0 = Some 0" by (simp add: q4_def find_message_def)
  moreover have "wait_receive_poll 1 quiet 1 5 0 10 200 20 (put_queue 1 full_queue demo_ipc) = (Pending, put_queue 1 q1 demo_ipc, [])"
    by (simp add: defs)
  moreover have "wait_send_poll 2 quiet 1 \<lparr>m_kind = 5, m_text = [7]\<rparr> 100 10 (put_queue 1 q1 demo_ipc) = (Pending, put_queue 1 q2 demo_ipc, [])"
    by (simp add: defs)
  moreover have "try_receive 3 (state q2) 1 IPC_NOWAIT 10 300 = (Inr (Some \<lparr>m_kind = 1, m_text = [0]\<rparr>), st)"
    by (simp add: defs)
  moreover have "finish_msgrcv 1 \<lparr>m_kind = 1, m_text = [0]\<rparr> 10 IPC_NOWAIT (\<lambda>_. Inr 0) (put_queue 1 (q2\<lparr>state := st\<rparr>) demo_ipc) =
      (Inr 1, put_queue 1 q3 demo_ipc, [10])"
    by (simp add: defs)
  ultimately show ?thesis using p5 by blast
qed

text \<open>
  The race of \<^verbatim>\<open>msgget\<close> for a key: another task creates a queue with the key after the lookup of the
  first has failed.  Both calls succeed, even with IPC_CREAT and IPC_EXCL, with different ids, and the
  key then names only the second queue.
\<close>

lemma msgget_create_race_gives_two_queues:
  "let (r, s') = sys_msgget demo_ipc (Some root_creds) 7 racing 42 1920
   in has_flag 1920 IPC_CREAT \<and> has_flag 1920 IPC_EXCL \<and> r = Inr 2 \<and>
      get_queue s' 1 = Inr 1 \<and> get_queue s' 2 = Inr 2 \<and>
      p_key (perm (state (heap s' 1))) = 42 \<and> p_key (perm (state (heap s' 2))) = 42 \<and>
      bt_get (keys (manager s')) 42 = Some 2 \<and> \<not> keys_complete s'"
proof -
  have "\<not> keys_complete (snd (sys_msgget demo_ipc (Some root_creds) 7 racing 42 1920))"
    unfolding keys_complete_def racing_msgget by (simp add: new_queue_def msg_consts) (rule exI [of _ 1], simp)
  then show ?thesis by (simp add: racing_msgget get_queue_def new_queue_def msg_consts)
qed

end
