(* ===== verification/Ready_Queue.thy ===== *)
theory Ready_Queue
  imports Blocking "HOL-Library.Product_Lexorder" "HOL-Library.Multiset" "HOL-Library.Word"
begin

unbundle bit_operations_syntax

text \<open>
  \<^verbatim>\<open>os/src/task/scheduler\<close>: the two scheduling policies, CFS (the default) and round
  robin, over the tasks they queue.  Queue entries are weak references: a task address that
  may no longer be mapped.  The locale \<open>run_queue\<close> states what the scheduler loop relies
  on whichever policy is compiled in, that a ready task is never lost and only eligible tasks
  are handed out; both policies interpret it.
\<close>

section \<open>Tasks\<close>

definition NICE_0_LOAD :: nat where "NICE_0_LOAD = 1024"

definition NOT_RUNNING :: nat where "NOT_RUNNING = 2 ^ 64 - 1"

definition NICE_WEIGHTS :: "nat list" where
  "NICE_WEIGHTS =
     [88761, 71755, 56483, 46273, 36291, 29154, 23254, 18705, 14949, 11916, 9548, 7620, 6100, 4904,
      3906, 3121, 2501, 1991, 1586, 1277, 1024, 820, 655, 526, 423, 335, 272, 215, 172, 137, 110, 87,
      70, 56, 45, 36, 29, 23, 18, 15]"

text \<open>The values of \<^verbatim>\<open>u64\<close> are natural numbers below this bound.\<close>

definition u64_size :: nat where "u64_size = 2 ^ 64"

record SchedEntity =
  vruntime :: nat
  exec_start :: nat
  queued_mark :: bool

definition SchedEntity_new :: SchedEntity where
  "SchedEntity_new = \<lparr>vruntime = 0, exec_start = NOT_RUNNING, queued_mark = False\<rparr>"

record tcb =
  tid :: nat
  status :: TaskStatus
  running_on :: bool
  cpu_affinity :: "64 word"
  scheduled_hart :: nat
  nice :: int
  sched_entity :: SchedEntity

type_synonym addr = nat
type_synonym tasks = "addr \<Rightarrow> tcb option"

text \<open>\<open>harts\<close> is \<^verbatim>\<open>hart_count().min(MAX_SUPPORTED_HARTS)\<close>.\<close>

definition can_run_on :: "nat \<Rightarrow> nat \<Rightarrow> tcb \<Rightarrow> bool" where
  "can_run_on harts hartid t \<longleftrightarrow> hartid < harts \<and> cpu_affinity t AND push_bit hartid 1 \<noteq> 0"

section \<open>The scheduling entity\<close>

definition place_at :: "nat \<Rightarrow> SchedEntity \<Rightarrow> SchedEntity \<times> nat" where
  "place_at min_v e =
     (if vruntime e < min_v then (e\<lparr>vruntime := min_v\<rparr>, min_v) else (e, vruntime e))"

definition mark_dequeued :: "SchedEntity \<Rightarrow> SchedEntity" where
  "mark_dequeued e = e\<lparr>queued_mark := False\<rparr>"

definition entity_mark_running :: "nat \<Rightarrow> SchedEntity \<Rightarrow> SchedEntity" where
  "entity_mark_running now e = (mark_dequeued e)\<lparr>exec_start := now\<rparr>"

definition clamp_nice :: "int \<Rightarrow> int" where
  "clamp_nice n = (if n < -20 then -20 else if 19 < n then 19 else n)"

definition nice_weight :: "int \<Rightarrow> nat" where
  "nice_weight n = NICE_WEIGHTS ! nat (clamp_nice n + 20)"

definition delta_vruntime :: "nat \<Rightarrow> int \<Rightarrow> nat" where
  "delta_vruntime delta_exec n = min (delta_exec * NICE_0_LOAD div nice_weight n) (2 ^ 64 - 1)"

definition account_runtime :: "nat \<Rightarrow> int \<Rightarrow> SchedEntity \<Rightarrow> SchedEntity" where
  "account_runtime now n e =
     (let start = exec_start e; e1 = e\<lparr>exec_start := NOT_RUNNING\<rparr>
      in if start = NOT_RUNNING then e1
         else (let delta_exec = (now + u64_size - start) mod u64_size
               in e1\<lparr>vruntime := (vruntime e1 + delta_vruntime delta_exec n) mod u64_size\<rparr>))"

definition try_mark_queued :: "SchedEntity \<Rightarrow> SchedEntity \<times> bool" where
  "try_mark_queued e = (if queued_mark e then (e, False) else (e\<lparr>queued_mark := True\<rparr>, True))"

section \<open>CFS\<close>

text \<open>
  The heap is kept as the list of its entries; \<^verbatim>\<open>pop\<close> removes the first entry of
  least key.
\<close>

record CfsEntry =
  key :: "nat \<times> nat"
  entry_task :: addr

record cfs =
  mem :: tasks
  heap :: "CfsEntry list"
  min_vruntime :: nat

definition heap_pop :: "CfsEntry list \<Rightarrow> (CfsEntry \<times> CfsEntry list) option" where
  "heap_pop h = (case min_by_key key h of None \<Rightarrow> None | Some e \<Rightarrow> Some (e, remove1 e h))"

definition heap_peek :: "CfsEntry list \<Rightarrow> CfsEntry option" where
  "heap_peek h = min_by_key key h"

definition advance_min_vruntime :: "nat \<Rightarrow> cfs \<Rightarrow> cfs" where
  "advance_min_vruntime current q =
     (let candidate = (case heap_peek (heap q) of None \<Rightarrow> current | Some e \<Rightarrow> min (fst (key e)) current)
      in q\<lparr>min_vruntime := max (min_vruntime q) candidate\<rparr>)"

definition put_task :: "addr \<Rightarrow> tcb \<Rightarrow> tasks \<Rightarrow> tasks" where
  "put_task a t m = m(a := Some t)"

text \<open>The caller holds a reference, so the task exists; an unmapped address changes nothing.\<close>

definition cfs_add_task :: "addr \<Rightarrow> cfs \<Rightarrow> nat option \<times> cfs" where
  "cfs_add_task a q =
     (case mem q a of
        None \<Rightarrow> (None, q)
      | Some t \<Rightarrow>
          if status t \<noteq> TReady \<or> running_on t then (None, q)
          else
            (let (e, claimed) = try_mark_queued (sched_entity t) in
             if \<not> claimed then (None, q)
             else
               (let (e1, v) = place_at (min_vruntime q) e;
                    heap1 = heap q @ [\<lparr>key = (v, tid t), entry_task = a\<rparr>]
                in (Some (length heap1),
                    q\<lparr>mem := put_task a (t\<lparr>sched_entity := e1\<rparr>) (mem q), heap := heap1\<rparr>))))"

fun cfs_fetch_loop :: "nat \<Rightarrow> nat \<Rightarrow> nat \<Rightarrow> cfs \<Rightarrow> addr option \<times> cfs" where
  "cfs_fetch_loop 0 harts hartid q = (None, q)"
| "cfs_fetch_loop (Suc n) harts hartid q =
     (case heap_pop (heap q) of
        None \<Rightarrow> (None, q)
      | Some (entry, rest) \<Rightarrow>
          (let a = entry_task entry; q1 = q\<lparr>heap := rest\<rparr> in
           case mem q a of
             None \<Rightarrow> cfs_fetch_loop n harts hartid q1
           | Some t \<Rightarrow>
               if status t \<noteq> TReady then
                 cfs_fetch_loop n harts hartid
                   (q1\<lparr>mem := put_task a (t\<lparr>sched_entity := mark_dequeued (sched_entity t)\<rparr>) (mem q1)\<rparr>)
               else if \<not> can_run_on harts hartid t then
                 cfs_fetch_loop n harts hartid
                   (q1\<lparr>heap := rest @ [\<lparr>key = key entry, entry_task = a\<rparr>]\<rparr>)
               else
                 (Some a, advance_min_vruntime (fst (key entry))
                    (q1\<lparr>mem := put_task a (t\<lparr>status := TRunning,
                          sched_entity := mark_dequeued (sched_entity t)\<rparr>) (mem q1)\<rparr>))))"

definition cfs_fetch_task :: "nat \<Rightarrow> nat \<Rightarrow> cfs \<Rightarrow> addr option \<times> cfs" where
  "cfs_fetch_task harts hartid q = cfs_fetch_loop (length (heap q)) harts hartid q"

definition cfs_ready_procs_num :: "cfs \<Rightarrow> nat" where
  "cfs_ready_procs_num q = length (heap q)"

definition cfs_has_ready_for_hart :: "nat \<Rightarrow> nat \<Rightarrow> cfs \<Rightarrow> bool" where
  "cfs_has_ready_for_hart harts hartid q =
     list_ex (\<lambda>e. case mem q (entry_task e) of None \<Rightarrow> False | Some t \<Rightarrow> can_run_on harts hartid t) (heap q)"

definition cfs_mark_running :: "nat \<Rightarrow> addr \<Rightarrow> cfs \<Rightarrow> cfs" where
  "cfs_mark_running now a q =
     (case mem q a of
        None \<Rightarrow> q
      | Some t \<Rightarrow> q\<lparr>mem := put_task a (t\<lparr>sched_entity := entity_mark_running now (sched_entity t)\<rparr>) (mem q)\<rparr>)"

definition cfs_account_current :: "nat \<Rightarrow> addr \<Rightarrow> cfs \<Rightarrow> cfs" where
  "cfs_account_current now a q =
     (case mem q a of
        None \<Rightarrow> q
      | Some t \<Rightarrow>
          (let e = account_runtime now (nice t) (sched_entity t)
           in advance_min_vruntime (vruntime e) (q\<lparr>mem := put_task a (t\<lparr>sched_entity := e\<rparr>) (mem q)\<rparr>)))"

section \<open>Round robin\<close>

record rr =
  rr_mem :: tasks
  rr_tasks :: "(nat \<times> addr) list"
  queued_tids :: "nat set"

definition rr_add_task :: "addr \<Rightarrow> rr \<Rightarrow> rr" where
  "rr_add_task a q =
     (case rr_mem q a of
        None \<Rightarrow> q
      | Some t \<Rightarrow>
          if status t \<noteq> TReady \<or> running_on t then q
          else if tid t \<in> queued_tids q then q
          else q\<lparr>queued_tids := insert (tid t) (queued_tids q), rr_tasks := rr_tasks q @ [(tid t, a)]\<rparr>)"

fun rr_fetch_loop :: "nat \<Rightarrow> nat \<Rightarrow> rr \<Rightarrow> addr option \<times> rr" where
  "rr_fetch_loop 0 hartid q = (None, q)"
| "rr_fetch_loop (Suc n) hartid q =
     (case rr_tasks q of
        [] \<Rightarrow> (None, q)
      | (i, a) # rest \<Rightarrow>
          (let q1 = q\<lparr>rr_tasks := rest\<rparr> in
           case rr_mem q a of
             None \<Rightarrow> rr_fetch_loop n hartid (q1\<lparr>queued_tids := queued_tids q1 - {i}\<rparr>)
           | Some t \<Rightarrow>
               if scheduled_hart t = hartid then
                 (let q2 = q1\<lparr>queued_tids := queued_tids q1 - {i}\<rparr>
                  in if status t \<noteq> TReady then rr_fetch_loop n hartid q2 else (Some a, q2))
               else rr_fetch_loop n hartid (q1\<lparr>rr_tasks := rest @ [(i, a)]\<rparr>)))"

definition rr_fetch_task :: "nat \<Rightarrow> rr \<Rightarrow> addr option \<times> rr" where
  "rr_fetch_task hartid q = rr_fetch_loop (length (rr_tasks q)) hartid q"

definition rr_ready_procs_num :: "rr \<Rightarrow> nat" where
  "rr_ready_procs_num q = length (rr_tasks q)"

definition rr_has_ready_for_hart :: "nat \<Rightarrow> rr \<Rightarrow> bool" where
  "rr_has_ready_for_hart hartid q =
     list_ex (\<lambda>e. case rr_mem q (snd e) of None \<Rightarrow> False | Some t \<Rightarrow> scheduled_hart t = hartid) (rr_tasks q)"

section \<open>What the scheduler loop relies on\<close>

datatype 'h rq_op = Add addr | Fetch 'h

fun rq_run :: "(addr \<Rightarrow> 's \<Rightarrow> 's) \<Rightarrow> ('h \<Rightarrow> 's \<Rightarrow> addr option \<times> 's) \<Rightarrow> 'h rq_op list \<Rightarrow> 's \<Rightarrow> ('h \<times> addr) list \<times> 's" where
  "rq_run add fetch [] s = ([], s)"
| "rq_run add fetch (Add a # ops) s = rq_run add fetch ops (add a s)"
| "rq_run add fetch (Fetch h # ops) s =
     (case fetch h s of
        (None, s1) \<Rightarrow> rq_run add fetch ops s1
      | (Some a, s1) \<Rightarrow> (let (got, s2) = rq_run add fetch ops s1 in ((h, a) # got, s2)))"

locale run_queue =
  fixes ok :: "'s \<Rightarrow> bool"
    and members :: "'s \<Rightarrow> addr set"
    and is_ready :: "'s \<Rightarrow> addr \<Rightarrow> bool"
    and parked :: "'s \<Rightarrow> addr \<Rightarrow> bool"
    and eligible :: "'h \<Rightarrow> 's \<Rightarrow> addr \<Rightarrow> bool"
    and add :: "addr \<Rightarrow> 's \<Rightarrow> 's"
    and fetch :: "'h \<Rightarrow> 's \<Rightarrow> addr option \<times> 's"
  assumes add_ok: "ok s \<Longrightarrow> ok (add a s)"
    and add_member: "ok s \<Longrightarrow> is_ready s a \<Longrightarrow> parked s a \<Longrightarrow> a \<in> members (add a s)"
    and add_keeps: "ok s \<Longrightarrow> members s \<subseteq> members (add a s)"
    and add_frame: "ok s \<Longrightarrow> is_ready (add a s) u = is_ready s u"
    and fetch_ok: "ok s \<Longrightarrow> ok (snd (fetch h s))"
    and fetch_some: "ok s \<Longrightarrow> fst (fetch h s) = Some a \<Longrightarrow>
      a \<in> members s \<and> is_ready s a \<and> eligible h s a \<and> a \<notin> members (snd (fetch h s))"
    and fetch_keeps: "ok s \<Longrightarrow> u \<in> members s \<Longrightarrow> is_ready s u \<Longrightarrow> fst (fetch h s) \<noteq> Some u \<Longrightarrow>
      u \<in> members (snd (fetch h s)) \<and> is_ready (snd (fetch h s)) u"
begin

lemma queued_task_not_lost:
  "ok s \<Longrightarrow> u \<in> members s \<Longrightarrow> is_ready s u \<Longrightarrow>
   u \<in> snd ` set (fst (rq_run add fetch ops s)) \<or>
   u \<in> members (snd (rq_run add fetch ops s)) \<and> is_ready (snd (rq_run add fetch ops s)) u"
proof (induction ops arbitrary: s)
  case (Cons x ops)
  note prems = Cons.prems
  show ?case
  proof (cases x)
    case (Add a)
    then show ?thesis
      using Cons.IH [of "add a s"] prems add_ok [OF prems(1)] add_keeps [OF prems(1), of a]
        add_frame [OF prems(1)] by auto
  next
    case (Fetch h)
    obtain r s1 where r: "fetch h s = (r, s1)" by (cases "fetch h s")
    show ?thesis
    proof (cases "r = Some u")
      case True
      then show ?thesis using r Fetch by (simp split: prod.split)
    next
      case False
      then have "u \<in> snd ` set (fst (rq_run add fetch ops s1)) \<or>
          u \<in> members (snd (rq_run add fetch ops s1)) \<and> is_ready (snd (rq_run add fetch ops s1)) u"
        using Cons.IH [of s1] fetch_ok [OF prems(1), of h] fetch_keeps [OF prems, of h] r by simp
      then show ?thesis using r Fetch by (cases r) (auto split: prod.split)
    qed
  qed
qed simp

lemma woken_task_not_lost:
  assumes "ok s" and "is_ready s u" and "parked s u"
  shows "u \<in> snd ` set (fst (rq_run add fetch (Add u # ops) s)) \<or>
    u \<in> members (snd (rq_run add fetch (Add u # ops) s)) \<and> is_ready (snd (rq_run add fetch (Add u # ops) s)) u"
  using queued_task_not_lost [of "add u s" u ops] add_ok add_member add_frame assms by simp

end

section \<open>The heap of CFS\<close>

lemma heap_popD:
  "heap_pop h = Some (e, rest) \<Longrightarrow> e \<in> set h \<and> rest = remove1 e h \<and> (\<forall>e' \<in> set h. key e \<le> key e')"
  by (auto simp: heap_pop_def split: option.splits dest: min_by_key_SomeD)

lemma heap_pop_None [simp]: "heap_pop h = None \<longleftrightarrow> h = []"
  by (auto simp: heap_pop_def split: option.splits)

definition cfs_members :: "cfs \<Rightarrow> addr set" where
  "cfs_members q = entry_task ` set (heap q)"

definition cfs_is_ready :: "cfs \<Rightarrow> addr \<Rightarrow> bool" where
  "cfs_is_ready q a = (case mem q a of None \<Rightarrow> False | Some t \<Rightarrow> status t = TReady)"

definition cfs_parked :: "cfs \<Rightarrow> addr \<Rightarrow> bool" where
  "cfs_parked q a = (case mem q a of None \<Rightarrow> False | Some t \<Rightarrow> \<not> running_on t)"

definition cfs_eligible :: "nat \<Rightarrow> nat \<Rightarrow> cfs \<Rightarrow> addr \<Rightarrow> bool" where
  "cfs_eligible harts h q a = (case mem q a of None \<Rightarrow> False | Some t \<Rightarrow> can_run_on harts h t)"

definition cfs_ok :: "cfs \<Rightarrow> bool" where
  "cfs_ok q \<longleftrightarrow> distinct (map entry_task (heap q)) \<and>
     (\<forall>a t. mem q a = Some t \<longrightarrow> (queued_mark (sched_entity t) \<longleftrightarrow> a \<in> cfs_members q))"

lemma pop_members:
  assumes "distinct (map entry_task h)" and "heap_pop h = Some (e, rest)"
  shows "distinct (map entry_task rest)" and "entry_task ` set rest = entry_task ` set h - {entry_task e}"
    and "entry_task e \<in> entry_task ` set h"
proof -
  have e: "e \<in> set h" "rest = remove1 e h" using heap_popD [OF assms(2)] by auto
  have d: "distinct h" using assms(1) by (simp add: distinct_map)
  have set: "set rest = set h - {e}" using d e by simp
  then show "distinct (map entry_task rest)"
    using assms(1) d e by (simp add: distinct_map inj_on_diff)
  show "entry_task ` set rest = entry_task ` set h - {entry_task e}"
    using assms(1) e set by (auto simp: distinct_map inj_on_def)
  show "entry_task e \<in> entry_task ` set h" using e by simp
qed

text \<open>
  The entries \<^verbatim>\<open>fetch_task\<close> discards or puts back: nothing a ready task depends on
  changes.
\<close>

definition cfs_skip :: "cfs \<Rightarrow> cfs \<Rightarrow> bool" where
  "cfs_skip q q' \<longleftrightarrow> (cfs_ok q \<longrightarrow> cfs_ok q') \<and> min_vruntime q' = min_vruntime q \<and>
     (\<forall>u t. status t = TReady \<longrightarrow> (mem q' u = Some t \<longleftrightarrow> mem q u = Some t)) \<and>
     (\<forall>u. cfs_is_ready q u \<longrightarrow> (u \<in> cfs_members q' \<longleftrightarrow> u \<in> cfs_members q))"

lemma cfs_skip_is_ready: "cfs_skip q q' \<Longrightarrow> cfs_is_ready q' u = cfs_is_ready q u"
  by (auto simp: cfs_skip_def cfs_is_ready_def split: option.splits) (metis option.inject option.distinct(1))+

lemma cfs_skip_refl: "cfs_skip q q"
  by (simp add: cfs_skip_def)

lemma cfs_skip_trans:
  assumes "cfs_skip q q'" and "cfs_skip q' q''"
  shows "cfs_skip q q''"
proof -
  have "cfs_is_ready q' u = cfs_is_ready q u" for u using cfs_skip_is_ready [OF assms(1)] .
  with assms show ?thesis by (simp add: cfs_skip_def)
qed

lemma cfs_members_simps [simp]:
  "cfs_members (q\<lparr>heap := h\<rparr>) = entry_task ` set h"
  "cfs_members (q\<lparr>mem := m\<rparr>) = cfs_members q"
  "cfs_members (q\<lparr>min_vruntime := v\<rparr>) = cfs_members q"
  by (simp_all add: cfs_members_def)

lemma cfs_skip_dead:
  assumes "cfs_ok q" and "heap_pop (heap q) = Some (e, rest)" and "mem q (entry_task e) = None"
  shows "cfs_skip q (q\<lparr>heap := rest\<rparr>)"
proof -
  note pm = pop_members [OF _ assms(2)]
  have d: "distinct (map entry_task (heap q))" using assms(1) by (simp add: cfs_ok_def)
  have ne: "u \<noteq> entry_task e" if "mem q u = Some t" for u t using that assms(3) by auto
  then show ?thesis
    using pm [OF d] assms(1)
    by (auto simp: cfs_skip_def cfs_ok_def cfs_members_def [of q] cfs_is_ready_def split: option.splits)
qed

lemma cfs_skip_stale:
  assumes "cfs_ok q" and "heap_pop (heap q) = Some (e, rest)"
    and "mem q (entry_task e) = Some t" and "status t \<noteq> TReady"
  shows "cfs_skip q (q\<lparr>heap := rest,
     mem := put_task (entry_task e) (t\<lparr>sched_entity := mark_dequeued (sched_entity t)\<rparr>) (mem q)\<rparr>)"
proof -
  have d: "distinct (map entry_task (heap q))" using assms(1) by (simp add: cfs_ok_def)
  note pm = pop_members [OF d assms(2)]
  have ne: "u \<noteq> entry_task e" if "cfs_is_ready q u" for u
    using that assms(3,4) by (auto simp: cfs_is_ready_def)
  show ?thesis
    using pm assms(1,3,4) ne
    by (auto simp: cfs_skip_def cfs_ok_def cfs_members_def [of q] put_task_def mark_dequeued_def
        split: if_splits)
qed

lemma cfs_skip_put_back:
  assumes "cfs_ok q" and "heap_pop (heap q) = Some (e, rest)"
  shows "cfs_skip q (q\<lparr>heap := rest @ [\<lparr>key = key e, entry_task = entry_task e\<rparr>]\<rparr>)"
proof -
  have d: "distinct (map entry_task (heap q))" using assms(1) by (simp add: cfs_ok_def)
  note pm = pop_members [OF d assms(2)]
  then have same: "entry_task ` set (rest @ [\<lparr>key = key e, entry_task = entry_task e\<rparr>]) = cfs_members q"
    by (auto simp: cfs_members_def)
  have "distinct (map entry_task (rest @ [\<lparr>key = key e, entry_task = entry_task e\<rparr>]))"
    using pm by auto
  with same assms(1) show ?thesis
    by (simp add: cfs_skip_def cfs_ok_def del: set_append)
qed

text \<open>\<^verbatim>\<open>fetch_task\<close> skips entries and then finds nothing or takes the top of the heap.\<close>

lemma cfs_fetch_loop_cases:
  assumes "cfs_ok q" and "cfs_fetch_loop n harts h q = (r, q')"
  obtains q0 where "cfs_skip q q0" and "r = None" and "q' = q0"
  | q0 entry rest t where "cfs_skip q q0" and "heap_pop (heap q0) = Some (entry, rest)"
      and "mem q0 (entry_task entry) = Some t" and "status t = TReady" and "can_run_on harts h t"
      and "r = Some (entry_task entry)"
      and "q' = advance_min_vruntime (fst (key entry)) (q0\<lparr>heap := rest, mem := put_task (entry_task entry)
        (t\<lparr>status := TRunning, sched_entity := mark_dequeued (sched_entity t)\<rparr>) (mem q0)\<rparr>)"
  using assms
proof (induction n arbitrary: q thesis)
  case 0
  then show ?case using cfs_skip_refl by auto
next
  case (Suc n)
  note ok = Suc.prems(3)
  show ?case
  proof (cases "heap_pop (heap q)")
    case None
    then show ?thesis
      using Suc.prems(1) [OF cfs_skip_refl] Suc.prems(4) by (simp del: heap_pop_None)
  next
    case (Some er)
    then obtain e rest where pop: "heap_pop (heap q) = Some (e, rest)" by (cases er) auto
    have via: ?thesis
      if sk: "cfs_skip q q1" and loop: "cfs_fetch_loop n harts h q1 = (r, q')" for q1
    proof -
      have ok1: "cfs_ok q1" using sk ok by (simp add: cfs_skip_def)
      note tr = cfs_skip_trans [OF sk]
      show ?thesis
        by (rule Suc.IH [OF _ _ ok1 loop]) (rule Suc.prems(1) [OF tr], assumption+, rule Suc.prems(2) [OF tr])
    qed
    show ?thesis
    proof (cases "mem q (entry_task e)")
      case None
      then show ?thesis using via [OF cfs_skip_dead [OF ok pop None]] Suc.prems(4) pop by simp
    next
      case t: (Some t)
      consider "status t \<noteq> TReady" | "status t = TReady" "\<not> can_run_on harts h t"
        | "status t = TReady" "can_run_on harts h t" by blast
      then show ?thesis
      proof cases
        case 1
        then show ?thesis using via [OF cfs_skip_stale [OF ok pop t 1]] Suc.prems(4) pop t by simp
      next
        case 2
        then show ?thesis using via [OF cfs_skip_put_back [OF ok pop]] Suc.prems(4) pop t by simp
      next
        case 3
        then show ?thesis
          using Suc.prems(2) [OF cfs_skip_refl pop t 3] Suc.prems(4) pop t by (simp add: Let_def)
      qed
    qed
  qed
qed

lemma advance_simps [simp]:
  "mem (advance_min_vruntime v q) = mem q" "heap (advance_min_vruntime v q) = heap q"
  "cfs_members (advance_min_vruntime v q) = cfs_members q" "cfs_ok (advance_min_vruntime v q) = cfs_ok q"
  by (simp_all add: advance_min_vruntime_def cfs_members_def cfs_ok_def Let_def)

lemma advance_mono: "min_vruntime q \<le> min_vruntime (advance_min_vruntime v q)"
  by (simp add: advance_min_vruntime_def Let_def)

text \<open>The task taken from the top of the heap, and the queue afterwards.\<close>

lemma cfs_taken:
  assumes "cfs_ok q" and "heap_pop (heap q) = Some (e, rest)" and "mem q (entry_task e) = Some t" and "status t = TReady"
    and "q' = advance_min_vruntime v (q\<lparr>heap := rest, mem := put_task (entry_task e)
        (t\<lparr>status := TRunning, sched_entity := mark_dequeued (sched_entity t)\<rparr>) (mem q)\<rparr>)"
  shows "cfs_ok q'" and "cfs_members q' = cfs_members q - {entry_task e}"
    and "u \<noteq> entry_task e \<Longrightarrow> mem q' u = mem q u" and "entry_task e \<in> cfs_members q"
    and "\<not> cfs_is_ready q' (entry_task e)"
proof -
  have d: "distinct (map entry_task (heap q))" using assms(1) by (simp add: cfs_ok_def)
  note pm = pop_members [OF d assms(2)]
  show m: "cfs_members q' = cfs_members q - {entry_task e}" and "entry_task e \<in> cfs_members q"
    using pm by (simp_all add: assms(5) cfs_members_def [of q])
  show "u \<noteq> entry_task e \<Longrightarrow> mem q' u = mem q u" and "\<not> cfs_is_ready q' (entry_task e)"
    by (simp_all add: assms(5) put_task_def cfs_is_ready_def)
  show "cfs_ok q'"
    using assms(1) pm
    by (auto simp: assms(5) cfs_ok_def cfs_members_def [of q] put_task_def mark_dequeued_def split: if_splits)
qed

lemma cfs_fetch_ok:
  assumes "cfs_ok q"
  shows "cfs_ok (snd (cfs_fetch_task harts h q))"
    and "min_vruntime q \<le> min_vruntime (snd (cfs_fetch_task harts h q))"
proof -
  obtain r q' where f: "cfs_fetch_loop (length (heap q)) harts h q = (r, q')"
    by (cases "cfs_fetch_loop (length (heap q)) harts h q")
  have "cfs_ok q' \<and> min_vruntime q \<le> min_vruntime q'"
  proof (cases rule: cfs_fetch_loop_cases [OF assms f])
    case (1 q0)
    then show ?thesis using assms by (simp add: cfs_skip_def)
  next
    case (2 q0 e rest t)
    then have "cfs_ok q0" and v: "min_vruntime q0 = min_vruntime q" using assms by (simp_all add: cfs_skip_def)
    then have "cfs_ok q'" using cfs_taken(1) [OF _ 2(2,3,4,7)] by simp
    moreover have "min_vruntime q \<le> min_vruntime q'"
      using v advance_mono [of "q0\<lparr>heap := rest, mem := put_task (entry_task e)
        (t\<lparr>status := TRunning, sched_entity := mark_dequeued (sched_entity t)\<rparr>) (mem q0)\<rparr>" "fst (key e)"] 2(7)
      by simp
    ultimately show ?thesis ..
  qed
  with f show "cfs_ok (snd (cfs_fetch_task harts h q))"
    and "min_vruntime q \<le> min_vruntime (snd (cfs_fetch_task harts h q))"
    by (simp_all add: cfs_fetch_task_def)
qed

lemma cfs_fetch_some:
  assumes "cfs_ok q" and "fst (cfs_fetch_task harts h q) = Some a"
  shows "a \<in> cfs_members q \<and> cfs_is_ready q a \<and> cfs_eligible harts h q a \<and>
    a \<notin> cfs_members (snd (cfs_fetch_task harts h q))"
proof -
  obtain r q' where f: "cfs_fetch_loop (length (heap q)) harts h q = (r, q')"
    by (cases "cfs_fetch_loop (length (heap q)) harts h q")
  have r: "r = Some a" using f assms(2) by (simp add: cfs_fetch_task_def)
  show ?thesis
  proof (cases rule: cfs_fetch_loop_cases [OF assms(1) f])
    case (1 q0)
    then show ?thesis using r by simp
  next
    case (2 q0 e rest t)
    have "cfs_ok q0" using 2(1) assms(1) by (simp add: cfs_skip_def)
    note tk = cfs_taken [OF this 2(2,3,4,7)]
    have a: "a = entry_task e" using r 2(6) by simp
    have "mem q a = Some t" using 2(1,3,4) a by (simp add: cfs_skip_def)
    then have "cfs_is_ready q a" "cfs_eligible harts h q a" using 2(4,5) by (simp_all add: cfs_is_ready_def cfs_eligible_def)
    moreover have "a \<in> cfs_members q" using 2(1) tk(4) a \<open>cfs_is_ready q a\<close> by (simp add: cfs_skip_def)
    ultimately show ?thesis using tk(2) a f by (simp add: cfs_fetch_task_def)
  qed
qed

lemma cfs_fetch_keeps:
  assumes "cfs_ok q" and "u \<in> cfs_members q" and "cfs_is_ready q u" and "fst (cfs_fetch_task harts h q) \<noteq> Some u"
  shows "u \<in> cfs_members (snd (cfs_fetch_task harts h q)) \<and> cfs_is_ready (snd (cfs_fetch_task harts h q)) u"
proof -
  obtain r q' where f: "cfs_fetch_loop (length (heap q)) harts h q = (r, q')"
    by (cases "cfs_fetch_loop (length (heap q)) harts h q")
  have "u \<in> cfs_members q' \<and> cfs_is_ready q' u"
  proof (cases rule: cfs_fetch_loop_cases [OF assms(1) f])
    case (1 q0)
    then show ?thesis using assms(2,3) cfs_skip_is_ready [OF 1(1)] by (simp add: cfs_skip_def)
  next
    case (2 q0 e rest t)
    have "cfs_ok q0" using 2(1) assms(1) by (simp add: cfs_skip_def)
    note tk = cfs_taken [OF this 2(2,3,4,7)]
    have "u \<noteq> entry_task e" using assms(4) f 2(6) by (auto simp: cfs_fetch_task_def)
    moreover have "cfs_is_ready q0 u" using cfs_skip_is_ready [OF 2(1)] assms(3) by simp
    ultimately show ?thesis
      using 2(1) assms(2,3) tk(2,3) by (simp add: cfs_skip_def cfs_is_ready_def)
  qed
  with f show ?thesis by (simp add: cfs_fetch_task_def)
qed

lemma cfs_add_cases:
  obtains "cfs_add_task a q = (None, q)"
    and "cfs_is_ready q a \<and> cfs_parked q a \<longrightarrow> (\<exists>t. mem q a = Some t \<and> queued_mark (sched_entity t))"
  | t e where "mem q a = Some t" and "status t = TReady" and "\<not> queued_mark (sched_entity t)"
      and "queued_mark e" and "vruntime e = max (vruntime (sched_entity t)) (min_vruntime q)"
      and "cfs_add_task a q = (Some (Suc (length (heap q))),
        q\<lparr>mem := put_task a (t\<lparr>sched_entity := e\<rparr>) (mem q),
          heap := heap q @ [\<lparr>key = (vruntime e, tid t), entry_task = a\<rparr>]\<rparr>)"
proof (cases "mem q a")
  case None
  then show thesis using that(1) by (simp add: cfs_add_task_def cfs_is_ready_def)
next
  case (Some t)
  show thesis
  proof (cases "status t \<noteq> TReady \<or> running_on t \<or> queued_mark (sched_entity t)")
    case True
    then show thesis
      using that(1) Some
      by (auto simp: cfs_add_task_def cfs_is_ready_def cfs_parked_def try_mark_queued_def)
  next
    case False
    let ?e = "fst (place_at (min_vruntime q) ((sched_entity t)\<lparr>queued_mark := True\<rparr>))"
    show thesis
      using False Some
      by (intro that(2) [of t ?e]) (auto simp: cfs_add_task_def try_mark_queued_def place_at_def)
  qed
qed

interpretation cfsq: run_queue cfs_ok cfs_members cfs_is_ready cfs_parked "cfs_eligible harts"
  "\<lambda>a q. snd (cfs_add_task a q)" "cfs_fetch_task harts" for harts
proof
  fix q a assume ok: "cfs_ok q"
  show "cfs_ok (snd (cfs_add_task a q))"
  proof (cases rule: cfs_add_cases [of a q])
    case 1
    then show ?thesis using ok by simp
  next
    case (2 t e)
    have "a \<notin> cfs_members q" using ok 2(1,3) by (simp add: cfs_ok_def)
    then show ?thesis
      using ok 2 by (auto simp: cfs_ok_def cfs_members_def put_task_def)
  qed
  show "cfs_members q \<subseteq> cfs_members (snd (cfs_add_task a q))"
    by (cases rule: cfs_add_cases [of a q]) (auto simp: cfs_members_def)
  show "cfs_is_ready (snd (cfs_add_task a q)) u = cfs_is_ready q u" for u
    by (cases rule: cfs_add_cases [of a q]) (auto simp: cfs_is_ready_def put_task_def)
  show "a \<in> cfs_members (snd (cfs_add_task a q))" if "cfs_is_ready q a" "cfs_parked q a"
  proof (cases rule: cfs_add_cases [of a q])
    case 1
    then show ?thesis using ok that by (auto simp: cfs_ok_def)
  next
    case (2 t e)
    then show ?thesis by (simp add: cfs_members_def)
  qed
qed (simp_all add: cfs_fetch_ok cfs_fetch_some cfs_fetch_keeps)

section \<open>The round-robin queue\<close>

definition rr_members :: "rr \<Rightarrow> addr set" where
  "rr_members q = snd ` set (rr_tasks q)"

definition rr_is_ready :: "rr \<Rightarrow> addr \<Rightarrow> bool" where
  "rr_is_ready q a = (case rr_mem q a of None \<Rightarrow> False | Some t \<Rightarrow> status t = TReady)"

definition rr_parked :: "rr \<Rightarrow> addr \<Rightarrow> bool" where
  "rr_parked q a = (case rr_mem q a of None \<Rightarrow> False | Some t \<Rightarrow> \<not> running_on t)"

definition rr_eligible :: "nat \<Rightarrow> rr \<Rightarrow> addr \<Rightarrow> bool" where
  "rr_eligible h q a = (case rr_mem q a of None \<Rightarrow> False | Some t \<Rightarrow> scheduled_hart t = h)"

text \<open>
  The queue lists each thread id once, the set holds exactly those ids, and the id of an entry
  belongs to no live task but the entry's own.
\<close>

definition rr_ok :: "rr \<Rightarrow> bool" where
  "rr_ok q \<longleftrightarrow> distinct (map fst (rr_tasks q)) \<and> queued_tids q = fst ` set (rr_tasks q) \<and>
     (\<forall>a b t t'. rr_mem q a = Some t \<longrightarrow> rr_mem q b = Some t' \<longrightarrow> tid t = tid t' \<longrightarrow> a = b) \<and>
     (\<forall>i a b t. (i, a) \<in> set (rr_tasks q) \<longrightarrow> rr_mem q b = Some t \<longrightarrow> (tid t = i \<longleftrightarrow> b = a))"

lemma rr_okD:
  assumes "rr_ok q"
  shows "distinct (map fst (rr_tasks q))" and "queued_tids q = fst ` set (rr_tasks q)"
    and "rr_mem q a = Some t \<Longrightarrow> rr_mem q b = Some t' \<Longrightarrow> tid t = tid t' \<Longrightarrow> a = b"
    and "(i, a) \<in> set (rr_tasks q) \<Longrightarrow> rr_mem q b = Some t \<Longrightarrow> tid t = i \<longleftrightarrow> b = a"
  using assms unfolding rr_ok_def by blast+

definition rr_skip :: "rr \<Rightarrow> rr \<Rightarrow> bool" where
  "rr_skip q q' \<longleftrightarrow> (rr_ok q \<longrightarrow> rr_ok q') \<and> rr_mem q' = rr_mem q \<and>
     (\<forall>u. rr_is_ready q u \<longrightarrow> (u \<in> rr_members q' \<longleftrightarrow> u \<in> rr_members q))"

lemma rr_skip_refl: "rr_skip q q"
  by (simp add: rr_skip_def)

lemma rr_skip_trans: "rr_skip q q' \<Longrightarrow> rr_skip q' q'' \<Longrightarrow> rr_skip q q''"
  by (simp add: rr_skip_def rr_is_ready_def)

lemma rr_skip_drop:
  assumes "rr_tasks q = (i, a) # rest" and "\<not> rr_is_ready q a"
  shows "rr_skip q (q\<lparr>rr_tasks := rest, queued_tids := queued_tids q - {i}\<rparr>)"
  using assms by (auto simp: rr_skip_def rr_ok_def rr_members_def)

lemma rr_skip_rotate:
  assumes "rr_tasks q = (i, a) # rest"
  shows "rr_skip q (q\<lparr>rr_tasks := rest @ [(i, a)]\<rparr>)"
  using assms by (auto simp: rr_skip_def rr_ok_def rr_members_def)

lemma rr_fetch_loop_cases:
  assumes "rr_fetch_loop n h q = (r, q')"
  obtains q0 where "rr_skip q q0" and "r = None" and "q' = q0"
  | q0 i a rest t where "rr_skip q q0" and "rr_tasks q0 = (i, a) # rest"
      and "rr_mem q0 a = Some t" and "status t = TReady" and "scheduled_hart t = h"
      and "r = Some a" and "q' = q0\<lparr>rr_tasks := rest, queued_tids := queued_tids q0 - {i}\<rparr>"
  using assms
proof (induction n arbitrary: q thesis)
  case 0
  then show ?case using rr_skip_refl by auto
next
  case (Suc n)
  have via: ?case if "rr_skip q q1" and loop: "rr_fetch_loop n h q1 = (r, q')" for q1
    by (rule Suc.IH [OF _ _ loop])
       (rule Suc.prems(1) [OF rr_skip_trans [OF that(1)]], assumption+,
        rule Suc.prems(2) [OF rr_skip_trans [OF that(1)]])
  show ?case
  proof (cases "rr_tasks q")
    case Nil
    then show ?thesis using Suc.prems(1) [OF rr_skip_refl] Suc.prems(3) by simp
  next
    case (Cons e rest)
    then obtain i a where e: "rr_tasks q = (i, a) # rest" by (cases e) auto
    show ?thesis
    proof (cases "rr_mem q a")
      case None
      then have "\<not> rr_is_ready q a" by (simp add: rr_is_ready_def)
      from via [OF rr_skip_drop [OF e this]] Suc.prems(3) e None show ?thesis by (simp add: Let_def)
    next
      case (Some t)
      consider "scheduled_hart t \<noteq> h" | "scheduled_hart t = h" "status t \<noteq> TReady"
        | "scheduled_hart t = h" "status t = TReady" by blast
      then show ?thesis
      proof cases
        case 1
        then show ?thesis using via [OF rr_skip_rotate [OF e]] Suc.prems(3) e Some by (simp add: Let_def)
      next
        case 2
        then have "\<not> rr_is_ready q a" using Some by (simp add: rr_is_ready_def)
        from via [OF rr_skip_drop [OF e this]] Suc.prems(3) e Some 2 show ?thesis by (simp add: Let_def)
      next
        case 3
        then show ?thesis
          using Suc.prems(2) [OF rr_skip_refl e Some 3(2,1)] Suc.prems(3) e Some by (simp add: Let_def)
      qed
    qed
  qed
qed

lemma rr_taken:
  assumes "rr_ok q" and "rr_tasks q = (i, a) # rest" and "rr_mem q a = Some t"
    and "q' = q\<lparr>rr_tasks := rest, queued_tids := queued_tids q - {i}\<rparr>"
  shows "rr_ok q'" and "a \<notin> rr_members q'" and "\<And>u. u \<noteq> a \<Longrightarrow> u \<in> rr_members q' \<longleftrightarrow> u \<in> rr_members q"
proof -
  have "(j, a) \<notin> set rest" for j
  proof
    assume j: "(j, a) \<in> set rest"
    then have "tid t = j" using rr_okD(4) [OF assms(1), of j a a t] assms(2,3) by simp
    moreover have "tid t = i" using rr_okD(4) [OF assms(1), of i a a t] assms(2,3) by simp
    ultimately show False using rr_okD(1) [OF assms(1)] assms(2) j by force
  qed
  then show "a \<notin> rr_members q'" by (auto simp: assms(4) rr_members_def)
  show "rr_ok q'" and "\<And>u. u \<noteq> a \<Longrightarrow> u \<in> rr_members q' \<longleftrightarrow> u \<in> rr_members q"
    using assms(1,2) by (auto simp: assms(4) rr_ok_def rr_members_def)
qed

lemma rr_add_ok:
  assumes ok: "rr_ok q"
  shows "rr_ok (rr_add_task a q)"
proof (cases "rr_add_task a q = q")
  case False
  then obtain t where t: "rr_mem q a = Some t" "tid t \<notin> queued_tids q"
    "rr_add_task a q = q\<lparr>queued_tids := insert (tid t) (queued_tids q), rr_tasks := rr_tasks q @ [(tid t, a)]\<rparr>"
    by (auto simp: rr_add_task_def split: option.splits if_splits)
  have own: "tid t' = tid t \<longleftrightarrow> b = a" if "rr_mem q b = Some t'" for b t'
    using rr_okD(3) [OF ok that t(1)] t(1) that by auto
  let ?q = "q\<lparr>queued_tids := insert (tid t) (queued_tids q), rr_tasks := rr_tasks q @ [(tid t, a)]\<rparr>"
  have 1: "distinct (map fst (rr_tasks ?q))" and 2: "queued_tids ?q = fst ` set (rr_tasks ?q)"
    using rr_okD(1,2) [OF ok] t(2) by auto
  have 3: "c = b" if "rr_mem ?q c = Some u" "rr_mem ?q b = Some t'" "tid u = tid t'" for b c u t'
    using rr_okD(3) [OF ok, of c u b t'] that by simp
  have 4: "tid u = i \<longleftrightarrow> b = c" if "(i, c) \<in> set (rr_tasks ?q)" "rr_mem ?q b = Some u" for i b c u
    using that own [of b u] rr_okD(4) [OF ok, of i c b u] by auto
  show ?thesis
    unfolding t(3) rr_ok_def using 1 2 3 4 by blast
qed (use ok in simp)

interpretation rrq: run_queue rr_ok rr_members rr_is_ready rr_parked rr_eligible rr_add_task rr_fetch_task
proof
  fix q a assume ok: "rr_ok q"
  show "rr_ok (rr_add_task a q)" using ok by (rule rr_add_ok)
  show "rr_members q \<subseteq> rr_members (rr_add_task a q)"
    by (auto simp: rr_add_task_def rr_members_def split: option.splits)
  show "rr_is_ready (rr_add_task a q) u = rr_is_ready q u" for u
    by (simp add: rr_add_task_def rr_is_ready_def split: option.splits)
  show "a \<in> rr_members (rr_add_task a q)" if rp: "rr_is_ready q a" "rr_parked q a"
  proof -
    obtain t where t: "rr_mem q a = Some t" "status t = TReady" "\<not> running_on t"
      using rp by (auto simp: rr_is_ready_def rr_parked_def split: option.splits)
    show ?thesis
    proof (cases "tid t \<in> queued_tids q")
      case True
      then obtain b where b: "(tid t, b) \<in> set (rr_tasks q)" using rr_okD(2) [OF ok] by auto
      then have "b = a" using rr_okD(4) [OF ok b t(1)] by simp
      with b t True show ?thesis by (force simp: rr_add_task_def rr_members_def)
    qed (use t in \<open>simp add: rr_add_task_def rr_members_def\<close>)
  qed
next
  fix q h assume ok: "rr_ok q"
  obtain r q' where f: "rr_fetch_loop (length (rr_tasks q)) h q = (r, q')"
    by (cases "rr_fetch_loop (length (rr_tasks q)) h q")
  then have rf: "rr_fetch_task h q = (r, q')" by (simp add: rr_fetch_task_def)
  note cases = rr_fetch_loop_cases [OF f]
  show "rr_ok (snd (rr_fetch_task h q))"
  proof (rule cases)
    fix q0 i b rest t
    assume c: "rr_skip q q0" "rr_tasks q0 = (i, b) # rest" "rr_mem q0 b = Some t"
      "q' = q0\<lparr>rr_tasks := rest, queued_tids := queued_tids q0 - {i}\<rparr>"
    have "rr_ok q0" using c(1) ok by (simp add: rr_skip_def)
    then show ?thesis using rr_taken(1) [OF _ c(2,3,4)] rf by simp
  qed (use ok rf in \<open>simp add: rr_skip_def\<close>)
  show "a \<in> rr_members q \<and> rr_is_ready q a \<and> rr_eligible h q a \<and> a \<notin> rr_members (snd (rr_fetch_task h q))"
    if "fst (rr_fetch_task h q) = Some a" for a
  proof (rule cases)
    fix q0 i b rest t
    assume c: "rr_skip q q0" "rr_tasks q0 = (i, b) # rest" "rr_mem q0 b = Some t" "status t = TReady"
      "scheduled_hart t = h" "r = Some b" "q' = q0\<lparr>rr_tasks := rest, queued_tids := queued_tids q0 - {i}\<rparr>"
    have "rr_ok q0" "rr_mem q b = Some t" using c ok by (simp_all add: rr_skip_def)
    moreover have "b \<in> rr_members q0" using c(2) by (simp add: rr_members_def)
    ultimately show ?thesis
      using c rr_taken(2) [OF _ c(2,3,7)] that rf
      by (auto simp: rr_skip_def rr_is_ready_def rr_eligible_def)
  qed (use that rf in simp)
  show "u \<in> rr_members (snd (rr_fetch_task h q)) \<and> rr_is_ready (snd (rr_fetch_task h q)) u"
    if "u \<in> rr_members q" "rr_is_ready q u" "fst (rr_fetch_task h q) \<noteq> Some u" for u
  proof (rule cases)
    fix q0 i b rest t
    assume c: "rr_skip q q0" "rr_tasks q0 = (i, b) # rest" "rr_mem q0 b = Some t" "status t = TReady"
      "scheduled_hart t = h" "r = Some b" "q' = q0\<lparr>rr_tasks := rest, queued_tids := queued_tids q0 - {i}\<rparr>"
    have "rr_ok q0" "u \<in> rr_members q0" "rr_mem q0 = rr_mem q" using c ok that by (simp_all add: rr_skip_def)
    then show ?thesis
      using c rr_taken(3) [OF _ c(2,3,7), of u] that rf by (auto simp: rr_is_ready_def)
  qed (use that rf in \<open>auto simp: rr_skip_def rr_is_ready_def\<close>)
qed

section \<open>Selection order\<close>

lemma min_by_key_strict:
  assumes "e \<in> set h" and "\<And>e'. e' \<in> set h \<Longrightarrow> e' \<noteq> e \<Longrightarrow> f e < f e'"
  shows "min_by_key f h = Some e"
proof -
  obtain m where m: "min_by_key f h = Some m" using assms(1) by (cases "min_by_key f h") auto
  have "m \<in> set h" "f m \<le> f e" using min_by_key_SomeD [OF m] assms(1) by auto
  with assms(2) [of m] m show ?thesis by fastforce
qed

lemma cfs_fetch_loop_stuck:
  assumes "hd_e \<in> set (heap q)" and "\<And>e. e \<in> set (heap q) \<Longrightarrow> e \<noteq> hd_e \<Longrightarrow> key hd_e < key e"
    and "mem q (entry_task hd_e) = Some t" and "status t = TReady" and "\<not> can_run_on harts h t"
  shows "\<exists>h'. mset h' = mset (heap q) \<and> cfs_fetch_loop n harts h q = (None, q\<lparr>heap := h'\<rparr>)"
  using assms(1-3)
proof (induction n arbitrary: q)
  case 0
  then show ?case by (intro exI [of _ "heap q"]) simp
next
  case (Suc n)
  let ?h = "remove1 hd_e (heap q) @ [\<lparr>key = key hd_e, entry_task = entry_task hd_e\<rparr>]"
  have eta: "\<lparr>key = key hd_e, entry_task = entry_task hd_e\<rparr> = hd_e" by simp
  have pop: "heap_pop (heap q) = Some (hd_e, remove1 hd_e (heap q))"
    using min_by_key_strict [of hd_e "heap q" key] Suc.prems(1,2) by (simp add: heap_pop_def)
  have ms: "mset ?h = mset (heap q)" using Suc.prems(1) by (simp add: eta)
  then have "set ?h = set (heap q)" by (metis set_mset_mset)
  then have "\<exists>h'. mset h' = mset ?h \<and> cfs_fetch_loop n harts h (q\<lparr>heap := ?h\<rparr>) = (None, q\<lparr>heap := ?h\<rparr>\<lparr>heap := h'\<rparr>)"
    using Suc.IH [of "q\<lparr>heap := ?h\<rparr>"] Suc.prems by simp
  then show ?case
    using pop Suc.prems(3) assms(4,5) ms by (simp add: Let_def)
qed

lemma cfs_fetch_loop_least:
  assumes "length (heap q) \<le> n" and "cfs_ok q"
    and "\<And>u. u \<in> cfs_members q \<Longrightarrow> cfs_is_ready q u \<Longrightarrow> cfs_eligible harts h q u"
  shows "case fst (cfs_fetch_loop n harts h q) of
      None \<Rightarrow> \<forall>u \<in> cfs_members q. \<not> cfs_is_ready q u
    | Some a \<Rightarrow> \<exists>e \<in> set (heap q). entry_task e = a \<and>
        (\<forall>e' \<in> set (heap q). cfs_is_ready q (entry_task e') \<longrightarrow> key e \<le> key e')"
  using assms
proof (induction n arbitrary: q)
  case 0
  then show ?case by (simp add: cfs_members_def)
next
  case (Suc n)
  note ok = Suc.prems(2)
  show ?case
  proof (cases "heap_pop (heap q)")
    case None
    then have "heap q = []" by simp
    then show ?thesis using None by (simp add: cfs_members_def del: heap_pop_None)
  next
    case (Some er)
    then obtain e rest where pop: "heap_pop (heap q) = Some (e, rest)" by (cases er) auto
    note pd = heap_popD [OF pop]
    have d: "distinct (map entry_task (heap q))" using ok by (simp add: cfs_ok_def)
    then have dh: "distinct (heap q)" by (simp add: distinct_map)
    have set: "set (heap q) = insert e (set rest)" and len: "length rest \<le> n"
      using pd dh Suc.prems(1) by (auto simp: length_remove1 set_remove1_eq)
    have skip: ?thesis
      if nr: "\<not> cfs_is_ready q (entry_task e)" and sk: "cfs_skip q q1" and h1: "heap q1 = rest"
        and eq: "cfs_fetch_loop (Suc n) harts h q = cfs_fetch_loop n harts h q1" for q1
    proof -
      have ready: "cfs_is_ready q1 u = cfs_is_ready q u" for u using cfs_skip_is_ready [OF sk] .
      have "cfs_eligible harts h q1 u" if "u \<in> cfs_members q1" "cfs_is_ready q1 u" for u
      proof -
        have "u \<in> cfs_members q" "cfs_is_ready q u" using that ready sk by (auto simp: cfs_skip_def)
        moreover have "mem q1 u = mem q u"
          using sk \<open>cfs_is_ready q u\<close> by (auto simp: cfs_skip_def cfs_is_ready_def split: option.splits)
        ultimately show ?thesis using Suc.prems(3) by (simp add: cfs_eligible_def)
      qed
      moreover have "cfs_ok q1" using sk ok by (simp add: cfs_skip_def)
      ultimately have "case fst (cfs_fetch_loop n harts h q1) of
          None \<Rightarrow> \<forall>u \<in> cfs_members q1. \<not> cfs_is_ready q1 u
        | Some a \<Rightarrow> \<exists>e \<in> set (heap q1). entry_task e = a \<and>
            (\<forall>e' \<in> set (heap q1). cfs_is_ready q1 (entry_task e') \<longrightarrow> key e \<le> key e')"
        using Suc.IH [of q1] len h1 by simp
      then show ?thesis
        unfolding eq using nr set h1 ready by (auto simp: cfs_members_def split: option.splits)
    qed
    show ?thesis
    proof (cases "mem q (entry_task e)")
      case None
      then show ?thesis
        using pop by (intro skip [OF _ cfs_skip_dead [OF ok pop None]]) (simp_all add: cfs_is_ready_def)
    next
      case t: (Some t)
      show ?thesis
      proof (cases "status t = TReady")
        case False
        then show ?thesis
          using pop t by (intro skip [OF _ cfs_skip_stale [OF ok pop t False]]) (simp_all add: cfs_is_ready_def)
      next
        case True
        then have "can_run_on harts h t"
          using Suc.prems(3) [of "entry_task e"] t set by (simp add: cfs_members_def cfs_is_ready_def cfs_eligible_def)
        then show ?thesis using pop t True pd by (auto simp: Let_def)
      qed
    qed
  qed
qed

lemma clamp_nice_range: "-20 \<le> clamp_nice n \<and> clamp_nice n \<le> 19"
  by (simp add: clamp_nice_def)

lemma length_NICE_WEIGHTS: "length NICE_WEIGHTS = 40"
  by (simp add: NICE_WEIGHTS_def)

lemma nice_index: "nat (clamp_nice n + 20) < 40"
  using clamp_nice_range [of n] by linarith

lemma nice_weight_antimono:
  assumes "m \<le> n"
  shows "nice_weight n \<le> nice_weight m"
proof -
  have "clamp_nice m \<le> clamp_nice n" using assms by (auto simp: clamp_nice_def)
  then have le: "nat (clamp_nice m + 20) \<le> nat (clamp_nice n + 20)" by linarith
  have "sorted (rev NICE_WEIGHTS)" by (simp add: NICE_WEIGHTS_def)
  then have "NICE_WEIGHTS ! j \<le> NICE_WEIGHTS ! i" if "i \<le> j" "j < 40" for i j
    using that by (simp add: sorted_rev_iff_nth_mono length_NICE_WEIGHTS)
  from this [OF le nice_index] show ?thesis by (simp add: nice_weight_def)
qed

lemma nice_weight_pos: "0 < nice_weight n"
proof -
  have "\<forall>w \<in> set NICE_WEIGHTS. 0 < w" by (simp add: NICE_WEIGHTS_def)
  then show ?thesis using nice_index [of n] by (simp add: nice_weight_def length_NICE_WEIGHTS)
qed

lemma nice_weight_0: "nice_weight 0 = NICE_0_LOAD"
  by (simp add: nice_weight_def clamp_nice_def NICE_WEIGHTS_def NICE_0_LOAD_def)

section \<open>Properties\<close>

text \<open>
  C14. No ready task is lost by CFS: a ready task that is off the CPU when it is added is, after
  any further sequence of additions and fetches on any harts, either among the tasks handed
  out or still in the queue and ready.
\<close>

theorem cfs_loses_no_ready_task:
  assumes "cfs_ok q" and "cfs_is_ready q u" and "cfs_parked q u"
  shows "let (got, q') = rq_run (\<lambda>a q. snd (cfs_add_task a q)) (cfs_fetch_task harts) (Add u # ops) q
    in u \<in> snd ` set got \<or> u \<in> cfs_members q' \<and> cfs_is_ready q' u"
  using cfsq.woken_task_not_lost [OF assms, of harts ops] by (simp add: split_beta)

text \<open>A ready task that may run on the first two harts only.\<close>

definition demo_task :: tcb where
  "demo_task = \<lparr>tid = 3, status = TReady, running_on = False, cpu_affinity = 3, scheduled_hart = 0,
     nice = 0, sched_entity = SchedEntity_new\<rparr>"

definition demo_cfs :: cfs where
  "demo_cfs = \<lparr>mem = [7 \<mapsto> demo_task], heap = [], min_vruntime = 50\<rparr>"

lemma demo_cfs_ok: "cfs_ok demo_cfs"
  by (simp add: cfs_ok_def demo_cfs_def cfs_members_def demo_task_def SchedEntity_new_def)

theorem cfs_loses_no_ready_task_witness:
  "let (got, q') = rq_run (\<lambda>a q. snd (cfs_add_task a q)) (cfs_fetch_task 4) [Add 7, Fetch 2] demo_cfs
   in 7 \<in> snd ` set got \<or> 7 \<in> cfs_members q' \<and> cfs_is_ready q' 7"
proof -
  have "cfs_is_ready demo_cfs 7" "cfs_parked demo_cfs 7"
    by (simp_all add: cfs_is_ready_def cfs_parked_def demo_cfs_def demo_task_def)
  from cfs_loses_no_ready_task [OF demo_cfs_ok this, of 4 "[Fetch 2]"] show ?thesis .
qed

text \<open>
  CFS is fair to virtual time: when no queued ready task is barred from the hart by its
  affinity, a fetch fails only if nothing ready is queued, and otherwise hands out a task whose
  (vruntime, tid) key is least among all ready entries.
\<close>

lemma cfs_fetch_picks_least_vruntime:
  assumes "cfs_ok q" and "\<And>u. u \<in> cfs_members q \<Longrightarrow> cfs_is_ready q u \<Longrightarrow> cfs_eligible harts h q u"
  shows "case fst (cfs_fetch_task harts h q) of
      None \<Rightarrow> \<forall>u \<in> cfs_members q. \<not> cfs_is_ready q u
    | Some a \<Rightarrow> \<exists>e \<in> set (heap q). entry_task e = a \<and>
        (\<forall>e' \<in> set (heap q). cfs_is_ready q (entry_task e') \<longrightarrow> key e \<le> key e')"
  unfolding cfs_fetch_task_def by (rule cfs_fetch_loop_least [OF order_refl assms])

lemma cfs_fetch_picks_least_vruntime_witness:
  "fst (cfs_fetch_task 4 1 (snd (cfs_add_task 7 demo_cfs))) = Some 7
   \<and> (\<exists>e \<in> set (heap (snd (cfs_add_task 7 demo_cfs))). entry_task e = 7)"
proof -
  let ?q = "snd (cfs_add_task 7 demo_cfs)"
  have q: "?q = \<lparr>mem = [7 \<mapsto> demo_task\<lparr>sched_entity := \<lparr>vruntime = 50, exec_start = NOT_RUNNING, queued_mark = True\<rparr>\<rparr>],
      heap = [\<lparr>key = (50, 3), entry_task = 7\<rparr>], min_vruntime = 50\<rparr>"
    by (simp add: cfs_add_task_def demo_cfs_def demo_task_def try_mark_queued_def place_at_def
        SchedEntity_new_def put_task_def)
  have run: "can_run_on 4 1 demo_task" by (simp add: can_run_on_def demo_task_def)
  have ok: "cfs_ok ?q" by (rule cfsq.add_ok [OF demo_cfs_ok])
  have el: "cfs_eligible 4 1 ?q u" if "u \<in> cfs_members ?q" "cfs_is_ready ?q u" for u
    using that run by (simp add: q cfs_members_def cfs_eligible_def can_run_on_def)
  have "cfs_is_ready ?q 7" "7 \<in> cfs_members ?q" by (simp_all add: q cfs_is_ready_def cfs_members_def demo_task_def)
  then show ?thesis
    using cfs_fetch_picks_least_vruntime [OF ok el] by (auto simp: q split: option.splits)
qed

text \<open>
  A task at the top of the CFS heap that may not run on the fetching hart hides everything
  behind it: every iteration of \<^verbatim>\<open>fetch_task\<close> pops it, puts it back and pops it again, so
  the hart gets nothing although tasks it could run may be queued.
\<close>

lemma cfs_fetch_stuck_on_barred_task:
  assumes "e \<in> set (heap q)" and "\<And>e'. e' \<in> set (heap q) \<Longrightarrow> e' \<noteq> e \<Longrightarrow> key e < key e'"
    and "mem q (entry_task e) = Some t" and "status t = TReady" and "\<not> can_run_on harts h t"
  shows "\<exists>h'. mset h' = mset (heap q) \<and> cfs_fetch_task harts h q = (None, q\<lparr>heap := h'\<rparr>)"
  unfolding cfs_fetch_task_def by (rule cfs_fetch_loop_stuck [OF assms])

text \<open>Hart 2 may not run task 7, but could run task 8 queued behind it; it fetches nothing.\<close>

lemma cfs_fetch_stuck_on_barred_task_witness:
  "let t8 = demo_task\<lparr>tid := 4, cpu_affinity := 15\<rparr>;
       q = \<lparr>mem = [7 \<mapsto> demo_task, 8 \<mapsto> t8],
            heap = [\<lparr>key = (50, 3), entry_task = 7\<rparr>, \<lparr>key = (60, 4), entry_task = 8\<rparr>], min_vruntime = 50\<rparr>
   in can_run_on 4 2 t8 \<and> status t8 = TReady \<and> fst (cfs_fetch_task 4 2 q) = None"
proof -
  let ?t8 = "demo_task\<lparr>tid := 4, cpu_affinity := 15\<rparr>"
  let ?q = "\<lparr>mem = [7 \<mapsto> demo_task, 8 \<mapsto> ?t8],
      heap = [\<lparr>key = (50, 3), entry_task = 7\<rparr>, \<lparr>key = (60, 4), entry_task = 8\<rparr>], min_vruntime = 50\<rparr>"
  have "\<exists>h'. mset h' = mset (heap ?q) \<and> cfs_fetch_task 4 2 ?q = (None, ?q\<lparr>heap := h'\<rparr>)"
    by (rule cfs_fetch_stuck_on_barred_task [of "\<lparr>key = (50, 3), entry_task = 7\<rparr>" _ demo_task])
       (auto simp: demo_task_def can_run_on_def)
  then show ?thesis by (auto simp: demo_task_def can_run_on_def)
qed

text \<open>
  Virtual time is weighted by priority: for the same time on the CPU a task of lower nice
  value is charged no more virtual time than one of higher nice value, a task of nice 0 is
  charged exactly the time it ran (below the saturation bound), and the placement of a queued
  task never moves it behind the queue's minimum.
\<close>

lemma vruntime_charge_follows_nice:
  "(m \<le> n \<longrightarrow> delta_vruntime d m \<le> delta_vruntime d n)
   \<and> delta_vruntime d 0 = min d (2 ^ 64 - 1)
   \<and> min_v \<le> snd (place_at min_v e) \<and> vruntime e \<le> snd (place_at min_v e)"
proof -
  have "d * NICE_0_LOAD div nice_weight m \<le> d * NICE_0_LOAD div nice_weight n" if "m \<le> n"
    by (rule div_le_mono2 [OF nice_weight_pos nice_weight_antimono [OF that]])
  moreover have "delta_vruntime d 0 = min d (2 ^ 64 - 1)"
    by (simp add: delta_vruntime_def nice_weight_0 NICE_0_LOAD_def)
  ultimately show ?thesis by (auto simp: delta_vruntime_def place_at_def)
qed

lemma vruntime_charge_follows_nice_witness:
  "delta_vruntime 1000 (-5) \<le> delta_vruntime 1000 5"
  using vruntime_charge_follows_nice [of "-5" 5 1000 0 SchedEntity_new] by simp

text \<open>
  No ready task is lost by the round-robin policy: under the same hypotheses, a ready task
  that is added is handed out or still queued and ready after any further additions and
  fetches.
\<close>

lemma rr_loses_no_ready_task:
  assumes "rr_ok q" and "rr_is_ready q u" and "rr_parked q u"
  shows "let (got, q') = rq_run rr_add_task rr_fetch_task (Add u # ops) q
    in u \<in> snd ` set got \<or> u \<in> rr_members q' \<and> rr_is_ready q' u"
  using rrq.woken_task_not_lost [OF assms, of ops] by (simp add: split_beta)

lemma rr_loses_no_ready_task_witness:
  "let (got, q') = rq_run rr_add_task rr_fetch_task [Add 7, Fetch 1]
        \<lparr>rr_mem = [7 \<mapsto> demo_task], rr_tasks = [], queued_tids = {}\<rparr>
   in 7 \<in> snd ` set got \<or> 7 \<in> rr_members q' \<and> rr_is_ready q' 7"
proof -
  let ?q = "\<lparr>rr_mem = [7 \<mapsto> demo_task], rr_tasks = [], queued_tids = {}\<rparr>"
  have "rr_ok ?q" "rr_is_ready ?q 7" "rr_parked ?q 7"
    by (simp_all add: rr_ok_def rr_is_ready_def rr_parked_def demo_task_def)
  from rr_loses_no_ready_task [OF this, of "[Fetch 1]"] show ?thesis .
qed

end
