(* ===== verification/User_Buffer.thy ===== *)
theory User_Buffer
  imports Bytes
begin

text \<open>
  The scatter buffer of user pages, \<^verbatim>\<open>UserBuffer\<close> in
  \<^verbatim>\<open>os/src/mm/translate.rs\<close>: the fragments are the parts of a user range that lie in
  different pages.  Every copying loop of the type is modelled as it is written; a slice or index
  expression that would be out of range makes the operation \<open>None\<close> (the kernel panics).
  The lemmas relate each loop to one contiguous byte string, \<open>flat\<close>; the pipes use them for the
  copies between user memory and the pipe buffer.
\<close>

section \<open>Operations\<close>

record UserBuffer =
  buffers :: "byte list list"

definition UserBuffer_new :: "byte list list \<Rightarrow> UserBuffer" where
  "UserBuffer_new bs = \<lparr>buffers = bs\<rparr>"

definition UserBuffer_len :: "UserBuffer \<Rightarrow> nat" where
  "UserBuffer_len ub = fold (\<lambda>b total. total + length b) (buffers ub) 0"

text \<open>The copy loop that \<^verbatim>\<open>read\<close> and \<^verbatim>\<open>read_to\<close> share: it fills the
  destination from \<open>current\<close> on and answers where it stopped.\<close>

fun read_loop :: "nat \<Rightarrow> nat \<Rightarrow> byte list list \<Rightarrow> byte list \<Rightarrow> byte list \<times> nat" where
  "read_loop len current [] dst = (dst, current)"
| "read_loop len current (sub_buff # rest) dst =
     (let sblen = (if current + length sub_buff > len then len - current else length sub_buff);
          dst1 = take current dst @ take sblen sub_buff @ drop (current + sblen) dst
      in if current + sblen = len then (dst1, current + sblen)
         else read_loop len (current + sblen) rest dst1)"

definition UserBuffer_read :: "nat \<Rightarrow> UserBuffer \<Rightarrow> byte list" where
  "UserBuffer_read n ub =
     (let len = min (UserBuffer_len ub) n;
          bytes = replicate len 0
      in if len = 0 then bytes
         else let (bytes1, current) = read_loop len 0 (buffers ub) bytes
              in if current = len then bytes1 else take current bytes1)"

definition UserBuffer_read_to :: "byte list \<Rightarrow> UserBuffer \<Rightarrow> byte list \<times> nat" where
  "UserBuffer_read_to dst ub = read_loop (length dst) 0 (buffers ub) dst"

text \<open>
  The bytewise loop over one fragment, shared by \<^verbatim>\<open>write\<close> and \<^verbatim>\<open>write_at\<close>: it
  answers the new fragment, the source position, and whether the function returned.
\<close>

fun copy_loop :: "byte list \<Rightarrow> nat \<Rightarrow> nat \<Rightarrow> byte list \<Rightarrow> (byte list \<times> nat \<times> bool) option" where
  "copy_loop buff len current [] = Some ([], current, False)"
| "copy_loop buff len current (x # xs) =
     (if current < length buff then
        if current + 1 = len then Some (buff ! current # xs, current + 1, True)
        else case copy_loop buff len (current + 1) xs of
               None \<Rightarrow> None
             | Some (ys, c, done) \<Rightarrow> Some (buff ! current # ys, c, done)
      else None)"

fun write_loop :: "byte list \<Rightarrow> nat \<Rightarrow> nat \<Rightarrow> byte list list \<Rightarrow> byte list list option" where
  "write_loop buff len current [] = Some []"
| "write_loop buff len current (sub_buff # rest) =
     (if length buff > 10 then
        let sblen = (if current + length sub_buff > len then len - current else length sub_buff) in
        if current + sblen \<le> length buff then
          let sub1 = take sblen (drop current buff) @ drop sblen sub_buff in
          if current + sblen = len then Some (sub1 # rest)
          else map_option (\<lambda>r. sub1 # r) (write_loop buff len (current + sblen) rest)
        else None
      else
        case copy_loop buff len current sub_buff of
          None \<Rightarrow> None
        | Some (sub1, current1, done) \<Rightarrow>
            if done then Some (sub1 # rest)
            else map_option (\<lambda>r. sub1 # r) (write_loop buff len current1 rest))"

definition UserBuffer_write :: "byte list \<Rightarrow> UserBuffer \<Rightarrow> (UserBuffer \<times> nat) option" where
  "UserBuffer_write buff ub =
     (let len = min (UserBuffer_len ub) (length buff) in
      if len = 0 then Some (ub, len)
      else map_option (\<lambda>bs. (ub\<lparr>buffers := bs\<rparr>, len)) (write_loop buff len 0 (buffers ub)))"

text \<open>
  \<^verbatim>\<open>write_from_slices\<close> moves through the source slices and the fragments at once.
  \<open>skip_full\<close> is its innermost loop, \<open>copy_source\<close> the loop over one source slice (with
  whether the function returned from inside it), \<open>copy_sources\<close> the loop over the slices.
\<close>

record slice_cursor =
  targets :: "byte list list"
  target_index :: nat
  target_offset :: nat
  written :: nat

function skip_full :: "byte list list \<Rightarrow> nat \<Rightarrow> nat \<Rightarrow> nat \<times> nat" where
  "skip_full bs ti off =
     (if ti < length bs \<and> off = length (bs ! ti) then skip_full bs (ti + 1) 0 else (ti, off))"
  by pat_completeness auto
termination
  by (relation "measure (\<lambda>(bs, ti, off). length bs - ti)") auto

declare skip_full.simps [simp del]

lemma skip_full_stops:
  "skip_full bs ti off = (ti', off') \<Longrightarrow> \<not> (ti' < length bs \<and> off' = length (bs ! ti'))"
  by (induction bs ti off rule: skip_full.induct) (metis skip_full.simps Pair_inject)

function copy_source :: "nat \<Rightarrow> byte list \<Rightarrow> nat \<Rightarrow> slice_cursor \<Rightarrow> (bool \<times> slice_cursor) option" where
  "copy_source limit source source_offset st =
     (if source_offset < length source \<and> written st < limit then
        let (ti, off) = skip_full (targets st) (target_index st) (target_offset st) in
        if ti = length (targets st) then
          Some (True, st\<lparr>target_index := ti, target_offset := off\<rparr>)
        else if ti > length (targets st) \<or> off > length (targets st ! ti) then None
        else
          let fragment = targets st ! ti;
              copy_len = min (min (limit - written st) (length source - source_offset))
                             (length fragment - off);
              fragment1 = take off fragment @ take copy_len (drop source_offset source)
                            @ drop (off + copy_len) fragment
          in copy_source limit source (source_offset + copy_len)
               (st\<lparr>targets := (targets st)[ti := fragment1], target_index := ti,
                  target_offset := off + copy_len, written := written st + copy_len\<rparr>)
      else Some (False, st))"
  by pat_completeness auto
termination
proof (relation "measure (\<lambda>(limit, source, source_offset, st). length source - source_offset)", goal_cases)
  case 1
  show ?case by simp
next
  case (2 limit source source_offset st x ti off fragment copy_len fragment1)
  from skip_full_stops [of "targets st" "target_index st" "target_offset st" ti off] 2
  have "off < length (targets st ! ti)" by auto
  with 2 have "0 < copy_len" by auto
  with 2(1) show ?case by auto
qed

declare copy_source.simps [simp del]

fun copy_sources :: "nat \<Rightarrow> byte list list \<Rightarrow> slice_cursor \<Rightarrow> slice_cursor option" where
  "copy_sources limit [] st = Some st"
| "copy_sources limit (source # slices) st =
     (case copy_source limit source 0 st of
        None \<Rightarrow> None
      | Some (returned, st1) \<Rightarrow>
          if returned \<or> written st1 = limit then Some st1 else copy_sources limit slices st1)"

definition write_from_slices :: "byte list list \<Rightarrow> nat \<Rightarrow> UserBuffer \<Rightarrow> (UserBuffer \<times> nat) option" where
  "write_from_slices slices len ub =
     (let limit = min (UserBuffer_len ub) len in
      if limit = 0 then Some (ub, 0)
      else map_option (\<lambda>st. (ub\<lparr>buffers := targets st\<rparr>, written st))
             (copy_sources limit slices
                \<lparr>targets = buffers ub, target_index = 0, target_offset = 0, written = 0\<rparr>))"

text \<open>
  \<^verbatim>\<open>write_at\<close>: \<open>head\<close> is the logical offset of the fragment, which the branch that skips a
  fragment does not advance.  The second component is the function's result.
\<close>

fun write_at_loop :: "nat \<Rightarrow> byte list \<Rightarrow> nat \<Rightarrow> nat \<Rightarrow> byte list list \<Rightarrow> (byte list list \<times> int) option" where
  "write_at_loop offset buff head current [] = Some ([], 0)"
| "write_at_loop offset buff head current (sub_buff # rest) =
     (let sblen = length sub_buff in
      if head + sblen < offset then
        map_option (\<lambda>(r, n). (sub_buff # r, n)) (write_at_loop offset buff head current rest)
      else
        let start = (if head < offset then offset - head else 0) in
        case copy_loop buff (length buff) current (drop start sub_buff) of
          None \<Rightarrow> None
        | Some (sub1, current1, done) \<Rightarrow>
            if done then Some ((take start sub_buff @ sub1) # rest, int (length buff))
            else map_option (\<lambda>(r, n). ((take start sub_buff @ sub1) # r, n))
                   (write_at_loop offset buff (head + sblen) current1 rest))"

definition UserBuffer_write_at :: "nat \<Rightarrow> byte list \<Rightarrow> UserBuffer \<Rightarrow> (UserBuffer \<times> int) option" where
  "UserBuffer_write_at offset buff ub =
     (if offset + length buff > UserBuffer_len ub then Some (ub, -1)
      else map_option (\<lambda>(bs, n). (ub\<lparr>buffers := bs\<rparr>, n)) (write_at_loop offset buff 0 0 (buffers ub)))"

definition fill0 :: "UserBuffer \<Rightarrow> UserBuffer \<times> nat" where
  "fill0 ub =
     (let ub1 = ub\<lparr>buffers := map (map (\<lambda>_. 0)) (buffers ub)\<rparr> in (ub1, UserBuffer_len ub1))"

definition UserBuffer_clear :: "UserBuffer \<Rightarrow> UserBuffer \<times> nat" where
  "UserBuffer_clear ub = (let ub1 = ub\<lparr>buffers := []\<rparr> in (ub1, UserBuffer_len ub1))"

text \<open>The iterator over the bytes yields the position of each byte, as the code yields its address.\<close>

record UserBufferIterator =
  it_buffers :: "byte list list"
  current_buffer :: nat
  current_idx :: nat

definition UserBuffer_into_iter :: "UserBuffer \<Rightarrow> UserBufferIterator" where
  "UserBuffer_into_iter ub = \<lparr>it_buffers = buffers ub, current_buffer = 0, current_idx = 0\<rparr>"

function iter_next :: "UserBufferIterator \<Rightarrow> (nat \<times> nat) option \<times> UserBufferIterator" where
  "iter_next it =
     (if current_buffer it < length (it_buffers it) then
        if it_buffers it ! current_buffer it = [] then
          iter_next (it\<lparr>current_buffer := current_buffer it + 1, current_idx := 0\<rparr>)
        else
          (Some (current_buffer it, current_idx it),
           if current_idx it + 1 = length (it_buffers it ! current_buffer it)
           then it\<lparr>current_idx := 0, current_buffer := current_buffer it + 1\<rparr>
           else it\<lparr>current_idx := current_idx it + 1\<rparr>)
      else (None, it))"
  by pat_completeness auto
termination
  by (relation "measure (\<lambda>it. length (it_buffers it) - current_buffer it)") auto

declare iter_next.simps [simp del]

definition store_byte :: "nat \<times> nat \<Rightarrow> byte \<Rightarrow> UserBufferIterator \<Rightarrow> UserBufferIterator" where
  "store_byte p b it =
     it\<lparr>it_buffers := (it_buffers it)[fst p := (it_buffers it ! fst p)[snd p := b]]\<rparr>"

definition load_byte :: "nat \<times> nat \<Rightarrow> UserBufferIterator \<Rightarrow> byte" where
  "load_byte p it = it_buffers it ! fst p ! snd p"

section \<open>The contiguous view\<close>

definition flat :: "UserBuffer \<Rightarrow> byte list" where
  "flat ub = concat (buffers ub)"

definition shape :: "UserBuffer \<Rightarrow> nat list" where
  "shape ub = map length (buffers ub)"

lemma fold_length: "fold (\<lambda>b total. total + length b) bs n = n + length (concat bs)"
  by (induction bs arbitrary: n) auto

lemma UserBuffer_len_flat [simp]: "UserBuffer_len ub = length (flat ub)"
  by (simp add: UserBuffer_len_def flat_def fold_length)

text \<open>Overwriting \<open>xs\<close> with \<open>ds\<close> from position \<open>p\<close> on.\<close>

definition overlay :: "nat \<Rightarrow> 'a list \<Rightarrow> 'a list \<Rightarrow> 'a list" where
  "overlay p ds xs = take p xs @ ds @ drop (p + length ds) xs"

lemma overlay_Nil [simp]: "overlay p [] xs = xs"
  by (simp add: overlay_def)

lemma length_overlay [simp]: "p + length ds \<le> length xs \<Longrightarrow> length (overlay p ds xs) = length xs"
  by (simp add: overlay_def)

lemma overlay_append:
  assumes "p + length ds \<le> length xs"
  shows "overlay (p + length ds) es (overlay p ds xs) = overlay p (ds @ es) xs"
  using assms by (simp add: overlay_def ac_simps)

lemma read_loop_flat:
  assumes "current < len" and "length dst = len"
  shows "read_loop len current bs dst =
    (let n = min (len - current) (length (concat bs)) in (overlay current (take n (concat bs)) dst, current + n))"
  using assms
proof (induction len current bs dst rule: read_loop.induct)
  case (1 len current dst)
  then show ?case by simp
next
  case (2 len current sub rest dst)
  let ?s = "min (len - current) (length sub)"
  let ?d = "overlay current (take ?s sub) dst"
  have s: "(if current + length sub > len then len - current else length sub) = ?s" by auto
  have d: "take current dst @ take ?s sub @ drop (current + ?s) dst = ?d"
    using "2.prems" by (simp add: overlay_def)
  show ?case
  proof (cases "current + ?s = len")
    case True
    with "2.prems" have "len - current \<le> length sub" by auto
    with True "2.prems" show ?thesis
      unfolding read_loop.simps Let_def s d by (auto simp: min_def)
  next
    case False
    with "2.prems" have l: "?s = length sub" "current + length sub < len" by auto
    have ih: "read_loop len (current + length sub) rest ?d =
        (let n = min (len - (current + length sub)) (length (concat rest)) in
           (overlay (current + length sub) (take n (concat rest)) ?d, current + length sub + n))"
      using "2.IH" [of "length sub" "?d"] "2.prems" l by (simp add: overlay_def)
    have m: "min (len - current) (length sub + length (concat rest)) =
        length sub + min (len - (current + length sub)) (length (concat rest))"
      using l by auto
    show ?thesis
      unfolding read_loop.simps Let_def s d using False l ih "2.prems"
      by (simp add: Let_def m overlay_append [of _ sub, symmetric] add.assoc)
  qed
qed

lemma UserBuffer_read_flat: "UserBuffer_read n ub = take n (flat ub)"
proof (cases "min (length (flat ub)) n = 0")
  case True
  then show ?thesis by (auto simp: UserBuffer_read_def Let_def min_def split: if_splits)
next
  case False
  let ?l = "min (length (flat ub)) n"
  have "read_loop ?l 0 (buffers ub) (replicate ?l 0) = (take n (flat ub), ?l)"
    using False read_loop_flat [of 0 ?l "replicate ?l 0" "buffers ub"]
    by (auto simp: flat_def Let_def overlay_def min_def)
  with False show ?thesis by (simp add: UserBuffer_read_def Let_def)
qed

lemma UserBuffer_read_to_flat:
  "UserBuffer_read_to dst ub =
     (let n = min (length dst) (length (flat ub)) in (overlay 0 (take n (flat ub)) dst, n))"
proof (cases "dst = []")
  case True
  have "read_loop 0 0 bs [] = ([], 0)" for bs by (cases bs) auto
  with True show ?thesis by (simp add: UserBuffer_read_to_def)
next
  case False
  then show ?thesis
    using read_loop_flat [of 0 "length dst" dst "buffers ub"] by (simp add: UserBuffer_read_to_def flat_def)
qed

lemma copy_loop_flat:
  assumes "current < len" and "len \<le> length buff"
  shows "copy_loop buff len current xs =
    (let n = min (len - current) (length xs) in
     Some (overlay 0 (take n (drop current buff)) xs, current + n, len \<le> current + length xs))"
  using assms
proof (induction buff len current xs rule: copy_loop.induct)
  case (1 buff len current)
  then show ?case by simp
next
  case (2 buff len current x xs)
  then have hd: "take (Suc k) (drop current buff) = buff ! current # take k (drop (Suc current) buff)" for k
    by (simp add: Cons_nth_drop_Suc [symmetric])
  show ?case
  proof (cases "current + 1 = len")
    case True
    with 2 have "min (len - current) (length (x # xs)) = Suc 0" by auto
    with True 2 show ?thesis by (simp add: hd overlay_def)
  next
    case False
    with 2 have m: "min (len - current) (length (x # xs)) = Suc (min (len - (current + 1)) (length xs))" by auto
    have "copy_loop buff len (current + 1) xs =
        (let n = min (len - (current + 1)) (length xs) in
         Some (overlay 0 (take n (drop (current + 1) buff)) xs, current + 1 + n, len \<le> current + 1 + length xs))"
      using 2 False by auto
    then show ?thesis using 2 False
      unfolding copy_loop.simps m by (simp add: Let_def hd overlay_def)
  qed
qed

lemma concat_overlay_Cons:
  "n \<le> length b \<Longrightarrow> length ds = n \<Longrightarrow> overlay 0 ds b @ concat bs = overlay 0 ds (b @ concat bs)"
  by (simp add: overlay_def)

lemma write_loop_step:
  assumes "current < len" and "len \<le> length buff"
  shows "write_loop buff len current (sub # rest) =
    (let sub1 = overlay 0 (take (min (len - current) (length sub)) (drop current buff)) sub in
     if len \<le> current + length sub then Some (sub1 # rest)
     else map_option (\<lambda>r. sub1 # r) (write_loop buff len (current + length sub) rest))"
proof (cases "length buff > 10")
  case True
  let ?n = "min (len - current) (length sub)"
  have s: "(if current + length sub > len then len - current else length sub) = ?n" by auto
  have sub1: "take ?n (drop current buff) @ drop ?n sub = overlay 0 (take ?n (drop current buff)) sub"
    using assms by (auto simp: overlay_def)
  have c: "current + ?n \<le> length buff" "current + ?n = len \<longleftrightarrow> len \<le> current + length sub"
    "\<not> len \<le> current + length sub \<Longrightarrow> ?n = length sub" using assms by auto
  show ?thesis
    unfolding write_loop.simps Let_def s sub1 using True c by (simp del: min_def)
next
  case False
  have "\<not> len \<le> current + length sub \<Longrightarrow> min (len - current) (length sub) = length sub" by auto
  with False show ?thesis
    unfolding write_loop.simps copy_loop_flat [OF assms] by (simp add: Let_def)
qed

lemma take_split:
  "m \<le> n \<Longrightarrow> take n xs = take m xs @ take (n - m) (drop m xs)"
  by (metis le_add_diff_inverse take_add)

lemma write_loop_flat:
  assumes "current < len" and "len \<le> length buff" and "len - current \<le> length (concat bs)"
  shows "\<exists>bs'. write_loop buff len current bs = Some bs' \<and> map length bs' = map length bs
    \<and> concat bs' = overlay 0 (take (len - current) (drop current buff)) (concat bs)"
  using assms
proof (induction bs arbitrary: current)
  case Nil
  then show ?case by simp
next
  case (Cons sub rest)
  show ?case
  proof (cases "len \<le> current + length sub")
    case True
    then have n: "min (len - current) (length sub) = len - current" by auto
    then show ?thesis using True Cons.prems
      unfolding write_loop_step [OF Cons.prems(1,2)] Let_def n by (auto simp: overlay_def)
  next
    case False
    then have n: "min (len - current) (length sub) = length sub" by auto
    have le: "len - (current + length sub) \<le> length (concat rest)"
      using Cons.prems(3) False by simp
    obtain bs' where bs': "write_loop buff len (current + length sub) rest = Some bs'" "map length bs' = map length rest"
        "concat bs' = overlay 0 (take (len - (current + length sub)) (drop (current + length sub) buff)) (concat rest)"
      using Cons.IH [of "current + length sub"] Cons.prems(2) False le by auto
    have t: "take (len - current) (drop current buff) =
        take (length sub) (drop current buff) @ take (len - (current + length sub)) (drop (current + length sub) buff)"
      using False take_split [of "length sub" "len - current" "drop current buff"] by (simp add: add.commute)
    show ?thesis
      unfolding write_loop_step [OF Cons.prems(1,2)] Let_def n
      using False bs' Cons.prems by (simp add: t overlay_def)
  qed
qed

lemma UserBuffer_write_flat:
  "\<exists>ub'. UserBuffer_write d ub = Some (ub', min (length (flat ub)) (length d)) \<and> shape ub' = shape ub
     \<and> flat ub' = overlay 0 (take (length (flat ub)) d) (flat ub)"
proof (cases "min (length (flat ub)) (length d) = 0")
  case True
  then show ?thesis by (auto simp: UserBuffer_write_def min_def split: if_splits)
next
  case False
  let ?l = "min (length (flat ub)) (length d)"
  have "take ?l d = take (length (flat ub)) d" by (simp add: min_def)
  with False write_loop_flat [of 0 ?l d "buffers ub"] show ?thesis
    by (auto simp: UserBuffer_write_def flat_def shape_def Let_def)
qed

section \<open>Copying from several slices\<close>

text \<open>The logical offset of position \<open>off\<close> of fragment \<open>ti\<close>.\<close>

definition place_of :: "byte list list \<Rightarrow> nat \<Rightarrow> nat \<Rightarrow> nat" where
  "place_of bs ti off = length (concat (take ti bs)) + off"

lemma concat_update:
  assumes "ti < length bs" and "off + length ds \<le> length (bs ! ti)"
  shows "concat (bs[ti := overlay off ds (bs ! ti)]) = overlay (place_of bs ti off) ds (concat bs)"
proof -
  have bs: "bs = take ti bs @ bs ! ti # drop (Suc ti) bs"
    using assms by (simp add: id_take_nth_drop)
  have "concat bs = concat (take ti bs) @ bs ! ti @ concat (drop (Suc ti) bs)"
    by (subst bs) simp
  moreover have "concat (bs[ti := overlay off ds (bs ! ti)]) =
      concat (take ti bs) @ overlay off ds (bs ! ti) @ concat (drop (Suc ti) bs)"
    using assms(1) by (simp add: upd_conv_take_nth_drop)
  ultimately show ?thesis
    using assms by (simp add: overlay_def place_of_def)
qed

lemma skip_full_place:
  assumes "ti \<le> length bs" and "ti < length bs \<longrightarrow> off \<le> length (bs ! ti)" and "ti = length bs \<longrightarrow> off = 0"
  shows "case skip_full bs ti off of (ti', off') \<Rightarrow>
    place_of bs ti' off' = place_of bs ti off \<and> ti' \<le> length bs \<and>
    (ti' < length bs \<longrightarrow> off' < length (bs ! ti')) \<and> (ti' = length bs \<longrightarrow> off' = 0)"
  using assms
proof (induction bs ti off rule: skip_full.induct)
  case (1 bs ti off)
  show ?case
  proof (cases "ti < length bs \<and> off = length (bs ! ti)")
    case True
    then have "place_of bs (Suc ti) 0 = place_of bs ti off"
      by (simp add: place_of_def take_Suc_conv_app_nth)
    with True 1 show ?thesis by (subst skip_full.simps) auto
  next
    case False
    with 1 show ?thesis by (subst skip_full.simps) auto
  qed
qed

text \<open>What the cursor means: \<open>d\<close> has been written over the front of the original bytes.\<close>

definition cursor_ok :: "byte list list \<Rightarrow> byte list \<Rightarrow> slice_cursor \<Rightarrow> bool" where
  "cursor_ok bs d st \<longleftrightarrow>
     map length (targets st) = map length bs \<and> concat (targets st) = overlay 0 d (concat bs)
     \<and> length d \<le> length (concat bs) \<and> written st = length d
     \<and> place_of (targets st) (target_index st) (target_offset st) = length d
     \<and> target_index st \<le> length bs
     \<and> (target_index st < length bs \<longrightarrow> target_offset st \<le> length (targets st ! target_index st))
     \<and> (target_index st = length bs \<longrightarrow> target_offset st = 0)"

lemma cursor_advance:
  assumes ok: "cursor_ok bs d st" and le: "length d + length ds \<le> length (concat bs)"
    and skip: "skip_full (targets st) (target_index st) (target_offset st) = (ti, off)"
    and ti: "ti < length (targets st)" and fits: "off + length ds \<le> length (targets st ! ti)"
  shows "cursor_ok bs (d @ ds)
    (st\<lparr>targets := (targets st)[ti := overlay off ds (targets st ! ti)], target_index := ti,
       target_offset := off + length ds, written := written st + length ds\<rparr>)"
proof -
  let ?bs = "targets st" and ?bs' = "(targets st)[ti := overlay off ds (targets st ! ti)]"
  have l: "length ?bs = length bs" using ok by (metis cursor_ok_def length_map)
  have p: "place_of ?bs ti off = length d"
    using skip_full_place [of "target_index st" ?bs "target_offset st"] ok l skip by (auto simp: cursor_ok_def)
  have "concat ?bs' = overlay (length d) ds (overlay 0 d (concat bs))"
    using concat_update [OF ti fits] ok p by (simp add: cursor_ok_def)
  also have "\<dots> = overlay 0 (d @ ds) (concat bs)"
    using overlay_append [of 0 d "concat bs" ds] le by simp
  finally have c: "concat ?bs' = overlay 0 (d @ ds) (concat bs)" .
  have len: "map length ?bs' = map length bs"
    using ok fits ti by (simp add: cursor_ok_def map_update list_update_same_conv) (metis list_update_id nth_map)
  have "place_of ?bs' ti (off + length ds) = length (d @ ds)"
    using p ti by (simp add: place_of_def)
  with ok c len le ti fits l show ?thesis by (simp add: cursor_ok_def)
qed

lemma copy_source_stop:
  "\<not> (so < length source \<and> written st < limit) \<Longrightarrow> copy_source limit source so st = Some (False, st)"
  by (simp only: copy_source.simps [of limit source so st] if_False)

lemma copy_source_go:
  assumes "so < length source" and "written st < limit"
    and "skip_full (targets st) (target_index st) (target_offset st) = (ti, off)"
    and "ti < length (targets st)" and "off < length (targets st ! ti)"
    and "ds = take (min (limit - written st) (length (targets st ! ti) - off)) (drop so source)"
  shows "copy_source limit source so st = copy_source limit source (so + length ds)
    (st\<lparr>targets := (targets st)[ti := overlay off ds (targets st ! ti)], target_index := ti,
       target_offset := off + length ds, written := written st + length ds\<rparr>)"
proof -
  have n: "min (min (limit - written st) (length source - so)) (length (targets st ! ti) - off) = length ds"
    using assms(6) by (simp add: ac_simps)
  have ds: "take (length ds) (drop so source) = ds"
    using assms(6) by (simp add: min_def)
  have ne: "ti \<noteq> length (targets st)" "\<not> (length (targets st) < ti \<or> length (targets st ! ti) < off)"
    using assms by auto
  show ?thesis
    unfolding copy_source.simps [of limit source so st] assms(3) case_prod_conv Let_def n ds
    using assms(1,2) ne by (simp only: if_True if_False overlay_def simp_thms)
qed

lemma copy_source_ok:
  assumes "cursor_ok bs d st" and "limit \<le> length (concat bs)" and "length d \<le> limit"
  shows "\<exists>st'. copy_source limit source so st = Some (False, st')
    \<and> cursor_ok bs (d @ take (limit - length d) (drop so source)) st'"
  using assms
proof (induction "length source - so" arbitrary: so st d rule: less_induct)
  case less
  have w: "written st = length d" using less.prems by (simp add: cursor_ok_def)
  show ?case
  proof (cases "so < length source \<and> written st < limit")
    case False
    then have "d @ take (limit - length d) (drop so source) = d" using w by auto
    with less.prems(1) copy_source_stop [OF False] show ?thesis by auto
  next
    case True
    obtain ti off where skip: "skip_full (targets st) (target_index st) (target_offset st) = (ti, off)"
      by fastforce
    have l: "length (targets st) = length bs" using less.prems(1) by (metis cursor_ok_def length_map)
    have p: "place_of (targets st) ti off = length d" and ti: "ti \<le> length bs"
      and off: "ti < length bs \<longrightarrow> off < length (targets st ! ti)" "ti = length bs \<longrightarrow> off = 0"
      using skip_full_place [of "target_index st" "targets st" "target_offset st"] less.prems(1) l skip
      by (auto simp: cursor_ok_def)
    have "length (concat (targets st)) = length (concat bs)"
      using less.prems(1) by (simp add: cursor_ok_def)
    then have "ti \<noteq> length bs"
      using p off(2) l True w less.prems(2) by (auto simp: place_of_def)
    with ti off l have lt: "ti < length (targets st)" "off < length (targets st ! ti)" by auto
    define ds where "ds = take (min (limit - written st) (length (targets st ! ti) - off)) (drop so source)"
    have ds: "length ds \<le> limit - length d" "off + length ds \<le> length (targets st ! ti)" "0 < length ds"
      using True w lt by (auto simp: ds_def)
    have d1: "length (d @ ds) \<le> limit" using ds(1) less.prems(3) by simp
    have ok1: "cursor_ok bs (d @ ds) (st\<lparr>targets := (targets st)[ti := overlay off ds (targets st ! ti)],
        target_index := ti, target_offset := off + length ds, written := written st + length ds\<rparr>)"
      using cursor_advance [OF less.prems(1) _ skip lt(1) ds(2)] d1 less.prems(2) by simp
    have "\<exists>st'. copy_source limit source so st = Some (False, st')
        \<and> cursor_ok bs ((d @ ds) @ take (limit - length (d @ ds)) (drop (so + length ds) source)) st'"
      unfolding copy_source_go [OF conjunct1 [OF True] conjunct2 [OF True] skip lt ds_def]
      by (rule less.hyps [OF _ ok1 less.prems(2) d1]) (use True ds(3) in linarith)
    moreover have "ds @ take (limit - length (d @ ds)) (drop (so + length ds) source) = take (limit - length d) (drop so source)"
    proof -
      have "take (length ds) (drop so source) = ds" by (simp add: ds_def min_def)
      then show ?thesis
        using take_split [OF ds(1), of "drop so source"] by (simp add: add.commute)
    qed
    ultimately show ?thesis by simp
  qed
qed

lemma copy_sources_ok:
  assumes "cursor_ok bs d st" and "limit \<le> length (concat bs)" and "length d < limit"
  shows "\<exists>st'. copy_sources limit slices st = Some st'
    \<and> cursor_ok bs (d @ take (limit - length d) (concat slices)) st'"
  using assms
proof (induction slices arbitrary: d st)
  case Nil
  then show ?case by simp
next
  case (Cons source slices)
  let ?d = "d @ take (limit - length d) source"
  obtain st1 where st1: "copy_source limit source 0 st = Some (False, st1)" "cursor_ok bs ?d st1"
    using copy_source_ok [OF Cons.prems(1,2), of source 0] Cons.prems(3) by auto
  have w: "written st1 = length ?d" using st1(2) by (simp add: cursor_ok_def)
  show ?case
  proof (cases "written st1 = limit")
    case True
    then have "limit - length d \<le> length source" using w Cons.prems(3) by (auto simp: min_def split: if_splits)
    with True st1 show ?thesis by simp
  next
    case False
    then have lt: "length d + length source < limit" using w Cons.prems(3) by (auto simp: min_def split: if_splits)
    then have "?d = d @ source" by simp
    with Cons.IH [OF st1(2) Cons.prems(2)] lt False st1(1) show ?thesis by simp
  qed
qed

lemma write_from_slices_flat:
  "\<exists>ub'. write_from_slices slices len ub =
        Some (ub', min (min (length (flat ub)) len) (length (concat slices)))
     \<and> shape ub' = shape ub
     \<and> flat ub' = overlay 0 (take (min (length (flat ub)) len) (concat slices)) (flat ub)"
proof (cases "min (length (flat ub)) len = 0")
  case True
  then show ?thesis by (auto simp: write_from_slices_def min_def split: if_splits)
next
  case False
  let ?l = "min (length (flat ub)) len"
  let ?st = "\<lparr>targets = buffers ub, target_index = 0, target_offset = 0, written = 0\<rparr>"
  have "cursor_ok (buffers ub) [] ?st" by (simp add: cursor_ok_def place_of_def)
  then obtain st' where "copy_sources ?l slices ?st = Some st'" "cursor_ok (buffers ub) (take ?l (concat slices)) st'"
    using copy_sources_ok [of "buffers ub" "[]" ?st ?l slices] False by (auto simp: flat_def)
  with False show ?thesis
    by (auto simp: write_from_slices_def Let_def cursor_ok_def flat_def shape_def)
qed

section \<open>The iterator\<close>

definition iter_place :: "UserBufferIterator \<Rightarrow> nat" where
  "iter_place it = place_of (it_buffers it) (current_buffer it) (current_idx it)"

definition iter_ok :: "UserBufferIterator \<Rightarrow> bool" where
  "iter_ok it \<longleftrightarrow> current_buffer it \<le> length (it_buffers it) \<and>
     (if current_buffer it < length (it_buffers it) \<and> it_buffers it ! current_buffer it \<noteq> []
      then current_idx it < length (it_buffers it ! current_buffer it) else current_idx it = 0)"

lemma place_of_Suc:
  "ti < length bs \<Longrightarrow> place_of bs (Suc ti) 0 = place_of bs ti (length (bs ! ti))"
  by (simp add: place_of_def take_Suc_conv_app_nth)

lemma place_of_nth:
  assumes "ti < length bs" and "off < length (bs ! ti)"
  shows "place_of bs ti off < length (concat bs) \<and> concat bs ! place_of bs ti off = bs ! ti ! off"
proof -
  have "bs = take ti bs @ bs ! ti # drop (Suc ti) bs"
    using assms by (simp add: id_take_nth_drop)
  then have "concat bs = concat (take ti bs) @ bs ! ti @ concat (drop (Suc ti) bs)"
    by (metis concat.simps(2) concat_append)
  with assms(2) show ?thesis by (simp add: place_of_def nth_append)
qed

lemma iter_next_flat:
  assumes "iter_ok it"
  shows "case iter_next it of
      (None, it') \<Rightarrow> iter_place it = length (concat (it_buffers it))
    | (Some (i, j), it') \<Rightarrow> i < length (it_buffers it) \<and> j < length (it_buffers it ! i)
        \<and> place_of (it_buffers it) i j = iter_place it
        \<and> iter_place it' = Suc (iter_place it) \<and> iter_ok it' \<and> it_buffers it' = it_buffers it"
  using assms
proof (induction it rule: iter_next.induct)
  case (1 it)
  let ?bs = "it_buffers it" and ?b = "current_buffer it"
  consider (finish) "?b = length ?bs" | (empty) "?b < length ?bs" "?bs ! ?b = []" | (byte) "?b < length ?bs" "?bs ! ?b \<noteq> []"
    using "1.prems" by (auto simp: iter_ok_def le_less)
  then show ?case
  proof cases
    case finish
    then show ?thesis using "1.prems"
      by (subst iter_next.simps) (simp add: iter_ok_def iter_place_def place_of_def)
  next
    case empty
    let ?it = "it\<lparr>current_buffer := ?b + 1, current_idx := 0\<rparr>"
    have ok: "iter_ok ?it" using empty by (auto simp: iter_ok_def)
    have bs: "it_buffers ?it = ?bs" by simp
    have pl: "iter_place ?it = iter_place it"
      using empty "1.prems" place_of_Suc [of ?b ?bs] by (simp add: iter_place_def iter_ok_def)
    have eq: "iter_next it = iter_next ?it" using empty by (subst iter_next.simps) simp
    show ?thesis unfolding eq using "1.IH" [OF empty ok] unfolding pl bs .
  next
    case byte
    then have i: "current_idx it < length (?bs ! ?b)" using "1.prems" by (simp add: iter_ok_def)
    show ?thesis
    proof (cases "current_idx it + 1 = length (?bs ! ?b)")
      case True
      with byte i place_of_Suc [of ?b ?bs] show ?thesis
        by (subst iter_next.simps) (auto simp: iter_place_def iter_ok_def place_of_def)
    next
      case False
      with byte i show ?thesis
        by (subst iter_next.simps) (auto simp: iter_place_def iter_ok_def place_of_def)
    qed
  qed
qed

lemma iter_next_buffers: "it_buffers (snd (iter_next it)) = it_buffers it"
proof (induction it rule: iter_next.induct)
  case (1 it)
  then show ?case by (subst iter_next.simps) auto
qed

lemma list_update_overlay: "i < length xs \<Longrightarrow> xs[i := v] = overlay i [v] xs"
  by (simp add: overlay_def upd_conv_take_nth_drop)

lemma store_byte_flat:
  assumes "i < length (it_buffers it)" and "j < length (it_buffers it ! i)"
  shows "concat (it_buffers (store_byte (i, j) b it)) =
      overlay (place_of (it_buffers it) i j) [b] (concat (it_buffers it))"
    and "map length (it_buffers (store_byte (i, j) b it)) = map length (it_buffers it)"
proof -
  have u: "(it_buffers it ! i)[j := b] = overlay j [b] (it_buffers it ! i)"
    by (rule list_update_overlay [OF assms(2)])
  show "concat (it_buffers (store_byte (i, j) b it)) =
      overlay (place_of (it_buffers it) i j) [b] (concat (it_buffers it))"
    using assms concat_update [of i "it_buffers it" j "[b]"] by (simp add: store_byte_def u)
  show "map length (it_buffers (store_byte (i, j) b it)) = map length (it_buffers it)"
    using assms by (simp add: store_byte_def map_update) (metis list_update_id nth_map)
qed

lemma place_of_lengths: "map length bs' = map length bs \<Longrightarrow> place_of bs' ti off = place_of bs ti off"
  by (metis place_of_def length_concat take_map)

lemma store_byte_keeps_iter:
  assumes "i < length (it_buffers it)" and "j < length (it_buffers it ! i)"
  shows "iter_place (store_byte (i, j) b it) = iter_place it" and "iter_ok (store_byte (i, j) b it) = iter_ok it"
proof -
  let ?it = "store_byte (i, j) b it"
  have c: "current_buffer ?it = current_buffer it" "current_idx ?it = current_idx it"
    by (simp_all add: store_byte_def)
  have l: "map length (it_buffers ?it) = map length (it_buffers it)"
    using store_byte_flat(2) [OF assms] .
  then have ln: "length (it_buffers ?it) = length (it_buffers it)" by (rule map_eq_imp_length_eq)
  show "iter_place ?it = iter_place it"
    using place_of_lengths [OF l] by (simp add: iter_place_def c)
  have "length (it_buffers ?it ! k) = length (it_buffers it ! k)" if "k < length (it_buffers it)" for k
    using l ln that by (metis nth_map)
  then show "iter_ok ?it = iter_ok it"
    unfolding iter_ok_def c ln by (metis length_0_conv)
qed

lemma iter_start: "iter_ok (UserBuffer_into_iter ub)" "iter_place (UserBuffer_into_iter ub) = 0"
  "it_buffers (UserBuffer_into_iter ub) = buffers ub"
  by (auto simp: iter_ok_def iter_place_def place_of_def UserBuffer_into_iter_def)

section \<open>Properties\<close>

text \<open>
  A user buffer behaves as one contiguous buffer whatever its fragments are: reading gives the
  first bytes in order, reading into a destination overwrites its front, and both ways of writing
  (one slice, or several slices with a length limit) never panic, overwrite exactly the front of
  the buffer with as many source bytes as fit, keep the fragments' sizes, and return the number
  of bytes copied.
\<close>

lemma user_buffer_acts_as_contiguous:
  "UserBuffer_read n ub = take n (flat ub)
   \<and> (let k = min (length dst) (length (flat ub)) in
        UserBuffer_read_to dst ub = (overlay 0 (take k (flat ub)) dst, k))
   \<and> (\<exists>ub'. UserBuffer_write d ub = Some (ub', min (length (flat ub)) (length d))
        \<and> shape ub' = shape ub \<and> flat ub' = overlay 0 (take (length (flat ub)) d) (flat ub))
   \<and> (\<exists>ub'. write_from_slices slices n ub = Some (ub', min (min (length (flat ub)) n) (length (concat slices)))
        \<and> shape ub' = shape ub
        \<and> flat ub' = overlay 0 (take (min (length (flat ub)) n) (concat slices)) (flat ub))"
  using UserBuffer_read_flat UserBuffer_read_to_flat UserBuffer_write_flat write_from_slices_flat
  by (auto simp: Let_def)

lemma write_at_loop_skips:
  "(\<And>b. b \<in> set bs \<Longrightarrow> head + length b < offset) \<Longrightarrow> write_at_loop offset buff head current bs = Some (bs, 0)"
  by (induction bs) auto

text \<open>
  \<^verbatim>\<open>write_at\<close> is not contiguous: the branch that skips a fragment forgets to add its
  length to \<open>head\<close>, so when the offset is beyond the size of every single fragment nothing is
  written and the result is 0, although the range lies inside the buffer.
\<close>

lemma write_at_beyond_every_fragment_writes_nothing:
  assumes "offset + length d \<le> length (flat ub)" and "\<And>b. b \<in> set (buffers ub) \<Longrightarrow> length b < offset"
  shows "UserBuffer_write_at offset d ub = Some (ub, 0)"
  using assms by (simp add: UserBuffer_write_at_def write_at_loop_skips)

lemma write_at_beyond_every_fragment_writes_nothing_witness:
  "UserBuffer_write_at 5 [7] (UserBuffer_new [[1, 2, 3], [4, 5, 6]]) = Some (UserBuffer_new [[1, 2, 3], [4, 5, 6]], 0)"
  by (rule write_at_beyond_every_fragment_writes_nothing) (auto simp: UserBuffer_new_def flat_def)

end
