(* ===== verification/Pipe_Buffer.thy ===== *)
theory Pipe_Buffer
  imports User_Buffer Poll_Set Blocking
begin

text \<open>
  The data of a pipe: \<^verbatim>\<open>os/src/fs/files/pipe/buffer.rs\<close> (a window into shared bytes or into
  a page of the page cache) and \<^verbatim>\<open>ring_buffer.rs\<close> (the queue of windows with its byte count,
  its capacity and its waiters).  The page frames are an argument \<open>pages\<close>, since a window of a
  file page shows what the page holds when it is read.  A failing \<^verbatim>\<open>assert!\<close>,
  \<^verbatim>\<open>unwrap\<close> or slice expression is \<open>None\<close>.  The locale \<open>byte_queue\<close> states what the
  file operations rely on; it is interpreted on the ring buffer.
\<close>

section \<open>Windows\<close>

datatype PipeBufStorage = Bytes "byte list" | FilePage nat

record PipeBuf =
  storage :: PipeBufStorage
  buf_offset :: nat
  buf_len :: nat

definition PipeBuf_new :: "byte list \<Rightarrow> PipeBuf" where
  "PipeBuf_new d = \<lparr>storage = Bytes d, buf_offset = 0, buf_len = length d\<rparr>"

definition from_file_page :: "nat \<Rightarrow> nat \<Rightarrow> nat \<Rightarrow> PipeBuf" where
  "from_file_page page off n = \<lparr>storage = FilePage page, buf_offset = off, buf_len = n\<rparr>"

text \<open>The head that is cut off, and the rest.\<close>

definition split_to :: "nat \<Rightarrow> PipeBuf \<Rightarrow> PipeBuf \<times> PipeBuf" where
  "split_to n b =
     (let l = min n (buf_len b) in
      (\<lparr>storage = storage b, buf_offset = buf_offset b, buf_len = l\<rparr>,
       b\<lparr>buf_offset := buf_offset b + l, buf_len := buf_len b - l\<rparr>))"

definition stored :: "(nat \<Rightarrow> byte list) \<Rightarrow> PipeBufStorage \<Rightarrow> byte list" where
  "stored pages s = (case s of Bytes d \<Rightarrow> d | FilePage page \<Rightarrow> pages page)"

definition as_slice :: "(nat \<Rightarrow> byte list) \<Rightarrow> PipeBuf \<Rightarrow> byte list option" where
  "as_slice pages b =
     (if buf_offset b + buf_len b \<le> length (stored pages (storage b))
      then Some (take (buf_len b) (drop (buf_offset b) (stored pages (storage b)))) else None)"

section \<open>The queue of windows\<close>

record FasyncOwner =
  owner_type :: int
  owner_pid :: int
  owner_signal :: int

definition FasyncOwner_default :: FasyncOwner where
  "FasyncOwner_default = \<lparr>owner_type = 1, owner_pid = 0, owner_signal = 0\<rparr>"

record PipeRingBuffer =
  bufs :: "PipeBuf list"
  bytes :: nat
  capacity :: nat
  write_end_count :: nat
  read_end_count :: nat
  read_waiters :: "nat list"
  write_waiters :: "nat list"
  read_poll :: poll_inner
  write_poll :: poll_inner
  async_owner :: FasyncOwner

definition PIPE_DEFAULT_SIZE :: nat where "PIPE_DEFAULT_SIZE = 65536"

definition with_capacity :: "nat \<Rightarrow> PipeRingBuffer" where
  "with_capacity c =
     \<lparr>bufs = [], bytes = 0, capacity = c, write_end_count = 0, read_end_count = 0,
      read_waiters = [], write_waiters = [], read_poll = Inner_new, write_poll = Inner_new,
      async_owner = FasyncOwner_default\<rparr>"

definition PipeRingBuffer_new :: PipeRingBuffer where
  "PipeRingBuffer_new = with_capacity PIPE_DEFAULT_SIZE"

definition available_read :: "PipeRingBuffer \<Rightarrow> nat" where
  "available_read r = bytes r"

text \<open>The difference does not underflow, because the invariant below keeps \<open>bytes\<close> within the
  capacity.\<close>

definition available_write :: "PipeRingBuffer \<Rightarrow> nat" where
  "available_write r = capacity r - bytes r"

definition set_capacity :: "nat \<Rightarrow> PipeRingBuffer \<Rightarrow> PipeRingBuffer" where
  "set_capacity c r = r\<lparr>capacity := c\<rparr>"

definition write_bytes :: "byte list \<Rightarrow> nat \<Rightarrow> PipeRingBuffer \<Rightarrow> PipeRingBuffer option" where
  "write_bytes d n r =
     (if n \<le> available_write r then
        let l = min n (length d) in
        if l = 0 then Some r
        else Some (r\<lparr>bufs := bufs r @ [PipeBuf_new (take l d)], bytes := bytes r + l\<rparr>)
      else None)"

definition write_byte :: "byte \<Rightarrow> PipeRingBuffer \<Rightarrow> PipeRingBuffer option" where
  "write_byte b r = write_bytes [b] 1 r"

definition write_owned_bytes :: "byte list \<Rightarrow> PipeRingBuffer \<Rightarrow> (PipeRingBuffer \<times> nat) option" where
  "write_owned_bytes d r =
     (let l = length d in
      if l \<le> available_write r then
        if l = 0 then Some (r, 0)
        else Some (r\<lparr>bufs := bufs r @ [PipeBuf_new d], bytes := bytes r + l\<rparr>, l)
      else None)"

definition push_bufs :: "PipeBuf list \<Rightarrow> PipeRingBuffer \<Rightarrow> PipeRingBuffer option" where
  "push_bufs bs r =
     (let l = sum_list (map buf_len bs) in
      if l \<le> available_write r
      then Some (r\<lparr>bufs := bufs r @ filter (\<lambda>b. buf_len b > 0) bs, bytes := bytes r + l\<rparr>)
      else None)"

text \<open>The loop of \<^verbatim>\<open>pop_bufs\<close>: the windows taken, the windows left and the byte count.\<close>

fun pop_loop :: "nat \<Rightarrow> PipeBuf list \<Rightarrow> nat \<Rightarrow> (PipeBuf list \<times> PipeBuf list \<times> nat) option" where
  "pop_loop remaining [] n = (if remaining > 0 then None else Some ([], [], n))"
| "pop_loop remaining (front # rest) n =
     (if remaining > 0 then
        if buf_len front \<le> remaining then
          case pop_loop (remaining - buf_len front) rest (n - buf_len front) of
            None \<Rightarrow> None
          | Some (taken, left, m) \<Rightarrow> Some (front # taken, left, m)
        else
          let (head, front1) = split_to remaining front in Some ([head], front1 # rest, n - remaining)
      else Some ([], front # rest, n))"

definition pop_bufs :: "nat \<Rightarrow> PipeRingBuffer \<Rightarrow> (PipeBuf list \<times> PipeRingBuffer) option" where
  "pop_bufs n r =
     (case pop_loop (min n (available_read r)) (bufs r) (bytes r) of
        None \<Rightarrow> None
      | Some (taken, left, m) \<Rightarrow> Some (taken, r\<lparr>bufs := left, bytes := m\<rparr>))"

fun clone_loop :: "nat \<Rightarrow> PipeBuf list \<Rightarrow> PipeBuf list" where
  "clone_loop remaining [] = []"
| "clone_loop remaining (b # bs) =
     (if remaining = 0 then []
      else let copy_len = min remaining (buf_len b)
           in \<lparr>storage = storage b, buf_offset = buf_offset b, buf_len = copy_len\<rparr>
                # clone_loop (remaining - copy_len) bs)"

definition clone_bufs :: "nat \<Rightarrow> PipeRingBuffer \<Rightarrow> PipeBuf list" where
  "clone_bufs n r = clone_loop (min n (available_read r)) (bufs r)"

definition read_bytes :: "(nat \<Rightarrow> byte list) \<Rightarrow> nat \<Rightarrow> PipeRingBuffer \<Rightarrow> (byte list \<times> PipeRingBuffer) option" where
  "read_bytes pages n r =
     (let l = min n (available_read r) in
      case pop_bufs l r of
        None \<Rightarrow> None
      | Some (taken, r1) \<Rightarrow> map_option (\<lambda>ss. (concat ss, r1)) (those (map (as_slice pages) taken)))"

definition read_byte :: "(nat \<Rightarrow> byte list) \<Rightarrow> PipeRingBuffer \<Rightarrow> (byte \<times> PipeRingBuffer) option" where
  "read_byte pages r =
     (case read_bytes pages 1 r of
        None \<Rightarrow> None
      | Some (d, r1) \<Rightarrow> if d = [] then None else Some (d ! 0, r1))"

definition read_into :: "(nat \<Rightarrow> byte list) \<Rightarrow> UserBuffer \<Rightarrow> nat \<Rightarrow> PipeRingBuffer \<Rightarrow>
    (UserBuffer \<times> nat \<times> PipeRingBuffer) option" where
  "read_into pages ub n r =
     (let l = min n (available_read r) in
      if l = 0 then Some (ub, 0, r)
      else case pop_bufs l r of
             None \<Rightarrow> None
           | Some (taken, r1) \<Rightarrow>
               (case those (map (as_slice pages) taken) of
                  None \<Rightarrow> None
                | Some ss \<Rightarrow> map_option (\<lambda>(ub1, k). (ub1, k, r1)) (write_from_slices ss l ub)))"

definition all_read_ends_closed :: "PipeRingBuffer \<Rightarrow> bool" where
  "all_read_ends_closed r \<longleftrightarrow> read_end_count r = 0"

definition all_write_ends_closed :: "PipeRingBuffer \<Rightarrow> bool" where
  "all_write_ends_closed r \<longleftrightarrow> write_end_count r = 0"

section \<open>Waiters\<close>

text \<open>
  What an operation does outside the buffer: the status of the tasks (a dropped task has none),
  the calls of \<^verbatim>\<open>ready_queue::add_task\<close> in order, and the wakers called by the poll sets.
\<close>

record pipe_env =
  task_states :: "nat \<Rightarrow> TaskStatus option"
  readied :: "nat list"
  poll_woken :: "waker list"

definition push_reader :: "nat \<Rightarrow> (nat \<Rightarrow> TaskStatus option) \<Rightarrow> PipeRingBuffer \<Rightarrow> PipeRingBuffer" where
  "push_reader task tasks r =
     (if list_ex (\<lambda>w. tasks w \<noteq> None \<and> w = task) (read_waiters r) then r
      else r\<lparr>read_waiters := read_waiters r @ [task]\<rparr>)"

definition push_writer :: "nat \<Rightarrow> (nat \<Rightarrow> TaskStatus option) \<Rightarrow> PipeRingBuffer \<Rightarrow> PipeRingBuffer" where
  "push_writer task tasks r =
     (if list_ex (\<lambda>w. tasks w \<noteq> None \<and> w = task) (write_waiters r) then r
      else r\<lparr>write_waiters := write_waiters r @ [task]\<rparr>)"

fun wake_waiters :: "bool \<Rightarrow> nat list \<Rightarrow> (nat \<Rightarrow> TaskStatus option) \<Rightarrow>
    nat list \<times> (nat \<Rightarrow> TaskStatus option) \<times> nat list" where
  "wake_waiters wake_one [] tasks = ([], tasks, [])"
| "wake_waiters wake_one (w # ws) tasks =
     (if tasks w = Some TBlocked then
        if wake_one then (ws, tasks(w \<mapsto> TReady), [w])
        else let (left, tasks1, woken) = wake_waiters wake_one ws (tasks(w \<mapsto> TReady))
             in (left, tasks1, w # woken)
      else wake_waiters wake_one ws tasks)"

definition wake_readers :: "bool \<Rightarrow> PipeRingBuffer \<Rightarrow> pipe_env \<Rightarrow> PipeRingBuffer \<times> pipe_env" where
  "wake_readers wake_one r e =
     (let (left, tasks1, woken) = wake_waiters wake_one (read_waiters r) (task_states e);
          (poll1, ws, _) = PollSet_wake (read_poll r)
      in (r\<lparr>read_waiters := left, read_poll := poll1\<rparr>,
          e\<lparr>task_states := tasks1, readied := readied e @ woken, poll_woken := poll_woken e @ ws\<rparr>))"

definition wake_writers :: "bool \<Rightarrow> PipeRingBuffer \<Rightarrow> pipe_env \<Rightarrow> PipeRingBuffer \<times> pipe_env" where
  "wake_writers wake_one r e =
     (let (left, tasks1, woken) = wake_waiters wake_one (write_waiters r) (task_states e);
          (poll1, ws, _) = PollSet_wake (write_poll r)
      in (r\<lparr>write_waiters := left, write_poll := poll1\<rparr>,
          e\<lparr>task_states := tasks1, readied := readied e @ woken, poll_woken := poll_woken e @ ws\<rparr>))"

definition wake_reader :: "PipeRingBuffer \<Rightarrow> pipe_env \<Rightarrow> PipeRingBuffer \<times> pipe_env" where
  "wake_reader = wake_readers True"

definition wake_writer :: "PipeRingBuffer \<Rightarrow> pipe_env \<Rightarrow> PipeRingBuffer \<times> pipe_env" where
  "wake_writer = wake_writers True"

definition wake_all_readers :: "PipeRingBuffer \<Rightarrow> pipe_env \<Rightarrow> PipeRingBuffer \<times> pipe_env" where
  "wake_all_readers = wake_readers False"

definition wake_all_writers :: "PipeRingBuffer \<Rightarrow> pipe_env \<Rightarrow> PipeRingBuffer \<times> pipe_env" where
  "wake_all_writers = wake_writers False"

section \<open>The invariant and the abstract content\<close>

definition buf_ok :: "(nat \<Rightarrow> byte list) \<Rightarrow> PipeBuf \<Rightarrow> bool" where
  "buf_ok pages b \<longleftrightarrow> 0 < buf_len b \<and> buf_offset b + buf_len b \<le> length (stored pages (storage b))"

definition buf_data :: "(nat \<Rightarrow> byte list) \<Rightarrow> PipeBuf \<Rightarrow> byte list" where
  "buf_data pages b = take (buf_len b) (drop (buf_offset b) (stored pages (storage b)))"

definition ring_ok :: "(nat \<Rightarrow> byte list) \<Rightarrow> PipeRingBuffer \<Rightarrow> bool" where
  "ring_ok pages r \<longleftrightarrow> list_all (buf_ok pages) (bufs r)
     \<and> bytes r = sum_list (map buf_len (bufs r)) \<and> bytes r \<le> capacity r"

definition contents :: "(nat \<Rightarrow> byte list) \<Rightarrow> PipeRingBuffer \<Rightarrow> byte list" where
  "contents pages r = concat (map (buf_data pages) (bufs r))"

lemma as_slice_ok [simp]: "buf_ok pages b \<Longrightarrow> as_slice pages b = Some (buf_data pages b)"
  by (simp add: buf_ok_def as_slice_def buf_data_def)

lemma those_as_slice: "list_all (buf_ok pages) bs \<Longrightarrow> those (map (as_slice pages) bs) = Some (map (buf_data pages) bs)"
  by (induction bs) auto

lemma length_buf_data [simp]: "buf_ok pages b \<Longrightarrow> length (buf_data pages b) = buf_len b"
  by (auto simp: buf_ok_def buf_data_def)

lemma length_concat_data:
  "list_all (buf_ok pages) bs \<Longrightarrow> length (concat (map (buf_data pages) bs)) = sum_list (map buf_len bs)"
  by (induction bs) auto

lemma length_contents [simp]: "ring_ok pages r \<Longrightarrow> length (contents pages r) = bytes r"
  by (simp add: ring_ok_def contents_def length_concat_data)

lemma pop_loop_ok:
  assumes "list_all (buf_ok pages) bs" and "remaining \<le> sum_list (map buf_len bs)"
    and "n = sum_list (map buf_len bs)"
  shows "\<exists>taken left. pop_loop remaining bs n = Some (taken, left, n - remaining)
    \<and> list_all (buf_ok pages) taken \<and> list_all (buf_ok pages) left
    \<and> sum_list (map buf_len taken) = remaining \<and> sum_list (map buf_len left) = n - remaining
    \<and> concat (map (buf_data pages) taken) = take remaining (concat (map (buf_data pages) bs))
    \<and> concat (map (buf_data pages) left) = drop remaining (concat (map (buf_data pages) bs))"
  using assms
proof (induction remaining bs n rule: pop_loop.induct)
  case (1 remaining n)
  then show ?case by simp
next
  case (2 remaining front rest n)
  then have ok: "buf_ok pages front" "list_all (buf_ok pages) rest" by simp_all
  consider (none) "remaining = 0" | (whole) "0 < remaining" "buf_len front \<le> remaining"
    | (part) "0 < remaining" "remaining < buf_len front" by linarith
  then show ?case
  proof cases
    case none
    with 2 show ?thesis by simp
  next
    case whole
    have "remaining - buf_len front \<le> sum_list (map buf_len rest)" using "2.prems" by simp
    then obtain taken left where "pop_loop (remaining - buf_len front) rest (n - buf_len front) =
          Some (taken, left, n - buf_len front - (remaining - buf_len front))"
      "list_all (buf_ok pages) taken" "list_all (buf_ok pages) left"
      "sum_list (map buf_len taken) = remaining - buf_len front"
      "sum_list (map buf_len left) = n - buf_len front - (remaining - buf_len front)"
      "concat (map (buf_data pages) taken) = take (remaining - buf_len front) (concat (map (buf_data pages) rest))"
      "concat (map (buf_data pages) left) = drop (remaining - buf_len front) (concat (map (buf_data pages) rest))"
      using "2.IH" [OF whole] "2.prems" by auto
    with whole ok show ?thesis by simp
  next
    case part
    let ?b = "\<lparr>storage = storage front, buf_offset = buf_offset front, buf_len = remaining\<rparr>"
    let ?c = "front\<lparr>buf_offset := buf_offset front + remaining, buf_len := buf_len front - remaining\<rparr>"
    have "buf_ok pages ?b" "buf_ok pages ?c" using ok part by (auto simp: buf_ok_def)
    moreover have "buf_data pages ?b = take remaining (buf_data pages front)"
      "buf_data pages ?c = drop remaining (buf_data pages front)"
      using part by (simp_all add: buf_data_def drop_take add.commute min_def)
    ultimately show ?thesis using ok part "2.prems" by (simp add: split_to_def)
  qed
qed

text \<open>An operation on the data changes neither the capacity, nor the ends, nor the waiters.\<close>

definition same_but_data :: "PipeRingBuffer \<Rightarrow> PipeRingBuffer \<Rightarrow> bool" where
  "same_but_data r r1 \<longleftrightarrow> r1 = r\<lparr>bufs := bufs r1, bytes := bytes r1\<rparr>"

lemma same_but_data_intros [simp, intro]:
  "same_but_data r r" "same_but_data r (r\<lparr>bufs := bs, bytes := m\<rparr>)"
  by (simp_all add: same_but_data_def)

lemma same_but_data_trans: "same_but_data r r1 \<Longrightarrow> same_but_data r1 r2 \<Longrightarrow> same_but_data r r2"
  unfolding same_but_data_def by (cases r, cases r1, cases r2) simp

lemma same_but_dataD:
  assumes "same_but_data r r1"
  shows "capacity r1 = capacity r" "write_end_count r1 = write_end_count r" "read_end_count r1 = read_end_count r"
    "read_waiters r1 = read_waiters r" "write_waiters r1 = write_waiters r"
    "read_poll r1 = read_poll r" "write_poll r1 = write_poll r" "async_owner r1 = async_owner r"
  by (subst assms [unfolded same_but_data_def]; simp)+

lemma pop_bufs_ok:
  assumes "ring_ok pages r"
  shows "\<exists>taken r1. pop_bufs n r = Some (taken, r1) \<and> list_all (buf_ok pages) taken
    \<and> sum_list (map buf_len taken) = min n (bytes r)
    \<and> concat (map (buf_data pages) taken) = take n (contents pages r)
    \<and> contents pages r1 = drop n (contents pages r) \<and> ring_ok pages r1
    \<and> same_but_data r r1"
proof -
  let ?m = "min n (bytes r)"
  have ok: "list_all (buf_ok pages) (bufs r)" "bytes r = sum_list (map buf_len (bufs r))" "bytes r \<le> capacity r"
    using assms by (simp_all add: ring_ok_def)
  have m: "take ?m (contents pages r) = take n (contents pages r)" "drop ?m (contents pages r) = drop n (contents pages r)"
    using assms by (simp_all add: min_def)
  from pop_loop_ok [OF ok(1) _ ok(2), of ?m] ok(2) obtain taken left where
    p: "pop_loop ?m (bufs r) (bytes r) = Some (taken, left, bytes r - ?m)" "list_all (buf_ok pages) taken"
      "list_all (buf_ok pages) left" "sum_list (map buf_len taken) = ?m" "sum_list (map buf_len left) = bytes r - ?m"
      "concat (map (buf_data pages) taken) = take ?m (contents pages r)"
      "concat (map (buf_data pages) left) = drop ?m (contents pages r)"
    by (auto simp: contents_def)
  have "ring_ok pages (r\<lparr>bufs := left, bytes := bytes r - ?m\<rparr>)"
    using p(3,5) ok(3) by (simp add: ring_ok_def)
  moreover have "contents pages (r\<lparr>bufs := left, bytes := bytes r - ?m\<rparr>) = drop n (contents pages r)"
    using p(7) by (simp add: contents_def [of _ "_\<lparr>bytes := _\<rparr>"] m)
  ultimately show ?thesis
    using p by (simp add: pop_bufs_def available_read_def m)
qed

lemma read_bytes_ok:
  assumes "ring_ok pages r"
  shows "\<exists>r1. read_bytes pages n r = Some (take n (contents pages r), r1)
    \<and> contents pages r1 = drop n (contents pages r) \<and> ring_ok pages r1
    \<and> same_but_data r r1"
proof -
  let ?m = "min n (bytes r)"
  have m: "take ?m (contents pages r) = take n (contents pages r)" "drop ?m (contents pages r) = drop n (contents pages r)"
    using assms by (simp_all add: min_def)
  from pop_bufs_ok [OF assms, of ?m] show ?thesis
    by (auto simp: read_bytes_def available_read_def those_as_slice m)
qed

lemma read_byte_ok:
  assumes "ring_ok pages r" and "contents pages r \<noteq> []"
  shows "\<exists>r1. read_byte pages r = Some (hd (contents pages r), r1)
    \<and> contents pages r1 = tl (contents pages r) \<and> ring_ok pages r1
    \<and> same_but_data r r1"
  using read_bytes_ok [OF assms(1), of 1] assms(2)
  by (auto simp: read_byte_def take_Suc drop_Suc)

lemma read_into_ok:
  assumes "ring_ok pages r"
  shows "\<exists>ub1 r1. read_into pages ub n r = Some (ub1, min (length (flat ub)) (min n (bytes r)), r1)
    \<and> shape ub1 = shape ub
    \<and> flat ub1 = overlay 0 (take (min (length (flat ub)) n) (contents pages r)) (flat ub)
    \<and> contents pages r1 = drop n (contents pages r) \<and> ring_ok pages r1
    \<and> same_but_data r r1"
proof (cases "min n (bytes r) = 0")
  case True
  then have "take (min (length (flat ub)) n) (contents pages r) = []" "drop n (contents pages r) = contents pages r"
    using length_contents [OF assms] by (auto simp: min_def split: if_splits)
  with True assms show ?thesis
    by (auto simp: read_into_def available_read_def)
next
  case False
  let ?m = "min n (bytes r)"
  have m: "take ?m (contents pages r) = take n (contents pages r)" "drop ?m (contents pages r) = drop n (contents pages r)"
    using assms by (simp_all add: min_def)
  obtain taken r1 where p: "pop_bufs ?m r = Some (taken, r1)" "list_all (buf_ok pages) taken"
      "concat (map (buf_data pages) taken) = take ?m (contents pages r)"
      "contents pages r1 = drop n (contents pages r)" "ring_ok pages r1" "same_but_data r r1"
    using pop_bufs_ok [OF assms, of ?m] m by metis
  obtain ub1 where w: "write_from_slices (map (buf_data pages) taken) ?m ub =
        Some (ub1, min (min (length (flat ub)) ?m) (length (take ?m (contents pages r))))"
      "shape ub1 = shape ub" "flat ub1 = overlay 0 (take (min (length (flat ub)) ?m) (take ?m (contents pages r))) (flat ub)"
    using write_from_slices_flat [of "map (buf_data pages) taken" ?m ub] p(3) by auto
  have "take (min (length (flat ub)) ?m) (take ?m (contents pages r)) = take (min (length (flat ub)) n) (contents pages r)"
    using assms by (simp add: min_def)
  moreover have "min (min (length (flat ub)) ?m) (length (take ?m (contents pages r))) = min (length (flat ub)) ?m"
    using assms by simp
  ultimately show ?thesis
    unfolding read_into_def available_read_def Let_def if_not_P [OF False]
    using p w by (simp add: those_as_slice)
qed

lemma PipeBuf_new_ok: "d \<noteq> [] \<Longrightarrow> buf_ok pages (PipeBuf_new d)"
  by (simp add: buf_ok_def PipeBuf_new_def stored_def)

lemma PipeBuf_new_data [simp]: "buf_data pages (PipeBuf_new d) = d"
  by (simp add: buf_data_def PipeBuf_new_def stored_def)

lemma buf_len_new [simp]: "buf_len (PipeBuf_new d) = length d"
  by (simp add: PipeBuf_new_def)

lemma push_bufs_ok:
  assumes "ring_ok pages r" and "list_all (buf_ok pages) bs"
    and "sum_list (map buf_len bs) \<le> available_write r"
  shows "\<exists>r1. push_bufs bs r = Some r1 \<and> contents pages r1 = contents pages r @ concat (map (buf_data pages) bs)
    \<and> ring_ok pages r1 \<and> same_but_data r r1"
proof -
  have f: "filter (\<lambda>b. 0 < buf_len b) bs = bs"
    using assms(2) by (auto simp: filter_id_conv list_all_iff buf_ok_def)
  have "bytes r + sum_list (map buf_len bs) \<le> capacity r"
    using assms by (auto simp: available_write_def ring_ok_def)
  with assms f show ?thesis
    by (auto simp: push_bufs_def contents_def ring_ok_def)
qed

lemma write_owned_push: "write_owned_bytes d r = map_option (\<lambda>r1. (r1, length d)) (push_bufs [PipeBuf_new d] r)"
  by (auto simp: write_owned_bytes_def push_bufs_def Let_def)

lemma write_owned_bytes_ok:
  assumes "ring_ok pages r" and "length d \<le> available_write r"
  shows "\<exists>r1. write_owned_bytes d r = Some (r1, length d) \<and> contents pages r1 = contents pages r @ d
    \<and> ring_ok pages r1 \<and> same_but_data r r1"
proof (cases "d = []")
  case True
  with assms show ?thesis by (auto simp: write_owned_bytes_def)
next
  case False
  then show ?thesis
    using push_bufs_ok [OF assms(1), of "[PipeBuf_new d]"] assms(2) by (auto simp: write_owned_push PipeBuf_new_ok)
qed

lemma write_bytes_owned:
  "n \<le> available_write r \<Longrightarrow> write_bytes d n r = map_option fst (write_owned_bytes (take n d) r)"
  by (auto simp: write_bytes_def write_owned_bytes_def Let_def min_def)

lemma write_bytes_ok:
  assumes "ring_ok pages r" and "n \<le> available_write r"
  shows "\<exists>r1. write_bytes d n r = Some r1 \<and> contents pages r1 = contents pages r @ take n d
    \<and> ring_ok pages r1 \<and> same_but_data r r1"
  using write_owned_bytes_ok [OF assms(1), of "take n d"] assms(2) by (fastforce simp: write_bytes_owned)

lemma clone_loop_ok:
  assumes "list_all (buf_ok pages) bs"
  shows "list_all (buf_ok pages) (clone_loop n bs)
    \<and> sum_list (map buf_len (clone_loop n bs)) = min n (sum_list (map buf_len bs))
    \<and> concat (map (buf_data pages) (clone_loop n bs)) = take n (concat (map (buf_data pages) bs))"
  using assms
proof (induction n bs rule: clone_loop.induct)
  case (1 n)
  then show ?case by simp
next
  case (2 n b bs)
  show ?case
  proof (cases "n = 0")
    case True
    then show ?thesis by simp
  next
    case False
    let ?c = "min n (buf_len b)"
    let ?b = "\<lparr>storage = storage b, buf_offset = buf_offset b, buf_len = ?c\<rparr>"
    have ok: "buf_ok pages b" using "2.prems" by simp
    have b: "buf_ok pages ?b" "buf_data pages ?b = take n (buf_data pages b)"
      using ok False by (auto simp: buf_ok_def buf_data_def)
    have "n - ?c = n - buf_len b" by auto
    with b ok "2.IH" [OF False refl] "2.prems" False show ?thesis by auto
  qed
qed

lemma clone_bufs_ok:
  assumes "ring_ok pages r"
  shows "list_all (buf_ok pages) (clone_bufs n r) \<and> sum_list (map buf_len (clone_bufs n r)) = min n (bytes r)
    \<and> concat (map (buf_data pages) (clone_bufs n r)) = take n (contents pages r)"
proof -
  have "take (min n (bytes r)) (contents pages r) = take n (contents pages r)"
    using assms by (simp add: min_def)
  with clone_loop_ok [of pages "bufs r" "min n (bytes r)"] assms show ?thesis
    by (auto simp: clone_bufs_def ring_ok_def available_read_def contents_def)
qed

section \<open>The interface of the file operations\<close>

text \<open>
  A client of the queue writes as much as there is room for and reads up to a number of bytes.
  The run answers the bytes accepted, the bytes delivered and the final queue.
\<close>

datatype 'a q_op = Put "'a list" | Get nat

fun q_run :: "('s \<Rightarrow> nat) \<Rightarrow> ('a list \<Rightarrow> 's \<Rightarrow> 's option) \<Rightarrow> (nat \<Rightarrow> 's \<Rightarrow> ('a list \<times> 's) option) \<Rightarrow>
    'a q_op list \<Rightarrow> 's \<Rightarrow> ('a list \<times> 'a list \<times> 's) option" where
  "q_run room put get [] s = Some ([], [], s)"
| "q_run room put get (Put d # ops) s =
     (case put (take (room s) d) s of
        None \<Rightarrow> None
      | Some s1 \<Rightarrow> map_option (\<lambda>(ins, outs, s2). (take (room s) d @ ins, outs, s2)) (q_run room put get ops s1))"
| "q_run room put get (Get n # ops) s =
     (case get n s of
        None \<Rightarrow> None
      | Some (d, s1) \<Rightarrow> map_option (\<lambda>(ins, outs, s2). (ins, d @ outs, s2)) (q_run room put get ops s1))"

locale byte_queue =
  fixes ok :: "'s \<Rightarrow> bool"
    and held :: "'s \<Rightarrow> 'a list"
    and room :: "'s \<Rightarrow> nat"
    and put :: "'a list \<Rightarrow> 's \<Rightarrow> 's option"
    and get :: "nat \<Rightarrow> 's \<Rightarrow> ('a list \<times> 's) option"
  assumes put_law: "ok s \<Longrightarrow> length d \<le> room s \<Longrightarrow>
      \<exists>s1. put d s = Some s1 \<and> ok s1 \<and> held s1 = held s @ d \<and> room s1 = room s - length d"
    and get_law: "ok s \<Longrightarrow>
      \<exists>s1. get n s = Some (take n (held s), s1) \<and> ok s1 \<and> held s1 = drop n (held s)
        \<and> room s1 = room s + min n (length (held s))"
begin

lemma run_is_fifo:
  "ok s \<Longrightarrow> \<exists>ins outs s1. q_run room put get ops s = Some (ins, outs, s1) \<and> ok s1 \<and> held s @ ins = outs @ held s1"
proof (induction ops arbitrary: s)
  case Nil
  then show ?case by simp
next
  case (Cons a ops)
  show ?case
  proof (cases a)
    case (Put d)
    obtain s1 where "put (take (room s) d) s = Some s1" "ok s1" "held s1 = held s @ take (room s) d"
      using put_law [OF Cons.prems, of "take (room s) d"] by auto
    with Cons.IH [of s1] Put show ?thesis by auto
  next
    case (Get n)
    obtain s1 where s1: "get n s = Some (take n (held s), s1)" "ok s1" "held s1 = drop n (held s)"
      using get_law [OF Cons.prems] by auto
    obtain ins outs s2 where r: "q_run room put get ops s1 = Some (ins, outs, s2)" "ok s2"
        "drop n (held s) @ ins = outs @ held s2"
      using Cons.IH [OF s1(2)] s1(3) by auto
    have "held s @ ins = (take n (held s) @ outs) @ held s2"
      by (metis r(3) append.assoc append_take_drop_id)
    with r(1,2) s1(1) Get show ?thesis by auto
  qed
qed

lemma run_conserves_space:
  "ok s \<Longrightarrow> q_run room put get ops s = Some (ins, outs, s1) \<Longrightarrow>
     room s1 + length (held s1) = room s + length (held s)"
proof (induction ops arbitrary: s ins outs)
  case Nil
  then show ?case by simp
next
  case (Cons a ops)
  show ?case
  proof (cases a)
    case (Put d)
    obtain s1 where "put (take (room s) d) s = Some s1" "ok s1" "held s1 = held s @ take (room s) d"
        "room s1 = room s - length (take (room s) d)"
      using put_law [OF Cons.prems(1), of "take (room s) d"] by auto
    with Cons.IH [of s1] Cons.prems(2) Put show ?thesis by auto
  next
    case (Get n)
    obtain s1 where "get n s = Some (take n (held s), s1)" "ok s1" "held s1 = drop n (held s)"
        "room s1 = room s + min n (length (held s))"
      using get_law [OF Cons.prems(1)] by auto
    with Cons.IH [of s1] Cons.prems(2) Get show ?thesis by (auto simp: min_def split: if_splits)
  qed
qed

end

lemma available_write_eq:
  "ring_ok pages r \<Longrightarrow> available_write r = capacity r - length (contents pages r)"
  by (simp add: available_write_def)

interpretation ringq: byte_queue "ring_ok pages" "contents pages" available_write
    "\<lambda>d r. map_option fst (write_owned_bytes d r)" "read_bytes pages" for pages
proof (unfold_locales, goal_cases)
  case (1 r d)
  then show ?case
    using write_owned_bytes_ok [OF 1] by (fastforce simp: available_write_eq dest: same_but_dataD)
next
  case (2 r n)
  obtain r1 where r1: "read_bytes pages n r = Some (take n (contents pages r), r1)"
      "contents pages r1 = drop n (contents pages r)" "ring_ok pages r1" "same_but_data r r1"
    using read_bytes_ok [OF 2] by blast
  have "bytes r \<le> capacity r" using 2 by (simp add: ring_ok_def)
  with r1 2 show ?case
    by (auto simp: available_write_eq [OF 2] available_write_eq [OF r1(3)] same_but_dataD(1) [OF r1(4)] simp del: length_contents)
      (auto simp: 2 min_def)
qed

section \<open>Properties\<close>

text \<open>
  The ring buffer is a first-in first-out byte stream: from a consistent ring, any sequence of
  writes (each clipped to the free space) and reads never fails an assertion, and the bytes held
  at the start followed by those accepted are exactly the bytes delivered followed by those held
  at the end, whatever windows they were split into; free and used space always add up to the
  same capacity.
\<close>

lemma pipe_ring_is_fifo:
  assumes "ring_ok pages r"
  shows "\<exists>ins outs r1.
      q_run available_write (\<lambda>d r. map_option fst (write_owned_bytes d r)) (read_bytes pages) ops r = Some (ins, outs, r1)
    \<and> ring_ok pages r1 \<and> contents pages r @ ins = outs @ contents pages r1
    \<and> available_write r1 + length (contents pages r1) = available_write r + length (contents pages r)"
  using ringq.run_is_fifo [OF assms, of ops] ringq.run_conserves_space [OF assms, of ops] by blast

lemma pipe_ring_is_fifo_witness:
  "\<exists>ins outs r1.
      q_run available_write (\<lambda>d r. map_option fst (write_owned_bytes d r)) (read_bytes (\<lambda>_. []))
        [Put [1, 2, 3], Put [4, 5], Get 2, Get 9] (with_capacity 4) = Some (ins, outs, r1)
    \<and> ring_ok (\<lambda>_. []) r1 \<and> contents (\<lambda>_. []) (with_capacity 4) @ ins = outs @ contents (\<lambda>_. []) r1
    \<and> available_write r1 + length (contents (\<lambda>_. []) r1) = available_write (with_capacity 4) + length (contents (\<lambda>_. []) (with_capacity 4))"
  by (rule pipe_ring_is_fifo) (simp add: ring_ok_def with_capacity_def)

end
