(* ===== verification/Open_Flags.thy ===== *)
theory Open_Flags
  imports "HOL-Library.Word"
begin

text \<open>
  Sets of flags in machine words (the \<^verbatim>\<open>bitflags\<close> macro), and the flags of open files
  (\<^verbatim>\<open>OpenFlags\<close> of \<^verbatim>\<open>fs/mod.rs\<close>), shared by the pipes and the descriptor tables.
\<close>

unbundle bit_operations_syntax

type_synonym OpenFlags = "32 word"

definition O_WRONLY :: OpenFlags where "O_WRONLY = 1"
definition O_RDWR :: OpenFlags where "O_RDWR = 2"
definition O_ACCMODE :: OpenFlags where "O_ACCMODE = 3"
definition O_APPEND :: OpenFlags where "O_APPEND = 0x400"
definition O_NONBLOCK :: OpenFlags where "O_NONBLOCK = 0x800"
definition O_DSYNC :: OpenFlags where "O_DSYNC = 0x1000"
definition O_SYNC :: OpenFlags where "O_SYNC = 0x101000"
definition O_RSYNC :: OpenFlags where "O_RSYNC = 0x101000"
definition O_ASYNC :: OpenFlags where "O_ASYNC = 0x2000"
definition O_DIRECT :: OpenFlags where "O_DIRECT = 0x4000"
definition O_LARGEFILE :: OpenFlags where "O_LARGEFILE = 0x8000"
definition O_NOATIME :: OpenFlags where "O_NOATIME = 0x40000"
definition O_CLOEXEC :: OpenFlags where "O_CLOEXEC = 0x80000"
definition O_PATH :: OpenFlags where "O_PATH = 0x200000"

definition read_write :: "OpenFlags \<Rightarrow> bool \<times> bool" where
  "read_write flags =
     (if flags AND O_PATH = O_PATH then (False, False)
      else
        let x = flags AND O_ACCMODE in
        if x = 0 then (True, False)
        else if x = O_WRONLY then (False, True)
        else if x = O_RDWR then (True, True)
        else (False, False))"

text \<open>\<^verbatim>\<open>contains\<close>, \<^verbatim>\<open>insert\<close> and \<^verbatim>\<open>remove\<close> of a set of flags\<close>

definition flags_contain :: "'a::len word \<Rightarrow> 'a word \<Rightarrow> bool" where
  "flags_contain flags m \<longleftrightarrow> flags AND m = m"

definition flags_insert :: "'a::len word \<Rightarrow> 'a word \<Rightarrow> 'a word" where
  "flags_insert m flags = flags OR m"

definition flags_remove :: "'a::len word \<Rightarrow> 'a word \<Rightarrow> 'a word" where
  "flags_remove m flags = flags AND NOT m"

definition flags_within :: "'a::len word \<Rightarrow> 'a word \<Rightarrow> bool" where
  "flags_within m flags \<longleftrightarrow> flags AND NOT m = 0"

lemma flags_within_bit: "flags_within m flags \<longleftrightarrow> (\<forall>n. bit flags n \<longrightarrow> bit m n)"
  using bit_imp_le_length [of flags] by (auto simp: flags_within_def bit_eq_iff bit_simps)

lemma flags_within_ops [intro]:
  "flags_within m (flags AND m)" "flags_within m 0" "flags_within m flags \<Longrightarrow> flags_within m (flags_remove k flags)"
  "flags_within m flags \<Longrightarrow> flags_within m k \<Longrightarrow> flags_within m (flags_insert k flags)"
  by (auto simp: flags_within_bit flags_remove_def flags_insert_def bit_simps)

lemma flags_within_trans: "flags_within m flags \<Longrightarrow> flags_within k m \<Longrightarrow> flags_within k flags"
  by (auto simp: flags_within_bit)

end
