(* ===== verification/Signal_Types.thy ===== *)
theory Signal_Types
  imports Prelude Open_Flags
begin

text \<open>
  \<^verbatim>\<open>signal/types.rs\<close> and \<^verbatim>\<open>signal/action_table.rs\<close>: signal numbers and sets, actions, the alternate
  signal stack and \<^verbatim>\<open>siginfo_t\<close>.  A set of signals is a 64-bit word; only the bits of the declared
  signals, 1 to 33, are flags of the type.
\<close>

section \<open>Signal numbers and sets\<close>

definition SIGHUP :: nat where "SIGHUP = 1"
definition SIGINT :: nat where "SIGINT = 2"
definition SIGQUIT :: nat where "SIGQUIT = 3"
definition SIGILL :: nat where "SIGILL = 4"
definition SIGTRAP :: nat where "SIGTRAP = 5"
definition SIGABRT :: nat where "SIGABRT = 6"
definition SIGBUS :: nat where "SIGBUS = 7"
definition SIGFPE :: nat where "SIGFPE = 8"
definition SIGKILL :: nat where "SIGKILL = 9"
definition SIGUSR1 :: nat where "SIGUSR1 = 10"
definition SIGSEGV :: nat where "SIGSEGV = 11"
definition SIGUSR2 :: nat where "SIGUSR2 = 12"
definition SIGPIPE :: nat where "SIGPIPE = 13"
definition SIGALRM :: nat where "SIGALRM = 14"
definition SIGTERM :: nat where "SIGTERM = 15"
definition SIGSTKFLT :: nat where "SIGSTKFLT = 16"
definition SIGCHLD :: nat where "SIGCHLD = 17"
definition SIGCONT :: nat where "SIGCONT = 18"
definition SIGSTOP :: nat where "SIGSTOP = 19"
definition SIGTSTP :: nat where "SIGTSTP = 20"
definition SIGTTIN :: nat where "SIGTTIN = 21"
definition SIGTTOU :: nat where "SIGTTOU = 22"
definition SIGURG :: nat where "SIGURG = 23"
definition SIGXCPU :: nat where "SIGXCPU = 24"
definition SIGXFSZ :: nat where "SIGXFSZ = 25"
definition SIGVTALRM :: nat where "SIGVTALRM = 26"
definition SIGPROF :: nat where "SIGPROF = 27"
definition SIGWINCH :: nat where "SIGWINCH = 28"
definition SIGIO :: nat where "SIGIO = 29"
definition SIGPWR :: nat where "SIGPWR = 30"
definition SIGSYS :: nat where "SIGSYS = 31"
definition SIGRTMIN :: nat where "SIGRTMIN = 32"
definition SIGRT_1 :: nat where "SIGRT_1 = SIGRTMIN + 1"

definition SIG_MAX_NUM :: nat where "SIG_MAX_NUM = 64"
definition SIG_DFL :: nat where "SIG_DFL = 0"
definition SIG_IGN :: nat where "SIG_IGN = 1"

lemmas signo_defs = SIGHUP_def SIGINT_def SIGQUIT_def SIGILL_def SIGTRAP_def SIGABRT_def SIGBUS_def SIGFPE_def SIGKILL_def
  SIGUSR1_def SIGSEGV_def SIGUSR2_def SIGPIPE_def SIGALRM_def SIGTERM_def SIGSTKFLT_def SIGCHLD_def SIGCONT_def SIGSTOP_def
  SIGTSTP_def SIGTTIN_def SIGTTOU_def SIGURG_def SIGXCPU_def SIGXFSZ_def SIGVTALRM_def SIGPROF_def SIGWINCH_def SIGIO_def
  SIGPWR_def SIGSYS_def SIGRTMIN_def SIGRT_1_def SIG_MAX_NUM_def

type_synonym SigSet = "64 word"

text \<open>The flag of one signal, the flag sets of several, and the set of all flags\<close>

definition sig_flag :: "nat \<Rightarrow> SigSet" where "sig_flag signo = push_bit (signo - 1) 1"

definition sig_flags :: "nat list \<Rightarrow> SigSet" where "sig_flags signos = foldr (\<lambda>n s. sig_flag n OR s) signos 0"

definition SigSet_all :: SigSet where "SigSet_all = sig_flags [1..<SIGRT_1 + 1]"

definition UNBLOCKABLE :: SigSet where "UNBLOCKABLE = sig_flag SIGKILL OR sig_flag SIGSTOP"

datatype SigOp = Terminate | CoreDump | Ignore | Stop | Continue

definition default_op :: "SigSet \<Rightarrow> SigOp" where
  "default_op s =
     (let terminate_signals = sig_flags [SIGHUP, SIGINT, SIGKILL, SIGUSR1, SIGUSR2, SIGPIPE, SIGALRM, SIGTERM, SIGSTKFLT,
            SIGVTALRM, SIGPROF, SIGIO, SIGPWR];
          dump_signals = sig_flags [SIGQUIT, SIGILL, SIGTRAP, SIGABRT, SIGBUS, SIGFPE, SIGSEGV, SIGXCPU, SIGXFSZ, SIGSYS];
          ignore_signals = sig_flags [SIGCHLD, SIGURG, SIGWINCH];
          stop_signals = sig_flags [SIGSTOP, SIGTSTP, SIGTTIN, SIGTTOU];
          continue_signals = sig_flag SIGCONT in
      if flags_contain terminate_signals s then Terminate
      else if flags_contain dump_signals s then CoreDump
      else if flags_contain ignore_signals s \<or> s = 0 then Ignore
      else if flags_contain stop_signals s then Stop
      else if flags_contain continue_signals s then Continue
      else Terminate)"

text \<open>\<^verbatim>\<open>from_bits_truncate\<close> drops the bits that are no flags; \<open>None\<close> is a panic.\<close>

definition from_sig :: "nat \<Rightarrow> SigSet option" where
  "from_sig signo = (if signo = 0 \<or> signo > SIG_MAX_NUM then None else Some (push_bit (signo - 1) 1 AND SigSet_all))"

definition peek_front :: "SigSet \<Rightarrow> nat option" where
  "peek_front s = map_option Suc (find (bit s) [0..<64])"

text \<open>The complement of a set of flags, again truncated to the flags\<close>

definition SigSet_not :: "SigSet \<Rightarrow> SigSet" where "SigSet_not s = NOT s AND SigSet_all"

section \<open>Actions\<close>

definition SA_NOCLDSTOP :: "32 word" where "SA_NOCLDSTOP = 1"
definition SA_NOCLDWAIT :: "32 word" where "SA_NOCLDWAIT = 2"
definition SA_SIGINFO :: "32 word" where "SA_SIGINFO = 4"
definition SA_ONSTACK :: "32 word" where "SA_ONSTACK = 0x08000000"
definition SA_RESTART :: "32 word" where "SA_RESTART = 0x10000000"
definition SA_NODEFER :: "32 word" where "SA_NODEFER = 0x40000000"
definition SA_RESETHAND :: "32 word" where "SA_RESETHAND = 0x80000000"
definition SA_INTERRUPT :: "32 word" where "SA_INTERRUPT = 0x20000000"
definition SA_RESTORER :: "32 word" where "SA_RESTORER = 0x04000000"

definition SigActionFlags_all :: "32 word" where
  "SigActionFlags_all = SA_NOCLDSTOP OR SA_NOCLDWAIT OR SA_SIGINFO OR SA_ONSTACK OR SA_RESTART OR SA_NODEFER OR SA_RESETHAND OR
     SA_INTERRUPT OR SA_RESTORER"

record SigAction =
  sa_handler :: nat
  sa_flags :: "32 word"
  sa_restore :: nat
  sa_mask :: SigSet

datatype SigDisposition = Default | IgnoreSignal | Handler

record KSigAction =
  act :: SigAction
  disposition :: SigDisposition

definition SigAction_default :: SigAction where
  "SigAction_default = \<lparr>sa_handler = SIG_DFL, sa_flags = 0, sa_restore = 0, sa_mask = 0\<rparr>"

definition default_action :: KSigAction where
  "default_action = \<lparr>act = SigAction_default, disposition = Default\<rparr>"

definition ignore_action :: KSigAction where
  "ignore_action = \<lparr>act = \<lparr>sa_handler = SIG_IGN, sa_flags = 0, sa_restore = 0, sa_mask = 0\<rparr>, disposition = IgnoreSignal\<rparr>"

definition handler_action :: "SigAction \<Rightarrow> KSigAction" where
  "handler_action a = \<lparr>act = a, disposition = Handler\<rparr>"

definition is_ignored :: "KSigAction \<Rightarrow> bool" where "is_ignored k \<longleftrightarrow> disposition k = IgnoreSignal"

definition is_handler :: "KSigAction \<Rightarrow> bool" where "is_handler k \<longleftrightarrow> disposition k = Handler"

type_synonym SigTable = "KSigAction list"

definition SigTable_new :: SigTable where "SigTable_new = replicate (SIG_MAX_NUM + 1) default_action"

definition set_action :: "nat \<Rightarrow> KSigAction \<Rightarrow> SigTable \<Rightarrow> SigTable" where
  "set_action signo k t = t[signo := k]"

text \<open>The layout of \<^verbatim>\<open>struct sigaction\<close> in user memory, on RISC-V\<close>

record RawSigAction =
  raw_handler :: nat
  raw_flags :: "64 word"
  raw_restorer :: nat
  raw_mask :: "32 word \<times> 32 word"

definition from_sigaction :: "SigAction \<Rightarrow> RawSigAction" where
  "from_sigaction a = \<lparr>raw_handler = sa_handler a, raw_flags = ucast (sa_flags a), raw_restorer = sa_restore a,
     raw_mask = (ucast (sa_mask a), ucast (drop_bit 32 (sa_mask a)))\<rparr>"

definition into_sigaction :: "RawSigAction \<Rightarrow> SigAction" where
  "into_sigaction r =
     (let m = ucast (fst (raw_mask r)) OR push_bit 32 (ucast (snd (raw_mask r))) in
      \<lparr>sa_handler = raw_handler r, sa_flags = ucast (raw_flags r) AND SigActionFlags_all, sa_restore = raw_restorer r,
       sa_mask = m AND SigSet_all\<rparr>)"

section \<open>The alternate stack\<close>

definition SS_ONSTACK :: "32 word" where "SS_ONSTACK = 1"
definition SS_DISABLE :: "32 word" where "SS_DISABLE = 2"
definition SS_AUTODISARM :: "32 word" where "SS_AUTODISARM = 0x80000000"
definition MINSIGSTKSZ :: nat where "MINSIGSTKSZ = 2048"

record SignalStack =
  ss_sp :: nat
  ss_flags :: "32 word"
  ss_size :: nat

definition stack_disabled :: SignalStack where
  "stack_disabled = \<lparr>ss_sp = 0, ss_flags = SS_DISABLE, ss_size = 0\<rparr>"

definition is_disabled :: "SignalStack \<Rightarrow> bool" where "is_disabled s \<longleftrightarrow> ss_size s = 0"

definition is_autodisarm :: "SignalStack \<Rightarrow> bool" where "is_autodisarm s \<longleftrightarrow> ss_flags s AND SS_AUTODISARM \<noteq> 0"

definition is_on_stack :: "SignalStack \<Rightarrow> nat \<Rightarrow> bool" where
  "is_on_stack s sp \<longleftrightarrow> \<not> is_disabled s \<and> \<not> is_autodisarm s \<and> sp > ss_sp s \<and> sp - ss_sp s \<le> ss_size s"

definition should_switch_for_signal :: "SignalStack \<Rightarrow> nat \<Rightarrow> bool" where
  "should_switch_for_signal s sp \<longleftrightarrow> \<not> is_disabled s \<and> \<not> is_on_stack s sp"

definition stack_top :: "SignalStack \<Rightarrow> nat option" where
  "stack_top s = checked_add_usize (ss_sp s) (ss_size s)"

definition user_view :: "SignalStack \<Rightarrow> nat \<Rightarrow> SignalStack" where
  "user_view s sp =
     (let flags = ss_flags s AND SS_AUTODISARM in
      s\<lparr>ss_flags := if is_disabled s then flags OR SS_DISABLE else if is_on_stack s sp then flags OR SS_ONSTACK else flags\<rparr>)"

definition replace_from_user :: "SignalStack \<Rightarrow> SignalStack \<Rightarrow> nat \<Rightarrow> SignalStack sys_result" where
  "replace_from_user s requested sp =
     (if is_on_stack s sp then Inl EPERM
      else
        let mode = ss_flags requested AND NOT SS_AUTODISARM in
        if mode \<noteq> 0 \<and> mode \<noteq> SS_DISABLE \<and> mode \<noteq> SS_ONSTACK then Inl EINVAL
        else if mode = SS_DISABLE then Inr \<lparr>ss_sp = 0, ss_flags = ss_flags requested, ss_size = 0\<rparr>
        else if ss_size requested < MINSIGSTKSZ then Inl ENOMEM
        else Inr requested)"

section \<open>Signal information\<close>

record SigInfo =
  si_signo :: "32 word"
  si_errno :: "32 word"
  si_code :: "32 word"
  si_pid :: "32 word"
  si_uid :: "32 word"
  si_status :: "32 word"

definition SigInfo_new :: "nat \<Rightarrow> nat \<Rightarrow> nat \<Rightarrow> nat \<Rightarrow> SigInfo" where
  "SigInfo_new signo errno code pid = \<lparr>si_signo = of_nat signo, si_errno = of_nat errno, si_code = of_nat code,
     si_pid = of_nat pid, si_uid = 0, si_status = 0\<rparr>"

definition new_user :: "nat \<Rightarrow> nat \<Rightarrow> nat \<Rightarrow> SigInfo" where
  "new_user signo pid uid = \<lparr>si_signo = of_nat signo, si_errno = 0, si_code = 0, si_pid = of_nat pid, si_uid = of_nat uid,
     si_status = 0\<rparr>"

definition new_tkill :: "nat \<Rightarrow> nat \<Rightarrow> nat \<Rightarrow> SigInfo" where
  "new_tkill signo pid uid = (new_user signo pid uid)\<lparr>si_code := - 6\<rparr>"

definition new_child :: "nat \<Rightarrow> nat \<Rightarrow> nat \<Rightarrow> nat \<Rightarrow> SigInfo" where
  "new_child signo code pid exit_status = \<lparr>si_signo = of_nat signo, si_errno = 0, si_code = of_nat code, si_pid = of_nat pid,
     si_uid = 0, si_status = of_nat exit_status\<rparr>"

section \<open>Facts about sets\<close>

lemma bit_sig_flag: "1 \<le> n \<Longrightarrow> n \<le> 64 \<Longrightarrow> bit (sig_flag n) i \<longleftrightarrow> i = n - 1"
  by (auto simp: sig_flag_def bit_exp_iff)

lemma sig_flag_nonzero [simp]:
  assumes "1 \<le> n" "n \<le> 64"
  shows "sig_flag n \<noteq> 0"
proof
  assume "sig_flag n = 0"
  then have "\<not> bit (sig_flag n) (n - 1)" by simp
  then show False using assms by (simp add: bit_sig_flag)
qed

lemma bit_sig_flags: "list_all (\<lambda>n. 1 \<le> n \<and> n \<le> 64) ns \<Longrightarrow> bit (sig_flags ns) i \<longleftrightarrow> Suc i \<in> set ns"
  by (induction ns) (auto simp: sig_flags_def bit_or_iff bit_sig_flag)

lemma bit_SigSet_all [simp]: "bit SigSet_all i \<longleftrightarrow> i < 33"
  by (simp add: SigSet_all_def bit_sig_flags list_all_iff signo_defs del: upt_Suc)

lemma peek_front_None [simp]: "peek_front s = None \<longleftrightarrow> s = 0"
proof -
  have "s = 0" if "\<forall>i < 64. \<not> bit s i" using that by (intro bit_word_eqI) simp
  then show ?thesis by (auto simp: peek_front_def find_None_iff)
qed

lemma peek_front_Some:
  "peek_front s = Some n \<longleftrightarrow> 1 \<le> n \<and> n \<le> 64 \<and> bit s (n - 1) \<and> (\<forall>i < n - 1. \<not> bit s i)"
proof -
  have "find (bit s) [0..<64] = Some i \<longleftrightarrow> i < 64 \<and> bit s i \<and> (\<forall>j < i. \<not> bit s j)" for i
    by (auto simp: find_Some_iff)
  then show ?thesis unfolding peek_front_def by (cases n) auto
qed

lemma from_sig_flag: "1 \<le> n \<Longrightarrow> n \<le> 33 \<Longrightarrow> from_sig n = Some (sig_flag n)"
  unfolding from_sig_def sig_flag_def [symmetric] by (auto simp: SIG_MAX_NUM_def bit_and_iff bit_sig_flag intro!: bit_word_eqI)

lemma from_sig_beyond: "33 < n \<Longrightarrow> n \<le> 64 \<Longrightarrow> from_sig n = Some 0"
  unfolding from_sig_def sig_flag_def [symmetric] by (auto simp: SIG_MAX_NUM_def bit_and_iff bit_sig_flag intro!: bit_word_eqI)

lemma contains_bit: "flags_contain s m \<longleftrightarrow> (\<forall>i. bit m i \<longrightarrow> bit s i)"
proof
  assume "flags_contain s m"
  then show "\<forall>i. bit m i \<longrightarrow> bit s i" unfolding flags_contain_def by (metis bit_and_iff)
next
  assume "\<forall>i. bit m i \<longrightarrow> bit s i"
  then show "flags_contain s m" by (auto simp: flags_contain_def bit_and_iff intro!: bit_word_eqI)
qed

lemma contains_flag [simp]: "1 \<le> n \<Longrightarrow> n \<le> 64 \<Longrightarrow> flags_contain s (sig_flag n) \<longleftrightarrow> bit s (n - 1)"
  by (simp add: contains_bit bit_sig_flag)

lemma bit_UNBLOCKABLE [simp]: "bit UNBLOCKABLE i \<longleftrightarrow> i = 8 \<or> i = 18"
  by (auto simp: UNBLOCKABLE_def bit_or_iff bit_sig_flag signo_defs)

text \<open>The default action of each declared signal\<close>

lemma default_op_flag:
  assumes "1 \<le> n" "n \<le> 33"
  shows "default_op (sig_flag n) =
    (if n \<in> set [1, 2, 9, 10, 12, 13, 14, 15, 16, 26, 27, 29, 30] then Terminate
     else if n \<in> set [3, 4, 5, 6, 7, 8, 11, 24, 25, 31] then CoreDump else if n \<in> set [17, 23, 28] then Ignore
     else if n \<in> set [19, 20, 21, 22] then Stop else if n = 18 then Continue else Terminate)"
proof -
  obtain m where m: "n = Suc m" using assms(1) by (cases n) auto
  have member: "flags_contain (sig_flags ns) (sig_flag n) \<longleftrightarrow> n \<in> set ns" if "list_all (\<lambda>n. 1 \<le> n \<and> n \<le> 64) ns" for ns
    using assms that by (simp add: bit_sig_flags m)
  have c:
    "flags_contain (sig_flags [1, 2, 9, 10, 12, 13, 14, 15, 16, 26, 27, 29, 30]) (sig_flag n) \<longleftrightarrow> n \<in> set [1, 2, 9, 10, 12, 13, 14, 15, 16, 26, 27, 29, 30]"
    "flags_contain (sig_flags [3, 4, 5, 6, 7, 8, 11, 24, 25, 31]) (sig_flag n) \<longleftrightarrow> n \<in> set [3, 4, 5, 6, 7, 8, 11, 24, 25, 31]"
    "flags_contain (sig_flags [17, 23, 28]) (sig_flag n) \<longleftrightarrow> n \<in> set [17, 23, 28]"
    "flags_contain (sig_flags [19, 20, 21, 22]) (sig_flag n) \<longleftrightarrow> n \<in> set [19, 20, 21, 22]"
    by (rule member, simp)+
  have "flags_contain (sig_flag 18) (sig_flag n) \<longleftrightarrow> n = 18" using assms by (simp add: bit_sig_flag m)
  moreover have "sig_flag n \<noteq> 0" using assms by simp
  ultimately show ?thesis by (simp only: default_op_def Let_def signo_defs c simp_thms)
qed

text \<open>An action survives the trip through user memory when it has no undeclared flags.\<close>

lemma raw_sigaction_roundtrip:
  assumes "flags_within SigActionFlags_all (sa_flags a)" "flags_within SigSet_all (sa_mask a)"
  shows "into_sigaction (from_sigaction a) = a"
proof -
  have "ucast (ucast (sa_mask a) :: 32 word) OR push_bit 32 (ucast (ucast (drop_bit 32 (sa_mask a)) :: 32 word)) = sa_mask a"
    by (rule bit_word_eqI) (auto simp: bit_simps)
  moreover have "sa_mask a AND SigSet_all = sa_mask a" "sa_flags a AND SigActionFlags_all = sa_flags a"
    using assms by (auto simp: bit_and_iff flags_within_bit intro!: bit_word_eqI)
  moreover have "ucast (ucast (sa_flags a) :: 64 word) = sa_flags a" by (rule bit_word_eqI) (auto simp: bit_simps)
  ultimately show ?thesis by (simp add: from_sigaction_def into_sigaction_def)
qed

end
