(* ===== verification/Pipe_File.thy ===== *)
theory Pipe_File
  imports Pipe_Buffer Signal_Types BTree_Map "HOL-Library.List_Lexorder" "HOL-Library.Char_ord"
begin

text \<open>
  The file operations of pipes and FIFOs: \<^verbatim>\<open>mod.rs\<close> (endpoints, capacity),
  \<^verbatim>\<open>file_impl.rs\<close> (read, write, poll, ioctl), \<^verbatim>\<open>wait.rs\<close> (blocking),
  \<^verbatim>\<open>splice.rs\<close> (splice, tee, file pages) and \<^verbatim>\<open>fifo.rs\<close> of
  \<^verbatim>\<open>os/src/fs/files/pipe\<close>.  The buffers live in a store indexed by address, because
  endpoints share them.  A blocking call is a loop over the pauses between its critical sections:
  each pause tells what signals were seen and what the other tasks did in between; a call that
  runs out of pauses is still waiting.
\<close>

unbundle bit_operations_syntax

section \<open>Endpoints\<close>

definition PIPE_MAX_SIZE :: nat where "PIPE_MAX_SIZE = 65536"

definition page_round_up :: "nat \<Rightarrow> nat" where
  "page_round_up v =
     (if v mod PAGE_SIZE = 0 then v else (v - v mod PAGE_SIZE + PAGE_SIZE) mod 2 ^ 64)"

datatype sent_signal = ToThread nat nat | ToThreadGroup nat nat | ToProcessGroup nat nat

text \<open>
  \<open>rings\<close> are the shared buffers by address (\<open>next_ring\<close> and above are unused),
  \<open>fifo_buffers\<close> the table of named pipes, \<open>effective\<close> the capability words of the current
  task, \<open>sent\<close> the signals sent so far.
\<close>

record pipe_world =
  rings :: "nat \<Rightarrow> PipeRingBuffer"
  next_ring :: nat
  fifo_buffers :: "(string, nat) btree_map"
  pipe_max_size :: nat
  effective :: "32 word list"
  pipe_env :: pipe_env
  sent :: "sent_signal list"

record Pipe =
  readable :: bool
  writable :: bool
  nonblocking :: bool
  buffer :: nat

definition has_cap_sys_resource :: "pipe_world \<Rightarrow> bool" where
  "has_cap_sys_resource w =
     (let cap = 24; word = cap div 32; b = cap mod 32
      in word < length (effective w) \<and> (effective w ! word) AND push_bit b 1 \<noteq> 0)"

definition set_pipe_max_size :: "nat \<Rightarrow> pipe_world \<Rightarrow> unit sys_result \<times> pipe_world" where
  "set_pipe_max_size v w =
     (if v < PAGE_SIZE \<or> v > PIPE_MAX_SIZE then (Inl EINVAL, w)
      else (Inr (), w\<lparr>pipe_max_size := page_round_up v\<rparr>))"

text \<open>One critical section on a buffer that also changes the tasks.\<close>

definition on_ring :: "nat \<Rightarrow> (PipeRingBuffer \<Rightarrow> pipe_env \<Rightarrow> PipeRingBuffer \<times> pipe_env) \<Rightarrow> pipe_world \<Rightarrow> pipe_world" where
  "on_ring a f w =
     (let (r, e) = f (rings w a) (pipe_env w) in w\<lparr>rings := (rings w)(a := r), pipe_env := e\<rparr>)"

definition set_ring :: "nat \<Rightarrow> PipeRingBuffer \<Rightarrow> pipe_world \<Rightarrow> pipe_world" where
  "set_ring a r w = w\<lparr>rings := (rings w)(a := r)\<rparr>"

definition with_buffer :: "bool \<Rightarrow> bool \<Rightarrow> nat \<Rightarrow> pipe_world \<Rightarrow> Pipe \<times> pipe_world" where
  "with_buffer rd wr a w =
     (let r = rings w a;
          r1 = (if rd then r\<lparr>read_end_count := read_end_count r + 1\<rparr> else r);
          r2 = (if wr then r1\<lparr>write_end_count := write_end_count r1 + 1\<rparr> else r1)
      in (\<lparr>readable = rd, writable = wr, nonblocking = False, buffer = a\<rparr>, set_ring a r2 w))"

definition read_end_with_buffer :: "nat \<Rightarrow> pipe_world \<Rightarrow> Pipe \<times> pipe_world" where
  "read_end_with_buffer = with_buffer True False"

definition write_end_with_buffer :: "nat \<Rightarrow> pipe_world \<Rightarrow> Pipe \<times> pipe_world" where
  "write_end_with_buffer = with_buffer False True"

definition new_ring :: "PipeRingBuffer \<Rightarrow> pipe_world \<Rightarrow> nat \<times> pipe_world" where
  "new_ring r w = (next_ring w, (set_ring (next_ring w) r w)\<lparr>next_ring := next_ring w + 1\<rparr>)"

definition make_pipe :: "pipe_world \<Rightarrow> (Pipe \<times> Pipe) \<times> pipe_world" where
  "make_pipe w =
     (let c = (if has_cap_sys_resource w then PIPE_DEFAULT_SIZE else min PIPE_DEFAULT_SIZE (pipe_max_size w));
          (a, w1) = new_ring (with_capacity c) w;
          (rd, w2) = read_end_with_buffer a w1;
          (wr, w3) = write_end_with_buffer a w2
      in ((rd, wr), w3))"

definition drop_pipe :: "Pipe \<Rightarrow> pipe_world \<Rightarrow> pipe_world" where
  "drop_pipe p w =
     (let a = buffer p;
          w1 = (if readable p
                then on_ring a (\<lambda>r. wake_all_writers (r\<lparr>read_end_count := read_end_count r - 1\<rparr>)) w
                else w)
      in if writable p
         then on_ring a (\<lambda>r. wake_all_readers (r\<lparr>write_end_count := write_end_count r - 1\<rparr>)) w1
         else w1)"

definition pipe_set_capacity :: "nat \<Rightarrow> Pipe \<Rightarrow> pipe_world \<Rightarrow> syscall_ret \<times> pipe_world" where
  "pipe_set_capacity requested p w =
     (let c = (if requested = 0 then PAGE_SIZE else page_round_up requested) in
      if c > PIPE_MAX_SIZE \<or> \<not> has_cap_sys_resource w \<and> c > pipe_max_size w then (Inl EPERM, w)
      else if c < available_read (rings w (buffer p)) then (Inl EBUSY, w)
      else (Inr c, on_ring (buffer p) (\<lambda>r. wake_all_writers (set_capacity c r)) w))"

definition set_async_owner :: "FasyncOwner \<Rightarrow> Pipe \<Rightarrow> pipe_world \<Rightarrow> pipe_world" where
  "set_async_owner fo p w = set_ring (buffer p) ((rings w (buffer p))\<lparr>async_owner := fo\<rparr>) w"

text \<open>The signal number is read as \<^verbatim>\<open>usize\<close>, which wraps a negative number.\<close>

definition notify_async_read_ready :: "FasyncOwner \<Rightarrow> pipe_world \<Rightarrow> pipe_world" where
  "notify_async_read_ready fo w =
     (if owner_pid fo \<le> 0 then w
      else
        let signo = (if owner_signal fo = 0 then SIGIO else nat (owner_signal fo mod 2 ^ 64));
            pid = nat (owner_pid fo)
        in if owner_type fo = 0 then w\<lparr>sent := sent w @ [ToThread pid signo]\<rparr>
           else if owner_type fo = 1 then w\<lparr>sent := sent w @ [ToThreadGroup pid signo]\<rparr>
           else if owner_type fo = 2 then w\<lparr>sent := sent w @ [ToProcessGroup pid signo]\<rparr>
           else w)"

definition broken_pipe :: "nat \<Rightarrow> pipe_world \<Rightarrow> pipe_world" where
  "broken_pipe tid w = w\<lparr>sent := sent w @ [ToThread tid SIGPIPE]\<rparr>"

section \<open>Blocking\<close>

text \<open>
  One pass of a blocking loop either returns, or must wait; the second critical section, after
  the task has been marked blocked, tries again, returns, or puts the task to sleep.
\<close>

datatype ('a, 'w) outcome = Return 'a 'w | Wait | Panic

datatype ('a, 'w) second = Again 'w | Answer 'a 'w | Asleep 'w

text \<open>
  A pause: an ignorable signal was consumed; another signal is pending; what the other tasks did
  before the task was marked blocked, between that and the second section, and during the sleep.
\<close>

datatype 'w pause = Pause bool bool "'w \<Rightarrow> 'w" "'w \<Rightarrow> 'w" "'w \<Rightarrow> 'w"

datatype ('a, 'w) progress = Returned 'a 'w | StillWaiting 'w | Panicked

fun sleep_loop :: "('w \<Rightarrow> ('a, 'w) outcome) \<Rightarrow> ('w \<Rightarrow> 'w) \<Rightarrow> ('w \<Rightarrow> ('a, 'w) second) \<Rightarrow> 'a \<Rightarrow>
    'w pause list \<Rightarrow> 'w \<Rightarrow> ('a, 'w) progress" where
  "sleep_loop attempt publish recheck interrupted [] w =
     (case attempt w of Panic \<Rightarrow> Panicked | Return a w1 \<Rightarrow> Returned a w1 | Wait \<Rightarrow> StillWaiting w)"
| "sleep_loop attempt publish recheck interrupted (Pause ignorable signalled f g h # ps) w =
     (case attempt w of
        Panic \<Rightarrow> Panicked
      | Return a w1 \<Rightarrow> Returned a w1
      | Wait \<Rightarrow>
          if ignorable then sleep_loop attempt publish recheck interrupted ps (f w)
          else if signalled then Returned interrupted (f w)
          else case recheck (g (publish (f w))) of
                 Again w1 \<Rightarrow> sleep_loop attempt publish recheck interrupted ps w1
               | Answer a w1 \<Rightarrow> Returned a w1
               | Asleep w1 \<Rightarrow> sleep_loop attempt publish recheck interrupted ps (h w1))"

definition set_task :: "nat \<Rightarrow> TaskStatus \<Rightarrow> pipe_world \<Rightarrow> pipe_world" where
  "set_task tid st w = w\<lparr>pipe_env := (pipe_env w)\<lparr>task_states := (task_states (pipe_env w))(tid \<mapsto> st)\<rparr>\<rparr>"

definition read_recheck :: "nat \<Rightarrow> Pipe \<Rightarrow> pipe_world \<Rightarrow> ('a, pipe_world) second" where
  "read_recheck tid p w =
     (let r = rings w (buffer p) in
      if available_read r > 0 \<or> all_write_ends_closed r then Again (set_task tid TRunning w)
      else Asleep (set_ring (buffer p) (push_reader tid (task_states (pipe_env w)) r) w))"

definition wait_readable :: "nat \<Rightarrow> Pipe \<Rightarrow> bool \<Rightarrow> pipe_world pause list \<Rightarrow> pipe_world \<Rightarrow>
    (unit sys_result, pipe_world) progress" where
  "wait_readable tid p nonblock =
     sleep_loop
       (\<lambda>w. let r = rings w (buffer p) in
            if available_read r > 0 \<or> all_write_ends_closed r then Return (Inr ()) w
            else if nonblock \<or> nonblocking p then Return (Inl EAGAIN) w else Wait)
       (set_task tid TBlocked) (read_recheck tid p) (Inl EINTR)"

definition wait_writable :: "nat \<Rightarrow> Pipe \<Rightarrow> bool \<Rightarrow> pipe_world pause list \<Rightarrow> pipe_world \<Rightarrow>
    (unit sys_result, pipe_world) progress" where
  "wait_writable tid p nonblock =
     sleep_loop
       (\<lambda>w. let r = rings w (buffer p) in
            if all_read_ends_closed r then Return (Inl EPIPE) w
            else if available_write r > 0 then Return (Inr ()) w
            else if nonblock \<or> nonblocking p then Return (Inl EAGAIN) w else Wait)
       (set_task tid TBlocked)
       (\<lambda>w. let r = rings w (buffer p) in
            if all_read_ends_closed r then Answer (Inl EPIPE) (set_task tid TRunning w)
            else if available_write r > 0 then Again (set_task tid TRunning w)
            else Asleep (set_ring (buffer p) (push_writer tid (task_states (pipe_env w)) r) w))
       (Inl EINTR)"

text \<open>The buffer locked first, and the buffer locked second.\<close>

definition lock_order :: "nat \<Rightarrow> nat \<Rightarrow> nat \<times> nat" where
  "lock_order self other = (if self < other then (self, other) else (other, self))"

section \<open>Read and write\<close>

fun small_read :: "(nat \<Rightarrow> byte list) \<Rightarrow> nat \<Rightarrow> PipeRingBuffer \<Rightarrow> UserBufferIterator \<Rightarrow> nat \<Rightarrow>
    (PipeRingBuffer \<times> UserBufferIterator \<times> nat) option" where
  "small_read pages 0 r it read_size = Some (r, it, read_size)"
| "small_read pages (Suc n) r it read_size =
     (case iter_next it of
        (None, it1) \<Rightarrow> Some (r, it1, read_size)
      | (Some p, it1) \<Rightarrow>
          (case read_byte pages r of
             None \<Rightarrow> None
           | Some (b, r1) \<Rightarrow> small_read pages n r1 (store_byte p b it1) (read_size + 1)))"

fun small_write :: "nat \<Rightarrow> PipeRingBuffer \<Rightarrow> UserBufferIterator \<Rightarrow> nat \<Rightarrow>
    (PipeRingBuffer \<times> nat) option" where
  "small_write 0 r it write_size = Some (r, write_size)"
| "small_write (Suc n) r it write_size =
     (case iter_next it of
        (None, it1) \<Rightarrow> Some (r, write_size)
      | (Some p, it1) \<Rightarrow>
          (case write_byte (load_byte p it1) r of
             None \<Rightarrow> None
           | Some r1 \<Rightarrow> small_write n r1 it1 (write_size + 1)))"

definition read_ring :: "(nat \<Rightarrow> byte list) \<Rightarrow> UserBuffer \<Rightarrow> PipeRingBuffer \<Rightarrow> (UserBuffer \<times> nat \<times> PipeRingBuffer) option" where
  "read_ring pages ub r =
     (let requested = UserBuffer_len ub; loop_read = available_read r in
      if requested \<le> 10 then
        map_option (\<lambda>(r1, it, k). (ub\<lparr>buffers := it_buffers it\<rparr>, k, r1))
          (small_read pages loop_read r (UserBuffer_into_iter ub) 0)
      else read_into pages ub (min loop_read requested) r)"

definition write_ring :: "UserBuffer \<Rightarrow> PipeRingBuffer \<Rightarrow> (PipeRingBuffer \<times> nat) option" where
  "write_ring ub r =
     (let requested = UserBuffer_len ub; loop_write = available_write r in
      if requested \<le> 10 then small_write loop_write r (UserBuffer_into_iter ub) 0
      else
        let write_size = min loop_write requested;
            (d, copied) = UserBuffer_read_to (replicate write_size 0) ub
        in write_owned_bytes (take copied d) r)"

definition read_attempt :: "(nat \<Rightarrow> byte list) \<Rightarrow> Pipe \<Rightarrow> UserBuffer \<Rightarrow> pipe_world \<Rightarrow>
    (UserBuffer \<times> syscall_ret, pipe_world) outcome" where
  "read_attempt pages p ub w =
     (let r = rings w (buffer p) in
      if available_read r = 0 then
        if all_write_ends_closed r then Return (ub, Inr 0) w
        else if nonblocking p then Return (ub, Inl EAGAIN) w else Wait
      else
        case read_ring pages ub r of
          None \<Rightarrow> Panic
        | Some (ub1, k, r1) \<Rightarrow> Return (ub1, Inr k) (on_ring (buffer p) wake_writer (set_ring (buffer p) r1 w)))"

definition pipe_read :: "(nat \<Rightarrow> byte list) \<Rightarrow> nat \<Rightarrow> Pipe \<Rightarrow> UserBuffer \<Rightarrow> pipe_world pause list \<Rightarrow> pipe_world \<Rightarrow>
    (UserBuffer \<times> syscall_ret, pipe_world) progress" where
  "pipe_read pages tid p ub ps w =
     (if readable p
      then sleep_loop (read_attempt pages p ub) (set_task tid TBlocked) (read_recheck tid p) (ub, Inl EINTR) ps w
      else Panicked)"

definition write_attempt :: "nat \<Rightarrow> Pipe \<Rightarrow> UserBuffer \<Rightarrow> pipe_world \<Rightarrow> (syscall_ret, pipe_world) outcome" where
  "write_attempt tid p ub w =
     (let r = rings w (buffer p) in
      if all_read_ends_closed r then Return (Inl EPIPE) (broken_pipe tid w)
      else if available_write r = 0 then if nonblocking p then Return (Inl EAGAIN) w else Wait
      else
        case write_ring ub r of
          None \<Rightarrow> Panic
        | Some (r1, k) \<Rightarrow>
            let fo = async_owner r1;
                w1 = on_ring (buffer p) wake_reader (set_ring (buffer p) r1 w)
            in Return (Inr k) (if k > 0 then notify_async_read_ready fo w1 else w1))"

definition write_recheck :: "nat \<Rightarrow> Pipe \<Rightarrow> pipe_world \<Rightarrow> (syscall_ret, pipe_world) second" where
  "write_recheck tid p w =
     (let r = rings w (buffer p) in
      if all_read_ends_closed r then Answer (Inl EPIPE) (broken_pipe tid (set_task tid TRunning w))
      else if available_write r > 0 then Again (set_task tid TRunning w)
      else Asleep (set_ring (buffer p) (push_writer tid (task_states (pipe_env w)) r) w))"

definition pipe_write :: "nat \<Rightarrow> Pipe \<Rightarrow> UserBuffer \<Rightarrow> pipe_world pause list \<Rightarrow> pipe_world \<Rightarrow>
    (syscall_ret, pipe_world) progress" where
  "pipe_write tid p ub ps w =
     (if writable p
      then sleep_loop (write_attempt tid p ub) (set_task tid TBlocked) (write_recheck tid p) (Inl EINTR) ps w
      else Panicked)"

text \<open>\<^verbatim>\<open>write_kernel_bytes\<close> does not block; \<open>None\<close> is a panic.\<close>

definition write_kernel_bytes :: "nat \<Rightarrow> Pipe \<Rightarrow> byte list \<Rightarrow> pipe_world \<Rightarrow> (syscall_ret \<times> pipe_world) option" where
  "write_kernel_bytes tid p d w =
     (let r = rings w (buffer p) in
      if all_read_ends_closed r then Some (Inl EPIPE, broken_pipe tid w)
      else if available_write r < length d then Some (Inl ENOBUFS, w)
      else
        case write_bytes d (length d) r of
          None \<Rightarrow> None
        | Some r1 \<Rightarrow>
            let fo = async_owner r1;
                w1 = on_ring (buffer p) wake_reader (set_ring (buffer p) r1 w)
            in Some (Inr (length d), if d \<noteq> [] then notify_async_read_ready fo w1 else w1))"

definition set_nonblocking :: "bool \<Rightarrow> Pipe \<Rightarrow> Pipe" where
  "set_nonblocking b p = p\<lparr>nonblocking := b\<rparr>"

section \<open>Status\<close>

definition FIONREAD :: nat where "FIONREAD = 0x541B"
definition IOC_WATCH_QUEUE_SET_SIZE :: nat where "IOC_WATCH_QUEUE_SET_SIZE = 0x5760"
definition IOC_WATCH_QUEUE_SET_FILTER :: nat where "IOC_WATCH_QUEUE_SET_FILTER = 0x5761"

text \<open>The bytes stored at the user's address, and the result; \<open>copy\<close> is the outcome of
  \<^verbatim>\<open>copy_to_user\<close>.\<close>

definition pipe_ioctl :: "nat \<Rightarrow> (byte list \<Rightarrow> SysErrNo option) \<Rightarrow> Pipe \<Rightarrow> pipe_world \<Rightarrow> syscall_ret \<times> byte list" where
  "pipe_ioctl cmd copy p w =
     (if cmd = FIONREAD then
        let d = le_bytes 4 (int (available_read (rings w (buffer p))))
        in case copy d of Some e \<Rightarrow> (Inl e, []) | None \<Rightarrow> (Inr 0, d)
      else if cmd = IOC_WATCH_QUEUE_SET_SIZE \<or> cmd = IOC_WATCH_QUEUE_SET_FILTER then (Inr 0, [])
      else (Inl ENOTTY, []))"

type_synonym PollEvents = "16 word"

definition POLL_IN :: PollEvents where "POLL_IN = 0x0001"
definition POLL_OUT :: PollEvents where "POLL_OUT = 0x0004"
definition POLL_ERR :: PollEvents where "POLL_ERR = 0x0008"
definition POLL_HUP :: PollEvents where "POLL_HUP = 0x0010"

definition pipe_poll :: "PollEvents \<Rightarrow> Pipe \<Rightarrow> pipe_world \<Rightarrow> PollEvents" where
  "pipe_poll events p w =
     (let r = rings w (buffer p);
          e1 = (if events AND POLL_IN = POLL_IN \<and> readable p \<and> available_read r > 0 then POLL_IN else 0);
          e2 = (if events AND POLL_OUT = POLL_OUT \<and> writable p \<and> available_write r > 0 then e1 OR POLL_OUT else e1);
          e3 = (if readable p \<and> all_write_ends_closed r then e2 OR POLL_HUP else e2)
      in if writable p \<and> all_read_ends_closed r then e3 OR POLL_ERR else e3)"

definition pipe_register :: "waker \<Rightarrow> PollEvents \<Rightarrow> Pipe \<Rightarrow> pipe_world \<Rightarrow> pipe_world" where
  "pipe_register k events p w =
     (let r = rings w (buffer p);
          (r1, ws1) = (if readable p \<and> events AND (POLL_IN OR POLL_HUP) \<noteq> 0
                       then (let (s, ws) = PollSet_register k (read_poll r) in (r\<lparr>read_poll := s\<rparr>, ws)) else (r, []));
          (r2, ws2) = (if writable p \<and> events AND (POLL_OUT OR POLL_ERR) \<noteq> 0
                       then (let (s, ws) = PollSet_register k (write_poll r1) in (r1\<lparr>write_poll := s\<rparr>, ws)) else (r1, []))
      in (set_ring (buffer p) r2 w)
           \<lparr>pipe_env := (pipe_env w)\<lparr>poll_woken := poll_woken (pipe_env w) @ ws1 @ ws2\<rparr>\<rparr>)"

section \<open>Splice, tee and file pages\<close>

definition splice_section :: "nat \<Rightarrow> nat \<Rightarrow> nat \<Rightarrow> pipe_world \<Rightarrow> (syscall_ret, pipe_world) outcome" where
  "splice_section i out n w =
     (let ri = rings w i; ro = rings w out in
      if all_read_ends_closed ro then Return (Inl EPIPE) w
      else
        let l = min (min n (available_read ri)) (available_write ro) in
        if l = 0 then Return (Inr 0) w
        else
          case pop_bufs l ri of
            None \<Rightarrow> Panic
          | Some (bs, ri1) \<Rightarrow>
              (case push_bufs bs ro of
                 None \<Rightarrow> Panic
               | Some ro1 \<Rightarrow>
                   Return (Inr l) (on_ring out wake_reader (on_ring i wake_writer
                     (set_ring out ro1 (set_ring i ri1 w))))))"

definition tee_section :: "nat \<Rightarrow> nat \<Rightarrow> nat \<Rightarrow> pipe_world \<Rightarrow> (syscall_ret, pipe_world) outcome" where
  "tee_section i out n w =
     (let ri = rings w i; ro = rings w out in
      if all_read_ends_closed ro then Return (Inl EPIPE) w
      else
        let l = min (min n (available_read ri)) (available_write ro) in
        if l = 0 then Return (Inr 0) w
        else
          case push_bufs (clone_bufs l ri) ro of
            None \<Rightarrow> Panic
          | Some ro1 \<Rightarrow> Return (Inr l) (on_ring out wake_reader (set_ring out ro1 w)))"

text \<open>
  The frame the two calls share: \<open>f1\<close>, \<open>f2\<close> and \<open>f3\<close> are what the other tasks do between
  its critical sections.
\<close>

definition between_pipes ::
  "(nat \<Rightarrow> nat \<Rightarrow> nat \<Rightarrow> pipe_world \<Rightarrow> (syscall_ret, pipe_world) outcome) \<Rightarrow>
   nat \<Rightarrow> Pipe \<Rightarrow> Pipe \<Rightarrow> nat \<Rightarrow> bool \<Rightarrow> pipe_world pause list \<Rightarrow> pipe_world pause list \<Rightarrow>
   (pipe_world \<Rightarrow> pipe_world) \<Rightarrow> (pipe_world \<Rightarrow> pipe_world) \<Rightarrow> (pipe_world \<Rightarrow> pipe_world) \<Rightarrow>
   pipe_world \<Rightarrow> (syscall_ret, pipe_world) progress" where
  "between_pipes section tid inp out n nonblock ps1 ps2 f1 f2 f3 w =
     (if \<not> readable inp \<or> \<not> writable out then Returned (Inl EBADF) w
      else if buffer inp = buffer out then Returned (Inl EINVAL) w
      else
        case wait_readable tid inp nonblock ps1 w of
          Panicked \<Rightarrow> Panicked
        | StillWaiting w1 \<Rightarrow> StillWaiting w1
        | Returned (Inl e) w1 \<Rightarrow> Returned (Inl e) w1
        | Returned (Inr _) w1 \<Rightarrow>
            if available_read (rings (f1 w1) (buffer inp)) = 0 then Returned (Inr 0) (f1 w1)
            else
              (case wait_writable tid out nonblock ps2 (f2 (f1 w1)) of
                 Panicked \<Rightarrow> Panicked
               | StillWaiting w2 \<Rightarrow> StillWaiting w2
               | Returned (Inl e) w2 \<Rightarrow> Returned (Inl e) w2
               | Returned (Inr _) w2 \<Rightarrow>
                   (case section (buffer inp) (buffer out) n (f3 w2) of
                      Return a w3 \<Rightarrow> Returned a w3
                    | _ \<Rightarrow> Panicked)))"

definition splice_to_pipe where
  "splice_to_pipe = between_pipes splice_section"

definition tee_to_pipe where
  "tee_to_pipe = between_pipes tee_section"

definition push_file_page :: "nat \<Rightarrow> Pipe \<Rightarrow> nat \<Rightarrow> nat \<Rightarrow> nat \<Rightarrow> bool \<Rightarrow> pipe_world pause list \<Rightarrow>
    (pipe_world \<Rightarrow> pipe_world) \<Rightarrow> pipe_world \<Rightarrow> (syscall_ret, pipe_world) progress" where
  "push_file_page tid p page page_offset n nonblock ps f w =
     (if \<not> writable p then Returned (Inl EBADF) w
      else if n = 0 then Returned (Inr 0) w
      else
        case wait_writable tid p nonblock ps w of
          Panicked \<Rightarrow> Panicked
        | StillWaiting w1 \<Rightarrow> StillWaiting w1
        | Returned (Inl e) w1 \<Rightarrow> Returned (Inl e) w1
        | Returned (Inr _) w1 \<Rightarrow>
            let w2 = f w1; r = rings w2 (buffer p) in
            if all_read_ends_closed r then Returned (Inl EPIPE) w2
            else
              let l = min n (available_write r) in
              if l = 0 then Returned (Inr 0) w2
              else
                case push_bufs [from_file_page page page_offset l] r of
                  None \<Rightarrow> Panicked
                | Some r1 \<Rightarrow> Returned (Inr l) (on_ring (buffer p) wake_reader (set_ring (buffer p) r1 w2)))"

section \<open>Named pipes\<close>

definition fifo_end_with_buffer :: "nat \<Rightarrow> OpenFlags \<Rightarrow> pipe_world \<Rightarrow> Pipe sys_result \<times> pipe_world" where
  "fifo_end_with_buffer a flags w =
     (let (rd, wr) = read_write flags in
      if \<not> rd \<and> \<not> wr then (Inl EINVAL, w)
      else
        let (p, w1) = with_buffer rd wr a w
        in (Inr (if flags AND O_NONBLOCK = O_NONBLOCK then set_nonblocking True p else p), w1))"

text \<open>A buffer is alive while an endpoint refers to it; every endpoint is counted in its buffer.\<close>

definition ring_alive :: "PipeRingBuffer \<Rightarrow> bool" where
  "ring_alive r \<longleftrightarrow> read_end_count r > 0 \<or> write_end_count r > 0"

definition open_fifo :: "string \<Rightarrow> OpenFlags \<Rightarrow> pipe_world \<Rightarrow> Pipe sys_result \<times> pipe_world" where
  "open_fifo path flags w =
     (let (a, w1) =
        (case bt_get (fifo_buffers w) path of
           Some a \<Rightarrow>
             if ring_alive (rings w a) then (a, w)
             else (let (b, w1) = new_ring PipeRingBuffer_new w
                   in (b, w1\<lparr>fifo_buffers := bt_insert path b (fifo_buffers w1)\<rparr>))
         | None \<Rightarrow>
             (let (b, w1) = new_ring PipeRingBuffer_new w
              in (b, w1\<lparr>fifo_buffers := bt_insert path b (fifo_buffers w1)\<rparr>)));
          (rd, wr) = read_write flags
      in if wr \<and> \<not> rd \<and> flags AND O_NONBLOCK = O_NONBLOCK \<and> all_read_ends_closed (rings w1 a)
         then (Inl ENXIO, w1)
         else fifo_end_with_buffer a flags w1)"

section \<open>One critical section of read and write\<close>

lemma small_read_ok:
  assumes "ring_ok pages r" and "iter_ok it" and "n \<le> length (contents pages r)"
    and "iter_place it \<le> length (concat (it_buffers it))"
  shows "\<exists>r1 it1. let k = min n (length (concat (it_buffers it)) - iter_place it) in
      small_read pages n r it c = Some (r1, it1, c + k)
    \<and> concat (it_buffers it1) = overlay (iter_place it) (take k (contents pages r)) (concat (it_buffers it))
    \<and> map length (it_buffers it1) = map length (it_buffers it)
    \<and> contents pages r1 = drop k (contents pages r) \<and> ring_ok pages r1 \<and> same_but_data r r1"
  using assms
proof (induction n arbitrary: r it c)
  case 0
  then show ?case by auto
next
  case (Suc n)
  obtain q it1 where nx: "iter_next it = (q, it1)" by fastforce
  show ?case
  proof (cases q)
    case None
    with iter_next_flat [OF Suc.prems(2)] nx have "iter_place it = length (concat (it_buffers it))" by simp
    moreover have "it_buffers it1 = it_buffers it"
      using iter_next_buffers [of it] nx by simp
    ultimately show ?thesis using None nx Suc.prems by auto
  next
    case (Some pos)
    obtain i j where q: "q = Some (i, j)" using Some by (cases pos) auto
    have n1: "i < length (it_buffers it)" "j < length (it_buffers it ! i)"
        "place_of (it_buffers it) i j = iter_place it" "iter_place it1 = Suc (iter_place it)" "iter_ok it1"
        "it_buffers it1 = it_buffers it"
      using iter_next_flat [OF Suc.prems(2)] nx q by auto
    have ne: "contents pages r \<noteq> []" using Suc.prems(3) by auto
    obtain r1 where r1: "read_byte pages r = Some (hd (contents pages r), r1)"
        "contents pages r1 = tl (contents pages r)" "ring_ok pages r1" "same_but_data r r1"
      using read_byte_ok [OF Suc.prems(1) ne] by blast
    define it2 where "it2 = store_byte (i, j) (hd (contents pages r)) it1"
    have i1: "i < length (it_buffers it1)" "j < length (it_buffers it1 ! i)" using n1 by auto
    have c2: "concat (it_buffers it2) = overlay (iter_place it) [hd (contents pages r)] (concat (it_buffers it))"
        "map length (it_buffers it2) = map length (it_buffers it)"
        "iter_ok it2" "iter_place it2 = Suc (iter_place it)"
      using store_byte_flat [OF i1] store_byte_keeps_iter [OF i1] n1 by (simp_all add: it2_def)
    have lt: "iter_place it < length (concat (it_buffers it))"
      using place_of_nth [OF n1(1,2)] n1(3) by simp
    then have l2: "length (concat (it_buffers it2)) = length (concat (it_buffers it))"
      by (simp add: c2(1))
    let ?k = "min n (length (concat (it_buffers it)) - Suc (iter_place it))"
    have k: "min (Suc n) (length (concat (it_buffers it)) - iter_place it) = Suc ?k" using lt by auto
    have pre: "n \<le> length (contents pages r1)" "iter_place it2 \<le> length (concat (it_buffers it2))"
      using Suc.prems(3) lt by (simp_all only: r1(2) l2 c2(4) length_tl)
    obtain r2 it3 where ih: "small_read pages n r1 it2 (c + 1) = Some (r2, it3, c + 1 + ?k)"
      "concat (it_buffers it3) = overlay (Suc (iter_place it)) (take ?k (tl (contents pages r))) (concat (it_buffers it2))"
      "map length (it_buffers it3) = map length (it_buffers it)"
      "contents pages r2 = drop ?k (tl (contents pages r))" "ring_ok pages r2" "same_but_data r1 r2"
      using Suc.IH [OF r1(3) c2(3) pre, of "c + 1"] unfolding Let_def r1(2) c2(2,4) l2 by blast
    have "overlay (Suc (iter_place it)) (take ?k (tl (contents pages r))) (concat (it_buffers it2)) =
        overlay (iter_place it) (take (Suc ?k) (contents pages r)) (concat (it_buffers it))"
      unfolding c2(1) using overlay_append [of "iter_place it" "[hd (contents pages r)]" "concat (it_buffers it)"] lt ne
      by (simp add: take_Suc)
    moreover have "drop ?k (tl (contents pages r)) = drop (Suc ?k) (contents pages r)"
      by (simp add: drop_Suc)
    ultimately show ?thesis
      unfolding k using ih nx q r1 same_but_data_trans [OF r1(4) ih(6)] by (simp add: it2_def)
  qed
qed

lemma available_write_same:
  "ring_ok pages r \<Longrightarrow> ring_ok pages r1 \<Longrightarrow> same_but_data r r1 \<Longrightarrow>
    length (contents pages r1) = length (contents pages r) + m \<Longrightarrow> available_write r1 = available_write r - m"
  by (simp add: available_write_def same_but_dataD(1))

lemma small_write_ok:
  assumes "ring_ok pages r" and "iter_ok it" and "n \<le> available_write r"
    and "iter_place it \<le> length (concat (it_buffers it))"
  shows "\<exists>r1. let k = min n (length (concat (it_buffers it)) - iter_place it) in
      small_write n r it c = Some (r1, c + k)
    \<and> contents pages r1 = contents pages r @ take k (drop (iter_place it) (concat (it_buffers it)))
    \<and> ring_ok pages r1 \<and> same_but_data r r1"
  using assms
proof (induction n arbitrary: r it c)
  case 0
  then show ?case by auto
next
  case (Suc n)
  obtain q it1 where nx: "iter_next it = (q, it1)" by fastforce
  show ?case
  proof (cases q)
    case None
    with iter_next_flat [OF Suc.prems(2)] nx have "iter_place it = length (concat (it_buffers it))" by simp
    with None nx Suc.prems show ?thesis by auto
  next
    case (Some pos)
    obtain i j where q: "q = Some (i, j)" using Some by (cases pos) auto
    have n1: "i < length (it_buffers it)" "j < length (it_buffers it ! i)"
        "place_of (it_buffers it) i j = iter_place it" "iter_place it1 = Suc (iter_place it)" "iter_ok it1"
        "it_buffers it1 = it_buffers it"
      using iter_next_flat [OF Suc.prems(2)] nx q by auto
    have lt: "iter_place it < length (concat (it_buffers it))"
      and b: "load_byte (i, j) it1 = concat (it_buffers it) ! iter_place it"
      using place_of_nth [OF n1(1,2)] n1(3,6) by (auto simp: load_byte_def)
    obtain r1 where r1: "write_byte (load_byte (i, j) it1) r = Some r1"
        "contents pages r1 = contents pages r @ [concat (it_buffers it) ! iter_place it]"
        "ring_ok pages r1" "same_but_data r r1"
      using write_bytes_ok [OF Suc.prems(1), of 1 "[load_byte (i, j) it1]"] Suc.prems(3)
      by (auto simp: write_byte_def b)
    have aw: "n \<le> available_write r1"
      using available_write_same [OF Suc.prems(1) r1(3,4), of 1] r1(2) Suc.prems(3) by simp
    have pl: "iter_place it1 \<le> length (concat (it_buffers it1))" using lt n1 by simp
    let ?k = "min n (length (concat (it_buffers it)) - Suc (iter_place it))"
    have k: "min (Suc n) (length (concat (it_buffers it)) - iter_place it) = Suc ?k" using lt by auto
    obtain r2 where ih: "small_write n r1 it1 (c + 1) = Some (r2, c + 1 + ?k)"
      "contents pages r2 = contents pages r1 @ take ?k (drop (Suc (iter_place it)) (concat (it_buffers it)))"
      "ring_ok pages r2" "same_but_data r1 r2"
      using Suc.IH [OF r1(3) n1(5) aw pl, of "c + 1"] unfolding Let_def n1(4,6) by blast
    have "take (Suc ?k) (drop (iter_place it) (concat (it_buffers it))) =
        concat (it_buffers it) ! iter_place it # take ?k (drop (Suc (iter_place it)) (concat (it_buffers it)))"
      using lt by (simp add: Cons_nth_drop_Suc [symmetric])
    then show ?thesis
      unfolding k using ih nx q r1 same_but_data_trans [OF r1(4) ih(4)] by simp
  qed
qed

text \<open>
  The two ways of copying (byte by byte up to ten bytes, in bulk above) have the same effect.
\<close>

lemma read_ring_ok:
  assumes "ring_ok pages r"
  shows "\<exists>ub1 r1. let k = min (length (flat ub)) (length (contents pages r)) in
      read_ring pages ub r = Some (ub1, k, r1) \<and> shape ub1 = shape ub
    \<and> flat ub1 = overlay 0 (take k (contents pages r)) (flat ub)
    \<and> contents pages r1 = drop k (contents pages r) \<and> ring_ok pages r1 \<and> same_but_data r r1"
proof (cases "length (flat ub) \<le> 10")
  case True
  have n: "bytes r \<le> length (contents pages r)" using assms by simp
  have pl: "iter_place (UserBuffer_into_iter ub) \<le> length (concat (it_buffers (UserBuffer_into_iter ub)))"
    by (simp add: iter_start)
  from small_read_ok [OF assms iter_start(1) n pl, of 0] True show ?thesis
    by (auto simp: read_ring_def available_read_def iter_start flat_def shape_def Let_def assms min.commute)
next
  case False
  let ?k = "min (length (flat ub)) (length (contents pages r))"
  have k: "min (bytes r) (length (flat ub)) = ?k" using assms by (simp add: min.commute)
  obtain ub1 r1 where r: "read_into pages ub ?k r = Some (ub1, min (length (flat ub)) (min ?k (bytes r)), r1)"
      "shape ub1 = shape ub" "flat ub1 = overlay 0 (take (min (length (flat ub)) ?k) (contents pages r)) (flat ub)"
      "contents pages r1 = drop ?k (contents pages r)" "ring_ok pages r1" "same_but_data r r1"
    using read_into_ok [OF assms, of ub ?k] by blast
  have m: "min (length (flat ub)) (min ?k (bytes r)) = ?k" "min (length (flat ub)) ?k = ?k"
    using assms by auto
  from r False show ?thesis
    unfolding read_ring_def available_read_def Let_def UserBuffer_len_flat m k by auto
qed

lemma write_ring_ok:
  assumes "ring_ok pages r"
  shows "\<exists>r1. let k = min (available_write r) (length (flat ub)) in
      write_ring ub r = Some (r1, k) \<and> contents pages r1 = contents pages r @ take k (flat ub)
    \<and> ring_ok pages r1 \<and> same_but_data r r1"
proof (cases "length (flat ub) \<le> 10")
  case True
  have pl: "iter_place (UserBuffer_into_iter ub) \<le> length (concat (it_buffers (UserBuffer_into_iter ub)))"
    by (simp add: iter_start)
  from small_write_ok [OF assms iter_start(1) order_refl pl, of 0] True show ?thesis
    by (auto simp: write_ring_def iter_start flat_def Let_def)
next
  case False
  let ?k = "min (available_write r) (length (flat ub))"
  have "UserBuffer_read_to (replicate ?k 0) ub = (take ?k (flat ub), ?k)"
    unfolding UserBuffer_read_to_flat Let_def by (simp add: overlay_def)
  moreover obtain r1 where "write_owned_bytes (take ?k (flat ub)) r = Some (r1, length (take ?k (flat ub)))"
      "contents pages r1 = contents pages r @ take ?k (flat ub)" "ring_ok pages r1" "same_but_data r r1"
    using write_owned_bytes_ok [OF assms, of "take ?k (flat ub)"] by auto
  ultimately show ?thesis using False
    by (simp add: write_ring_def Let_def)
qed

section \<open>Worlds in which every buffer is consistent\<close>

definition world_ok :: "(nat \<Rightarrow> byte list) \<Rightarrow> pipe_world \<Rightarrow> bool" where
  "world_ok pages w \<longleftrightarrow> (\<forall>a. ring_ok pages (rings w a))"

lemma wake_data [simp]:
  "bufs (fst (wake_readers b r e)) = bufs r" "bytes (fst (wake_readers b r e)) = bytes r"
  "capacity (fst (wake_readers b r e)) = capacity r"
  "read_end_count (fst (wake_readers b r e)) = read_end_count r"
  "write_end_count (fst (wake_readers b r e)) = write_end_count r"
  "bufs (fst (wake_writers b r e)) = bufs r" "bytes (fst (wake_writers b r e)) = bytes r"
  "capacity (fst (wake_writers b r e)) = capacity r"
  "read_end_count (fst (wake_writers b r e)) = read_end_count r"
  "write_end_count (fst (wake_writers b r e)) = write_end_count r"
  by (simp_all add: wake_readers_def wake_writers_def split_beta Let_def)

lemmas wake_defs = wake_reader_def wake_writer_def wake_all_readers_def wake_all_writers_def

lemma ring_ok_wake [simp]:
  "ring_ok pages (fst (wake_readers b r e)) = ring_ok pages r"
  "ring_ok pages (fst (wake_writers b r e)) = ring_ok pages r"
  "contents pages (fst (wake_readers b r e)) = contents pages r"
  "contents pages (fst (wake_writers b r e)) = contents pages r"
  by (simp_all add: ring_ok_def contents_def)

lemma ring_ok_fields [simp]:
  "ring_ok pages (r\<lparr>read_end_count := n\<rparr>) = ring_ok pages r"
  "ring_ok pages (r\<lparr>write_end_count := n\<rparr>) = ring_ok pages r"
  "ring_ok pages (r\<lparr>read_waiters := ws\<rparr>) = ring_ok pages r"
  "ring_ok pages (r\<lparr>write_waiters := ws\<rparr>) = ring_ok pages r"
  "ring_ok pages (r\<lparr>async_owner := fo\<rparr>) = ring_ok pages r"
  "ring_ok pages (push_reader t ts r) = ring_ok pages r"
  "ring_ok pages (push_writer t ts r) = ring_ok pages r"
  by (simp_all add: push_reader_def push_writer_def ring_ok_def)

lemma rings_simps [simp]:
  "rings (on_ring a f w) = (rings w)(a := fst (f (rings w a) (pipe_env w)))"
  "rings (set_ring a r w) = (rings w)(a := r)"
  "rings (set_task tid st w) = rings w"
  "rings (broken_pipe tid w) = rings w"
  "rings (notify_async_read_ready fo w) = rings w"
  by (simp_all add: on_ring_def set_ring_def set_task_def broken_pipe_def notify_async_read_ready_def split_beta Let_def)

lemma world_okI: "(\<And>a. ring_ok pages (rings w a)) \<Longrightarrow> world_ok pages w"
  by (simp add: world_ok_def)

lemma world_okD [simp]: "world_ok pages w \<Longrightarrow> ring_ok pages (rings w a)"
  by (simp add: world_ok_def)

lemma world_ok_simps [simp]:
  "world_ok pages (set_task tid st w) = world_ok pages w"
  "world_ok pages (broken_pipe tid w) = world_ok pages w"
  "world_ok pages (notify_async_read_ready fo w) = world_ok pages w"
  by (simp_all add: world_ok_def)

lemma world_ok_set_ring: "world_ok pages w \<Longrightarrow> ring_ok pages r \<Longrightarrow> world_ok pages (set_ring a r w)"
  by (simp add: world_ok_def)

lemma world_ok_on_ring:
  "world_ok pages w \<Longrightarrow> (\<And>r e. ring_ok pages r \<Longrightarrow> ring_ok pages (fst (f r e))) \<Longrightarrow> world_ok pages (on_ring a f w)"
  by (simp add: world_ok_def)

lemma world_ok_wake [simp]:
  "world_ok pages w \<Longrightarrow> world_ok pages (on_ring a wake_reader w)"
  "world_ok pages w \<Longrightarrow> world_ok pages (on_ring a wake_writer w)"
  by (simp_all add: world_ok_on_ring wake_defs)

section \<open>The blocking loop keeps what its sections keep\<close>

definition pause_keeps :: "('w \<Rightarrow> bool) \<Rightarrow> 'w pause \<Rightarrow> bool" where
  "pause_keeps P p = (case p of Pause i s f g h \<Rightarrow> (\<forall>w. P w \<longrightarrow> P (f w) \<and> P (g w) \<and> P (h w)))"

definition outcome_keeps :: "('w \<Rightarrow> bool) \<Rightarrow> ('a, 'w) outcome \<Rightarrow> bool" where
  "outcome_keeps P x = (case x of Return a w \<Rightarrow> P w | Wait \<Rightarrow> True | Panic \<Rightarrow> False)"

definition second_keeps :: "('w \<Rightarrow> bool) \<Rightarrow> ('a, 'w) second \<Rightarrow> bool" where
  "second_keeps P x = (case x of Again w \<Rightarrow> P w | Answer a w \<Rightarrow> P w | Asleep w \<Rightarrow> P w)"

definition progress_keeps :: "('w \<Rightarrow> bool) \<Rightarrow> ('a, 'w) progress \<Rightarrow> bool" where
  "progress_keeps P x = (case x of Returned a w \<Rightarrow> P w | StillWaiting w \<Rightarrow> P w | Panicked \<Rightarrow> False)"

lemmas keeps_defs = pause_keeps_def outcome_keeps_def second_keeps_def progress_keeps_def

lemma sleep_loop_keeps:
  assumes at: "\<And>w. P w \<Longrightarrow> outcome_keeps P (attempt w)" and pub: "\<And>w. P w \<Longrightarrow> P (publish w)"
    and re: "\<And>w. P w \<Longrightarrow> second_keeps P (recheck w)" and ps: "list_all (pause_keeps P) ps" and "P w"
  shows "progress_keeps P (sleep_loop attempt publish recheck interrupted ps w)"
  using ps \<open>P w\<close>
proof (induction ps arbitrary: w)
  case Nil
  with at [of w] show ?case by (auto simp: keeps_defs split: outcome.splits)
next
  case (Cons p ps)
  obtain i s f g h where p: "p = Pause i s f g h" by (cases p)
  have k: "P (f v)" "P (g v)" "P (h v)" if "P v" for v
    using Cons.prems(1) that by (auto simp: p pause_keeps_def)
  have r: "second_keeps P (recheck (g (publish (f w))))" using re pub k Cons.prems(2) by blast
  have ih: "\<And>v. P v \<Longrightarrow> progress_keeps P (sleep_loop attempt publish recheck interrupted ps v)"
    using Cons.IH Cons.prems(1) by simp
  show ?case
  proof (cases "attempt w")
    case Wait
    show ?thesis
    proof (cases "recheck (g (publish (f w)))")
      case (Again v)
      with r have "P v" by (simp add: second_keeps_def)
      with Wait Again ih k Cons.prems(2) show ?thesis by (simp add: p progress_keeps_def)
    next
      case (Answer a v)
      with r have "P v" by (simp add: second_keeps_def)
      with Wait Answer ih k Cons.prems(2) show ?thesis by (simp add: p progress_keeps_def)
    next
      case (Asleep v)
      with r have "P (h v)" using k by (simp add: second_keeps_def)
      with Wait Asleep ih k Cons.prems(2) show ?thesis by (simp add: p progress_keeps_def)
    qed
  qed (use at [OF Cons.prems(2)] in \<open>simp_all add: p keeps_defs\<close>)
qed

lemma read_recheck_keeps: "world_ok pages w \<Longrightarrow> second_keeps (world_ok pages) (read_recheck tid p w)"
  by (simp add: read_recheck_def second_keeps_def Let_def world_ok_set_ring)

lemma wait_readable_keeps:
  "list_all (pause_keeps (world_ok pages)) ps \<Longrightarrow> world_ok pages w \<Longrightarrow>
     progress_keeps (world_ok pages) (wait_readable tid p nb ps w)"
  unfolding wait_readable_def
  by (rule sleep_loop_keeps) (auto simp: Let_def outcome_keeps_def read_recheck_keeps)

lemma wait_writable_keeps:
  "list_all (pause_keeps (world_ok pages)) ps \<Longrightarrow> world_ok pages w \<Longrightarrow>
     progress_keeps (world_ok pages) (wait_writable tid p nb ps w)"
  unfolding wait_writable_def
  by (rule sleep_loop_keeps) (auto simp: Let_def outcome_keeps_def second_keeps_def world_ok_set_ring)

lemma read_attempt_keeps: "world_ok pages w \<Longrightarrow> outcome_keeps (world_ok pages) (read_attempt pages p ub w)"
  using read_ring_ok [of pages "rings w (buffer p)" ub]
  by (auto simp: read_attempt_def Let_def outcome_keeps_def intro!: world_ok_wake world_ok_set_ring)

lemma pipe_read_keeps:
  "readable p \<Longrightarrow> list_all (pause_keeps (world_ok pages)) ps \<Longrightarrow> world_ok pages w \<Longrightarrow>
     progress_keeps (world_ok pages) (pipe_read pages tid p ub ps w)"
  unfolding pipe_read_def
  by (simp, rule sleep_loop_keeps) (auto simp: read_attempt_keeps read_recheck_keeps)

lemma write_attempt_keeps: "world_ok pages w \<Longrightarrow> outcome_keeps (world_ok pages) (write_attempt tid p ub w)"
  using write_ring_ok [of pages "rings w (buffer p)" ub]
  by (auto simp: write_attempt_def Let_def outcome_keeps_def intro!: world_ok_wake world_ok_set_ring)

lemma write_recheck_keeps: "world_ok pages w \<Longrightarrow> second_keeps (world_ok pages) (write_recheck tid p w)"
  by (simp add: write_recheck_def second_keeps_def Let_def world_ok_set_ring)

lemma pipe_write_keeps:
  "writable p \<Longrightarrow> list_all (pause_keeps (world_ok pages)) ps \<Longrightarrow> world_ok pages w \<Longrightarrow>
     progress_keeps (world_ok pages) (pipe_write tid p ub ps w)"
  unfolding pipe_write_def
  by (simp, rule sleep_loop_keeps) (auto simp: write_attempt_keeps write_recheck_keeps)

section \<open>Moving between pipes\<close>

lemma splice_section_ok:
  assumes ok: "world_ok pages w" and "i \<noteq> out" and "\<not> all_read_ends_closed (rings w out)"
    and l: "l = min (min n (length (contents pages (rings w i)))) (available_write (rings w out))"
  shows "\<exists>w1. splice_section i out n w = Return (Inr l) w1 \<and> world_ok pages w1
    \<and> contents pages (rings w1 i) = drop l (contents pages (rings w i))
    \<and> contents pages (rings w1 out) = contents pages (rings w out) @ take l (contents pages (rings w i))
    \<and> (\<forall>a. a \<noteq> i \<longrightarrow> a \<noteq> out \<longrightarrow> rings w1 a = rings w a)"
proof (cases "l = 0")
  case True
  with assms show ?thesis
    by (simp add: splice_section_def available_read_def Let_def)
next
  case False
  have lm: "min (min n (bytes (rings w i))) (available_write (rings w out)) = l" using l ok by simp
  obtain bs r1 where p: "pop_bufs l (rings w i) = Some (bs, r1)" "list_all (buf_ok pages) bs"
      "sum_list (map buf_len bs) = min l (bytes (rings w i))"
      "concat (map (buf_data pages) bs) = take l (contents pages (rings w i))"
      "contents pages r1 = drop l (contents pages (rings w i))" "ring_ok pages r1"
    using pop_bufs_ok [OF world_okD [OF ok], of l i] by blast
  have "sum_list (map buf_len bs) \<le> available_write (rings w out)" using p(3) l by simp
  from push_bufs_ok [OF world_okD [OF ok] p(2) this] obtain r2 where
    q: "push_bufs bs (rings w out) = Some r2"
      "contents pages r2 = contents pages (rings w out) @ take l (contents pages (rings w i))" "ring_ok pages r2"
    using p(4) by auto
  have "splice_section i out n w = Return (Inr l) (on_ring out wake_reader (on_ring i wake_writer
      (set_ring out r2 (set_ring i r1 w))))"
    unfolding splice_section_def available_read_def Let_def lm using assms(3) False p(1) q(1) by simp
  with p q assms show ?thesis by (auto simp: wake_defs world_ok_def)
qed

lemma tee_section_ok:
  assumes ok: "world_ok pages w" and "i \<noteq> out" and "\<not> all_read_ends_closed (rings w out)"
    and l: "l = min (min n (length (contents pages (rings w i)))) (available_write (rings w out))"
  shows "\<exists>w1. tee_section i out n w = Return (Inr l) w1 \<and> world_ok pages w1
    \<and> contents pages (rings w1 out) = contents pages (rings w out) @ take l (contents pages (rings w i))
    \<and> (\<forall>a. a \<noteq> out \<longrightarrow> rings w1 a = rings w a)"
proof (cases "l = 0")
  case True
  with assms show ?thesis
    by (simp add: tee_section_def available_read_def Let_def)
next
  case False
  have lm: "min (min n (bytes (rings w i))) (available_write (rings w out)) = l" using l ok by simp
  note c = clone_bufs_ok [OF world_okD [OF ok], of l i]
  have "sum_list (map buf_len (clone_bufs l (rings w i))) \<le> available_write (rings w out)" using c l by simp
  from push_bufs_ok [OF world_okD [OF ok] _ this] c obtain r2 where
    q: "push_bufs (clone_bufs l (rings w i)) (rings w out) = Some r2"
      "contents pages r2 = contents pages (rings w out) @ take l (contents pages (rings w i))" "ring_ok pages r2"
    by auto
  have "tee_section i out n w = Return (Inr l) (on_ring out wake_reader (set_ring out r2 w))"
    unfolding tee_section_def available_read_def Let_def lm using assms(3) False q(1) by simp
  with q assms show ?thesis by (auto simp: wake_defs world_ok_def)
qed

lemma section_keeps:
  assumes "world_ok pages w" and "i \<noteq> out" and "sec = splice_section \<or> sec = tee_section"
  shows "\<exists>a w1. sec i out n w = Return a w1 \<and> world_ok pages w1"
proof (cases "all_read_ends_closed (rings w out)")
  case True
  with assms show ?thesis by (auto simp: splice_section_def tee_section_def)
next
  case False
  from splice_section_ok [OF assms(1,2) False refl, of n] tee_section_ok [OF assms(1,2) False refl, of n]
  show ?thesis using assms(3) by blast
qed

lemma between_pipes_keeps:
  assumes ok: "world_ok pages w" and sec: "sec = splice_section \<or> sec = tee_section"
    and ps: "list_all (pause_keeps (world_ok pages)) ps1" "list_all (pause_keeps (world_ok pages)) ps2"
    and f: "\<And>v. world_ok pages v \<Longrightarrow> world_ok pages (f1 v) \<and> world_ok pages (f2 v) \<and> world_ok pages (f3 v)"
  shows "progress_keeps (world_ok pages) (between_pipes sec tid inp out n nb ps1 ps2 f1 f2 f3 w)"
proof (cases "readable inp \<and> writable out \<and> buffer inp \<noteq> buffer out")
  case False
  with ok show ?thesis by (auto simp: between_pipes_def progress_keeps_def)
next
  case True
  have calls: "readable inp" "writable out" "buffer inp \<noteq> buffer out" using True by simp_all
  note r = wait_readable_keeps [OF ps(1) ok, of tid inp nb]
  show ?thesis
  proof (cases "wait_readable tid inp nb ps1 w")
    case (Returned x w1)
    have ok1: "world_ok pages (f1 w1)" "world_ok pages (f2 (f1 w1))" "world_ok pages w1"
      using r Returned f by (simp_all add: progress_keeps_def)
    show ?thesis
    proof (cases "isl x \<or> available_read (rings (f1 w1) (buffer inp)) = 0")
      case True
      with Returned ok1 calls show ?thesis by (cases x) (simp_all add: between_pipes_def progress_keeps_def)
    next
      case False
      then obtain u where x: "x = Inr u" by (cases x) auto
      note v = wait_writable_keeps [OF ps(2) ok1(2), of tid out nb]
      show ?thesis
      proof (cases "wait_writable tid out nb ps2 (f2 (f1 w1))")
        case (Returned y w2)
        then have ok2: "world_ok pages w2" "world_ok pages (f3 w2)" using v f by (simp_all add: progress_keeps_def)
        obtain a w3 where w3: "sec (buffer inp) (buffer out) n (f3 w2) = Return a w3" "world_ok pages w3"
          using section_keeps [OF ok2(2) calls(3) sec] by blast
        show ?thesis
          using \<open>wait_readable tid inp nb ps1 w = Returned x w1\<close> Returned False x calls ok2 w3
          by (cases y) (simp_all add: between_pipes_def progress_keeps_def)
      qed (use v \<open>wait_readable tid inp nb ps1 w = Returned x w1\<close> False x calls in
            \<open>simp_all add: between_pipes_def progress_keeps_def\<close>)
    qed
  qed (use r calls in \<open>simp_all add: between_pipes_def progress_keeps_def\<close>)
qed

lemma push_file_page_keeps:
  assumes ok: "world_ok pages w" and ps: "list_all (pause_keeps (world_ok pages)) ps"
    and f: "\<And>v. world_ok pages v \<Longrightarrow> world_ok pages (f v)"
    and page: "off + n \<le> length (pages page)"
  shows "progress_keeps (world_ok pages) (push_file_page tid p page off n nb ps f w)"
proof -
  note v = wait_writable_keeps [OF ps ok, of tid p nb]
  have go: "\<exists>r1. push_bufs [from_file_page page off l] r = Some r1 \<and> ring_ok pages r1"
    if "ring_ok pages r" "0 < l" "l \<le> n" "l \<le> available_write r" for r l
    using push_bufs_ok [OF that(1), of "[from_file_page page off l]"] that page
    by (auto simp: buf_ok_def from_file_page_def stored_def)
  show ?thesis
  proof (cases "\<exists>w1. writable p \<and> 0 < n \<and> wait_writable tid p nb ps w = Returned (Inr ()) w1")
    case False
    with v ok show ?thesis
      by (auto simp: push_file_page_def progress_keeps_def split: progress.splits sum.splits)
  next
    case True
    then obtain w1 where w1: "writable p" "0 < n" "wait_writable tid p nb ps w = Returned (Inr ()) w1" by blast
    have ok1: "world_ok pages (f w1)" using v w1(3) f by (simp add: progress_keeps_def)
    show ?thesis
      using w1 ok1 go [of "rings (f w1) (buffer p)" "min n (available_write (rings (f w1) (buffer p)))"]
      by (auto simp: push_file_page_def progress_keeps_def Let_def intro!: world_ok_wake world_ok_set_ring)
  qed
qed

section \<open>Every operation\<close>

datatype pipe_op =
    MakePipe
  | DropPipe Pipe
  | SetMax nat
  | SetCapacity nat Pipe
  | SetOwner FasyncOwner Pipe
  | Register waker PollEvents Pipe
  | OpenFifo string OpenFlags
  | Read Pipe UserBuffer "pipe_world pause list"
  | Write Pipe UserBuffer "pipe_world pause list"
  | KernelWrite Pipe "byte list"
  | Splice Pipe Pipe nat bool "pipe_world pause list" "pipe_world pause list"
      "pipe_world \<Rightarrow> pipe_world" "pipe_world \<Rightarrow> pipe_world" "pipe_world \<Rightarrow> pipe_world"
  | Tee Pipe Pipe nat bool "pipe_world pause list" "pipe_world pause list"
      "pipe_world \<Rightarrow> pipe_world" "pipe_world \<Rightarrow> pipe_world" "pipe_world \<Rightarrow> pipe_world"
  | PushPage Pipe nat nat nat bool "pipe_world pause list" "pipe_world \<Rightarrow> pipe_world"

text \<open>The state after an operation (returned or still waiting), or \<open>None\<close> if the kernel panics.\<close>

fun progress_world :: "('a, 'w) progress \<Rightarrow> 'w option" where
  "progress_world (Returned a w) = Some w"
| "progress_world (StillWaiting w) = Some w"
| "progress_world Panicked = None"

fun pipe_op_run :: "(nat \<Rightarrow> byte list) \<Rightarrow> nat \<Rightarrow> pipe_op \<Rightarrow> pipe_world \<Rightarrow> pipe_world option" where
  "pipe_op_run pages tid MakePipe w = Some (snd (make_pipe w))"
| "pipe_op_run pages tid (DropPipe p) w = Some (drop_pipe p w)"
| "pipe_op_run pages tid (SetMax n) w = Some (snd (set_pipe_max_size n w))"
| "pipe_op_run pages tid (SetCapacity n p) w = Some (snd (pipe_set_capacity n p w))"
| "pipe_op_run pages tid (SetOwner fo p) w = Some (set_async_owner fo p w)"
| "pipe_op_run pages tid (Register k ev p) w = Some (pipe_register k ev p w)"
| "pipe_op_run pages tid (OpenFifo path flags) w = Some (snd (open_fifo path flags w))"
| "pipe_op_run pages tid (Read p ub ps) w = progress_world (pipe_read pages tid p ub ps w)"
| "pipe_op_run pages tid (Write p ub ps) w = progress_world (pipe_write tid p ub ps w)"
| "pipe_op_run pages tid (KernelWrite p d) w = map_option snd (write_kernel_bytes tid p d w)"
| "pipe_op_run pages tid (Splice i out n nb ps1 ps2 f1 f2 f3) w =
     progress_world (splice_to_pipe tid i out n nb ps1 ps2 f1 f2 f3 w)"
| "pipe_op_run pages tid (Tee i out n nb ps1 ps2 f1 f2 f3) w =
     progress_world (tee_to_pipe tid i out n nb ps1 ps2 f1 f2 f3 w)"
| "pipe_op_run pages tid (PushPage p page off n nb ps f) w =
     progress_world (push_file_page tid p page off n nb ps f w)"

text \<open>
  What the callers guarantee: read and write are called on ends that allow it, a file page is
  pushed with a range inside the page, and the other tasks keep the buffers consistent.
\<close>

fun pipe_op_allowed :: "(nat \<Rightarrow> byte list) \<Rightarrow> pipe_op \<Rightarrow> bool" where
  "pipe_op_allowed pages (Read p ub ps) \<longleftrightarrow> readable p \<and> list_all (pause_keeps (world_ok pages)) ps"
| "pipe_op_allowed pages (Write p ub ps) \<longleftrightarrow> writable p \<and> list_all (pause_keeps (world_ok pages)) ps"
| "pipe_op_allowed pages (Splice i out n nb ps1 ps2 f1 f2 f3) \<longleftrightarrow>
     list_all (pause_keeps (world_ok pages)) ps1 \<and> list_all (pause_keeps (world_ok pages)) ps2
     \<and> (\<forall>w. world_ok pages w \<longrightarrow> world_ok pages (f1 w) \<and> world_ok pages (f2 w) \<and> world_ok pages (f3 w))"
| "pipe_op_allowed pages (Tee i out n nb ps1 ps2 f1 f2 f3) \<longleftrightarrow>
     list_all (pause_keeps (world_ok pages)) ps1 \<and> list_all (pause_keeps (world_ok pages)) ps2
     \<and> (\<forall>w. world_ok pages w \<longrightarrow> world_ok pages (f1 w) \<and> world_ok pages (f2 w) \<and> world_ok pages (f3 w))"
| "pipe_op_allowed pages (PushPage p page off n nb ps f) \<longleftrightarrow>
     list_all (pause_keeps (world_ok pages)) ps \<and> (\<forall>w. world_ok pages w \<longrightarrow> world_ok pages (f w))
     \<and> off + n \<le> length (pages page)"
| "pipe_op_allowed pages _ \<longleftrightarrow> True"

lemma progress_world_keeps: "progress_keeps P x \<Longrightarrow> \<exists>w. progress_world x = Some w \<and> P w"
  by (cases x) (auto simp: progress_keeps_def)

lemma ring_ok_with_capacity [simp]: "ring_ok pages (with_capacity c)"
  by (simp add: ring_ok_def with_capacity_def)

lemma world_ok_with_buffer [simp]: "world_ok pages w \<Longrightarrow> world_ok pages (snd (with_buffer rd wr a w))"
  by (auto simp: with_buffer_def Let_def intro!: world_ok_set_ring)

lemma world_ok_update [simp]:
  "world_ok pages (w\<lparr>next_ring := n\<rparr>) = world_ok pages w"
  "world_ok pages (w\<lparr>fifo_buffers := t\<rparr>) = world_ok pages w"
  "world_ok pages (w\<lparr>pipe_max_size := m\<rparr>) = world_ok pages w"
  "world_ok pages (w\<lparr>pipe_env := e\<rparr>) = world_ok pages w"
  by (simp_all add: world_ok_def)

lemma world_ok_new_ring [simp]: "world_ok pages w \<Longrightarrow> ring_ok pages r \<Longrightarrow> world_ok pages (snd (new_ring r w))"
  by (simp add: new_ring_def world_ok_set_ring)

lemma world_ok_make_pipe: "world_ok pages w \<Longrightarrow> world_ok pages (snd (make_pipe w))"
  by (simp add: make_pipe_def split_beta Let_def read_end_with_buffer_def write_end_with_buffer_def)

lemma world_ok_drop: "world_ok pages w \<Longrightarrow> world_ok pages (drop_pipe p w)"
  by (auto simp: drop_pipe_def Let_def wake_defs intro!: world_ok_on_ring)

lemma world_ok_set_capacity:
  assumes "world_ok pages w"
  shows "world_ok pages (snd (pipe_set_capacity n p w))"
proof -
  have "ring_ok pages (set_capacity c (rings w (buffer p)))" if "\<not> c < available_read (rings w (buffer p))" for c
    using world_okD [OF assms, of "buffer p"] that by (simp add: ring_ok_def set_capacity_def available_read_def)
  then show ?thesis
    using assms by (auto simp: pipe_set_capacity_def Let_def wake_defs intro!: world_okI)
qed

lemma world_ok_register: "world_ok pages w \<Longrightarrow> world_ok pages (pipe_register k ev p w)"
proof -
  have [simp]: "ring_ok pages (r\<lparr>read_poll := s\<rparr>) = ring_ok pages r" "ring_ok pages (r\<lparr>write_poll := s\<rparr>) = ring_ok pages r" for r s
    by (simp_all add: ring_ok_def)
  show "world_ok pages w \<Longrightarrow> ?thesis"
    by (auto simp: pipe_register_def Let_def split_beta intro!: world_ok_set_ring)
qed

lemma world_ok_fifo_end: "world_ok pages w \<Longrightarrow> world_ok pages (snd (fifo_end_with_buffer a flags w))"
  by (auto simp: fifo_end_with_buffer_def Let_def split_beta)

lemma world_ok_open_fifo: "world_ok pages w \<Longrightarrow> world_ok pages (snd (open_fifo path flags w))"
  by (auto simp: open_fifo_def Let_def split_beta PipeRingBuffer_new_def split: option.split intro!: world_ok_fifo_end)

lemma world_ok_kernel_write:
  "world_ok pages w \<Longrightarrow> \<exists>a w1. write_kernel_bytes tid p d w = Some (a, w1) \<and> world_ok pages w1"
  using write_bytes_ok [of pages "rings w (buffer p)" "length d" d]
  by (auto simp: write_kernel_bytes_def Let_def not_less intro!: world_ok_wake world_ok_set_ring)

section \<open>The byte stream a pipe promises\<close>

text \<open>
  The abstract pipe is the sequence of bytes in flight and a capacity.  A call on a non-blocking
  end answers the system call's result and the user buffer's bytes afterwards.
\<close>

datatype pipe_call = ReadCall UserBuffer | WriteCall UserBuffer

fun stream_call :: "nat \<Rightarrow> pipe_call \<Rightarrow> byte list \<Rightarrow> (syscall_ret \<times> byte list) \<times> byte list" where
  "stream_call cap (ReadCall ub) q =
     (if q = [] then ((Inl EAGAIN, flat ub), q)
      else let k = min (length (flat ub)) (length q)
           in ((Inr k, overlay 0 (take k q) (flat ub)), drop k q))"
| "stream_call cap (WriteCall ub) q =
     (if length q = cap then ((Inl EAGAIN, flat ub), q)
      else let k = min (cap - length q) (length (flat ub))
           in ((Inr k, flat ub), q @ take k (flat ub)))"

fun stream_calls :: "nat \<Rightarrow> pipe_call list \<Rightarrow> byte list \<Rightarrow> (syscall_ret \<times> byte list) list \<times> byte list" where
  "stream_calls cap [] q = ([], q)"
| "stream_calls cap (c # cs) q =
     (let (a, q1) = stream_call cap c q; (as, q2) = stream_calls cap cs q1 in (a # as, q2))"

text \<open>The same calls on the two ends of a pipe of the model; \<open>None\<close> if one panics or blocks.\<close>

fun do_call :: "(nat \<Rightarrow> byte list) \<Rightarrow> nat \<Rightarrow> Pipe \<Rightarrow> Pipe \<Rightarrow> pipe_call \<Rightarrow> pipe_world \<Rightarrow>
    ((syscall_ret \<times> byte list) \<times> pipe_world) option" where
  "do_call pages tid rp wp (ReadCall ub) w =
     (case pipe_read pages tid rp ub [] w of Returned (ub1, a) w1 \<Rightarrow> Some ((a, flat ub1), w1) | _ \<Rightarrow> None)"
| "do_call pages tid rp wp (WriteCall ub) w =
     (case pipe_write tid wp ub [] w of Returned a w1 \<Rightarrow> Some ((a, flat ub), w1) | _ \<Rightarrow> None)"

fun pipe_calls :: "(nat \<Rightarrow> byte list) \<Rightarrow> nat \<Rightarrow> Pipe \<Rightarrow> Pipe \<Rightarrow> pipe_call list \<Rightarrow> pipe_world \<Rightarrow>
    ((syscall_ret \<times> byte list) list \<times> pipe_world) option" where
  "pipe_calls pages tid rp wp [] w = Some ([], w)"
| "pipe_calls pages tid rp wp (c # cs) w =
     (case do_call pages tid rp wp c w of
        None \<Rightarrow> None
      | Some (a, w1) \<Rightarrow> map_option (\<lambda>(as, w2). (a # as, w2)) (pipe_calls pages tid rp wp cs w1))"

text \<open>Both ends of one open pipe, in non-blocking mode.\<close>

definition open_pipe :: "(nat \<Rightarrow> byte list) \<Rightarrow> Pipe \<Rightarrow> Pipe \<Rightarrow> pipe_world \<Rightarrow> bool" where
  "open_pipe pages rp wp w \<longleftrightarrow> readable rp \<and> writable wp \<and> nonblocking rp \<and> nonblocking wp
     \<and> buffer rp = buffer wp \<and> ring_ok pages (rings w (buffer rp))
     \<and> read_end_count (rings w (buffer rp)) > 0 \<and> write_end_count (rings w (buffer rp)) > 0"

lemma do_call_refines:
  assumes "open_pipe pages rp wp w" and "a = buffer rp"
  shows "\<exists>w1. do_call pages tid rp wp c w =
        Some (fst (stream_call (capacity (rings w a)) c (contents pages (rings w a))), w1)
    \<and> contents pages (rings w1 a) = snd (stream_call (capacity (rings w a)) c (contents pages (rings w a)))
    \<and> capacity (rings w1 a) = capacity (rings w a) \<and> open_pipe pages rp wp w1"
proof -
  let ?r = "rings w a"
  have o: "readable rp" "writable wp" "nonblocking rp" "nonblocking wp" "buffer rp = a" "buffer wp = a"
      "ring_ok pages ?r" "read_end_count ?r > 0" "write_end_count ?r > 0"
    using assms by (auto simp: open_pipe_def)
  have len: "length (contents pages ?r) = bytes ?r" "bytes ?r \<le> capacity ?r"
    using o(7) by (simp_all add: ring_ok_def contents_def length_concat_data)
  show ?thesis
  proof (cases c)
    case (ReadCall ub)
    obtain ub1 r1 where r1: "read_ring pages ub ?r = Some (ub1, min (length (flat ub)) (length (contents pages ?r)), r1)"
        "flat ub1 = overlay 0 (take (min (length (flat ub)) (length (contents pages ?r))) (contents pages ?r)) (flat ub)"
        "contents pages r1 = drop (min (length (flat ub)) (length (contents pages ?r))) (contents pages ?r)"
        "ring_ok pages r1" "same_but_data ?r r1"
      using read_ring_ok [OF o(7), of ub] by (auto simp: Let_def)
    note d = same_but_dataD [OF r1(5)]
    show ?thesis
    proof (cases "bytes ?r = 0")
      case True
      then have "contents pages ?r = []" using len by simp
      then show ?thesis
        using ReadCall o True assms(1) by (simp add: pipe_read_def read_attempt_def available_read_def all_write_ends_closed_def)
    next
      case False
      then have "contents pages ?r \<noteq> []" using len by auto
      with ReadCall o False r1 d show ?thesis
        by (simp add: pipe_read_def read_attempt_def available_read_def Let_def open_pipe_def wake_defs)
    qed
  next
    case (WriteCall ub)
    obtain r1 where r1: "write_ring ub ?r = Some (r1, min (available_write ?r) (length (flat ub)))"
        "contents pages r1 = contents pages ?r @ take (min (available_write ?r) (length (flat ub))) (flat ub)"
        "ring_ok pages r1" "same_but_data ?r r1"
      using write_ring_ok [OF o(7), of ub] by (auto simp: Let_def)
    note d = same_but_dataD [OF r1(4)]
    have aw: "available_write ?r = capacity ?r - length (contents pages ?r)"
      using len by (simp add: available_write_def)
    show ?thesis
    proof (cases "length (contents pages ?r) = capacity ?r")
      case True
      then show ?thesis
        using WriteCall o assms(1) aw
        by (simp add: pipe_write_def write_attempt_def all_read_ends_closed_def del: length_contents)
    next
      case False
      then have "available_write ?r \<noteq> 0" using aw len by linarith
      with WriteCall o False r1 d aw show ?thesis
        by (simp add: pipe_write_def write_attempt_def all_read_ends_closed_def Let_def open_pipe_def wake_defs
            del: length_contents)
    qed
  qed
qed

lemma pipe_calls_refine:
  assumes "open_pipe pages rp wp w" and "a = buffer rp"
  shows "\<exists>w1. pipe_calls pages tid rp wp cs w =
        Some (fst (stream_calls (capacity (rings w a)) cs (contents pages (rings w a))), w1)
    \<and> contents pages (rings w1 a) = snd (stream_calls (capacity (rings w a)) cs (contents pages (rings w a)))"
  using assms(1)
proof (induction cs arbitrary: w)
  case Nil
  then show ?case by simp
next
  case (Cons c cs)
  obtain w1 where w1: "do_call pages tid rp wp c w =
        Some (fst (stream_call (capacity (rings w a)) c (contents pages (rings w a))), w1)"
    "contents pages (rings w1 a) = snd (stream_call (capacity (rings w a)) c (contents pages (rings w a)))"
    "capacity (rings w1 a) = capacity (rings w a)" "open_pipe pages rp wp w1"
    using do_call_refines [OF Cons.prems assms(2)] by blast
  from Cons.IH [OF w1(4)] show ?case unfolding w1(2,3) using w1(1) by (auto simp: split_beta Let_def)
qed

section \<open>Properties\<close>

text \<open>
  C17. In every reachable state the byte count of each pipe equals the bytes in its windows, every
  window lies inside its storage, and the content never exceeds the capacity: each operation on
  pipes and FIFOs (creation, closing, resizing, reading, writing, splice, tee, file pages, polling,
  with any interleaving of other tasks that keeps the buffers consistent) preserves this and never
  fails an assertion, an unwrap or a slice bound.
\<close>

theorem pipe_operations_keep_buffers_consistent:
  assumes "world_ok pages w" and "pipe_op_allowed pages op"
  shows "\<exists>w1. pipe_op_run pages tid op w = Some w1 \<and> world_ok pages w1"
  using assms
proof (cases op)
  case (Read p ub ps)
  with assms show ?thesis by (simp add: pipe_read_keeps progress_world_keeps)
next
  case (Write p ub ps)
  with assms show ?thesis by (simp add: pipe_write_keeps progress_world_keeps)
next
  case (KernelWrite p d)
  with assms world_ok_kernel_write show ?thesis by fastforce
next
  case (Splice i out n nb ps1 ps2 f1 f2 f3)
  with assms show ?thesis by (simp add: splice_to_pipe_def between_pipes_keeps progress_world_keeps)
next
  case (Tee i out n nb ps1 ps2 f1 f2 f3)
  with assms show ?thesis by (simp add: tee_to_pipe_def between_pipes_keeps progress_world_keeps)
next
  case (PushPage p page off n nb ps f)
  with assms show ?thesis by (simp add: push_file_page_keeps progress_world_keeps)
qed (simp_all add: world_ok_make_pipe world_ok_drop world_ok_set_capacity world_ok_register world_ok_open_fifo
      set_pipe_max_size_def set_async_owner_def world_ok_set_ring)

text \<open>The state before any pipe exists.\<close>

definition no_pipes :: pipe_world where
  "no_pipes = \<lparr>rings = (\<lambda>_. with_capacity 0), next_ring = 0, fifo_buffers = [], pipe_max_size = PIPE_MAX_SIZE,
     effective = [0, 0], pipe_env = \<lparr>task_states = (\<lambda>_. Some TRunning), readied = [], poll_woken = []\<rparr>, sent = []\<rparr>"

lemma no_pipes_ok: "world_ok pages no_pipes"
  by (simp add: world_ok_def no_pipes_def)

theorem pipe_operations_keep_buffers_consistent_witness:
  "\<exists>w1. pipe_op_run (\<lambda>_. replicate 4096 7) 1 (PushPage \<lparr>readable = False, writable = True, nonblocking = True, buffer = 0\<rparr> 5 96 4000 True [] id)
       no_pipes = Some w1 \<and> world_ok (\<lambda>_. replicate 4096 7) w1"
  by (rule pipe_operations_keep_buffers_consistent) (simp_all add: no_pipes_ok)

text \<open>
  C6. A pipe implements the abstract byte stream: for any sequence of reads and writes on its two
  non-blocking ends, with arbitrarily fragmented user buffers and whichever of the two copying
  paths the length selects, the results and the bytes in the user buffers are those of a bounded
  queue of bytes, and the content afterwards is the queue's.
\<close>

theorem pipe_refines_byte_stream:
  assumes "open_pipe pages rp wp w"
  shows "\<exists>w1. pipe_calls pages tid rp wp cs w =
        Some (fst (stream_calls (capacity (rings w (buffer rp))) cs (contents pages (rings w (buffer rp)))), w1)
    \<and> contents pages (rings w1 (buffer rp)) =
        snd (stream_calls (capacity (rings w (buffer rp))) cs (contents pages (rings w (buffer rp))))"
  by (rule pipe_calls_refine [OF assms refl])

definition demo_read_end :: Pipe where
  "demo_read_end = \<lparr>readable = True, writable = False, nonblocking = True, buffer = 0\<rparr>"

definition demo_write_end :: Pipe where
  "demo_write_end = \<lparr>readable = False, writable = True, nonblocking = True, buffer = 0\<rparr>"

definition demo_world :: pipe_world where
  "demo_world = set_ring 0 ((with_capacity 4)\<lparr>read_end_count := 1, write_end_count := 1\<rparr>) no_pipes"

theorem pipe_refines_byte_stream_witness:
  "\<exists>w1. pipe_calls (\<lambda>_. []) 1 demo_read_end demo_write_end
       [WriteCall \<lparr>buffers = [[1, 2], [3, 4, 5]]\<rparr>, ReadCall \<lparr>buffers = [[0], [], [0, 0]]\<rparr>] demo_world =
     Some ([(Inr 4, [1, 2, 3, 4, 5]), (Inr 3, [1, 2, 3])], w1)"
proof -
  have o: "open_pipe (\<lambda>_. []) demo_read_end demo_write_end demo_world"
    by (simp add: open_pipe_def demo_read_end_def demo_write_end_def demo_world_def)
  have c: "contents (\<lambda>_. []) (rings demo_world (buffer demo_read_end)) = []"
      "capacity (rings demo_world (buffer demo_read_end)) = 4"
    by (simp_all add: demo_world_def demo_read_end_def contents_def with_capacity_def)
  from pipe_refines_byte_stream [OF o, of 1 "[WriteCall \<lparr>buffers = [[1, 2], [3, 4, 5]]\<rparr>, ReadCall \<lparr>buffers = [[0], [], [0, 0]]\<rparr>]"]
  show ?thesis unfolding c by (auto simp: flat_def overlay_def)
qed

text \<open>
  C28. Splice moves and tee copies: called alone with data in the input pipe and room in the output
  pipe, splice removes exactly the bytes it appends to the output, in order, and tee appends the
  same bytes and leaves the input pipe as it was; both return that number of bytes, and both
  directions between two pipes lock the buffers in the same order.
\<close>

theorem splice_moves_and_tee_copies:
  assumes "world_ok pages w" and "readable inp" and "writable out" and "i = buffer inp" and "j = buffer out" and "i \<noteq> j"
    and "contents pages (rings w i) \<noteq> []" and "0 < available_write (rings w j)" and "\<not> all_read_ends_closed (rings w j)"
    and l: "l = min (min n (length (contents pages (rings w i)))) (available_write (rings w j))"
  shows "(\<exists>w1. splice_to_pipe tid inp out n nb [] [] id id id w = Returned (Inr l) w1
      \<and> contents pages (rings w1 i) = drop l (contents pages (rings w i))
      \<and> contents pages (rings w1 j) = contents pages (rings w j) @ take l (contents pages (rings w i)))
    \<and> (\<exists>w1. tee_to_pipe tid inp out n nb [] [] id id id w = Returned (Inr l) w1
      \<and> contents pages (rings w1 i) = contents pages (rings w i)
      \<and> contents pages (rings w1 j) = contents pages (rings w j) @ take l (contents pages (rings w i)))
    \<and> lock_order i j = lock_order j i"
proof -
  have ne: "available_read (rings w i) > 0"
    using assms(7) length_contents [OF world_okD [OF assms(1), of i]]
    by (metis available_read_def length_greater_0_conv)
  obtain w1 where s: "splice_section i j n w = Return (Inr l) w1"
      "contents pages (rings w1 i) = drop l (contents pages (rings w i))"
      "contents pages (rings w1 j) = contents pages (rings w j) @ take l (contents pages (rings w i))"
    using splice_section_ok [OF assms(1,6,9) l] by blast
  obtain w2 where t: "tee_section i j n w = Return (Inr l) w2"
      "contents pages (rings w2 j) = contents pages (rings w j) @ take l (contents pages (rings w i))"
      "rings w2 i = rings w i"
    using tee_section_ok [OF assms(1,6,9) l] assms(6) by blast
  have go: "between_pipes sec tid inp out n nb [] [] id id id w = Returned a v" if "sec i j n w = Return a v" for sec a v
    using assms ne that by (simp add: between_pipes_def wait_readable_def wait_writable_def)
  from go [of splice_section, OF s(1)] go [of tee_section, OF t(1)] show ?thesis
    using s t by (auto simp: splice_to_pipe_def tee_to_pipe_def lock_order_def)
qed

definition demo_two_pipes :: pipe_world where
  "demo_two_pipes = set_ring 1 ((with_capacity 8)\<lparr>read_end_count := 1, write_end_count := 1\<rparr>)
     (set_ring 0 ((with_capacity 4)\<lparr>bufs := [PipeBuf_new [1, 2, 3]], bytes := 3, read_end_count := 1, write_end_count := 1\<rparr>) no_pipes)"

theorem splice_moves_and_tee_copies_witness:
  "\<exists>w1. splice_to_pipe 1 demo_read_end (demo_write_end\<lparr>buffer := 1\<rparr>) 2 True [] [] id id id demo_two_pipes = Returned (Inr 2) w1
     \<and> contents (\<lambda>_. []) (rings w1 0) = [3] \<and> contents (\<lambda>_. []) (rings w1 1) = [1, 2]"
proof -
  have ok: "world_ok (\<lambda>_. []) demo_two_pipes"
    by (auto simp: world_ok_def demo_two_pipes_def ring_ok_def with_capacity_def no_pipes_def PipeBuf_new_def buf_ok_def stored_def)
  have c: "contents (\<lambda>_. []) (rings demo_two_pipes 0) = [1, 2, 3]" "contents (\<lambda>_. []) (rings demo_two_pipes 1) = []"
      "available_write (rings demo_two_pipes 1) = 8" "\<not> all_read_ends_closed (rings demo_two_pipes 1)"
    by (simp_all add: demo_two_pipes_def contents_def with_capacity_def available_write_def all_read_ends_closed_def)
  from splice_moves_and_tee_copies [OF ok, of demo_read_end "demo_write_end\<lparr>buffer := 1\<rparr>" 0 1 2 2 1 True] c
  show ?thesis by (auto simp: demo_read_end_def demo_write_end_def)
qed

text \<open>
  C35. The ends of a pipe see each other's state.  Writing with no reader left fails with EPIPE and
  sends SIGPIPE to the caller, whatever the buffer holds; reading what is left works after the
  last writer is gone and then answers 0 (end of file); a non-blocking end gets EAGAIN from an
  empty pipe with writers and from a full pipe with readers, and nothing changes.
\<close>

theorem pipe_end_conditions:
  assumes "ring_ok pages r" and "r = rings w (buffer p)"
  shows "(writable p \<and> read_end_count r = 0 \<longrightarrow>
      pipe_write tid p ub ps w = Returned (Inl EPIPE) (w\<lparr>sent := sent w @ [ToThread tid SIGPIPE]\<rparr>))
    \<and> (readable p \<and> contents pages r \<noteq> [] \<longrightarrow>
      (\<exists>ub1 w1. pipe_read pages tid p ub ps w = Returned (ub1, Inr (min (length (flat ub)) (length (contents pages r)))) w1))
    \<and> (readable p \<and> contents pages r = [] \<and> write_end_count r = 0 \<longrightarrow>
      pipe_read pages tid p ub ps w = Returned (ub, Inr 0) w)
    \<and> (readable p \<and> nonblocking p \<and> contents pages r = [] \<and> write_end_count r > 0 \<longrightarrow>
      pipe_read pages tid p ub ps w = Returned (ub, Inl EAGAIN) w)
    \<and> (writable p \<and> nonblocking p \<and> read_end_count r > 0 \<and> length (contents pages r) = capacity r \<longrightarrow>
      pipe_write tid p ub ps w = Returned (Inl EAGAIN) w)"
proof -
  have now: "sleep_loop at pub re e ps w = Returned a v" if "at w = Return a v"
    for at :: "pipe_world \<Rightarrow> ('a, pipe_world) outcome" and pub re e a v
  proof (cases ps)
    case (Cons q qs)
    then show ?thesis using that by (cases q) simp
  qed (use that in simp)
  have len: "length (contents pages r) = bytes r" "bytes r \<le> capacity r"
    using assms(1) by (simp_all add: ring_ok_def contents_def length_concat_data)
  have empty: "contents pages r = [] \<longleftrightarrow> available_read r = 0" using len(1) by (auto simp: available_read_def)
  obtain ub1 r1 where r1: "read_ring pages ub r = Some (ub1, min (length (flat ub)) (length (contents pages r)), r1)"
    using read_ring_ok [OF assms(1), of ub] by (auto simp: Let_def)
  have "writable p \<and> read_end_count r = 0 \<longrightarrow>
      pipe_write tid p ub ps w = Returned (Inl EPIPE) (w\<lparr>sent := sent w @ [ToThread tid SIGPIPE]\<rparr>)"
    using assms(2) by (auto simp: pipe_write_def write_attempt_def all_read_ends_closed_def broken_pipe_def intro!: now)
  moreover have "readable p \<and> contents pages r \<noteq> [] \<longrightarrow>
      (\<exists>ub1 w1. pipe_read pages tid p ub ps w = Returned (ub1, Inr (min (length (flat ub)) (length (contents pages r)))) w1)"
    using assms(2) r1 empty now [of "read_attempt pages p ub"] by (auto simp: pipe_read_def read_attempt_def)
  moreover have "readable p \<and> contents pages r = [] \<and> write_end_count r = 0 \<longrightarrow>
      pipe_read pages tid p ub ps w = Returned (ub, Inr 0) w"
    using assms(2) empty by (auto simp: pipe_read_def read_attempt_def all_write_ends_closed_def intro!: now)
  moreover have "readable p \<and> nonblocking p \<and> contents pages r = [] \<and> write_end_count r > 0 \<longrightarrow>
      pipe_read pages tid p ub ps w = Returned (ub, Inl EAGAIN) w"
    using assms(2) empty by (auto simp: pipe_read_def read_attempt_def all_write_ends_closed_def intro!: now)
  moreover have "writable p \<and> nonblocking p \<and> read_end_count r > 0 \<and> length (contents pages r) = capacity r \<longrightarrow>
      pipe_write tid p ub ps w = Returned (Inl EAGAIN) w"
    using assms(2) len by (auto simp: pipe_write_def write_attempt_def all_read_ends_closed_def available_write_def intro!: now)
  ultimately show ?thesis by blast
qed

theorem pipe_end_conditions_witness:
  "pipe_write 9 demo_write_end \<lparr>buffers = [[1]]\<rparr> [] no_pipes =
     Returned (Inl EPIPE) (no_pipes\<lparr>sent := [ToThread 9 SIGPIPE]\<rparr>)"
proof -
  have "ring_ok (\<lambda>_. []) (with_capacity 0)" "with_capacity 0 = rings no_pipes (buffer demo_write_end)"
    by (simp_all add: no_pipes_def)
  from pipe_end_conditions [OF this, of 9 "\<lparr>buffers = [[1]]\<rparr>" "[]"] show ?thesis
    by (simp add: demo_write_end_def with_capacity_def no_pipes_def)
qed

text \<open>
  C37. The capacity of a pipe stays in bounds: a successful resize within the range fcntl admits
  returns a whole number of pages, at least one page and at least the request, less than one page
  above it, at most the system maximum (and the configured limit for an unprivileged task), and
  never less than the bytes in the pipe.
\<close>

theorem pipe_capacity_in_bounds:
  assumes "pipe_set_capacity requested p w = (Inr c, w1)" and "requested \<le> 2 ^ 31" and "ring_ok pages (rings w (buffer p))"
  shows "PAGE_SIZE dvd c \<and> PAGE_SIZE \<le> c \<and> requested \<le> c \<and> (0 < requested \<longrightarrow> c < requested + PAGE_SIZE)
    \<and> c \<le> PIPE_MAX_SIZE \<and> (has_cap_sys_resource w \<or> c \<le> pipe_max_size w)
    \<and> length (contents pages (rings w (buffer p))) \<le> c
    \<and> capacity (rings w1 (buffer p)) = c"
proof -
  have c: "c = (if requested = 0 then PAGE_SIZE else page_round_up requested)" "c \<le> PIPE_MAX_SIZE"
      "has_cap_sys_resource w \<or> c \<le> pipe_max_size w" "bytes (rings w (buffer p)) \<le> c"
      "capacity (rings w1 (buffer p)) = c"
    using assms(1) by (auto simp: pipe_set_capacity_def Let_def available_read_def wake_defs set_capacity_def split: if_splits)
  have "PAGE_SIZE dvd page_round_up v \<and> v \<le> page_round_up v \<and> page_round_up v < v + PAGE_SIZE" if "v \<le> 2 ^ 31" for v
  proof (cases "v mod PAGE_SIZE = 0")
    case True
    then show ?thesis by (auto simp: page_round_up_def PAGE_SIZE_def)
  next
    case False
    have r: "page_round_up v = v - v mod PAGE_SIZE + PAGE_SIZE"
      using False that by (simp add: page_round_up_def PAGE_SIZE_def)
    have "PAGE_SIZE dvd page_round_up v" unfolding r by (rule dvd_add [OF dvd_minus_mod dvd_refl])
    moreover have "v mod PAGE_SIZE < PAGE_SIZE" "v mod PAGE_SIZE \<le> v" by (simp_all add: PAGE_SIZE_def)
    ultimately show ?thesis using False r by linarith
  qed
  with assms(2) have r: "PAGE_SIZE dvd page_round_up requested" "requested \<le> page_round_up requested"
      "page_round_up requested < requested + PAGE_SIZE" by simp_all
  then have "0 < requested \<Longrightarrow> PAGE_SIZE \<le> page_round_up requested" by (auto intro: dvd_imp_le)
  with c r assms(3) show ?thesis by auto
qed

theorem pipe_capacity_in_bounds_witness:
  "PAGE_SIZE dvd 8192 \<and> capacity (rings (snd (pipe_set_capacity 5000 demo_read_end no_pipes)) 0) = 8192"
proof -
  have "pipe_set_capacity 5000 demo_read_end no_pipes = (Inr 8192, snd (pipe_set_capacity 5000 demo_read_end no_pipes))"
    by (simp add: pipe_set_capacity_def page_round_up_def PAGE_SIZE_def PIPE_MAX_SIZE_def no_pipes_def
        demo_read_end_def available_read_def with_capacity_def)
  from pipe_capacity_in_bounds [OF this, of "\<lambda>_. []"] show ?thesis
    by (simp add: no_pipes_def demo_read_end_def)
qed

text \<open>
  A reader can be left asleep with data in the pipe.  When two readers sleep on an empty pipe, a
  write wakes only the first; if that one reads fewer bytes than were written, no further task is
  woken: the second reader is still blocked and queued although the pipe is not empty.
\<close>

lemma partial_read_leaves_reader_asleep:
  assumes ok: "ring_ok pages r" and r: "r = rings w a" "contents pages r = []" "1 < available_write r" "read_end_count r > 0"
    and waiting: "read_waiters r = [t1, t2]" "write_waiters r = []" "t1 \<noteq> t2"
      "task_states (pipe_env w) t1 = Some TBlocked" "task_states (pipe_env w) t2 = Some TBlocked"
    and ends: "readable rp" "writable wp" "buffer rp = a" "buffer wp = a"
    and lens: "1 < length (flat ub)" "length (flat one) = 1"
  shows "\<exists>k w1 ub2 w2. pipe_write tid wp ub [] w = Returned (Inr k) w1
    \<and> readied (pipe_env w1) = readied (pipe_env w) @ [t1]
    \<and> pipe_read pages t1 rp one [] w1 = Returned (ub2, Inr 1) w2
    \<and> available_read (rings w2 a) > 0 \<and> t2 \<in> set (read_waiters (rings w2 a))
    \<and> task_states (pipe_env w2) t2 = Some TBlocked \<and> t2 \<notin> set (drop (length (readied (pipe_env w))) (readied (pipe_env w2)))"
proof -
  obtain r1 where r1: "write_ring ub r = Some (r1, min (available_write r) (length (flat ub)))"
      "contents pages r1 = take (min (available_write r) (length (flat ub))) (flat ub)" "ring_ok pages r1" "same_but_data r r1"
    using write_ring_ok [OF ok, of ub] r(2) by (auto simp: Let_def)
  note d1 = same_but_dataD [OF r1(4)]
  define w1 where "w1 = (let w' = on_ring a wake_reader (set_ring a r1 w) in notify_async_read_ready (async_owner r1) w')"
  have ne: "flat ub \<noteq> []" using lens(1) by auto
  have wr: "pipe_write tid wp ub [] w = Returned (Inr (min (available_write r) (length (flat ub)))) w1"
    using r ends ne r1(1) by (simp add: pipe_write_def write_attempt_def all_read_ends_closed_def w1_def Let_def)
  have env1: "pipe_env w1 = snd (wake_reader r1 (pipe_env w))" "rings w1 a = fst (wake_reader r1 (pipe_env w))"
    by (simp_all add: w1_def on_ring_def set_ring_def notify_async_read_ready_def split_beta Let_def)
  have e1: "readied (pipe_env w1) = readied (pipe_env w) @ [t1]" "read_waiters (rings w1 a) = [t2]"
      "write_waiters (rings w1 a) = []" "task_states (pipe_env w1) t2 = Some TBlocked"
      "contents pages (rings w1 a) = contents pages r1" "ring_ok pages (rings w1 a)"
    unfolding env1 using waiting r1(3) d1
    by (simp_all add: wake_reader_def wake_readers_def split_beta Let_def contents_def ring_ok_def)
  have l1: "1 < length (contents pages (rings w1 a))" using e1(5) r1(2) r(3) lens(1) by simp
  obtain ub2 r2 where r2: "read_ring pages one (rings w1 a) = Some (ub2, min (length (flat one)) (length (contents pages (rings w1 a))), r2)"
      "contents pages r2 = drop (min (length (flat one)) (length (contents pages (rings w1 a)))) (contents pages (rings w1 a))"
      "ring_ok pages r2" "same_but_data (rings w1 a) r2"
    using read_ring_ok [OF e1(6), of one] by (auto simp: Let_def)
  note d2 = same_but_dataD [OF r2(4)]
  define w2 where "w2 = on_ring a wake_writer (set_ring a r2 w1)"
  have ar: "available_read (rings w1 a) \<noteq> 0" using l1 e1(6) by (simp add: available_read_def)
  have one: "min (length (flat one)) (length (contents pages (rings w1 a))) = 1" using l1 lens(2) by simp
  have rd: "pipe_read pages t1 rp one [] w1 = Returned (ub2, Inr 1) w2"
    using ends ar r2(1) unfolding one by (simp add: pipe_read_def read_attempt_def w2_def Let_def)
  have env2: "pipe_env w2 = snd (wake_writer r2 (pipe_env w1))" "rings w2 a = fst (wake_writer r2 (pipe_env w1))"
    by (simp_all add: w2_def on_ring_def set_ring_def split_beta Let_def)
  have e2: "readied (pipe_env w2) = readied (pipe_env w1)" "read_waiters (rings w2 a) = [t2]"
      "task_states (pipe_env w2) t2 = Some TBlocked" "bytes (rings w2 a) = bytes r2"
    unfolding env2 using e1 d2 by (simp_all add: wake_writer_def wake_writers_def split_beta Let_def)
  have "0 < bytes r2" using r2(2) l1 length_contents [OF r2(3)] unfolding one by simp
  with wr rd e1(1) e2 waiting(3) show ?thesis by (auto simp: available_read_def)
qed

definition demo_sleepers :: pipe_world where
  "demo_sleepers = no_pipes\<lparr>rings := (\<lambda>_. (with_capacity 4)\<lparr>read_end_count := 2, write_end_count := 1, read_waiters := [5, 6]\<rparr>),
     pipe_env := \<lparr>task_states = (\<lambda>_. Some TBlocked), readied = [], poll_woken = []\<rparr>\<rparr>"

lemma partial_read_leaves_reader_asleep_witness:
  "\<exists>k w1 ub2 w2. pipe_write 1 demo_write_end \<lparr>buffers = [[1, 2, 3]]\<rparr> [] demo_sleepers = Returned (Inr k) w1
     \<and> pipe_read (\<lambda>_. []) 5 demo_read_end \<lparr>buffers = [[0]]\<rparr> [] w1 = Returned (ub2, Inr 1) w2
     \<and> available_read (rings w2 0) > 0 \<and> task_states (pipe_env w2) 6 = Some TBlocked"
proof -
  have "\<exists>k w1 ub2 w2. pipe_write 1 demo_write_end \<lparr>buffers = [[1, 2, 3]]\<rparr> [] demo_sleepers = Returned (Inr k) w1
    \<and> readied (pipe_env w1) = readied (pipe_env demo_sleepers) @ [5]
    \<and> pipe_read (\<lambda>_. []) 5 demo_read_end \<lparr>buffers = [[0]]\<rparr> [] w1 = Returned (ub2, Inr 1) w2
    \<and> available_read (rings w2 0) > 0 \<and> 6 \<in> set (read_waiters (rings w2 0))
    \<and> task_states (pipe_env w2) 6 = Some TBlocked
    \<and> 6 \<notin> set (drop (length (readied (pipe_env demo_sleepers))) (readied (pipe_env w2)))"
    by (rule partial_read_leaves_reader_asleep [OF _ refl])
       (simp_all add: demo_sleepers_def no_pipes_def demo_read_end_def demo_write_end_def flat_def
          with_capacity_def ring_ok_def contents_def available_write_def)
  then show ?thesis by blast
qed

end
