(* ===== verification/User_Memory.thy ===== *)
theory User_Memory
  imports Bytes
begin

text \<open>
  User memory as the kernel copies it (\<^verbatim>\<open>mm/translate.rs\<close>).  Which bytes may be accessed stands for
  the areas of the address space and for the page faults that the copying routines resolve; the
  page tables behind it are not modelled.
\<close>

section \<open>Copying\<close>

text \<open>
  A user address space: its bytes, which of them may be read and written, which of the others lie
  in an area that permits writing although no page can be had for them, and whether it is the address
  space that the hart is using.  Address 0 and ranges that leave the address space are refused.
\<close>

record user_mem =
  mem_bytes :: "nat \<Rightarrow> byte"
  may_read :: "nat \<Rightarrow> bool"
  may_write :: "nat \<Rightarrow> bool"
  lacks_page :: "nat \<Rightarrow> bool"
  in_use :: bool

definition range_ok :: "(nat \<Rightarrow> bool) \<Rightarrow> nat \<Rightarrow> nat \<Rightarrow> bool" where
  "range_ok ok a n \<longleftrightarrow> a \<noteq> 0 \<and> a + n \<le> usize_max \<and> list_all (\<lambda>i. ok (a + i)) [0..<n]"

definition try_copy_from_user_val :: "nat \<Rightarrow> nat \<Rightarrow> user_mem \<Rightarrow> nat option" where
  "try_copy_from_user_val n a m =
     (if range_ok (may_read m) a n then Some (nat (le_uint (map (\<lambda>i. mem_bytes m (a + i)) [0..<n]))) else None)"

definition user_bytes :: "user_mem \<Rightarrow> nat \<Rightarrow> nat \<Rightarrow> byte list" where
  "user_bytes m a n = map (\<lambda>i. mem_bytes m (a + i)) [0..<n]"

definition copy_from_user :: "nat \<Rightarrow> nat \<Rightarrow> user_mem \<Rightarrow> byte list sys_result" where
  "copy_from_user src len m =
     (if len = 0 then Inr [] else if range_ok (may_read m) src len then Inr (user_bytes m src len) else Inl EFAULT)"

definition put_bytes :: "nat \<Rightarrow> byte list \<Rightarrow> user_mem \<Rightarrow> user_mem" where
  "put_bytes a bs m = m\<lparr>mem_bytes := \<lambda>x. if a \<le> x \<and> x < a + length bs then bs ! (x - a) else mem_bytes m x\<rparr>"

text \<open>
  Small copies to the address space in use go byte by byte to the user addresses, up to the first
  byte that faults.
\<close>

definition USER_SPACE_SIZE :: nat where "USER_SPACE_SIZE = 0x3000000000"
definition CURRENT_USER_COPY_FAST_LIMIT :: nat where "CURRENT_USER_COPY_FAST_LIMIT = 256"

definition try_copy_to_current_user :: "nat \<Rightarrow> byte list \<Rightarrow> user_mem \<Rightarrow> bool \<times> user_mem" where
  "try_copy_to_current_user dst src m =
     (if length src > CURRENT_USER_COPY_FAST_LIMIT \<or> dst \<ge> USER_SPACE_SIZE \<or> dst + length src > USER_SPACE_SIZE \<or> \<not> in_use m
      then (False, m)
      else let n = length (takeWhile (\<lambda>i. may_write m (dst + i)) [0..<length src])
           in (n = length src, put_bytes dst (take n src) m))"

text \<open>
  Other copies, and those that faulted, go page by page through the page table, up to the first page
  that cannot be had.
\<close>

function copy_pages :: "nat \<Rightarrow> byte list \<Rightarrow> user_mem \<Rightarrow> bool \<times> user_mem" where
  "copy_pages cur_dst src m =
     (if src = [] then (True, m)
      else let copy_len = min (length src) (4096 - cur_dst mod 4096) in
        if list_all (\<lambda>i. may_write m (cur_dst + i)) [0..<copy_len]
        then copy_pages (cur_dst + copy_len) (drop copy_len src) (put_bytes cur_dst (take copy_len src) m)
        else (False, m))"
  by pat_completeness auto
termination
  by (relation "measure (\<lambda>(a, src, m). length src)") auto

declare copy_pages.simps [simp del]

definition copy_to_user :: "nat \<Rightarrow> byte list \<Rightarrow> user_mem \<Rightarrow> syscall_ret \<times> user_mem" where
  "copy_to_user dst src m =
     (let len = length src in
      if len = 0 then (Inr 0, m)
      else if dst = 0 \<or> dst + len > usize_max then (Inl EFAULT, m)
      else
        (case try_copy_to_current_user dst src m of
           (True, m1) \<Rightarrow> (Inr len, m1)
         | (False, m1) \<Rightarrow>
             if \<not> range_ok (\<lambda>a. may_write m1 a \<or> lacks_page m1 a) dst len then (Inl EFAULT, m1)
             else (case copy_pages dst src m1 of (True, m2) \<Rightarrow> (Inr len, m2) | (False, m2) \<Rightarrow> (Inl EFAULT, m2))))"

definition copy_to_user_val :: "nat \<Rightarrow> nat \<Rightarrow> nat \<Rightarrow> user_mem \<Rightarrow> user_mem" where
  "copy_to_user_val n a v m = snd (copy_to_user a (le_bytes n (int v)) m)"

definition probe_user_write :: "nat \<Rightarrow> nat \<Rightarrow> user_mem \<Rightarrow> syscall_ret" where
  "probe_user_write dst len m =
     (if len = 0 then Inr 0 else if range_ok (may_write m) dst len then Inr len else Inl EFAULT)"

section \<open>What was written is read back\<close>

text \<open>What every copy leaves as it was: the permissions, and the bytes outside its target\<close>

definition touches_only :: "nat \<Rightarrow> nat \<Rightarrow> user_mem \<Rightarrow> user_mem \<Rightarrow> bool" where
  "touches_only a n m m' \<longleftrightarrow>
     may_read m' = may_read m \<and> may_write m' = may_write m \<and> lacks_page m' = lacks_page m \<and> in_use m' = in_use m \<and>
     (\<forall>x. x < a \<or> a + n \<le> x \<longrightarrow> mem_bytes m' x = mem_bytes m x)"

lemma put_bytes_Nil [simp]: "put_bytes a [] m = m"
  by (cases m) (auto simp: put_bytes_def fun_eq_iff)

lemma put_bytes_append: "put_bytes (a + length xs) ys (put_bytes a xs m) = put_bytes a (xs @ ys) m"
  by (cases m) (auto simp: put_bytes_def nth_append fun_eq_iff)

lemma put_bytes_perms [simp]:
  "may_read (put_bytes a bs m) = may_read m" "may_write (put_bytes a bs m) = may_write m"
  "lacks_page (put_bytes a bs m) = lacks_page m" "in_use (put_bytes a bs m) = in_use m"
  by (simp_all add: put_bytes_def)

lemma put_bytes_touches: "length bs \<le> n \<Longrightarrow> touches_only a n m (put_bytes a bs m)"
  by (simp add: touches_only_def put_bytes_def)

lemma touches_only_refl [simp]: "touches_only a n m m"
  by (simp add: touches_only_def)

lemma touches_only_trans: "touches_only a n m m1 \<Longrightarrow> touches_only a n m1 m2 \<Longrightarrow> touches_only a n m m2"
  by (simp add: touches_only_def)

lemma touches_only_wider: "touches_only b k m m' \<Longrightarrow> a \<le> b \<Longrightarrow> b + k \<le> a + n \<Longrightarrow> touches_only a n m m'"
  by (auto simp: touches_only_def)

text \<open>The slow copy succeeds exactly when every byte may be written.\<close>

lemma copy_pages_cases:
  "copy_pages a src m = (b, m') \<Longrightarrow>
     touches_only a (length src) m m' \<and> b = (\<forall>i < length src. may_write m (a + i)) \<and> (b \<longrightarrow> m' = put_bytes a src m)"
proof (induction a src m rule: copy_pages.induct)
  case (1 a src m)
  define k where "k = min (length src) (4096 - a mod 4096)"
  show ?case
  proof (cases "src = []")
    case True
    then show ?thesis using "1.prems" by (simp add: copy_pages.simps)
  next
    case ne: False
    have k: "0 < k" "k \<le> length src" using ne by (simp_all add: k_def)
    show ?thesis
    proof (cases "\<forall>i < k. may_write m (a + i)")
      case True
      then have c: "list_all (\<lambda>i. may_write m (a + i)) [0..<k]" by (simp add: list_all_iff)
      then have r: "copy_pages (a + k) (drop k src) (put_bytes a (take k src) m) = (b, m')"
        using "1.prems" ne by (subst (asm) copy_pages.simps) (simp add: k_def [symmetric] Let_def)
      note ih = "1.IH" [OF ne k_def c r]
      have "touches_only a (length src) m m'"
        using touches_only_trans [OF put_bytes_touches [of "take k src" "length src" a m] touches_only_wider [of "a + k" "length src - k" _ m' a "length src"]]
          ih k by simp
      moreover have "(\<forall>i < length src - k. may_write m (a + k + i)) \<longleftrightarrow> (\<forall>i < length src. may_write m (a + i))"
      proof (intro iffI allI impI)
        fix i
        assume all: "\<forall>i < length src - k. may_write m (a + k + i)" and i: "i < length src"
        show "may_write m (a + i)"
          using True all [rule_format, of "i - k"] i by (cases "i < k") auto
      next
        fix i
        assume "\<forall>i < length src. may_write m (a + i)" "i < length src - k"
        then show "may_write m (a + k + i)" using k by (simp add: add.assoc)
      qed
      moreover have "put_bytes (a + k) (drop k src) (put_bytes a (take k src) m) = put_bytes a src m"
        using put_bytes_append [of a "take k src" "drop k src" m] k by simp
      ultimately show ?thesis using ih by simp
    next
      case False
      then have "\<not> list_all (\<lambda>i. may_write m (a + i)) [0..<k]" by (auto simp: list_all_iff)
      then have "b = False" "m' = m"
        using "1.prems" ne by (subst (asm) copy_pages.simps, simp add: k_def [symmetric] Let_def)+
      then show ?thesis using False k by (auto intro: less_le_trans)
    qed
  qed
qed

lemma try_copy_cases:
  assumes "try_copy_to_current_user a src m = (b, m')"
  shows "touches_only a (length src) m m'" "b \<Longrightarrow> (\<forall>i < length src. may_write m (a + i)) \<and> m' = put_bytes a src m"
    "\<forall>i < length src. may_write m (a + i) \<Longrightarrow> \<not> b \<Longrightarrow> m' = m"
proof -
  let ?w = "takeWhile (\<lambda>i. may_write m (a + i)) [0..<length src]"
  have le: "length ?w \<le> length src" using length_takeWhile_le [of "\<lambda>i. may_write m (a + i)" "[0..<length src]"] by simp
  show "touches_only a (length src) m m'"
    using assms le by (auto simp: try_copy_to_current_user_def Let_def intro!: put_bytes_touches split: if_splits)
  have full: "length ?w = length src \<longleftrightarrow> (\<forall>i < length src. may_write m (a + i))"
  proof
    assume "length ?w = length src"
    then have "?w = [0..<length src]" by (metis diff_zero length_upt takeWhile_eq_take take_all_iff order_refl)
    then show "\<forall>i < length src. may_write m (a + i)" by (simp add: takeWhile_eq_all_conv)
  next
    assume "\<forall>i < length src. may_write m (a + i)"
    then have "?w = [0..<length src]" by (simp only: takeWhile_eq_all_conv) simp
    then show "length ?w = length src" by (metis diff_zero length_upt)
  qed
  show "(\<forall>i < length src. may_write m (a + i)) \<and> m' = put_bytes a src m" if b
    using assms that full by (auto simp: try_copy_to_current_user_def Let_def split: if_splits)
  show "m' = m" if "\<forall>i < length src. may_write m (a + i)" "\<not> b"
    using assms that full by (auto simp: try_copy_to_current_user_def Let_def split: if_splits)
qed

lemma range_ok_iff: "range_ok ok a n \<longleftrightarrow> a \<noteq> 0 \<and> a + n \<le> usize_max \<and> (\<forall>i < n. ok (a + i))"
  by (auto simp: range_ok_def list_all_iff)

text \<open>A copy succeeds exactly when the whole target may be written; otherwise a part may have been.\<close>

lemma copy_to_user_ok:
  assumes "range_ok (may_write m) dst (length src)"
  shows "copy_to_user dst src m = (Inr (length src), put_bytes dst src m)"
proof -
  obtain b m1 where f: "try_copy_to_current_user dst src m = (b, m1)" by (cases "try_copy_to_current_user dst src m")
  obtain b2 m2 where p: "copy_pages dst src m = (b2, m2)" by (cases "copy_pages dst src m")
  have w: "\<forall>i < length src. may_write m (dst + i)" using assms by (simp add: range_ok_iff)
  show ?thesis
    using assms try_copy_cases(2) [OF f] try_copy_cases(3) [OF f w] f p copy_pages_cases [OF p] w
    by (cases b) (auto simp: copy_to_user_def Let_def range_ok_iff)
qed

lemma copy_to_user_refused:
  assumes "\<not> range_ok (may_write m) dst (length src)" "src \<noteq> []"
  shows "\<exists>m'. copy_to_user dst src m = (Inl EFAULT, m') \<and> touches_only dst (length src) m m'"
proof -
  obtain b m1 where f: "try_copy_to_current_user dst src m = (b, m1)" by (cases "try_copy_to_current_user dst src m")
  obtain b2 m2 where p: "copy_pages dst src m1 = (b2, m2)" by (cases "copy_pages dst src m1")
  note t = try_copy_cases(1) [OF f] copy_pages_cases [OF p]
  then have same: "may_write m1 = may_write m" by (simp add: touches_only_def)
  consider "dst = 0 \<or> dst + length src > usize_max" | "\<not> (\<forall>i < length src. may_write m (dst + i))" "dst \<noteq> 0" "dst + length src \<le> usize_max"
    using assms(1) unfolding range_ok_iff by (metis not_le)
  then show ?thesis
  proof cases
    case 1
    then show ?thesis using assms(2) by (auto simp: copy_to_user_def Let_def)
  next
    case 2
    then have "b = False" "b2 = False" using try_copy_cases(2) [OF f] t(2) same by auto
    then have "copy_to_user dst src m = (Inl EFAULT, m1) \<or> copy_to_user dst src m = (Inl EFAULT, m2)"
      using 2(2,3) assms(2) f p by (simp add: copy_to_user_def Let_def)
    then show ?thesis using t touches_only_trans [OF t(1), of m2] by blast
  qed
qed

lemma copy_to_user_touches:
  assumes "copy_to_user dst src m = (r, m')"
  shows "touches_only dst (length src) m m'"
proof (cases "range_ok (may_write m) dst (length src)")
  case True
  then show ?thesis using assms put_bytes_touches [of src "length src" dst m] by (simp add: copy_to_user_ok)
next
  case False
  then show ?thesis using assms copy_to_user_refused [OF False] by (cases "src = []") (auto simp: copy_to_user_def)
qed

text \<open>Nothing is written when the first byte may not be.\<close>

lemma copy_to_user_first:
  assumes "\<not> may_write m dst" "src \<noteq> []"
  shows "copy_to_user dst src m = (Inl EFAULT, m)"
proof -
  obtain k where k: "length src = Suc k" using assms(2) by (cases src) auto
  have "[0..<length src] = 0 # [1..<length src]" using k by (simp add: upt_rec)
  then have "takeWhile (\<lambda>i. may_write m (dst + i)) [0..<length src] = []" using assms(1) by simp
  then have f: "try_copy_to_current_user dst src m = (False, m)" using k by (auto simp: try_copy_to_current_user_def Let_def)
  have "\<not> list_all (\<lambda>i. may_write m (dst + i)) [0..<min (length src) (4096 - dst mod 4096)]"
    using assms k by (auto simp: list_all_iff intro!: bexI [of _ 0])
  then have "copy_pages dst src m = (False, m)" using assms(2) by (subst copy_pages.simps) (simp add: Let_def)
  then show ?thesis using f assms(2) by (simp add: copy_to_user_def Let_def)
qed

lemma copy_to_perms [simp]:
  "may_read (copy_to_user_val n a v m) = may_read m" "may_write (copy_to_user_val n a v m) = may_write m"
  using copy_to_user_touches [of a "le_bytes n (int v)" m] by (metis copy_to_user_val_def prod.collapse touches_only_def)+

lemma copy_roundtrip:
  assumes "range_ok (may_read m) a n" "range_ok (may_write m) a n" "v < 2 ^ (8 * n)"
  shows "try_copy_from_user_val n a (copy_to_user_val n a v m) = Some v"
proof -
  have c: "copy_to_user_val n a v m = put_bytes a (le_bytes n (int v)) m"
    using assms(2) by (simp add: copy_to_user_val_def copy_to_user_ok)
  have "map (\<lambda>i. mem_bytes (copy_to_user_val n a v m) (a + i)) [0..<n] = le_bytes n (int v)"
    by (intro nth_equalityI) (simp_all add: c put_bytes_def)
  moreover have "int v mod 2 ^ (8 * n) = int v"
    using assms(3) by (metis mod_pos_pos_trivial of_nat_0_le_iff of_nat_less_iff of_nat_numeral of_nat_power)
  ultimately show ?thesis
    using assms(1) by (simp add: try_copy_from_user_val_def)
qed

lemma length_user_bytes [simp]: "length (user_bytes m a n) = n"
  by (simp add: user_bytes_def)

lemma user_bytes_split: "user_bytes m a (n + k) = user_bytes m a n @ user_bytes m (a + n) k"
  by (rule nth_equalityI) (auto simp: user_bytes_def nth_append)

lemma user_bytes_sub: "user_bytes m (a + i) k = take k (drop i (user_bytes m a (i + k + j)))"
  using user_bytes_split [of m a i "k + j"] user_bytes_split [of m "a + i" k j] by (simp add: add.assoc)

lemma copy_to_user_cases:
  assumes "copy_to_user dst src m = (r, m')"
  shows "may_read m' = may_read m \<and> may_write m' = may_write m \<and>
    (\<forall>x. x < dst \<or> dst + length src \<le> x \<longrightarrow> mem_bytes m' x = mem_bytes m x) \<and>
    (case r of Inl e \<Rightarrow> e = EFAULT | Inr n \<Rightarrow> n = length src \<and> user_bytes m' dst (length src) = src)"
proof -
  have "case r of Inl e \<Rightarrow> e = EFAULT | Inr n \<Rightarrow> n = length src \<and> user_bytes m' dst (length src) = src"
  proof (cases "range_ok (may_write m) dst (length src)")
    case True
    then show ?thesis using assms by (auto simp: copy_to_user_ok user_bytes_def put_bytes_def intro!: nth_equalityI)
  next
    case False
    then show ?thesis
      using assms copy_to_user_refused [OF False] by (cases "src = []") (auto simp: copy_to_user_def user_bytes_def)
  qed
  then show ?thesis using copy_to_user_touches [OF assms] by (auto simp: touches_only_def)
qed

lemma range_ok_sub:
  assumes "range_ok ok a n" "i + k \<le> n"
  shows "range_ok ok (a + i) k"
proof -
  have "ok (a + (i + j))" if "j < k" for j using assms that by (auto simp: range_ok_def list_all_iff)
  then show ?thesis using assms by (auto simp: range_ok_def list_all_iff add.assoc)
qed

end
