(* ===== verification/Timers.thy ===== *)
theory Timers
  imports Prelude
begin

text \<open>
  \<^verbatim>\<open>os/src/timer\<close>: time values (\<^verbatim>\<open>timespec.rs\<close>, \<^verbatim>\<open>timeval.rs\<close>), the interval timer of a
  thread (\<^verbatim>\<open>itimerval.rs\<close>), and from \<^verbatim>\<open>mod.rs\<close> the conversions of the tick counter, the remaining
  time of a sleep and the claim of the global timer maintenance.  The tick counter, its frequency
  and the clock are arguments.  Fields are \<^verbatim>\<open>usize\<close>, so sums and products wrap at 64 bits, as
  the release build of the kernel computes them.
\<close>

section \<open>Time values\<close>

record Timespec =
  ts_sec :: nat
  ts_nsec :: nat

definition Timespec_new :: "nat \<Rightarrow> nat \<Rightarrow> Timespec" where
  "Timespec_new s n = \<lparr>ts_sec = s, ts_nsec = n\<rparr>"

text \<open>A \<^verbatim>\<open>Duration\<close> is its whole seconds and its nanoseconds below one second.\<close>

definition timespec_add_duration :: "Timespec \<Rightarrow> nat \<times> nat \<Rightarrow> Timespec" where
  "timespec_add_duration t d =
     (let s = wrap64 (ts_sec t + fst d); n = wrap64 (ts_nsec t + snd d)
      in if n \<ge> 1000000000 then Timespec_new (wrap64 (s + 1)) (n - 1000000000) else Timespec_new s n)"

definition to_tick :: "nat \<Rightarrow> Timespec \<Rightarrow> nat" where
  "to_tick freq t = wrap64 (wrap64 (ts_sec t * freq) + wrap64 (ts_nsec t * freq) div 1000000000)"

definition from_nanos :: "nat \<Rightarrow> Timespec" where
  "from_nanos n = \<lparr>ts_sec = n div 1000000000, ts_nsec = n mod 1000000000\<rparr>"

definition from_micros :: "nat \<Rightarrow> Timespec" where
  "from_micros n = \<lparr>ts_sec = n div 1000000, ts_nsec = n mod 1000000 * 1000\<rparr>"

definition timespec_add :: "Timespec \<Rightarrow> Timespec \<Rightarrow> Timespec" where
  "timespec_add a b =
     (let n = wrap64 (ts_nsec a + ts_nsec b)
      in \<lparr>ts_sec = wrap64 (ts_sec a + ts_sec b + n div 1000000000), ts_nsec = n mod 1000000000\<rparr>)"

definition timespec_le :: "Timespec \<Rightarrow> Timespec \<Rightarrow> bool" where
  "timespec_le a b \<longleftrightarrow> ts_sec a < ts_sec b \<or> ts_sec a = ts_sec b \<and> ts_nsec a \<le> ts_nsec b"

record TimeVal =
  tv_sec :: nat
  tv_usec :: nat

definition TimeVal_new :: "nat \<Rightarrow> nat \<Rightarrow> TimeVal" where
  "TimeVal_new s u = \<lparr>tv_sec = s, tv_usec = u\<rparr>"

definition TimeVal_now :: "nat \<Rightarrow> TimeVal" where
  "TimeVal_now time_ms = \<lparr>tv_sec = time_ms div 1000, tv_usec = time_ms mod 1000 * 1000\<rparr>"

definition timeval_empty :: "TimeVal \<Rightarrow> bool" where
  "timeval_empty t \<longleftrightarrow> tv_sec t = 0 \<and> tv_usec t = 0"

definition timeval_le :: "TimeVal \<Rightarrow> TimeVal \<Rightarrow> bool" where
  "timeval_le a b \<longleftrightarrow> tv_sec a < tv_sec b \<or> tv_sec a = tv_sec b \<and> tv_usec a \<le> tv_usec b"

definition timeval_saturating_sub :: "TimeVal \<Rightarrow> TimeVal \<Rightarrow> TimeVal" where
  "timeval_saturating_sub a b =
     (if timeval_le a b then TimeVal_new 0 0
      else if tv_usec a \<ge> tv_usec b then TimeVal_new (tv_sec a - tv_sec b) (tv_usec a - tv_usec b)
      else TimeVal_new (sub64 (sub64 (tv_sec a) (tv_sec b)) 1) (sub64 (wrap64 (tv_usec a + 1000000)) (tv_usec b)))"

definition timeval_add :: "TimeVal \<Rightarrow> TimeVal \<Rightarrow> TimeVal" where
  "timeval_add a b =
     (let u = wrap64 (tv_usec a + tv_usec b)
      in \<lparr>tv_sec = wrap64 (tv_sec a + tv_sec b + u div 1000000), tv_usec = u mod 1000000\<rparr>)"

section \<open>The tick counter\<close>

definition NOW_TIME_STAMP :: nat where "NOW_TIME_STAMP = 1777593600"

definition get_time_ms :: "nat \<Rightarrow> nat \<Rightarrow> nat" where
  "get_time_ms freq ticks = ticks div (freq div 1000)"

definition get_time_ns :: "nat \<Rightarrow> nat \<Rightarrow> nat" where
  "get_time_ns freq ticks = wrap64 (ticks * 1000000000 div freq)"

definition realtime_nanos :: "nat \<Rightarrow> nat \<Rightarrow> int \<Rightarrow> nat" where
  "realtime_nanos freq ticks offset =
     (let nanos = int (get_time_ns freq ticks) + int NOW_TIME_STAMP * 1000000000 + offset * 1000000000
      in if nanos \<le> 0 then 0 else if nanos > 2 ^ 64 - 1 then 2 ^ 64 - 1 else nat nanos)"

definition realtime :: "nat \<Rightarrow> nat \<Rightarrow> int \<Rightarrow> Timespec" where
  "realtime freq ticks offset = from_nanos (realtime_nanos freq ticks offset)"

definition get_time_spec :: "nat \<Rightarrow> nat \<Rightarrow> Timespec" where
  "get_time_spec freq ticks =
     (let t = get_time_ms freq ticks in Timespec_new (t div 1000) (t mod 1000 * 1000000))"

text \<open>The nanosecond difference is computed in \<^verbatim>\<open>isize\<close>, the seconds in \<^verbatim>\<open>usize\<close>.\<close>

definition calculate_left_timespec :: "Timespec \<Rightarrow> Timespec \<Rightarrow> Timespec" where
  "calculate_left_timespec nowtime endtime =
     (let nsec = int (ts_nsec endtime) - int (ts_nsec nowtime)
      in if nsec < 0
         then \<lparr>ts_sec = sub64 (sub64 (ts_sec endtime) 1) (ts_sec nowtime), ts_nsec = nat (nsec + 1000000000)\<rparr>
         else \<lparr>ts_sec = sub64 (ts_sec endtime) (ts_sec nowtime), ts_nsec = nat nsec\<rparr>)"

section \<open>Global timer maintenance\<close>

definition TIMER_INTERVAL_MS :: nat where "TIMER_INTERVAL_MS = 1000 div 100"

record maintenance =
  LAST_TICK :: nat
  ACTIVE :: bool

definition claim_global_timer_maintenance :: "nat \<Rightarrow> maintenance \<Rightarrow> bool \<times> maintenance" where
  "claim_global_timer_maintenance time_ms m =
     (if ACTIVE m then (False, m)
      else
        let tick = time_ms div TIMER_INTERVAL_MS in
        if LAST_TICK m = tick then (False, m\<lparr>ACTIVE := False\<rparr>)
        else (True, m\<lparr>ACTIVE := True, LAST_TICK := tick\<rparr>))"

definition drop_maintenance_guard :: "maintenance \<Rightarrow> maintenance" where
  "drop_maintenance_guard m = m\<lparr>ACTIVE := False\<rparr>"

section \<open>Interval timers\<close>

record Itimerval =
  it_interval :: TimeVal
  it_value :: TimeVal

definition Itimerval_new :: Itimerval where
  "Itimerval_new = \<lparr>it_interval = TimeVal_new 0 0, it_value = TimeVal_new 0 0\<rparr>"

record TimerInner =
  timer :: Itimerval
  last_time :: TimeVal

definition TimerInner_new :: TimerInner where
  "TimerInner_new = \<lparr>timer = Itimerval_new, last_time = TimeVal_new 0 0\<rparr>"

definition Timer_timer :: "TimeVal \<Rightarrow> TimerInner \<Rightarrow> Itimerval" where
  "Timer_timer now inner =
     (let t = timer inner in
      if timeval_empty (it_value t) then t
      else t\<lparr>it_value := timeval_saturating_sub (it_value t) (timeval_saturating_sub now (last_time inner))\<rparr>)"

definition set_itimer :: "Itimerval \<Rightarrow> TimeVal \<Rightarrow> TimerInner \<Rightarrow> TimerInner" where
  "set_itimer new now inner = inner\<lparr>timer := new, last_time := now\<rparr>"

definition take_expired_signal :: "TimeVal \<Rightarrow> TimerInner \<Rightarrow> bool \<times> TimerInner" where
  "take_expired_signal now inner =
     (if timeval_empty (it_value (timer inner)) then (False, inner)
      else if timeval_le now (timeval_add (last_time inner) (it_value (timer inner))) then (False, inner)
      else if timeval_empty (it_interval (timer inner))
      then (True, inner\<lparr>timer := (timer inner)\<lparr>it_value := TimeVal_new 0 0\<rparr>\<rparr>)
      else (True, inner\<lparr>timer := (timer inner)\<lparr>it_value := it_interval (timer inner)\<rparr>, last_time := now\<rparr>))"

section \<open>Sleeping\<close>

text \<open>
  The system calls \<^verbatim>\<open>nanosleep\<close> and \<^verbatim>\<open>clock_nanosleep\<close> of \<^verbatim>\<open>os/src/syscall/task/schedule.rs\<close>.
  The second component of a result is what is stored at the address of the remaining time;
  \<open>rem\<close> tells whether there is such an address and \<open>copy\<close> is a failure of the copy to it.
\<close>

definition report_left :: "bool \<Rightarrow> SysErrNo option \<Rightarrow> Timespec \<Rightarrow> Timespec \<Rightarrow> syscall_ret \<times> Timespec option" where
  "report_left rem copy now endtime =
     (if rem then
        case copy of Some e \<Rightarrow> (Inl e, None) | None \<Rightarrow> (Inl EINTR, Some (calculate_left_timespec now endtime))
      else (Inl EINTR, None))"

text \<open>
  The clock is read when the deadline is computed, and again when the remaining time is reported:
  \<open>now1\<close> if a signal is seen before sleeping, \<open>now2\<close> after the sleep, which ended at the deadline
  (\<open>slept\<close>) or by an interruption.
\<close>

definition sys_nanosleep :: "Timespec sys_result \<Rightarrow> bool \<Rightarrow> SysErrNo option \<Rightarrow> Timespec \<Rightarrow> bool \<Rightarrow> Timespec \<Rightarrow>
    bool \<Rightarrow> bool \<Rightarrow> Timespec \<Rightarrow> syscall_ret \<times> Timespec option" where
  "sys_nanosleep req rem copy now0 interrupted1 now1 slept interrupted2 now2 =
     (case req of
        Inl e \<Rightarrow> (Inl e, None)
      | Inr r \<Rightarrow>
          if ts_nsec r \<ge> 1000000000 \<or> ts_sec r \<ge> 2 ^ 63 then (Inl EINVAL, None)
          else
            let endtime = timespec_add now0 r in
            if interrupted1 then report_left rem copy now1 endtime
            else if \<not> slept \<or> interrupted2 then report_left rem copy now2 endtime
            else (Inr 0, None))"

definition CLOCK_REALTIME :: nat where "CLOCK_REALTIME = 0"
definition CLOCK_MONOTONIC :: nat where "CLOCK_MONOTONIC = 1"
definition CLOCK_PROCESS_CPUTIME_ID :: nat where "CLOCK_PROCESS_CPUTIME_ID = 2"
definition CLOCK_THREAD_CPUTIME_ID :: nat where "CLOCK_THREAD_CPUTIME_ID = 3"
definition TIMER_ABSTIME :: nat where "TIMER_ABSTIME = 1"

text \<open>The microseconds to sleep, or \<open>None\<close> if the absolute target has passed.\<close>

definition total_us :: "nat \<Rightarrow> nat \<Rightarrow> Timespec \<Rightarrow> Timespec \<Rightarrow> Timespec \<Rightarrow> nat option" where
  "total_us clockid flags t uptime real =
     (if flags = TIMER_ABSTIME then
        let now = (if clockid = CLOCK_REALTIME then real else uptime) in
        if ts_sec t < ts_sec now \<or> ts_sec t = ts_sec now \<and> ts_nsec t \<le> ts_nsec now then None
        else
          let diff_sec = sub64 (ts_sec t) (ts_sec now);
              diff_nsec = int (ts_nsec t) - int (ts_nsec now)
          in if diff_nsec < 0
             then Some (wrap64 (sub64 diff_sec 1 * 1000000 + nat ((1000000000 + diff_nsec) div 1000)))
             else Some (wrap64 (diff_sec * 1000000 + nat diff_nsec div 1000))
      else Some (wrap64 (ts_sec t * 1000000 + ts_nsec t div 1000)))"

text \<open>One round of the sleep loop: the tick counter, whether a signal was seen, and the clock.\<close>

record sleep_round =
  round_ticks :: nat
  round_signal :: bool
  round_now :: Timespec

fun clock_sleep_loop :: "nat \<Rightarrow> nat \<Rightarrow> nat \<Rightarrow> bool \<Rightarrow> SysErrNo option \<Rightarrow> Timespec \<Rightarrow> sleep_round list \<Rightarrow>
    (syscall_ret \<times> Timespec option) option" where
  "clock_sleep_loop freq begin_ticks to_sleep rem copy endtime [] = None"
| "clock_sleep_loop freq begin_ticks to_sleep rem copy endtime (r # rs) =
     (let elapsed_us = wrap64 (sub64 (round_ticks r) begin_ticks * 1000000) div freq in
      if elapsed_us \<ge> to_sleep then Some (Inr 0, None)
      else if round_signal r then Some (report_left rem copy (round_now r) endtime)
      else clock_sleep_loop freq begin_ticks to_sleep rem copy endtime rs)"

definition sys_clock_nanosleep :: "nat \<Rightarrow> nat \<Rightarrow> bool \<Rightarrow> bool \<Rightarrow> Timespec sys_result \<Rightarrow> bool \<Rightarrow> SysErrNo option \<Rightarrow>
    nat \<Rightarrow> Timespec \<Rightarrow> Timespec \<Rightarrow> nat \<Rightarrow> sleep_round list \<Rightarrow> (syscall_ret \<times> Timespec option) option" where
  "sys_clock_nanosleep clockid flags t_bad rem_bad req rem copy freq uptime real begin_ticks rs =
     (if clockid = CLOCK_PROCESS_CPUTIME_ID \<or> clockid = CLOCK_THREAD_CPUTIME_ID then Some (Inl EOPNOTSUPP, None)
      else if clockid \<noteq> CLOCK_REALTIME \<and> clockid \<noteq> CLOCK_MONOTONIC then Some (Inl EINVAL, None)
      else if t_bad then Some (Inl EFAULT, None)
      else if rem \<and> rem_bad then Some (Inl EFAULT, None)
      else
        case req of
          Inl e \<Rightarrow> Some (Inl e, None)
        | Inr t \<Rightarrow>
            if ts_nsec t \<ge> 1000000000 then Some (Inl EINVAL, None)
            else
              let endtime = (if flags = TIMER_ABSTIME then t else timespec_add uptime t) in
              (case total_us clockid flags t uptime real of
                 None \<Rightarrow> Some (Inr 0, None)
               | Some to_sleep \<Rightarrow> clock_sleep_loop freq begin_ticks to_sleep rem copy endtime rs))"

section \<open>Time as a number\<close>

text \<open>Normalised values far below the wrap-around, which every clock reading is.\<close>

definition timespec_ok :: "Timespec \<Rightarrow> bool" where
  "timespec_ok t \<longleftrightarrow> ts_sec t < 2 ^ 62 \<and> ts_nsec t < 1000000000"

definition timeval_ok :: "TimeVal \<Rightarrow> bool" where
  "timeval_ok t \<longleftrightarrow> tv_sec t < 2 ^ 62 \<and> tv_usec t < 1000000"

definition nanos :: "Timespec \<Rightarrow> nat" where
  "nanos t = ts_sec t * 1000000000 + ts_nsec t"

definition micros :: "TimeVal \<Rightarrow> nat" where
  "micros t = tv_sec t * 1000000 + tv_usec t"

lemma timespec_le_nanos: "timespec_ok a \<Longrightarrow> timespec_ok b \<Longrightarrow> timespec_le a b \<longleftrightarrow> nanos a \<le> nanos b"
  by (auto simp: timespec_le_def nanos_def timespec_ok_def)

lemma timeval_le_micros: "timeval_ok a \<Longrightarrow> timeval_ok b \<Longrightarrow> timeval_le a b \<longleftrightarrow> micros a \<le> micros b"
  by (auto simp: timeval_le_def micros_def timeval_ok_def)

lemma timeval_add_micros:
  assumes "timeval_ok a" and "timeval_ok b"
  shows "micros (timeval_add a b) = micros a + micros b"
    and "tv_usec (timeval_add a b) < 1000000" and "tv_sec (timeval_add a b) \<le> 2 ^ 63"
proof -
  let ?u = "tv_usec a + tv_usec b"
  have u: "?u < 2000000" using assms by (auto simp: timeval_ok_def)
  then have d: "?u div 1000000 \<le> 1" by simp
  have w: "wrap64 ?u = ?u" "wrap64 (tv_sec a + tv_sec b + ?u div 1000000) = tv_sec a + tv_sec b + ?u div 1000000"
    using assms u d by (auto simp: timeval_ok_def intro!: wrap64_id)
  have "(tv_sec a + tv_sec b + ?u div 1000000) * 1000000 + ?u mod 1000000 = micros a + micros b"
    unfolding micros_def add_mult_distrib using div_mult_mod_eq [of ?u 1000000] by linarith
  then show "micros (timeval_add a b) = micros a + micros b"
    by (simp add: timeval_add_def Let_def w micros_def)
  show "tv_usec (timeval_add a b) < 1000000" by (simp add: timeval_add_def Let_def)
  show "tv_sec (timeval_add a b) \<le> 2 ^ 63"
    using assms d by (simp add: timeval_add_def Let_def w timeval_ok_def)
qed

lemma timeval_le_sum:
  assumes "timeval_ok now" and "timeval_ok a" and "timeval_ok b"
  shows "timeval_le now (timeval_add a b) \<longleftrightarrow> micros now \<le> micros a + micros b"
  using timeval_add_micros [OF assms(2,3)] assms(1)
  by (auto simp: timeval_le_def micros_def timeval_ok_def)

lemma timeval_saturating_sub_micros:
  assumes "timeval_ok a" and "timeval_ok b"
  shows "micros (timeval_saturating_sub a b) = micros a - micros b \<and> timeval_ok (timeval_saturating_sub a b)"
proof (cases "timeval_le a b")
  case True
  with timeval_le_micros [OF assms] show ?thesis
    by (simp add: timeval_saturating_sub_def TimeVal_new_def micros_def timeval_ok_def)
next
  case False
  have b: "tv_sec a < 2 ^ 62" "tv_sec b < 2 ^ 62" "tv_usec a < 1000000" "tv_usec b < 1000000"
    using assms by (auto simp: timeval_ok_def)
  show ?thesis
  proof (cases "tv_usec a \<ge> tv_usec b")
    case True
    with False b show ?thesis
      by (auto simp: timeval_saturating_sub_def TimeVal_new_def micros_def timeval_ok_def timeval_le_def diff_mult_distrib)
  next
    case u: False
    then have s: "tv_sec b < tv_sec a" using False by (auto simp: timeval_le_def)
    have "sub64 (sub64 (tv_sec a) (tv_sec b)) 1 = tv_sec a - tv_sec b - 1"
      "sub64 (wrap64 (tv_usec a + 1000000)) (tv_usec b) = tv_usec a + 1000000 - tv_usec b"
      using b s by (simp_all add: sub64_le)
    moreover have "(tv_sec a - tv_sec b - 1) * 1000000 + (tv_usec a + 1000000 - tv_usec b) =
        tv_sec a * 1000000 + tv_usec a - (tv_sec b * 1000000 + tv_usec b)"
    proof -
      obtain k where "tv_sec a = tv_sec b + 1 + k" using s by (metis add.assoc less_iff_Suc_add plus_1_eq_Suc add.commute)
      then show ?thesis using b u by (simp add: add_mult_distrib)
    qed
    ultimately show ?thesis
      using False u b s by (auto simp: timeval_saturating_sub_def TimeVal_new_def micros_def timeval_ok_def)
  qed
qed

lemma timespec_add_nanos:
  assumes "timespec_ok a" and "ts_nsec b < 1000000000" and "ts_sec b < 2 ^ 63"
  shows "nanos (timespec_add a b) = nanos a + nanos b \<and> ts_nsec (timespec_add a b) < 1000000000
    \<and> ts_sec (timespec_add a b) < 2 ^ 64"
proof -
  let ?n = "ts_nsec a + ts_nsec b"
  have n: "?n < 2000000000" using assms by (auto simp: timespec_ok_def)
  then have d: "?n div 1000000000 \<le> 1" by simp
  have w: "wrap64 ?n = ?n" "wrap64 (ts_sec a + ts_sec b + ?n div 1000000000) = ts_sec a + ts_sec b + ?n div 1000000000"
    using assms n d by (auto simp: timespec_ok_def intro!: wrap64_id)
  have "(ts_sec a + ts_sec b + ?n div 1000000000) * 1000000000 + ?n mod 1000000000 = nanos a + nanos b"
    unfolding nanos_def add_mult_distrib using div_mult_mod_eq [of ?n 1000000000] by linarith
  moreover have "ts_sec a + ts_sec b + ?n div 1000000000 < 2 ^ 64"
    using assms d by (auto simp: timespec_ok_def)
  ultimately show ?thesis by (simp add: timespec_add_def Let_def w nanos_def)
qed

lemma left_timespec_before:
  assumes "timespec_ok now" and "ts_nsec e < 1000000000" and "ts_sec e < 2 ^ 64" and "nanos now \<le> nanos e"
  shows "nanos (calculate_left_timespec now e) = nanos e - nanos now"
proof (cases "ts_nsec e < ts_nsec now")
  case True
  have b: "ts_sec now < 2 ^ 62" "ts_nsec now < 1000000000" using assms(1) by (auto simp: timespec_ok_def)
  then have s: "ts_sec now < ts_sec e" using True assms(2,4) by (auto simp: nanos_def)
  then obtain k where k: "ts_sec e = ts_sec now + 1 + k"
    by (metis add.assoc add.commute less_iff_Suc_add plus_1_eq_Suc)
  have "sub64 (sub64 (ts_sec e) 1) (ts_sec now) = ts_sec e - 1 - ts_sec now"
    using s assms(3) by (simp add: sub64_le)
  with True b s k assms(2) show ?thesis
    by (simp add: calculate_left_timespec_def nanos_def add_mult_distrib nat_diff_distrib' add.commute)
next
  case False
  have "ts_sec now \<le> ts_sec e"
    using assms(1,2,4) by (auto simp: nanos_def timespec_ok_def)
  then obtain k where k: "ts_sec e = ts_sec now + k" by (metis le_iff_add)
  then have "sub64 (ts_sec e) (ts_sec now) = k" using assms(3) by (simp add: sub64_le)
  with False k show ?thesis
    by (simp add: calculate_left_timespec_def nanos_def add_mult_distrib nat_diff_distrib')
qed

lemma sub64_wraps: "a < b \<Longrightarrow> b \<le> 2 ^ 62 \<Longrightarrow> 2 ^ 63 \<le> sub64 a b"
  by (simp add: sub64_def wrap64_def)

lemma left_timespec_after:
  assumes "timespec_ok now" and "timespec_ok e" and "nanos e < nanos now"
  shows "2 ^ 63 \<le> ts_sec (calculate_left_timespec now e)"
proof (cases "ts_nsec e < ts_nsec now")
  case True
  have b: "ts_sec now < 2 ^ 62" "ts_sec e < 2 ^ 62" using assms(1,2) by (auto simp: timespec_ok_def)
  have le: "ts_sec e \<le> ts_sec now" using assms True by (auto simp: nanos_def timespec_ok_def)
  show ?thesis
  proof (cases "ts_sec e = 0")
    case True
    have "sub64 (ts_sec e) 1 = 2 ^ 64 - 1" using True by (simp add: sub64_def wrap64_def)
    with \<open>ts_nsec e < ts_nsec now\<close> b show ?thesis
      by (simp add: calculate_left_timespec_def sub64_le)
  next
    case False
    then have "sub64 (ts_sec e) 1 = ts_sec e - 1" using b by (simp add: sub64_le)
    with True False le b sub64_wraps [of "ts_sec e - 1" "ts_sec now"] show ?thesis
      by (simp add: calculate_left_timespec_def)
  qed
next
  case False
  then have "ts_sec e < ts_sec now" using assms(3) by (auto simp: nanos_def intro: ccontr)
  with False assms(1) sub64_wraps [of "ts_sec e" "ts_sec now"] show ?thesis
    by (simp add: calculate_left_timespec_def timespec_ok_def)
qed

text \<open>The times, among those at which the timer is checked, at which it raises the signal.\<close>

fun itimer_run :: "TimeVal list \<Rightarrow> TimerInner \<Rightarrow> TimeVal list" where
  "itimer_run [] inner = []"
| "itimer_run (now # ts) inner =
     (let (fired, inner1) = take_expired_signal now inner
      in if fired then now # itimer_run ts inner1 else itimer_run ts inner1)"

definition timer_ok :: "TimerInner \<Rightarrow> bool" where
  "timer_ok inner \<longleftrightarrow> timeval_ok (last_time inner) \<and> timeval_ok (it_value (timer inner)) \<and> timeval_ok (it_interval (timer inner))"

lemma timeval_empty_micros: "timeval_empty t \<longleftrightarrow> micros t = 0"
  by (simp add: timeval_empty_def micros_def)

lemma take_expired_cases:
  assumes "timer_ok inner" and "timeval_ok now"
  shows "take_expired_signal now inner =
    (if micros (it_value (timer inner)) = 0 \<or> micros now \<le> micros (last_time inner) + micros (it_value (timer inner))
     then (False, inner)
     else if micros (it_interval (timer inner)) = 0
     then (True, inner\<lparr>timer := (timer inner)\<lparr>it_value := TimeVal_new 0 0\<rparr>\<rparr>)
     else (True, inner\<lparr>timer := (timer inner)\<lparr>it_value := it_interval (timer inner)\<rparr>, last_time := now\<rparr>))"
  using assms by (simp add: take_expired_signal_def timeval_empty_micros timeval_le_sum timer_ok_def)

lemma take_expired_ok:
  "timer_ok inner \<Longrightarrow> timeval_ok now \<Longrightarrow> timer_ok (snd (take_expired_signal now inner))"
  by (auto simp: take_expired_cases) (auto simp: timer_ok_def timeval_ok_def TimeVal_new_def)

lemma itimer_run_disarmed:
  "micros (it_value (timer inner)) = 0 \<Longrightarrow> itimer_run ts inner = []"
  by (induction ts) (auto simp: take_expired_signal_def timeval_empty_micros)

lemma itimer_run_spacing:
  assumes "timer_ok inner" and "list_all timeval_ok ts"
  shows "(\<forall>f \<in> set (itimer_run ts inner). micros (last_time inner) + micros (it_value (timer inner)) < micros f)
    \<and> sorted_wrt (\<lambda>a b. micros a + micros (it_interval (timer inner)) < micros b) (itimer_run ts inner)
    \<and> (micros (it_interval (timer inner)) = 0 \<longrightarrow> length (itimer_run ts inner) \<le> 1)"
  using assms
proof (induction ts arbitrary: inner)
  case Nil
  then show ?case by simp
next
  case (Cons now ts)
  let ?v = "micros (it_value (timer inner))" and ?i = "micros (it_interval (timer inner))"
  have ok: "timeval_ok now" "list_all timeval_ok ts" using Cons.prems by simp_all
  note e = take_expired_cases [OF Cons.prems(1) ok(1)]
  show ?case
  proof (cases "?v = 0 \<or> micros now \<le> micros (last_time inner) + ?v")
    case True
    with Cons.IH [OF Cons.prems(1) ok(2)] show ?thesis by (simp add: e)
  next
    case fire: False
    show ?thesis
    proof (cases "?i = 0")
      case True
      let ?inner = "inner\<lparr>timer := (timer inner)\<lparr>it_value := TimeVal_new 0 0\<rparr>\<rparr>"
      have "itimer_run ts ?inner = []"
        by (rule itimer_run_disarmed) (simp add: TimeVal_new_def micros_def)
      with fire True show ?thesis by (simp add: e)
    next
      case False
      let ?inner = "inner\<lparr>timer := (timer inner)\<lparr>it_value := it_interval (timer inner)\<rparr>, last_time := now\<rparr>"
      have "timer_ok ?inner" using Cons.prems(1) ok(1) by (simp add: timer_ok_def)
      from Cons.IH [OF this ok(2)] have ih:
        "\<forall>f \<in> set (itimer_run ts ?inner). micros now + ?i < micros f"
        "sorted_wrt (\<lambda>a b. micros a + ?i < micros b) (itimer_run ts ?inner)" by auto
      with fire False have "itimer_run (now # ts) inner = now # itimer_run ts ?inner" by (simp add: e)
      moreover have "\<forall>f \<in> set (itimer_run ts ?inner). micros (last_time inner) + ?v < micros f"
        using ih(1) fire by (meson le_add1 le_less_trans less_trans not_le)
      ultimately show ?thesis using ih fire False by simp
    qed
  qed
qed

lemma itimer_run_fires:
  assumes "timer_ok inner" and "list_all timeval_ok ts" and "0 < micros (it_value (timer inner))"
    and "t \<in> set ts" and "micros (last_time inner) + micros (it_value (timer inner)) < micros t"
  shows "itimer_run ts inner \<noteq> []"
  using assms
proof (induction ts arbitrary: inner)
  case Nil
  then show ?case by simp
next
  case (Cons now ts)
  then have ok: "timeval_ok now" "list_all timeval_ok ts" by simp_all
  show ?case
  proof (cases "micros now \<le> micros (last_time inner) + micros (it_value (timer inner))")
    case True
    with Cons show ?thesis by (auto simp: take_expired_cases [OF Cons.prems(1) ok(1)])
  next
    case False
    with Cons.prems(3) show ?thesis by (simp add: take_expired_cases [OF Cons.prems(1) ok(1)])
  qed
qed

section \<open>Properties\<close>

text \<open>
  An interval timer keeps its schedule however often it is checked: after \<^verbatim>\<open>set_itimer\<close> at
  time \<open>t0\<close> with first expiry \<open>v\<close> and interval \<open>i\<close> it never raises SIGALRM before \<open>t0 + v\<close>, two
  signals are more than \<open>i\<close> apart, a timer without interval raises at most one, and if it is
  armed and checked after its first expiry it does raise one.
\<close>

lemma itimer_keeps_schedule:
  assumes "timeval_ok t0" and "timeval_ok v" and "timeval_ok i" and "list_all timeval_ok ts"
    and fs: "fs = itimer_run ts (set_itimer \<lparr>it_interval = i, it_value = v\<rparr> t0 inner)"
  shows "(\<forall>f \<in> set fs. micros t0 + micros v < micros f)
    \<and> sorted_wrt (\<lambda>a b. micros a + micros i < micros b) fs
    \<and> (micros i = 0 \<longrightarrow> length fs \<le> 1)
    \<and> (0 < micros v \<and> (\<exists>t \<in> set ts. micros t0 + micros v < micros t) \<longrightarrow> fs \<noteq> [])"
proof -
  let ?inner = "set_itimer \<lparr>it_interval = i, it_value = v\<rparr> t0 inner"
  have ok: "timer_ok ?inner" using assms by (simp add: timer_ok_def set_itimer_def)
  from itimer_run_spacing [OF ok assms(4)] itimer_run_fires [OF ok assms(4)] show ?thesis
    by (auto simp: fs set_itimer_def)
qed

lemma itimer_keeps_schedule_witness:
  "itimer_run [TimeVal_new 1 0, TimeVal_new 3 0, TimeVal_new 4 0, TimeVal_new 9 0]
     (set_itimer \<lparr>it_interval = TimeVal_new 2 0, it_value = TimeVal_new 1 500000\<rparr> (TimeVal_new 0 0) TimerInner_new) \<noteq> []"
proof -
  have ok: "timeval_ok (TimeVal_new 0 0)" "timeval_ok (TimeVal_new 1 500000)" "timeval_ok (TimeVal_new 2 0)"
      "list_all timeval_ok [TimeVal_new 1 0, TimeVal_new 3 0, TimeVal_new 4 0, TimeVal_new 9 0]"
    by (simp_all add: timeval_ok_def TimeVal_new_def)
  show ?thesis
    using itimer_keeps_schedule [OF ok refl, of TimerInner_new] by (simp add: micros_def TimeVal_new_def)
qed

text \<open>
  The remaining time \<^verbatim>\<open>nanosleep\<close> reports when it is interrupted is exact as long as the deadline
  has not passed: it is the requested time minus the time slept.  When a signal is seen after the
  sleep has completed, the call still answers EINTR, and the subtraction wraps to a remaining
  time of more than \<open>2 ^ 63\<close> seconds.
\<close>

lemma nanosleep_remaining_time:
  assumes "timespec_ok now0" and "timespec_ok req" and "timespec_ok now" and "nanos now0 \<le> nanos now"
  shows "(nanos now \<le> nanos now0 + nanos req \<longrightarrow>
      (\<exists>left. sys_nanosleep (Inr req) True None now0 False now1 False sig now = (Inl EINTR, Some left)
        \<and> nanos left = nanos req - (nanos now - nanos now0)))
    \<and> (nanos now0 + nanos req < nanos now \<longrightarrow>
      (\<exists>left. sys_nanosleep (Inr req) True None now0 False now1 True True now = (Inl EINTR, Some left)
        \<and> 2 ^ 63 \<le> ts_sec left))"
proof -
  let ?e = "timespec_add now0 req"
  have e: "nanos ?e = nanos now0 + nanos req" "ts_nsec ?e < 1000000000" "ts_sec ?e < 2 ^ 64"
    using timespec_add_nanos [of now0 req] assms by (auto simp: timespec_ok_def)
  have v: "\<not> (1000000000 \<le> ts_nsec req \<or> 2 ^ 63 \<le> ts_sec req)" using assms(2) by (auto simp: timespec_ok_def)
  have call: "sys_nanosleep (Inr req) True None now0 False now1 slept sig now = (Inl EINTR, Some (calculate_left_timespec now ?e))"
    if "\<not> slept \<or> sig" for slept sig
    using that v by (simp add: sys_nanosleep_def report_left_def)
  have before: "nanos (calculate_left_timespec now ?e) = nanos req - (nanos now - nanos now0)"
    if "nanos now \<le> nanos now0 + nanos req"
    using left_timespec_before [OF assms(3) e(2,3)] that e(1) assms(4) by simp
  have after: "2 ^ 63 \<le> ts_sec (calculate_left_timespec now ?e)" if lt: "nanos now0 + nanos req < nanos now"
  proof (rule left_timespec_after [OF assms(3)])
    have "ts_sec ?e * 1000000000 \<le> nanos ?e" by (simp add: nanos_def)
    also have "\<dots> < nanos now" using lt e(1) by simp
    also have "\<dots> < 2 ^ 62 * 1000000000" using assms(3) by (auto simp: nanos_def timespec_ok_def)
    finally show "timespec_ok ?e" using e(2) by (simp add: timespec_ok_def)
    show "nanos ?e < nanos now" using lt e(1) by simp
  qed
  show ?thesis using call [of False sig] call [of True True] before after by simp
qed

lemma nanosleep_remaining_time_witness:
  "\<exists>left. sys_nanosleep (Inr (Timespec_new 1 0)) True None (Timespec_new 5 0) False (Timespec_new 5 0) True True (Timespec_new 6 1000000)
      = (Inl EINTR, Some left) \<and> 2 ^ 63 \<le> ts_sec left"
  using nanosleep_remaining_time [of "Timespec_new 5 0" "Timespec_new 1 0" "Timespec_new 6 1000000"]
  by (simp add: timespec_ok_def nanos_def Timespec_new_def)

end
