(* ===== verification/Futex.thy ===== *)
theory Futex
  imports BTree_Map User_Memory Blocking Timers
begin

text \<open>
  \<^verbatim>\<open>os/src/task/futex.rs\<close> with the task transitions of \<^verbatim>\<open>os/src/task/manager.rs\<close> and the timer heap
  of \<^verbatim>\<open>os/src/timer/timer_condvar.rs\<close>: waiting, waking, requeueing and timing out on futexes, and
  the robust list of an exiting thread.  One step of the model is one critical section of the
  queue lock; a wait is split where the code reads the user's word, reads the queue version and
  takes the lock, because other tasks act between these.  A task is its number; \<open>ftasks\<close> holds the
  fields that futexes use and \<open>alive\<close> says whether \<^verbatim>\<open>Weak::upgrade\<close> still finds it.
\<close>

unbundle bit_operations_syntax

section \<open>Queues and tasks\<close>

definition FUTEX_WAITERS :: "32 word" where "FUTEX_WAITERS = 0x80000000"
definition FUTEX_OWNER_DIED :: "32 word" where "FUTEX_OWNER_DIED = 0x40000000"
definition FUTEX_TID_MASK :: "32 word" where "FUTEX_TID_MASK = 0x3fffffff"
definition ROBUST_LIST_LIMIT :: nat where "ROBUST_LIST_LIMIT = 2048"

record FutexWaiter =
  waiter_task :: nat
  waiter_bitset :: "32 word"
  waiter_key :: nat

text \<open>\<open>visible_signal\<close>: some pending signal is not masked.\<close>

record futex_task =
  fstatus :: TaskStatus
  futex_timedout :: bool
  futex_pa :: nat
  futex_key :: nat
  visible_signal :: bool
  sigtimedwait_timedout :: bool
  robust_list_head :: nat

datatype TimerType = FutexTimer | StoppedTask | SigTimedWait

record TimerCondVar =
  expire :: Timespec
  timer_task :: nat
  kind :: TimerType
  extra_data :: nat

text \<open>
  \<open>enqueued\<close> are the calls of \<^verbatim>\<open>ready_queue::add_task\<close>, \<open>interrupted\<close> those of
  \<^verbatim>\<open>TaskControlBlock::interrupt\<close>.
\<close>

record futex_state =
  FUTEX_QUEUE_BITMAP :: "(nat, FutexWaiter list) btree_map"
  FUTEX_QUEUE_VERSION :: nat
  FUTEX_KEY_COUNTER :: nat
  TIMERS :: "TimerCondVar list"
  ftasks :: "nat \<Rightarrow> futex_task"
  alive :: "nat \<Rightarrow> bool"
  enqueued :: "nat list"
  interrupted :: "nat list"

definition bump_futex_queue_version :: "futex_state \<Rightarrow> futex_state" where
  "bump_futex_queue_version s = s\<lparr>FUTEX_QUEUE_VERSION := wrap64 (FUTEX_QUEUE_VERSION s + 1)\<rparr>"

definition waits_for :: "nat \<Rightarrow> futex_task \<Rightarrow> bool" where
  "waits_for key t \<longleftrightarrow> fstatus t = TBlocked \<and> futex_key t = key"

definition set_task :: "nat \<Rightarrow> futex_task \<Rightarrow> futex_state \<Rightarrow> futex_state" where
  "set_task tid t s = s\<lparr>ftasks := (ftasks s)(tid := t)\<rparr>"

definition add_task :: "nat \<Rightarrow> futex_state \<Rightarrow> futex_state" where
  "add_task tid s = s\<lparr>enqueued := enqueued s @ [tid]\<rparr>"

definition wakeup_futex_task :: "nat \<Rightarrow> nat \<Rightarrow> futex_state \<Rightarrow> bool \<times> futex_state" where
  "wakeup_futex_task tid key s =
     (let t = ftasks s tid in
      if waits_for key t
      then (True, add_task tid (set_task tid (t\<lparr>fstatus := TReady, futex_key := 0, futex_pa := 0\<rparr>) s))
      else (False, s))"

definition timeout_futex_task :: "nat \<Rightarrow> nat \<Rightarrow> futex_state \<Rightarrow> bool \<times> futex_state" where
  "timeout_futex_task tid key s =
     (let t = ftasks s tid in
      if waits_for key t
      then (True, add_task tid (set_task tid
              (t\<lparr>futex_timedout := True, fstatus := TReady, futex_key := 0, futex_pa := 0\<rparr>) s))
      else (False, s))"

definition requeue_futex_task :: "nat \<Rightarrow> nat \<Rightarrow> nat \<Rightarrow> futex_state \<Rightarrow> bool \<times> futex_state" where
  "requeue_futex_task tid key new_pa s =
     (let t = ftasks s tid in
      if waits_for key t then (True, set_task tid (t\<lparr>futex_pa := new_pa\<rparr>) s) else (False, s))"

section \<open>Waking\<close>

text \<open>\<^verbatim>\<open>i32::max(0) as usize\<close>, and the rule of \<^verbatim>\<open>FUTEX_WAKE\<close> for a count that is not positive.\<close>

definition count_limit :: "int \<Rightarrow> nat" where "count_limit n = nat n"

definition wake_limit :: "int \<Rightarrow> nat" where "wake_limit n = (if n \<le> 0 then 1 else nat n)"

text \<open>The loop: rounds left, wake-ups left, the queue, the state; it answers the queue and the count.\<close>

fun wake_loop :: "nat \<Rightarrow> nat \<Rightarrow> 32 word \<Rightarrow> FutexWaiter list \<Rightarrow> futex_state \<Rightarrow>
    FutexWaiter list \<times> nat \<times> futex_state" where
  "wake_loop (Suc rounds) (Suc todo) bitset (w # q) s =
     (if \<not> alive s (waiter_task w) then wake_loop rounds (Suc todo) bitset q s
      else if bitset AND waiter_bitset w \<noteq> 0 then
        case wakeup_futex_task (waiter_task w) (waiter_key w) s of
          (True, s1) \<Rightarrow> (let (q2, n, s2) = wake_loop rounds todo bitset q s1 in (q2, n + 1, s2))
        | (False, s1) \<Rightarrow> wake_loop rounds (Suc todo) bitset q s1
      else wake_loop rounds (Suc todo) bitset (q @ [w]) s)"
| "wake_loop rounds todo bitset q s = (q, 0, s)"

text \<open>The section under the queue lock, and the call: the version is bumped before the lock is taken.\<close>

definition futex_wake_section :: "nat \<Rightarrow> int \<Rightarrow> 32 word \<Rightarrow> futex_state \<Rightarrow> nat \<times> futex_state" where
  "futex_wake_section pa max_num bitset s =
     (case bt_get (FUTEX_QUEUE_BITMAP s) pa of
        None \<Rightarrow> (0, s)
      | Some queue \<Rightarrow>
          let (q, num, s1) = wake_loop (length queue) (wake_limit max_num) bitset queue s
          in (num, s1\<lparr>FUTEX_QUEUE_BITMAP := bt_insert pa q (FUTEX_QUEUE_BITMAP s1)\<rparr>))"

definition futex_wake_up_bitset :: "nat \<Rightarrow> int \<Rightarrow> 32 word \<Rightarrow> futex_state \<Rightarrow> nat \<times> futex_state" where
  "futex_wake_up_bitset pa max_num bitset s =
     (if bitset = 0 then (0, s)
      else futex_wake_section pa max_num bitset (bump_futex_queue_version s))"

definition futex_wake_up :: "nat \<Rightarrow> int \<Rightarrow> futex_state \<Rightarrow> nat \<times> futex_state" where
  "futex_wake_up pa max_num s = futex_wake_up_bitset pa max_num (- 1) s"

text \<open>The loop of a requeue: the waiters moved, those kept, and the number woken.\<close>

fun requeue_loop :: "nat \<Rightarrow> nat \<Rightarrow> nat \<Rightarrow> FutexWaiter list \<Rightarrow> futex_state \<Rightarrow>
    FutexWaiter list \<times> FutexWaiter list \<times> nat \<times> futex_state" where
  "requeue_loop to_wake to_move new_pa [] s = ([], [], 0, s)"
| "requeue_loop to_wake to_move new_pa (w # q) s =
     (if \<not> alive s (waiter_task w) then requeue_loop to_wake to_move new_pa q s
      else if to_wake > 0 then
        case wakeup_futex_task (waiter_task w) (waiter_key w) s of
          (True, s1) \<Rightarrow>
            (let (moved, kept, n, s2) = requeue_loop (to_wake - 1) to_move new_pa q s1 in (moved, kept, n + 1, s2))
        | (False, s1) \<Rightarrow> requeue_loop to_wake to_move new_pa q s1
      else if to_move > 0 then
        case requeue_futex_task (waiter_task w) (waiter_key w) new_pa s of
          (True, s1) \<Rightarrow>
            (let (moved, kept, n, s2) = requeue_loop to_wake (to_move - 1) new_pa q s1 in (w # moved, kept, n, s2))
        | (False, s1) \<Rightarrow> requeue_loop to_wake to_move new_pa q s1
      else
        let (moved, kept, n, s2) = requeue_loop to_wake to_move new_pa q s in (moved, w # kept, n, s2))"

definition insert_nonempty :: "nat \<Rightarrow> FutexWaiter list \<Rightarrow> (nat, FutexWaiter list) btree_map \<Rightarrow> (nat, FutexWaiter list) btree_map" where
  "insert_nonempty k q m = (if q = [] then m else bt_insert k q m)"

definition futex_requeue_section :: "nat \<Rightarrow> int \<Rightarrow> nat \<Rightarrow> int \<Rightarrow> futex_state \<Rightarrow> nat \<times> futex_state" where
  "futex_requeue_section old_pa max_wakeup new_pa max_requeue s =
     (case bt_get (FUTEX_QUEUE_BITMAP s) old_pa of
        None \<Rightarrow> (0, s)
      | Some old_queue \<Rightarrow>
          let s1 = s\<lparr>FUTEX_QUEUE_BITMAP := bt_remove old_pa (FUTEX_QUEUE_BITMAP s)\<rparr>;
              (moved, kept, woken, s2) = requeue_loop (count_limit max_wakeup) (count_limit max_requeue) new_pa old_queue s1;
              m = FUTEX_QUEUE_BITMAP s2
          in (woken,
              s2\<lparr>FUTEX_QUEUE_BITMAP :=
                (if old_pa = new_pa then insert_nonempty old_pa (kept @ moved) m
                 else
                   let m1 = insert_nonempty old_pa kept m in
                   if moved = [] then m1
                   else bt_insert new_pa ((case bt_get m1 new_pa of None \<Rightarrow> [] | Some q \<Rightarrow> q) @ moved) m1)\<rparr>))"

definition futex_requeue :: "nat \<Rightarrow> int \<Rightarrow> nat \<Rightarrow> int \<Rightarrow> futex_state \<Rightarrow> nat \<times> futex_state" where
  "futex_requeue old_pa max_wakeup new_pa max_requeue s =
     futex_requeue_section old_pa max_wakeup new_pa max_requeue (bump_futex_queue_version s)"

section \<open>Waiting\<close>

definition new_futex_key :: "futex_state \<Rightarrow> nat \<times> futex_state" where
  "new_futex_key s =
     (wrap64 (FUTEX_KEY_COUNTER s + 1), s\<lparr>FUTEX_KEY_COUNTER := wrap64 (FUTEX_KEY_COUNTER s + 1)\<rparr>)"

text \<open>
  The critical section of a wait.  \<open>version\<close> was read before the lock was taken; if it changed
  the caller reads the user's word again (\<open>Retry\<close>).
\<close>

datatype wait_try = Retry | Refused SysErrNo | Queued futex_state

definition futex_wait_section :: "nat \<Rightarrow> nat \<Rightarrow> nat \<Rightarrow> 32 word \<Rightarrow> nat \<Rightarrow> futex_state \<Rightarrow> wait_try" where
  "futex_wait_section queue_key tid version bitset key s =
     (let t = ftasks s tid in
      if FUTEX_QUEUE_VERSION s \<noteq> version then Retry
      else if visible_signal t then Refused EINTR
      else
        let q = (case bt_get (FUTEX_QUEUE_BITMAP s) queue_key of None \<Rightarrow> [] | Some q \<Rightarrow> q);
            w = \<lparr>waiter_task = tid, waiter_bitset = bitset, waiter_key = key\<rparr>
        in Queued (set_task tid
              (t\<lparr>futex_timedout := False, futex_pa := queue_key, futex_key := key, fstatus := TBlocked\<rparr>)
              (s\<lparr>FUTEX_QUEUE_BITMAP := bt_insert queue_key (q @ [w]) (FUTEX_QUEUE_BITMAP s)\<rparr>)))"

definition add_futex_timer :: "Timespec \<Rightarrow> nat \<Rightarrow> nat \<Rightarrow> futex_state \<Rightarrow> futex_state" where
  "add_futex_timer t tid key s =
     s\<lparr>TIMERS := TIMERS s @ [\<lparr>expire = t, timer_task = tid, kind = FutexTimer, extra_data = key\<rparr>]\<rparr>"

definition add_sigtimedwait_timer :: "Timespec \<Rightarrow> nat \<Rightarrow> futex_state \<Rightarrow> futex_state" where
  "add_sigtimedwait_timer t tid s =
     s\<lparr>TIMERS := TIMERS s @ [\<lparr>expire = t, timer_task = tid, kind = SigTimedWait, extra_data = 0\<rparr>]\<rparr>"

definition add_stopped_task_timer :: "Timespec \<Rightarrow> nat \<Rightarrow> futex_state \<Rightarrow> futex_state" where
  "add_stopped_task_timer t tid s =
     s\<lparr>TIMERS := TIMERS s @ [\<lparr>expire = t, timer_task = tid, kind = StoppedTask, extra_data = 0\<rparr>]\<rparr>"

text \<open>Taking a waiter out of the queue of an address, if it is there.\<close>

definition remove_waiter :: "nat \<Rightarrow> nat \<Rightarrow> futex_state \<Rightarrow> futex_state" where
  "remove_waiter pa key s =
     (case bt_get (FUTEX_QUEUE_BITMAP s) pa of
        None \<Rightarrow> s
      | Some q \<Rightarrow>
          (case position (\<lambda>w. waiter_key w = key) q of
             None \<Rightarrow> s
           | Some i \<Rightarrow> s\<lparr>FUTEX_QUEUE_BITMAP := bt_insert pa (remove_nth i q) (FUTEX_QUEUE_BITMAP s)\<rparr>))"

text \<open>What the waiter does when it runs again.\<close>

definition futex_wait_finish :: "nat \<Rightarrow> futex_state \<Rightarrow> syscall_ret \<times> futex_state" where
  "futex_wait_finish tid s =
     (let t = ftasks s tid in
      if visible_signal t then
        (Inl EINTR,
         if futex_key t \<noteq> 0 then remove_waiter (futex_pa t) (futex_key t) (bump_futex_queue_version s) else s)
      else if futex_timedout t then
        let s1 = set_task tid (t\<lparr>futex_timedout := False\<rparr>) s in
        (Inl ETIMEDOUT,
         if futex_key t \<noteq> 0 then remove_waiter (futex_pa t) (futex_key t) (bump_futex_queue_version s1) else s1)
      else (Inr 0, s))"

text \<open>
  The whole wait.  Each entry of \<open>rounds\<close> is one pass of the loop: the value read from user
  memory (or a fault), what the other tasks do before the version is read, and what they do
  before the lock is taken; \<open>during\<close> is what they do during the sleep.  \<open>None\<close> means that the
  call has not got past its loop within these passes.
\<close>

type_synonym wait_round = "int sys_result \<times> (futex_state \<Rightarrow> futex_state) \<times> (futex_state \<Rightarrow> futex_state)"

fun futex_wait_rounds :: "nat \<Rightarrow> nat \<Rightarrow> int \<Rightarrow> 32 word \<Rightarrow> nat \<Rightarrow> wait_round list \<Rightarrow> futex_state \<Rightarrow>
    (SysErrNo option \<times> futex_state) option" where
  "futex_wait_rounds queue_key tid expected bitset key [] s = None"
| "futex_wait_rounds queue_key tid expected bitset key ((v, f, g) # rs) s =
     (case v of
        Inl e \<Rightarrow> Some (Some e, s)
      | Inr current \<Rightarrow>
          if current \<noteq> expected then Some (Some EAGAIN, s)
          else
            let s1 = f s; version = FUTEX_QUEUE_VERSION s1; s2 = g s1 in
            (case futex_wait_section queue_key tid version bitset key s2 of
               Retry \<Rightarrow> futex_wait_rounds queue_key tid expected bitset key rs s2
             | Refused e \<Rightarrow> Some (Some e, s2)
             | Queued s3 \<Rightarrow> Some (None, s3)))"

definition futex_wait_bitset :: "nat \<Rightarrow> nat \<Rightarrow> int \<Rightarrow> 32 word \<Rightarrow> Timespec option \<Rightarrow> wait_round list \<Rightarrow>
    (futex_state \<Rightarrow> futex_state) \<Rightarrow> futex_state \<Rightarrow> (syscall_ret \<times> futex_state) option" where
  "futex_wait_bitset queue_key tid expected bitset timeout rounds during s =
     (let (key, s1) = new_futex_key s in
      case futex_wait_rounds queue_key tid expected bitset key rounds s1 of
        None \<Rightarrow> None
      | Some (Some e, s2) \<Rightarrow> Some (Inl e, s2)
      | Some (None, s2) \<Rightarrow>
          (let s3 = (case timeout of None \<Rightarrow> s2 | Some t \<Rightarrow> add_futex_timer t tid key s2)
           in Some (futex_wait_finish tid (during s3))))"

section \<open>Timers\<close>

text \<open>\<open>None\<close> is the failing \<^verbatim>\<open>expect\<close>.\<close>

definition handle_timer_section :: "nat \<Rightarrow> nat \<Rightarrow> futex_state \<Rightarrow> futex_state option" where
  "handle_timer_section tid key s =
     (let t = ftasks s tid in
      if futex_key t \<noteq> key then Some s
      else
        case bt_get (FUTEX_QUEUE_BITMAP s) (futex_pa t) of
          None \<Rightarrow> None
        | Some q \<Rightarrow>
            (case position (\<lambda>w. waiter_key w = key) q of
               None \<Rightarrow> Some s
             | Some i \<Rightarrow>
                 Some (snd (timeout_futex_task tid key
                   (s\<lparr>FUTEX_QUEUE_BITMAP := bt_insert (futex_pa t) (remove_nth i q) (FUTEX_QUEUE_BITMAP s)\<rparr>)))))"

definition handle_timer :: "nat \<Rightarrow> nat \<Rightarrow> futex_state \<Rightarrow> futex_state option" where
  "handle_timer tid key s = handle_timer_section tid key (bump_futex_queue_version s)"

definition handle_sigtimedwait_timer :: "nat \<Rightarrow> futex_state \<Rightarrow> futex_state" where
  "handle_sigtimedwait_timer tid s =
     (let s1 = set_task tid ((ftasks s tid)\<lparr>sigtimedwait_timedout := True\<rparr>) s
      in s1\<lparr>interrupted := interrupted s1 @ [tid]\<rparr>)"

text \<open>
  The heap is ordered by ticks; \<^verbatim>\<open>peek\<close> answers a timer with the least tick number;
  among equal ones, whose order a binary heap leaves open, the model takes the first.  A stopped-task
  timer that expires is a \<^verbatim>\<open>todo!()\<close>, a panic.  The loop ends because each round removes a timer.
\<close>

definition heap_top :: "nat \<Rightarrow> TimerCondVar list \<Rightarrow> TimerCondVar option" where
  "heap_top freq ts = min_by_key (\<lambda>t. to_tick freq (expire t)) ts"

definition fire_timer :: "TimerCondVar \<Rightarrow> futex_state \<Rightarrow> futex_state option" where
  "fire_timer t s =
     (if \<not> alive s (timer_task t) then Some s
      else case kind t of
             FutexTimer \<Rightarrow> handle_timer (timer_task t) (extra_data t) s
           | SigTimedWait \<Rightarrow> Some (handle_sigtimedwait_timer (timer_task t) s)
           | StoppedTask \<Rightarrow> None)"

fun check_timer_loop :: "nat \<Rightarrow> nat \<Rightarrow> Timespec \<Rightarrow> TimerCondVar list \<Rightarrow> futex_state \<Rightarrow>
    (TimerCondVar list \<times> TimerCondVar list \<times> futex_state) option" where
  "check_timer_loop 0 freq current ts s = Some (ts, [], s)"
| "check_timer_loop (Suc n) freq current ts s =
     (case heap_top freq ts of
        None \<Rightarrow> Some (ts, [], s)
      | Some t \<Rightarrow>
          if timespec_le (expire t) current then
            case fire_timer t s of
              None \<Rightarrow> None
            | Some s1 \<Rightarrow>
                map_option (\<lambda>(left, fired, s2). (left, t # fired, s2))
                  (check_timer_loop n freq current (remove1 t ts) s1)
          else Some (ts, [], s))"

definition check_futex_timer :: "nat \<Rightarrow> Timespec \<Rightarrow> futex_state \<Rightarrow> futex_state option" where
  "check_futex_timer freq current s =
     map_option (\<lambda>(left, fired, s1). s1\<lparr>TIMERS := left\<rparr>)
       (check_timer_loop (length (TIMERS s)) freq current (TIMERS s) s)"

section \<open>The system call\<close>

datatype FutexCmd = Cmd_Wait | Cmd_Wake | Cmd_Fd | Cmd_Requeue | Cmd_CmpRequeue | Cmd_WakeOp
  | Cmd_LockPi | Cmd_UnlockPi | Cmd_TrylockPi | Cmd_WaitBitset | Cmd_WakeBitset

definition FutexCmd_try_from :: "32 word \<Rightarrow> FutexCmd option" where
  "FutexCmd_try_from v =
     (if v = 0 then Some Cmd_Wait else if v = 1 then Some Cmd_Wake else if v = 2 then Some Cmd_Fd
      else if v = 3 then Some Cmd_Requeue else if v = 4 then Some Cmd_CmpRequeue
      else if v = 5 then Some Cmd_WakeOp else if v = 6 then Some Cmd_LockPi
      else if v = 7 then Some Cmd_UnlockPi else if v = 8 then Some Cmd_TrylockPi
      else if v = 9 then Some Cmd_WaitBitset else if v = 10 then Some Cmd_WakeBitset else None)"

definition FUTEX_PRIVATE_FLAG :: "32 word" where "FUTEX_PRIVATE_FLAG = 0x80"
definition FUTEX_CLOCK_REALTIME :: "32 word" where "FUTEX_CLOCK_REALTIME = 0x100"

definition futex_queue_key :: "32 word \<Rightarrow> nat \<Rightarrow> nat \<Rightarrow> nat \<Rightarrow> nat" where
  "futex_queue_key opt token uaddr pa =
     (if opt AND FUTEX_PRIVATE_FLAG \<noteq> 0 then token XOR uaddr else pa)"

text \<open>
  What the call takes from its surroundings: the address space (its token, and the translation
  of an address), the user's \<^verbatim>\<open>timespec\<close>, the clock, the calling task, and what the other tasks do
  meanwhile.
\<close>

record futex_env =
  mem_token :: nat
  translate :: "nat \<Rightarrow> nat sys_result"
  user_timeout :: "Timespec sys_result"
  time_now :: Timespec
  caller :: nat
  passes :: "wait_round list"
  asleep :: "futex_state \<Rightarrow> futex_state"

definition futex_deadline :: "FutexCmd \<Rightarrow> 32 word \<Rightarrow> nat \<Rightarrow> futex_env \<Rightarrow> Timespec option sys_result" where
  "futex_deadline cmd opt timeout env =
     (if timeout = 0 \<or> \<not> (cmd = Cmd_Wait \<or> cmd = Cmd_WaitBitset) then Inr None
      else if timeout = usize_max then Inl EINVAL
      else case user_timeout env of
             Inl e \<Rightarrow> Inl e
           | Inr t \<Rightarrow>
               if opt AND FUTEX_CLOCK_REALTIME \<noteq> 0
               then Inr (Some (t\<lparr>ts_sec := sub64 (ts_sec t) NOW_TIME_STAMP\<rparr>))
               else Inr (Some (timespec_add t (time_now env))))"

definition sys_futex :: "nat \<Rightarrow> 32 word \<Rightarrow> int \<Rightarrow> nat \<Rightarrow> nat \<Rightarrow> int \<Rightarrow> futex_env \<Rightarrow> futex_state \<Rightarrow>
    (syscall_ret \<times> futex_state) option" where
  "sys_futex uaddr futex_op val timeout uaddr2 val3 env s =
     (case FutexCmd_try_from (futex_op AND NOT (0x80 OR 0x100)) of
        None \<Rightarrow> Some (Inl EINVAL, s)
      | Some cmd \<Rightarrow>
          if futex_op AND FUTEX_CLOCK_REALTIME \<noteq> 0 \<and> cmd \<noteq> Cmd_WaitBitset then Some (Inl ENOSYS, s)
          else if uaddr mod 4 \<noteq> 0 then Some (Inl EINVAL, s)
          else (case translate env uaddr of
            Inl e \<Rightarrow> Some (Inl e, s)
          | Inr pa \<Rightarrow>
              (case (if cmd = Cmd_Requeue then translate env uaddr2 else Inr 0) of
                 Inl e \<Rightarrow> Some (Inl e, s)
               | Inr pa2 \<Rightarrow>
                   (case futex_deadline cmd futex_op timeout env of
                      Inl e \<Rightarrow> Some (Inl e, s)
                    | Inr deadline \<Rightarrow>
                        let queue_key = futex_queue_key futex_op (mem_token env) uaddr pa;
                            queue_key2 = futex_queue_key futex_op (mem_token env) uaddr2 pa2 in
                        if cmd = Cmd_Wait \<or> cmd = Cmd_WaitBitset then
                          let bitset = (if cmd = Cmd_Wait then - 1 else of_int val3) in
                          if bitset = 0 then Some (Inl EINVAL, s)
                          else futex_wait_bitset queue_key (caller env) val bitset deadline (passes env) (asleep env) s
                        else if cmd = Cmd_Wake \<or> cmd = Cmd_WakeBitset then
                          let bitset = (if cmd = Cmd_Wake then - 1 else of_int val3) in
                          if bitset = 0 then Some (Inl EINVAL, s)
                          else let (n, s1) = futex_wake_up_bitset queue_key val bitset s in Some (Inr n, s1)
                        else if cmd = Cmd_Requeue then
                          let (n, s1) = futex_requeue queue_key val queue_key2 (sint (of_nat timeout :: 32 word)) s
                          in Some (Inr n, s1)
                        else Some (Inl ENOSYS, s)))))"

section \<open>The robust list\<close>

definition futex_wake_robust_user_addr :: "futex_env \<Rightarrow> nat \<Rightarrow> int \<Rightarrow> futex_state \<Rightarrow> nat \<times> futex_state" where
  "futex_wake_robust_user_addr env uaddr max_num s =
     (let (n, s1) = (case translate env uaddr of
                       Inl e \<Rightarrow> (0, s)
                     | Inr pa \<Rightarrow> futex_wake_up_bitset pa max_num (- 1) s);
          (k, s2) = futex_wake_up_bitset (mem_token env XOR uaddr) max_num (- 1) s1
      in (n + k, s2))"

text \<open>
  The retry loop; \<open>other\<close> gives what the other threads do to the memory in round \<open>i\<close>, between
  the write and the read that follows it.  A loop that never ends is \<open>None\<close>.
\<close>

partial_function (option) handle_futex_death_entry ::
    "futex_env \<Rightarrow> (nat \<Rightarrow> user_mem \<Rightarrow> user_mem) \<Rightarrow> nat \<Rightarrow> nat \<Rightarrow> nat \<Rightarrow> user_mem \<Rightarrow> futex_state \<Rightarrow>
     (bool \<times> user_mem \<times> futex_state) option" where
  "handle_futex_death_entry env other i uaddr pid m s =
     (case try_copy_from_user_val 4 uaddr m of
        None \<Rightarrow> Some (False, m, s)
      | Some uval \<Rightarrow>
          if uval AND unat FUTEX_TID_MASK \<noteq> pid then Some (False, m, s)
          else
            let newval = (uval AND unat FUTEX_WAITERS) OR unat FUTEX_OWNER_DIED;
                m1 = other i (copy_to_user_val 4 uaddr newval m)
            in case try_copy_from_user_val 4 uaddr m1 of
                 None \<Rightarrow> Some (False, m1, s)
               | Some after \<Rightarrow>
                   if after \<noteq> newval then handle_futex_death_entry env other (Suc i) uaddr pid m1 s
                   else Some (True, m1,
                     if uval AND unat FUTEX_WAITERS \<noteq> 0 then snd (futex_wake_robust_user_addr env uaddr 1 s) else s))"

text \<open>The walk: at most \<open>limit\<close> nodes, each read before its futex is handled.\<close>

fun robust_walk :: "futex_env \<Rightarrow> (nat \<Rightarrow> user_mem \<Rightarrow> user_mem) \<Rightarrow> nat \<Rightarrow> nat \<Rightarrow> nat \<Rightarrow> nat \<Rightarrow> nat \<Rightarrow> user_mem \<Rightarrow>
    futex_state \<Rightarrow> (user_mem \<times> futex_state) option" where
  "robust_walk env other 0 head offset pid entry m s = Some (m, s)"
| "robust_walk env other (Suc limit) head offset pid entry m s =
     (if entry = head then Some (m, s)
      else case try_copy_from_user_val 8 entry m of
             None \<Rightarrow> Some (m, s)
           | Some raw_next \<Rightarrow>
               (case handle_futex_death_entry env other 0 (wrap64 (entry + offset)) pid m s of
                  None \<Rightarrow> None
                | Some (owned, m1, s1) \<Rightarrow>
                    robust_walk env other limit head offset pid (raw_next - raw_next mod 2) m1 s1))"

definition handle_futex_when_exit :: "futex_env \<Rightarrow> (nat \<Rightarrow> user_mem \<Rightarrow> user_mem) \<Rightarrow> nat \<Rightarrow> nat \<Rightarrow> user_mem \<Rightarrow>
    futex_state \<Rightarrow> (user_mem \<times> futex_state) option" where
  "handle_futex_when_exit env other head pid m s =
     (if head = 0 then Some (m, s)
      else case try_copy_from_user_val 8 (wrap64 (head + 8)) m of
        None \<Rightarrow> Some (m, s)
      | Some offset \<Rightarrow>
          (case try_copy_from_user_val 8 (wrap64 (head + 16)) m of
             None \<Rightarrow> Some (m, s)
           | Some pending \<Rightarrow>
               (case (if pending \<noteq> 0
                      then map_option (\<lambda>(owned, m1, s1). (copy_to_user_val 8 (wrap64 (head + 16)) 0 m1, s1))
                             (handle_futex_death_entry env other 0 (wrap64 (pending + offset)) pid m s)
                      else Some (m, s)) of
                  None \<Rightarrow> None
                | Some (m1, s1) \<Rightarrow>
                    (case try_copy_from_user_val 8 head m1 of
                       None \<Rightarrow> Some (m1, s1)
                     | Some entry \<Rightarrow> robust_walk env other ROBUST_LIST_LIMIT head offset pid entry m1 s1))))"

definition ROBUST_HEAD_SIZE :: nat where "ROBUST_HEAD_SIZE = 24"

definition sys_set_robust_list :: "nat \<Rightarrow> nat \<Rightarrow> nat \<Rightarrow> futex_state \<Rightarrow> syscall_ret \<times> futex_state" where
  "sys_set_robust_list tid head len s =
     (if len \<noteq> ROBUST_HEAD_SIZE then (Inl EINVAL, s)
      else (Inr 0, set_task tid ((ftasks s tid)\<lparr>robust_list_head := head\<rparr>) s))"

text \<open>
  The copies go to the address space of the task that was looked up.  \<open>write\<close> stores a value
  there, or fails; \<open>found\<close> is the lookup by thread number.
\<close>

definition sys_get_robust_list :: "nat \<Rightarrow> nat \<Rightarrow> nat \<Rightarrow> nat \<Rightarrow> (nat \<Rightarrow> nat option) \<Rightarrow>
    (nat \<Rightarrow> nat \<Rightarrow> nat \<Rightarrow> 'm \<Rightarrow> SysErrNo + 'm) \<Rightarrow> futex_state \<Rightarrow> 'm \<Rightarrow> syscall_ret \<times> 'm" where
  "sys_get_robust_list me pid head_ptr len_ptr found write s m =
     (case (if found pid = None \<and> pid = 0 then Some me else found pid) of
        None \<Rightarrow> (Inl ESRCH, m)
      | Some tid \<Rightarrow>
          (case write tid head_ptr (robust_list_head (ftasks s tid)) m of
             Inl e \<Rightarrow> (Inl e, m)
           | Inr m1 \<Rightarrow>
               (case write tid len_ptr ROBUST_HEAD_SIZE m1 of
                  Inl e \<Rightarrow> (Inl e, m1)
                | Inr m2 \<Rightarrow> (Inr 0, m2))))"

section \<open>No waiter is lost\<close>

definition queue_at :: "futex_state \<Rightarrow> nat \<Rightarrow> FutexWaiter list" where
  "queue_at s pa = (case bt_get (FUTEX_QUEUE_BITMAP s) pa of None \<Rightarrow> [] | Some q \<Rightarrow> q)"

definition entry_of :: "futex_state \<Rightarrow> nat \<Rightarrow> FutexWaiter \<Rightarrow> bool" where
  "entry_of s t w \<longleftrightarrow> waiter_task w = t \<and> waiter_key w = futex_key (ftasks s t)"

definition blocked :: "futex_state \<Rightarrow> nat \<Rightarrow> bool" where
  "blocked s t \<longleftrightarrow> fstatus (ftasks s t) = TBlocked"

definition findable :: "futex_state \<Rightarrow> bool" where
  "findable s \<longleftrightarrow> (\<forall>t. alive s t \<and> blocked s t \<longrightarrow> (\<exists>w \<in> set (queue_at s (futex_pa (ftasks s t))). entry_of s t w))"

text \<open>
  \<open>p\<close> holds the key of each task that has drawn one and is not yet queued with it.
\<close>

definition keys_ok :: "(nat \<Rightarrow> nat option) \<Rightarrow> futex_state \<Rightarrow> bool" where
  "keys_ok p s \<longleftrightarrow>
     (\<forall>t. futex_key (ftasks s t) \<le> FUTEX_KEY_COUNTER s) \<and>
     (\<forall>t. blocked s t \<longrightarrow> futex_key (ftasks s t) \<noteq> 0) \<and>
     (\<forall>t u. futex_key (ftasks s t) = futex_key (ftasks s u) \<and> futex_key (ftasks s t) \<noteq> 0 \<longrightarrow> t = u) \<and>
     (\<forall>t k. p t = Some k \<longrightarrow> 0 < k \<and> k \<le> FUTEX_KEY_COUNTER s \<and> (\<forall>u. futex_key (ftasks s u) \<noteq> k)) \<and>
     (\<forall>t u k. p t = Some k \<and> p u = Some k \<longrightarrow> t = u)"

lemma keys_okI:
  assumes "\<And>t. futex_key (ftasks s t) \<le> FUTEX_KEY_COUNTER s"
    and "\<And>t. blocked s t \<Longrightarrow> futex_key (ftasks s t) \<noteq> 0"
    and "\<And>t u. futex_key (ftasks s t) = futex_key (ftasks s u) \<Longrightarrow> futex_key (ftasks s t) \<noteq> 0 \<Longrightarrow> t = u"
    and "\<And>t k. p t = Some k \<Longrightarrow> 0 < k \<and> k \<le> FUTEX_KEY_COUNTER s"
    and "\<And>t k u. p t = Some k \<Longrightarrow> futex_key (ftasks s u) \<noteq> k"
    and "\<And>t u k. p t = Some k \<Longrightarrow> p u = Some k \<Longrightarrow> t = u"
  shows "keys_ok p s"
  unfolding keys_ok_def by (intro conjI allI impI; (elim conjE)?; use assms in blast)

lemma keys_okD:
  assumes "keys_ok p s"
  shows "futex_key (ftasks s t) \<le> FUTEX_KEY_COUNTER s"
    and "blocked s t \<Longrightarrow> futex_key (ftasks s t) \<noteq> 0"
    and "futex_key (ftasks s t) = futex_key (ftasks s u) \<Longrightarrow> futex_key (ftasks s t) \<noteq> 0 \<Longrightarrow> t = u"
    and "p t = Some k \<Longrightarrow> 0 < k \<and> k \<le> FUTEX_KEY_COUNTER s"
    and "p t = Some k \<Longrightarrow> futex_key (ftasks s u) \<noteq> k"
    and "p t = Some k \<Longrightarrow> p u = Some k \<Longrightarrow> t = u"
  using assms unfolding keys_ok_def by blast+

definition bitsets_ok :: "futex_state \<Rightarrow> bool" where
  "bitsets_ok s \<longleftrightarrow> (\<forall>pa. \<forall>w \<in> set (queue_at s pa). waiter_bitset w \<noteq> 0)"

definition futex_inv :: "(nat \<Rightarrow> nat option) \<Rightarrow> futex_state \<Rightarrow> bool" where
  "futex_inv p s \<longleftrightarrow> findable s \<and> keys_ok p s \<and> bitsets_ok s"

text \<open>An operation may finish waits and change where a wait is queued; it starts none.\<close>

definition settles :: "futex_state \<Rightarrow> futex_state \<Rightarrow> bool" where
  "settles s s' \<longleftrightarrow>
     alive s' = alive s \<and> FUTEX_KEY_COUNTER s' = FUTEX_KEY_COUNTER s \<and>
     (\<forall>t. futex_key (ftasks s' t) = futex_key (ftasks s t) \<and> (blocked s' t \<longrightarrow> blocked s t) \<or>
          futex_key (ftasks s' t) = 0 \<and> \<not> blocked s' t)"

lemma settles_refl [simp]: "settles s s"
  by (simp add: settles_def)

lemma settles_trans: "settles a b \<Longrightarrow> settles b c \<Longrightarrow> settles a c"
  unfolding settles_def by metis

lemma settles_queue [simp]:
  "settles s (s'\<lparr>FUTEX_QUEUE_BITMAP := m\<rparr>) = settles s s'"
  "settles (s\<lparr>FUTEX_QUEUE_BITMAP := m\<rparr>) s' = settles s s'"
  by (simp_all add: settles_def blocked_def)

lemma keys_ok_settles:
  assumes k: "keys_ok p s" and d: "settles s s'"
  shows "keys_ok p s'"
proof -
  have key: "futex_key (ftasks s' t) = futex_key (ftasks s t) \<or> futex_key (ftasks s' t) = 0" for t
    using d by (auto simp: settles_def)
  have blk: "blocked s' t \<Longrightarrow> blocked s t \<and> futex_key (ftasks s' t) = futex_key (ftasks s t)" for t
    using d unfolding settles_def by blast
  have cnt: "FUTEX_KEY_COUNTER s' = FUTEX_KEY_COUNTER s"
    using d by (simp add: settles_def)
  show ?thesis
    unfolding keys_ok_def cnt
  proof (intro conjI allI impI)
    fix t
    show "futex_key (ftasks s' t) \<le> FUTEX_KEY_COUNTER s"
      using key [of t] k by (auto simp: keys_ok_def)
    show "blocked s' t \<Longrightarrow> futex_key (ftasks s' t) \<noteq> 0"
      using blk [of t] k by (auto simp: keys_ok_def)
  next
    fix t u
    assume "futex_key (ftasks s' t) = futex_key (ftasks s' u) \<and> futex_key (ftasks s' t) \<noteq> 0"
    then have "futex_key (ftasks s t) = futex_key (ftasks s u) \<and> futex_key (ftasks s t) \<noteq> 0"
      using key [of t] key [of u] by auto
    with k show "t = u" by (simp add: keys_ok_def)
  next
    fix t n u
    assume "p t = Some n"
    with k have "0 < n" "n \<le> FUTEX_KEY_COUNTER s" "\<forall>u. futex_key (ftasks s u) \<noteq> n"
      by (auto simp: keys_ok_def)
    then show "0 < n" "n \<le> FUTEX_KEY_COUNTER s" "futex_key (ftasks s' u) \<noteq> n"
      using key [of u] by auto
  next
    fix t u n
    assume "p t = Some n \<and> p u = Some n"
    with k show "t = u" unfolding keys_ok_def by blast
  qed
qed

lemmas task_ops = wakeup_futex_task_def timeout_futex_task_def requeue_futex_task_def
  waits_for_def set_task_def add_task_def Let_def

definition woken :: "nat \<Rightarrow> futex_state \<Rightarrow> futex_state" where
  "woken t s = add_task t (set_task t ((ftasks s t)\<lparr>fstatus := TReady, futex_key := 0, futex_pa := 0\<rparr>) s)"

lemma wakeup_woken:
  "wakeup_futex_task t k s = (if waits_for k (ftasks s t) then (True, woken t s) else (False, s))"
  by (simp add: wakeup_futex_task_def woken_def Let_def)

lemma woken_simps [simp]:
  "ftasks (woken t s) = (ftasks s)(t := (ftasks s t)\<lparr>fstatus := TReady, futex_key := 0, futex_pa := 0\<rparr>)"
  "FUTEX_QUEUE_BITMAP (woken t s) = FUTEX_QUEUE_BITMAP s"
  "alive (woken t s) = alive s"
  "FUTEX_KEY_COUNTER (woken t s) = FUTEX_KEY_COUNTER s"
  "enqueued (woken t s) = enqueued s @ [t]"
  by (simp_all add: woken_def add_task_def set_task_def)

lemma woken_settles [simp]: "settles s (woken t s)"
  by (auto simp: settles_def blocked_def)

text \<open>One round of the waking loop: the entry is dropped, its task is woken, or it goes to the back.\<close>

lemma wake_loop_cases [consumes 1, case_names dropped woken rotated]:
  assumes "wake_loop (Suc r) (Suc n) b (w # q) s = (q', k, s')"
  obtains "\<not> alive s (waiter_task w) \<or> \<not> waits_for (waiter_key w) (ftasks s (waiter_task w))"
      "wake_loop r (Suc n) b q s = (q', k, s')"
  | k1 where "alive s (waiter_task w)" "waits_for (waiter_key w) (ftasks s (waiter_task w))"
      "wake_loop r n b q (woken (waiter_task w) s) = (q', k1, s')" "k = Suc k1"
  | "alive s (waiter_task w)" "b AND waiter_bitset w = 0" "wake_loop r (Suc n) b (q @ [w]) s = (q', k, s')"
  using assms
  by (auto simp: wakeup_woken split: if_splits prod.splits)

text \<open>The loop keeps every entry of a task that is still blocked.\<close>

definition keeps_entries :: "futex_state \<Rightarrow> FutexWaiter list \<Rightarrow> futex_state \<Rightarrow> FutexWaiter list \<Rightarrow> bool" where
  "keeps_entries s q s' q' \<longleftrightarrow>
     (\<forall>t. alive s t \<and> blocked s' t \<longrightarrow>
        ftasks s' t = ftasks s t \<and> (\<forall>w \<in> set q. entry_of s t w \<longrightarrow> w \<in> set q'))"

lemma keeps_dropped:
  "keeps_entries s q s' q' \<Longrightarrow> \<not> alive s (waiter_task w) \<or> \<not> waits_for (waiter_key w) (ftasks s (waiter_task w)) \<Longrightarrow>
     keeps_entries s (w # q) s' q'"
  by (auto simp: keeps_entries_def entry_of_def waits_for_def blocked_def)

lemma keeps_woken:
  assumes "keeps_entries (woken (waiter_task w) s) q s' q'"
  shows "keeps_entries s (w # q) s' q'"
  unfolding keeps_entries_def
proof (intro allI impI)
  fix t
  assume t: "alive s t \<and> blocked s' t"
  then have same: "ftasks s' t = ftasks (woken (waiter_task w) s) t"
    and kept: "\<forall>w' \<in> set q. entry_of (woken (waiter_task w) s) t w' \<longrightarrow> w' \<in> set q'"
    using assms by (simp_all add: keeps_entries_def)
  from same t have "t \<noteq> waiter_task w"
    by (auto simp: blocked_def)
  with same kept show "ftasks s' t = ftasks s t \<and> (\<forall>w' \<in> set (w # q). entry_of s t w' \<longrightarrow> w' \<in> set q')"
    by (auto simp: entry_of_def)
qed

lemma keeps_rotated: "keeps_entries s (q @ [w]) s' q' \<Longrightarrow> keeps_entries s (w # q) s' q'"
  by (auto simp: keeps_entries_def)

lemma wake_loop_keeps:
  "wake_loop r n b q s = (q', k, s') \<Longrightarrow>
     settles s s' \<and> FUTEX_QUEUE_BITMAP s' = FUTEX_QUEUE_BITMAP s \<and> set q' \<subseteq> set q \<and> keeps_entries s q s' q'"
proof (induction r arbitrary: n q s k)
  case 0
  then show ?case by (auto simp: keeps_entries_def)
next
  case (Suc r)
  show ?case
  proof (cases "n = 0 \<or> q = []")
    case True
    then show ?thesis using Suc.prems by (cases n; cases q) (auto simp: keeps_entries_def)
  next
    case False
    then obtain m w qs where n: "n = Suc m" and q: "q = w # qs"
      by (metis list.exhaust not0_implies_Suc)
    from Suc.prems [unfolded n q] show ?thesis
    proof (cases rule: wake_loop_cases)
      case dropped
      from Suc.IH [OF dropped(2)] dropped(1) show ?thesis
        by (auto simp: q intro: keeps_dropped)
    next
      case (woken k1)
      from Suc.IH [OF woken(3)] show ?thesis
        by (auto simp: q intro: keeps_woken settles_trans [OF woken_settles])
    next
      case rotated
      from Suc.IH [OF rotated(3)] show ?thesis
        by (auto simp: q intro: keeps_rotated)
    qed
  qed
qed

lemma queue_at_simps [simp]:
  "queue_at (s\<lparr>FUTEX_QUEUE_BITMAP := bt_insert pa q m\<rparr>) =
     (queue_at (s\<lparr>FUTEX_QUEUE_BITMAP := m\<rparr>))(pa := q)"
  by (auto simp: queue_at_def fun_eq_iff)

lemma findableD:
  "findable s \<Longrightarrow> alive s t \<Longrightarrow> blocked s t \<Longrightarrow> \<exists>w \<in> set (queue_at s (futex_pa (ftasks s t))). entry_of s t w"
  by (simp add: findable_def)

lemma futex_wake_section_inv [inv_intros]:
  assumes inv: "futex_inv p s"
  shows "futex_inv p (snd (futex_wake_section pa n b s))"
proof (cases "bt_get (FUTEX_QUEUE_BITMAP s) pa")
  case None
  with inv show ?thesis by (simp add: futex_wake_section_def)
next
  case (Some q)
  obtain q' k s1 where l: "wake_loop (length q) (wake_limit n) b q s = (q', k, s1)"
    by (cases "wake_loop (length q) (wake_limit n) b q s")
  define s' where "s' = s1\<lparr>FUTEX_QUEUE_BITMAP := bt_insert pa q' (FUTEX_QUEUE_BITMAP s1)\<rparr>"
  have res: "snd (futex_wake_section pa n b s) = s'"
    by (simp add: futex_wake_section_def Some l s'_def)
  from wake_loop_keeps [OF l] have d: "settles s s1" and m: "FUTEX_QUEUE_BITMAP s1 = FUTEX_QUEUE_BITMAP s"
    and sub: "set q' \<subseteq> set q" and keep: "keeps_entries s q s1 q'"
    by auto
  have qa: "queue_at s' = (queue_at s)(pa := q')"
    using m by (auto simp: s'_def queue_at_def fun_eq_iff)
  have q: "queue_at s pa = q"
    by (simp add: queue_at_def Some)
  have "findable s'"
    unfolding findable_def
  proof (intro allI impI)
    fix t
    assume t: "alive s' t \<and> blocked s' t"
    then have a: "alive s t" and b1: "blocked s1 t"
      using d by (auto simp: s'_def settles_def blocked_def)
    from keep a b1 have same: "ftasks s1 t = ftasks s t"
      and kept: "\<And>w. w \<in> set q \<Longrightarrow> entry_of s t w \<Longrightarrow> w \<in> set q'"
      by (auto simp: keeps_entries_def)
    from b1 same have "blocked s t" by (simp add: blocked_def)
    with inv a obtain w where w: "w \<in> set (queue_at s (futex_pa (ftasks s t)))" "entry_of s t w"
      using findableD by (auto simp: futex_inv_def)
    then have "w \<in> set (queue_at s' (futex_pa (ftasks s t)))"
      using kept q qa by (auto split: if_splits)
    with w same show "\<exists>w \<in> set (queue_at s' (futex_pa (ftasks s' t))). entry_of s' t w"
      by (auto simp: s'_def entry_of_def)
  qed
  moreover have "keys_ok p s'"
    using inv d by (auto simp: futex_inv_def s'_def intro: keys_ok_settles)
  moreover have "bitsets_ok s'"
    using inv sub q qa by (auto simp: futex_inv_def bitsets_ok_def)
  ultimately show ?thesis by (simp add: res futex_inv_def)
qed

definition moved_to :: "nat \<Rightarrow> nat \<Rightarrow> futex_state \<Rightarrow> futex_state" where
  "moved_to new_pa t s = set_task t ((ftasks s t)\<lparr>futex_pa := new_pa\<rparr>) s"

lemma requeue_moved:
  "requeue_futex_task t k new_pa s = (if waits_for k (ftasks s t) then (True, moved_to new_pa t s) else (False, s))"
  by (simp add: requeue_futex_task_def moved_to_def Let_def)

lemma moved_simps [simp]:
  "ftasks (moved_to a t s) = (ftasks s)(t := (ftasks s t)\<lparr>futex_pa := a\<rparr>)"
  "FUTEX_QUEUE_BITMAP (moved_to a t s) = FUTEX_QUEUE_BITMAP s"
  "alive (moved_to a t s) = alive s"
  "FUTEX_KEY_COUNTER (moved_to a t s) = FUTEX_KEY_COUNTER s"
  "enqueued (moved_to a t s) = enqueued s"
  by (simp_all add: moved_to_def set_task_def)

lemma moved_settles [simp]: "settles s (moved_to a t s)"
  by (auto simp: settles_def blocked_def)

text \<open>One round of the requeueing loop.\<close>

lemma requeue_loop_cases [consumes 1, case_names dropped woken moved kept]:
  assumes "requeue_loop n r a (w # q) s = (mv, kp, k, s')"
  obtains "\<not> alive s (waiter_task w) \<or> \<not> waits_for (waiter_key w) (ftasks s (waiter_task w))"
      "requeue_loop n r a q s = (mv, kp, k, s')"
  | k1 where "alive s (waiter_task w)" "waits_for (waiter_key w) (ftasks s (waiter_task w))" "n > 0"
      "requeue_loop (n - 1) r a q (woken (waiter_task w) s) = (mv, kp, k1, s')" "k = Suc k1"
  | mv1 where "alive s (waiter_task w)" "waits_for (waiter_key w) (ftasks s (waiter_task w))" "n = 0" "r > 0"
      "requeue_loop n (r - 1) a q (moved_to a (waiter_task w) s) = (mv1, kp, k, s')" "mv = w # mv1"
  | kp1 where "alive s (waiter_task w)" "n = 0" "r = 0"
      "requeue_loop n r a q s = (mv, kp1, k, s')" "kp = w # kp1"
  using assms
  by (auto simp: wakeup_woken requeue_moved split: if_splits prod.splits)

text \<open>A task that is still blocked keeps its entries, or was moved and has one among the moved ones.\<close>

definition keeps_or_moves :: "nat \<Rightarrow> futex_state \<Rightarrow> FutexWaiter list \<Rightarrow> futex_state \<Rightarrow> FutexWaiter list \<Rightarrow> FutexWaiter list \<Rightarrow> bool" where
  "keeps_or_moves a s q s' mv kp \<longleftrightarrow>
     (\<forall>t. alive s t \<and> blocked s' t \<longrightarrow>
        ftasks s' t = ftasks s t \<and> (\<forall>w \<in> set q. entry_of s t w \<longrightarrow> w \<in> set kp) \<or>
        ftasks s' t = (ftasks s t)\<lparr>futex_pa := a\<rparr> \<and> (\<exists>w \<in> set mv. entry_of s t w))"

lemma keeps_or_moves_dropped:
  "keeps_or_moves a s q s' mv kp \<Longrightarrow>
   \<not> alive s (waiter_task w) \<or> \<not> waits_for (waiter_key w) (ftasks s (waiter_task w)) \<Longrightarrow>
     keeps_or_moves a s (w # q) s' mv kp"
  unfolding keeps_or_moves_def
  by (auto simp: entry_of_def waits_for_def blocked_def)

lemma keeps_or_moves_woken:
  assumes "keeps_or_moves a (woken (waiter_task w) s) q s' mv kp"
  shows "keeps_or_moves a s (w # q) s' mv kp"
  unfolding keeps_or_moves_def
proof (intro allI impI)
  fix t
  assume t: "alive s t \<and> blocked s' t"
  with assms have one: "ftasks s' t = ftasks (woken (waiter_task w) s) t \<and>
        (\<forall>w' \<in> set q. entry_of (woken (waiter_task w) s) t w' \<longrightarrow> w' \<in> set kp) \<or>
      ftasks s' t = (ftasks (woken (waiter_task w) s) t)\<lparr>futex_pa := a\<rparr> \<and>
        (\<exists>w' \<in> set mv. entry_of (woken (waiter_task w) s) t w')"
    by (simp add: keeps_or_moves_def)
  then have "t \<noteq> waiter_task w"
    using t by (auto simp: blocked_def)
  with one show "ftasks s' t = ftasks s t \<and> (\<forall>w' \<in> set (w # q). entry_of s t w' \<longrightarrow> w' \<in> set kp) \<or>
      ftasks s' t = (ftasks s t)\<lparr>futex_pa := a\<rparr> \<and> (\<exists>w' \<in> set mv. entry_of s t w')"
    by (auto simp: entry_of_def)
qed

lemma keeps_or_moves_moved:
  assumes "keeps_or_moves a (moved_to a (waiter_task w) s) q s' mv kp"
    and wait: "waits_for (waiter_key w) (ftasks s (waiter_task w))"
  shows "keeps_or_moves a s (w # q) s' (w # mv) kp"
  unfolding keeps_or_moves_def
proof (intro allI impI)
  fix t
  assume t: "alive s t \<and> blocked s' t"
  with assms(1) have one: "ftasks s' t = ftasks (moved_to a (waiter_task w) s) t \<and>
        (\<forall>w' \<in> set q. entry_of (moved_to a (waiter_task w) s) t w' \<longrightarrow> w' \<in> set kp) \<or>
      ftasks s' t = (ftasks (moved_to a (waiter_task w) s) t)\<lparr>futex_pa := a\<rparr> \<and>
        (\<exists>w' \<in> set mv. entry_of (moved_to a (waiter_task w) s) t w')"
    by (simp add: keeps_or_moves_def)
  show "ftasks s' t = ftasks s t \<and> (\<forall>w' \<in> set (w # q). entry_of s t w' \<longrightarrow> w' \<in> set kp) \<or>
      ftasks s' t = (ftasks s t)\<lparr>futex_pa := a\<rparr> \<and> (\<exists>w' \<in> set (w # mv). entry_of s t w')"
  proof (cases "t = waiter_task w")
    case True
    with one wait show ?thesis by (auto simp: entry_of_def waits_for_def)
  next
    case False
    with one show ?thesis by (auto simp: entry_of_def)
  qed
qed

lemma keeps_or_moves_kept:
  "keeps_or_moves a s q s' mv kp \<Longrightarrow> keeps_or_moves a s (w # q) s' mv (w # kp)"
  unfolding keeps_or_moves_def by auto

lemma requeue_loop_keeps:
  "requeue_loop n r a q s = (mv, kp, k, s') \<Longrightarrow>
     settles s s' \<and> FUTEX_QUEUE_BITMAP s' = FUTEX_QUEUE_BITMAP s \<and> set mv \<union> set kp \<subseteq> set q \<and>
     keeps_or_moves a s q s' mv kp"
proof (induction q arbitrary: n r s mv kp k)
  case Nil
  then show ?case by (auto simp: keeps_or_moves_def)
next
  case (Cons w q)
  from Cons.prems show ?case
  proof (cases rule: requeue_loop_cases)
    case dropped
    from Cons.IH [OF dropped(2)] dropped(1) show ?thesis
      by (auto intro: keeps_or_moves_dropped)
  next
    case (woken k1)
    from Cons.IH [OF woken(4)] show ?thesis
      by (auto intro: keeps_or_moves_woken settles_trans [OF woken_settles])
  next
    case (moved mv1)
    from Cons.IH [OF moved(5)] moved(2,6) show ?thesis
      by (auto intro: keeps_or_moves_moved settles_trans [OF moved_settles])
  next
    case (kept kp1)
    from Cons.IH [OF kept(4)] kept(5) show ?thesis
      by (auto intro: keeps_or_moves_kept)
  qed
qed

lemma queue_nonempty [simp]:
  "bt_get (insert_nonempty k q m) = (if q = [] then bt_get m else (bt_get m)(k \<mapsto> q))"
  by (simp add: insert_nonempty_def)

lemma futex_requeue_section_inv [inv_intros]:
  assumes inv: "futex_inv p s"
  shows "futex_inv p (snd (futex_requeue_section old_pa n new_pa r s))"
proof (cases "bt_get (FUTEX_QUEUE_BITMAP s) old_pa")
  case None
  with inv show ?thesis by (simp add: futex_requeue_section_def)
next
  case (Some q)
  define s0 where "s0 = s\<lparr>FUTEX_QUEUE_BITMAP := bt_remove old_pa (FUTEX_QUEUE_BITMAP s)\<rparr>"
  obtain mv kp k s1 where l: "requeue_loop (count_limit n) (count_limit r) new_pa q s0 = (mv, kp, k, s1)"
    by (metis prod_cases4)
  define s' where "s' = snd (futex_requeue_section old_pa n new_pa r s)"
  from requeue_loop_keeps [OF l] have d: "settles s s1"
    and m: "FUTEX_QUEUE_BITMAP s1 = bt_remove old_pa (FUTEX_QUEUE_BITMAP s)"
    and sub: "set mv \<union> set kp \<subseteq> set q" and keep: "keeps_or_moves new_pa s0 q s1 mv kp"
    by (auto simp: s0_def)
  have frame: "ftasks s' = ftasks s1" "alive s' = alive s1" "FUTEX_KEY_COUNTER s' = FUTEX_KEY_COUNTER s1"
    by (simp_all add: s'_def futex_requeue_section_def Some l s0_def [symmetric] Let_def)
  have qa: "queue_at s' x =
      (if x = new_pa then (if old_pa = new_pa then kp else queue_at s new_pa) @ mv
       else if x = old_pa then kp else queue_at s x)" for x
    by (auto simp: s'_def futex_requeue_section_def Some l s0_def [symmetric] Let_def queue_at_def m)
  have q: "queue_at s old_pa = q"
    by (simp add: queue_at_def Some)
  have "findable s'"
    unfolding findable_def
  proof (intro allI impI)
    fix t
    assume t: "alive s' t \<and> blocked s' t"
    then have a: "alive s t" and b1: "blocked s1 t"
      using d frame by (auto simp: settles_def blocked_def)
    have "alive s0 t" using a by (simp add: s0_def)
    with keep b1 consider
        "ftasks s1 t = ftasks s t" "\<And>w. w \<in> set q \<Longrightarrow> entry_of s t w \<Longrightarrow> w \<in> set kp"
      | w where "ftasks s1 t = (ftasks s t)\<lparr>futex_pa := new_pa\<rparr>" "w \<in> set mv" "entry_of s t w"
      unfolding keeps_or_moves_def by (auto simp: s0_def entry_of_def)
    then show "\<exists>w \<in> set (queue_at s' (futex_pa (ftasks s' t))). entry_of s' t w"
    proof cases
      case 1
      with b1 have "blocked s t" by (simp add: blocked_def)
      with inv a obtain w where w: "w \<in> set (queue_at s (futex_pa (ftasks s t)))" "entry_of s t w"
        using findableD by (auto simp: futex_inv_def)
      then have "w \<in> set (queue_at s' (futex_pa (ftasks s t)))"
        using 1(2) q qa [of "futex_pa (ftasks s t)"] by (auto split: if_splits)
      with w 1(1) frame show ?thesis by (auto simp: entry_of_def)
    next
      case 2
      then show ?thesis using qa [of new_pa] frame by (auto simp: entry_of_def)
    qed
  qed
  moreover have "keys_ok p s'"
  proof -
    have "settles s s'" using d frame by (simp add: settles_def blocked_def)
    with inv show ?thesis by (auto simp: futex_inv_def intro: keys_ok_settles)
  qed
  moreover have "bitsets_ok s'"
  proof -
    have "\<forall>w \<in> set q. waiter_bitset w \<noteq> 0" "\<forall>x. \<forall>w \<in> set (queue_at s x). waiter_bitset w \<noteq> 0"
      using inv q by (auto simp: futex_inv_def bitsets_ok_def)
    with sub qa show ?thesis by (fastforce simp: bitsets_ok_def split: if_splits)
  qed
  ultimately show ?thesis by (simp add: s'_def futex_inv_def)
qed

text \<open>Taking out the first entry with a key keeps every entry with another key.\<close>

lemma remove_key_keeps:
  "position (\<lambda>w. waiter_key w = k) q = Some i \<Longrightarrow> w \<in> set q \<Longrightarrow> waiter_key w \<noteq> k \<Longrightarrow> w \<in> set (remove_nth i q)"
proof -
  assume p: "position (\<lambda>w. waiter_key w = k) q = Some i" and w: "w \<in> set q" "waiter_key w \<noteq> k"
  from position_SomeD [OF p] have i: "i < length q" "waiter_key (q ! i) = k" by auto
  from i(1) have "set q = insert (q ! i) (set (remove_nth i q))"
    using id_take_nth_drop [OF i(1)] by (metis Un_insert_right list.simps(15) remove_nth_def set_append)
  with w i(2) show ?thesis by auto
qed

text \<open>
  Removing the entry of key \<open>k\<close> from one queue, in a state where no blocked task has that key.
\<close>

lemma futex_inv_remove:
  assumes inv: "futex_inv p s" and q: "bt_get (FUTEX_QUEUE_BITMAP s) pa = Some q"
    and i: "position (\<lambda>w. waiter_key w = k) q = Some i"
    and free: "\<And>t. blocked s t \<Longrightarrow> futex_key (ftasks s t) \<noteq> k"
  shows "futex_inv p (s\<lparr>FUTEX_QUEUE_BITMAP := bt_insert pa (remove_nth i q) (FUTEX_QUEUE_BITMAP s)\<rparr>)"
proof -
  let ?s = "s\<lparr>FUTEX_QUEUE_BITMAP := bt_insert pa (remove_nth i q) (FUTEX_QUEUE_BITMAP s)\<rparr>"
  have qa: "queue_at ?s = (queue_at s)(pa := remove_nth i q)" by simp
  have qpa: "queue_at s pa = q" by (simp add: queue_at_def q)
  have "findable ?s"
    unfolding findable_def
  proof (intro allI impI)
    fix t
    assume "alive ?s t \<and> blocked ?s t"
    then have t: "alive s t" "blocked s t" by (simp_all add: blocked_def)
    with inv obtain w where w: "w \<in> set (queue_at s (futex_pa (ftasks s t)))" "entry_of s t w"
      using findableD by (auto simp: futex_inv_def)
    moreover have "waiter_key w \<noteq> k"
      using free [OF t(2)] w(2) by (simp add: entry_of_def)
    ultimately have "w \<in> set (queue_at ?s (futex_pa (ftasks s t)))"
      using remove_key_keeps [OF i, of w] qpa unfolding qa by auto
    with w(2) show "\<exists>w \<in> set (queue_at ?s (futex_pa (ftasks ?s t))). entry_of ?s t w"
      by (auto simp: entry_of_def)
  qed
  moreover have "keys_ok p ?s"
    using inv by (auto simp: futex_inv_def keys_ok_def blocked_def)
  moreover have "bitsets_ok ?s"
    using inv set_remove_nth [of i q] qpa unfolding bitsets_ok_def qa futex_inv_def by auto
  ultimately show ?thesis by (simp add: futex_inv_def)
qed

lemma futex_inv_cong:
  assumes "futex_inv p s" "FUTEX_QUEUE_BITMAP s' = FUTEX_QUEUE_BITMAP s" "settles s s'"
    and "\<And>t. blocked s' t \<Longrightarrow> futex_pa (ftasks s' t) = futex_pa (ftasks s t) \<and> futex_key (ftasks s' t) = futex_key (ftasks s t)"
  shows "futex_inv p s'"
proof -
  have qa: "queue_at s' = queue_at s" using assms(2) by (simp add: queue_at_def fun_eq_iff)
  have "findable s'"
    unfolding findable_def
  proof (intro allI impI)
    fix t
    assume t: "alive s' t \<and> blocked s' t"
    then have "alive s t" "blocked s t" using assms(3) unfolding settles_def by auto
    with assms(1) show "\<exists>w \<in> set (queue_at s' (futex_pa (ftasks s' t))). entry_of s' t w"
      using findableD [of s t] assms(4) [of t] t by (auto simp: futex_inv_def qa entry_of_def)
  qed
  with assms show ?thesis
    by (auto simp: futex_inv_def bitsets_ok_def qa intro: keys_ok_settles)
qed

lemma bump_inv [inv_intros]: "futex_inv p s \<Longrightarrow> futex_inv p (bump_futex_queue_version s)"
  by (erule futex_inv_cong) (auto simp: bump_futex_queue_version_def settles_def blocked_def)

lemma remove_waiter_inv:
  "futex_inv p s \<Longrightarrow> (\<And>t. blocked s t \<Longrightarrow> futex_key (ftasks s t) \<noteq> k) \<Longrightarrow> futex_inv p (remove_waiter pa k s)"
  by (auto simp: remove_waiter_def split: option.splits intro: futex_inv_remove)

lemma key_owner:
  "futex_inv p s \<Longrightarrow> futex_key (ftasks s t) \<noteq> 0 \<Longrightarrow> blocked s u \<Longrightarrow> futex_key (ftasks s u) = futex_key (ftasks s t) \<Longrightarrow> u = t"
  unfolding futex_inv_def keys_ok_def by metis

definition timed_out :: "nat \<Rightarrow> futex_state \<Rightarrow> futex_state" where
  "timed_out t s = add_task t (set_task t
     ((ftasks s t)\<lparr>futex_timedout := True, fstatus := TReady, futex_key := 0, futex_pa := 0\<rparr>) s)"

lemma timed_out_inv: "futex_inv p s \<Longrightarrow> futex_inv p (timed_out t s)"
  by (erule futex_inv_cong) (auto simp: timed_out_def add_task_def set_task_def settles_def blocked_def)

lemma futex_wait_finish_inv [inv_intros]:
  assumes inv: "futex_inv p s" and run: "\<not> blocked s t"
  shows "futex_inv p (snd (futex_wait_finish t s))"
proof -
  let ?k = "futex_key (ftasks s t)"
  let ?s1 = "set_task t ((ftasks s t)\<lparr>futex_timedout := False\<rparr>) s"
  have free: "?k \<noteq> 0 \<Longrightarrow> blocked s u \<Longrightarrow> futex_key (ftasks s u) \<noteq> ?k" for u
    using key_owner [OF inv, of t u] run by auto
  have one: "futex_inv p ?s1"
    using inv by (rule futex_inv_cong) (auto simp: set_task_def settles_def blocked_def)
  have "?k \<noteq> 0 \<Longrightarrow> futex_inv p (remove_waiter (futex_pa (ftasks s t)) ?k (bump_futex_queue_version s))"
    using free by (intro remove_waiter_inv bump_inv inv) (auto simp: bump_futex_queue_version_def blocked_def)
  moreover have "?k \<noteq> 0 \<Longrightarrow> futex_inv p (remove_waiter (futex_pa (ftasks s t)) ?k (bump_futex_queue_version ?s1))"
    using free by (intro remove_waiter_inv bump_inv one)
      (auto simp: bump_futex_queue_version_def blocked_def set_task_def split: if_splits)
  ultimately show ?thesis
    using inv one by (simp add: futex_wait_finish_def Let_def)
qed

lemma handle_timer_section_inv [inv_intros]:
  assumes inv: "futex_inv p s" and k: "k \<noteq> 0" and h: "handle_timer_section t k s = Some s'"
  shows "futex_inv p s'"
proof (cases "futex_key (ftasks s t) = k \<and> (\<exists>q i. bt_get (FUTEX_QUEUE_BITMAP s) (futex_pa (ftasks s t)) = Some q \<and>
    position (\<lambda>w. waiter_key w = k) q = Some i)")
  case False
  with h inv show ?thesis
    by (auto simp: handle_timer_section_def Let_def simp del: position_None split: if_splits option.splits)
next
  case True
  then obtain q i where key: "futex_key (ftasks s t) = k"
    and q: "bt_get (FUTEX_QUEUE_BITMAP s) (futex_pa (ftasks s t)) = Some q"
    and i: "position (\<lambda>w. waiter_key w = k) q = Some i" by blast
  let ?m = "bt_insert (futex_pa (ftasks s t)) (remove_nth i q) (FUTEX_QUEUE_BITMAP s)"
  have own: "blocked s u \<Longrightarrow> futex_key (ftasks s u) = k \<Longrightarrow> u = t" for u
    using key_owner [OF inv, of t u] key k by simp
  have s': "s' = snd (timeout_futex_task t k (s\<lparr>FUTEX_QUEUE_BITMAP := ?m\<rparr>))"
    using h by (simp add: handle_timer_section_def Let_def key q i)
  show ?thesis
  proof (cases "blocked s t")
    case True
    have "s' = (timed_out t s)\<lparr>FUTEX_QUEUE_BITMAP := ?m\<rparr>"
      using True key by (simp add: s' timeout_futex_task_def timed_out_def waits_for_def blocked_def
          set_task_def add_task_def Let_def)
    moreover have "futex_inv p ((timed_out t s)\<lparr>FUTEX_QUEUE_BITMAP := ?m\<rparr>)"
    proof -
      have m: "FUTEX_QUEUE_BITMAP (timed_out t s) = FUTEX_QUEUE_BITMAP s"
        by (simp add: timed_out_def set_task_def add_task_def)
      have "futex_key (ftasks (timed_out t s) u) \<noteq> k" if "blocked (timed_out t s) u" for u
        using that own [of u] by (auto simp: timed_out_def set_task_def add_task_def blocked_def split: if_splits)
      with futex_inv_remove [OF timed_out_inv [OF inv], of t "futex_pa (ftasks s t)" q k i] q i show ?thesis
        unfolding m by blast
    qed
    ultimately show ?thesis by simp
  next
    case False
    then have "s' = s\<lparr>FUTEX_QUEUE_BITMAP := ?m\<rparr>"
      by (simp add: s' timeout_futex_task_def waits_for_def blocked_def Let_def)
    with futex_inv_remove [OF inv q i] own False show ?thesis by auto
  qed
qed

lemma futex_wait_section_inv:
  assumes inv: "futex_inv p s" and k: "p t = Some k" and b: "b \<noteq> 0"
    and w: "futex_wait_section pa t v b k s = Queued s'"
  shows "futex_inv (p(t := None)) s'"
proof -
  let ?w = "\<lparr>waiter_task = t, waiter_bitset = b, waiter_key = k\<rparr>"
  have s': "ftasks s' = (ftasks s)(t := (ftasks s t)\<lparr>futex_timedout := False, futex_pa := pa, futex_key := k, fstatus := TBlocked\<rparr>)"
      "alive s' = alive s" "FUTEX_KEY_COUNTER s' = FUTEX_KEY_COUNTER s"
      "queue_at s' = (queue_at s)(pa := queue_at s pa @ [?w])"
    using w by (auto simp: futex_wait_section_def Let_def set_task_def queue_at_def fun_eq_iff split: if_splits)
  have "findable s'"
    unfolding findable_def
  proof (intro allI impI)
    fix u
    assume u: "alive s' u \<and> blocked s' u"
    show "\<exists>w \<in> set (queue_at s' (futex_pa (ftasks s' u))). entry_of s' u w"
    proof (cases "u = t")
      case True
      then show ?thesis by (simp add: s' entry_of_def)
    next
      case False
      with u have "alive s u" "blocked s u" by (simp_all add: s' blocked_def)
      with inv show ?thesis
        using findableD [of s u] False by (auto simp: futex_inv_def s' entry_of_def)
    qed
  qed
  moreover have "keys_ok (p(t := None)) s'"
  proof -
    from inv have ok: "keys_ok p s" by (simp add: futex_inv_def)
    note d = keys_okD [OF ok]
    have at: "futex_key (ftasks s' u) = (if u = t then k else futex_key (ftasks s u))"
        "blocked s' u = (u = t \<or> blocked s u)" for u
      by (simp_all add: s' blocked_def)
    have rest: "(p(t := None)) u = Some n \<Longrightarrow> u \<noteq> t \<and> p u = Some n" for u n
      by (simp split: if_splits)
    show ?thesis
    proof (rule keys_okI)
      show "futex_key (ftasks s' u) \<le> FUTEX_KEY_COUNTER s'" for u
        using d(1) [of u] d(4) [OF k] by (simp add: at s'(3))
      show "futex_key (ftasks s' u) \<noteq> 0" if "blocked s' u" for u
        using that d(2) [of u] d(4) [OF k] by (auto simp: at)
      show "u = v" if "futex_key (ftasks s' u) = futex_key (ftasks s' v)" "futex_key (ftasks s' u) \<noteq> 0" for u v
        using that d(3) [of u v] d(5) [OF k, of u] d(5) [OF k, of v] by (simp add: at split: if_splits)
      show "0 < n \<and> n \<le> FUTEX_KEY_COUNTER s'" if "(p(t := None)) u = Some n" for u n
        using d(4) [of u n] rest [OF that] by (simp add: s'(3))
      show "futex_key (ftasks s' v) \<noteq> n" if "(p(t := None)) u = Some n" for u n v
        using d(5) [of u n v] d(6) [of u n t] rest [OF that] k by (auto simp: at)
      show "u = v" if "(p(t := None)) u = Some n" "(p(t := None)) v = Some n" for u v n
        using d(6) [of u n v] rest [OF that(1)] rest [OF that(2)] by simp
    qed
  qed
  moreover have "bitsets_ok s'"
    using inv b by (auto simp: futex_inv_def bitsets_ok_def s')
  ultimately show ?thesis by (simp add: futex_inv_def)
qed

lemma new_futex_key_inv:
  assumes inv: "futex_inv p s" and n: "new_futex_key s = (k, s')" and max: "FUTEX_KEY_COUNTER s < usize_max"
  shows "futex_inv (p(t \<mapsto> k)) s'"
proof -
  have k: "k = Suc (FUTEX_KEY_COUNTER s)" "s' = s\<lparr>FUTEX_KEY_COUNTER := k\<rparr>"
    using n max by (auto simp: new_futex_key_def wrap64_def usize_max_def)
  have "findable s'" "bitsets_ok s'"
    using inv by (auto simp: futex_inv_def findable_def bitsets_ok_def k(2) queue_at_def blocked_def entry_of_def)
  moreover have "keys_ok (p(t \<mapsto> k)) s'"
  proof -
    from inv have ok: "keys_ok p s" by (simp add: futex_inv_def)
    note d = keys_okD [OF ok]
    have at: "ftasks s' = ftasks s" "FUTEX_KEY_COUNTER s' = Suc (FUTEX_KEY_COUNTER s)" "blocked s' = blocked s"
      by (simp_all add: k blocked_def fun_eq_iff)
    have old: "p u = Some n \<Longrightarrow> n \<noteq> k" for u n
      using d(4) [of u n] k(1) by auto
    show ?thesis
    proof (rule keys_okI)
      show "futex_key (ftasks s' u) \<le> FUTEX_KEY_COUNTER s'" for u
        using d(1) [of u] by (simp add: at)
      show "futex_key (ftasks s' u) \<noteq> 0" if "blocked s' u" for u
        using that d(2) [of u] by (simp add: at)
      show "u = v" if "futex_key (ftasks s' u) = futex_key (ftasks s' v)" "futex_key (ftasks s' u) \<noteq> 0" for u v
        using that d(3) [of u v] by (simp add: at)
      show "0 < n \<and> n \<le> FUTEX_KEY_COUNTER s'" if "(p(t \<mapsto> k)) u = Some n" for u n
        using that d(4) [of u n] k(1) by (auto simp: at split: if_splits)
      show "futex_key (ftasks s' v) \<noteq> n" if "(p(t \<mapsto> k)) u = Some n" for u n v
        using that d(5) [of u n v] d(1) [of v] k(1) by (auto simp: at split: if_splits)
      show "u = v" if "(p(t \<mapsto> k)) u = Some n" "(p(t \<mapsto> k)) v = Some n" for u v n
        using that d(6) [of u n v] old [of u n] old [of v n] by (auto split: if_splits)
    qed
  qed
  ultimately show ?thesis by (simp add: futex_inv_def)
qed

text \<open>
  The steps of the tasks and of the clock.  A task draws a key, and then is queued with it or gives
  up; a wake, a requeue and a timer are their sections under the lock, after their bump; a signal
  changes what a task sees and may make a blocked task ready; a task that runs again finishes its
  wait; a task that is not blocked may go away.  Blocking on anything but a futex is not a step, so
  here a blocked task is one blocked on a futex.
\<close>

type_synonym futex_sys = "futex_state \<times> (nat \<Rightarrow> nat option)"

inductive futex_step :: "futex_sys \<Rightarrow> futex_sys \<Rightarrow> bool" where
  draw: "FUTEX_KEY_COUNTER s < usize_max \<Longrightarrow> new_futex_key s = (k, s') \<Longrightarrow> futex_step (s, p) (s', p(t \<mapsto> k))"
| wait: "p t = Some k \<Longrightarrow> b \<noteq> 0 \<Longrightarrow> futex_wait_section pa t v b k s = Queued s' \<Longrightarrow> futex_step (s, p) (s', p(t := None))"
| give_up: "futex_step (s, p) (s, p(t := None))"
| arm: "futex_step (s, p) (add_futex_timer ts t k s, p)"
| bump: "futex_step (s, p) (bump_futex_queue_version s, p)"
| wake: "futex_step (s, p) (snd (futex_wake_section pa n b s), p)"
| requeue: "futex_step (s, p) (snd (futex_requeue_section pa n pa2 r s), p)"
| timer: "k \<noteq> 0 \<Longrightarrow> handle_timer_section t k s = Some s' \<Longrightarrow> futex_step (s, p) (s', p)"
| signal: "futex_step (s, p)
    (set_task t ((ftasks s t)\<lparr>visible_signal := v, fstatus := (if r \<and> blocked s t then TReady else fstatus (ftasks s t))\<rparr>) s, p)"
| run: "\<not> blocked s t \<Longrightarrow> futex_step (s, p) (set_task t ((ftasks s t)\<lparr>fstatus := TRunning\<rparr>) s, p)"
| finish: "\<not> blocked s t \<Longrightarrow> futex_step (s, p) (snd (futex_wait_finish t s), p)"
| exit: "\<not> blocked s t \<Longrightarrow> futex_step (s, p) (s\<lparr>alive := (alive s)(t := False)\<rparr>, p)"

definition futex_initial :: "futex_sys \<Rightarrow> bool" where
  "futex_initial x \<longleftrightarrow>
     FUTEX_QUEUE_BITMAP (fst x) = [] \<and> snd x = (\<lambda>_. None) \<and>
     (\<forall>t. futex_key (ftasks (fst x) t) = 0 \<and> \<not> blocked (fst x) t)"

definition futex_reachable :: "futex_sys \<Rightarrow> futex_sys \<Rightarrow> bool" where
  "futex_reachable = futex_step\<^sup>*\<^sup>*"

lemma keys_ok_forget: "keys_ok p s \<Longrightarrow> keys_ok (p(t := None)) s"
  unfolding keys_ok_def by (auto split: if_splits)

lemma futex_step_inv: "futex_step x y \<Longrightarrow> futex_inv (snd x) (fst x) \<Longrightarrow> futex_inv (snd y) (fst y)"
proof (induction rule: futex_step.induct)
  case (draw s k s' p t)
  then show ?case unfolding fst_conv snd_conv by (intro new_futex_key_inv)
next
  case (wait p t k b pa v s s')
  then show ?case unfolding fst_conv snd_conv by (intro futex_wait_section_inv)
next
  case (give_up s p t)
  then show ?case unfolding fst_conv snd_conv futex_inv_def by (blast intro: keys_ok_forget)
next
  case (arm s p ts t k)
  then show ?case
    by (auto intro!: futex_inv_cong [of p s] simp: add_futex_timer_def settles_def blocked_def)
next
  case (signal s p t v r)
  then show ?case
    by (auto intro!: futex_inv_cong [of p s] simp: set_task_def settles_def blocked_def split: if_splits)
next
  case (run s t p)
  then show ?case
    by (auto intro!: futex_inv_cong [of p s] simp: set_task_def settles_def blocked_def split: if_splits)
next
  case (exit s t p)
  then show ?case
    by (auto simp: futex_inv_def findable_def keys_ok_def bitsets_ok_def queue_at_def blocked_def entry_of_def)
qed (auto intro: inv_intros)

lemma futex_reachable_inv: "futex_reachable x y \<Longrightarrow> futex_initial x \<Longrightarrow> futex_inv (snd y) (fst y)"
  unfolding futex_reachable_def
proof (induction rule: rtranclp_induct)
  case base
  then show ?case
    by (auto simp: futex_initial_def futex_inv_def findable_def keys_ok_def bitsets_ok_def queue_at_def)
next
  case (step y z)
  then show ?case using futex_step_inv by blast
qed

text \<open>With the full bit set and a count that covers the queue, the loop empties it.\<close>

lemma wake_loop_all:
  "wake_loop (length q) n (- 1) q s = (q', k, s') \<Longrightarrow> \<forall>w \<in> set q. waiter_bitset w \<noteq> 0 \<Longrightarrow> length q \<le> n \<Longrightarrow> q' = []"
proof (induction q arbitrary: n s k)
  case Nil
  then show ?case by simp
next
  case (Cons w q)
  from Cons.prems(3) obtain m where n: "n = Suc m" by (cases n) auto
  from Cons.prems(1) [unfolded n list.size add_Suc_right add_0_right] show ?case
  proof (cases rule: wake_loop_cases)
    case dropped
    with Cons.IH [OF dropped(2)] Cons.prems n show ?thesis by simp
  next
    case (woken k1)
    with Cons.IH [OF woken(3)] Cons.prems n show ?thesis by simp
  next
    case rotated
    with Cons.prems show ?thesis by simp
  qed
qed

definition only_wakes :: "futex_state \<Rightarrow> futex_state \<Rightarrow> bool" where
  "only_wakes s s' \<longleftrightarrow> set (enqueued s) \<subseteq> set (enqueued s') \<and>
     (\<forall>t. ftasks s' t = ftasks s t \<or> fstatus (ftasks s' t) = TReady \<and> t \<in> set (enqueued s'))"

lemma only_wakes_woken:
  assumes "only_wakes (woken u s) s'"
  shows "only_wakes s s'"
proof -
  have q: "set (enqueued s) \<subseteq> set (enqueued s')" "u \<in> set (enqueued s')"
    using assms by (simp_all add: only_wakes_def)
  have "ftasks s' t = ftasks s t \<or> fstatus (ftasks s' t) = TReady \<and> t \<in> set (enqueued s')" for t
  proof -
    from assms have "ftasks s' t = ftasks (woken u s) t \<or> fstatus (ftasks s' t) = TReady \<and> t \<in> set (enqueued s')"
      unfolding only_wakes_def by blast
    with q(2) show ?thesis by (cases "t = u") auto
  qed
  with q(1) show ?thesis by (simp add: only_wakes_def)
qed

lemma wake_loop_only_wakes: "wake_loop r n b q s = (q', k, s') \<Longrightarrow> only_wakes s s'"
proof (induction r arbitrary: n q s k)
  case 0
  then show ?case by (simp add: only_wakes_def)
next
  case (Suc r)
  show ?case
  proof (cases "n = 0 \<or> q = []")
    case True
    then show ?thesis using Suc.prems by (cases n; cases q) (auto simp: only_wakes_def)
  next
    case False
    then obtain m w qs where nq: "n = Suc m" "q = w # qs"
      by (metis list.exhaust not0_implies_Suc)
    from Suc.prems [unfolded nq] show ?thesis
      by (cases rule: wake_loop_cases) (use Suc.IH in \<open>blast intro: only_wakes_woken\<close>)+
  qed
qed

section \<open>Waking and requeueing in order\<close>

text \<open>A queue whose entries are all waits in progress, each of another task.\<close>

definition fresh_queue :: "futex_state \<Rightarrow> FutexWaiter list \<Rightarrow> bool" where
  "fresh_queue s q \<longleftrightarrow> distinct (map waiter_task q) \<and>
     (\<forall>w \<in> set q. alive s (waiter_task w) \<and> waits_for (waiter_key w) (ftasks s (waiter_task w)) \<and> waiter_bitset w \<noteq> 0)"

lemma fresh_queue_Cons:
  assumes "fresh_queue s (w # q)"
  shows "alive s (waiter_task w)" and "waits_for (waiter_key w) (ftasks s (waiter_task w))" and "waiter_bitset w \<noteq> 0"
    and "fresh_queue (woken (waiter_task w) s) q" and "fresh_queue (moved_to a (waiter_task w) s) q" and "fresh_queue s q"
  using assms by (auto simp: fresh_queue_def image_iff)

lemma wake_loop_fifo:
  "fresh_queue s q \<Longrightarrow> wake_loop (length q) n (- 1) q s = (q', k, s') \<Longrightarrow>
     q' = drop n q \<and> k = min n (length q) \<and> enqueued s' = enqueued s @ map waiter_task (take n q)"
proof (induction q arbitrary: n s k)
  case Nil
  then show ?case by simp
next
  case (Cons w q)
  note f = fresh_queue_Cons [OF Cons.prems(1)]
  show ?case
  proof (cases n)
    case 0
    then show ?thesis using Cons.prems(2) by simp
  next
    case (Suc m)
    from Cons.prems(2) [unfolded Suc list.size add_Suc_right add_0_right] show ?thesis
    proof (cases rule: wake_loop_cases)
      case dropped
      then show ?thesis using f(1,2) by simp
    next
      case (woken k1)
      from Cons.IH [OF f(4) woken(3)] woken(4) show ?thesis by (simp add: Suc)
    next
      case rotated
      then show ?thesis using f(3) by simp
    qed
  qed
qed

lemma requeue_loop_fifo:
  "fresh_queue s q \<Longrightarrow> requeue_loop n r a q s = (mv, kp, k, s') \<Longrightarrow>
     mv = take r (drop n q) \<and> kp = drop (n + r) q \<and> k = min n (length q) \<and>
     enqueued s' = enqueued s @ map waiter_task (take n q)"
proof (induction q arbitrary: n r s mv kp k)
  case Nil
  then show ?case by simp
next
  case (Cons w q)
  note f = fresh_queue_Cons [OF Cons.prems(1)]
  from Cons.prems(2) show ?case
  proof (cases rule: requeue_loop_cases)
    case dropped
    then show ?thesis using f(1,2) by simp
  next
    case (woken k1)
    then obtain m where "n = Suc m" by (cases n) auto
    with Cons.IH [OF f(4) woken(4)] woken(5) show ?thesis by simp
  next
    case (moved mv1)
    then obtain m where "r = Suc m" by (cases r) auto
    with Cons.IH [OF f(5) moved(5)] moved(3,6) show ?thesis by simp
  next
    case (kept kp1)
    with Cons.IH [OF f(6) kept(4)] show ?thesis by simp
  qed
qed

section \<open>The retry loop of the robust list\<close>

lemma or_less_32: "x < 2 ^ 32 \<Longrightarrow> y < 2 ^ 32 \<Longrightarrow> x OR y < (2 ^ 32 :: nat)"
  by (metis take_bit_nat_eq_self_iff take_bit_or)

lemma and_less_32:
  assumes "y < 2 ^ 32"
  shows "x AND y < (2 ^ 32 :: nat)"
proof -
  have "take_bit 32 (x AND y) = x AND y"
    using assms by (metis and.assoc take_bit_eq_mask take_bit_nat_eq_self)
  then show ?thesis by (metis take_bit_nat_less_exp)
qed

definition died_word :: "nat \<Rightarrow> nat" where
  "died_word uval = (uval AND unat FUTEX_WAITERS) OR unat FUTEX_OWNER_DIED"

lemma futex_bits: "unat FUTEX_WAITERS = 0x80000000" "unat FUTEX_OWNER_DIED = 0x40000000" "unat FUTEX_TID_MASK = 0x3fffffff"
  by (simp_all add: FUTEX_WAITERS_def FUTEX_OWNER_DIED_def FUTEX_TID_MASK_def)

lemma died_word_less: "died_word uval < 2 ^ 32"
  unfolding died_word_def futex_bits by (intro or_less_32 and_less_32) simp_all

lemma and_or_distrib_nat: "((x AND a) OR b) AND c = (x AND (a AND c)) OR (b AND (c :: nat))"
  by (rule bit_eqI) (auto simp: bit_and_iff bit_or_iff)

lemma died_word_no_owner: "died_word uval AND unat FUTEX_TID_MASK = 0"
  by (simp add: died_word_def futex_bits and_or_distrib_nat)

text \<open>
  The other threads leave the permissions alone, and from round \<open>n\<close> on they leave the word alone.
\<close>

definition quiet_from :: "nat \<Rightarrow> (nat \<Rightarrow> user_mem \<Rightarrow> user_mem) \<Rightarrow> bool" where
  "quiet_from n other \<longleftrightarrow>
     (\<forall>i m. may_read (other i m) = may_read m \<and> may_write (other i m) = may_write m) \<and>
     (\<forall>i \<ge> n. \<forall>m. other i m = m)"

definition writable_words :: "user_mem \<Rightarrow> bool" where
  "writable_words m \<longleftrightarrow> (\<forall>a. range_ok (may_read m) a 4 \<longrightarrow> range_ok (may_write m) a 4)"

definition same_perms :: "user_mem \<Rightarrow> user_mem \<Rightarrow> bool" where
  "same_perms m m' \<longleftrightarrow> may_read m' = may_read m \<and> may_write m' = may_write m"

lemma death_entry_returns:
  assumes "quiet_from n other"
  shows "writable_words m \<Longrightarrow>
    \<exists>b m' s'. handle_futex_death_entry env other i a pid m s = Some (b, m', s') \<and> same_perms m m'"
proof (induction "n - i" arbitrary: i m)
  case (0 i m)
  then have q: "other i x = x" for x using assms by (simp add: quiet_from_def)
  have reread: "try_copy_from_user_val 4 a (copy_to_user_val 4 a (died_word v) m) = Some (died_word v)"
    if "try_copy_from_user_val 4 a m = Some u" for u v
    using that 0 died_word_less [of v] copy_roundtrip [of m a 4 "died_word v"]
    by (auto simp: try_copy_from_user_val_def writable_words_def split: if_splits)
  show ?case
    by (subst handle_futex_death_entry.simps)
      (auto simp: q Let_def same_perms_def reread died_word_def [symmetric] split: option.splits)
next
  case (Suc d i m)
  have perms: "same_perms m (other i (copy_to_user_val 4 a v m))" for v
    using assms by (simp add: quiet_from_def same_perms_def)
  have step: "\<exists>b m' s'. handle_futex_death_entry env other (Suc i) a pid (other i (copy_to_user_val 4 a v m)) s = Some (b, m', s') \<and>
      same_perms m m'" for v
  proof -
    have "writable_words (other i (copy_to_user_val 4 a v m))"
      using Suc.prems perms [of v] by (simp add: writable_words_def same_perms_def)
    from Suc.hyps(1) [OF _ this] Suc.hyps(2) perms [of v] show ?thesis
      by (auto simp: same_perms_def)
  qed
  show ?case
    using perms step
    by (subst handle_futex_death_entry.simps) (auto simp: Let_def same_perms_def split: option.splits)
qed

lemma robust_walk_returns:
  "quiet_from n other \<Longrightarrow> writable_words m \<Longrightarrow> \<exists>r. robust_walk env other limit head offset pid entry m s = Some r"
proof (induction limit arbitrary: entry m s)
  case 0
  then show ?case by simp
next
  case (Suc limit)
  obtain b m' s' where d: "handle_futex_death_entry env other 0 (wrap64 (entry + offset)) pid m s = Some (b, m', s')"
      "same_perms m m'"
    using death_entry_returns [OF Suc.prems] by blast
  then have "writable_words m'"
    using Suc.prems by (simp add: writable_words_def same_perms_def)
  from Suc.IH [OF Suc.prems(1) this] d(1) show ?case
    by (auto split: option.splits)
qed

text \<open>
  A word that can be read and not written, with the thread as its owner: the failed write is
  ignored, the word read back is the old one, and the loop starts again without end.
\<close>

lemma death_entry_never_returns:
  assumes "try_copy_from_user_val 4 a m = Some uval" "uval AND unat FUTEX_TID_MASK = pid" "pid \<noteq> 0"
    and "\<not> may_write m a"
  shows "handle_futex_death_entry env (\<lambda>_ x. x) i a pid m s = None"
proof (rule ccontr)
  have same: "copy_to_user_val 4 a v m = m" for v
    using copy_to_user_first [OF assms(4), of "le_bytes 4 (int v)"] by (simp add: copy_to_user_val_def le_bytes_def)
  have ne: "uval \<noteq> died_word uval"
    using assms(2,3) died_word_no_owner [of uval] by metis
  assume "handle_futex_death_entry env (\<lambda>_ x. x) i a pid m s \<noteq> None"
  then obtain y where y: "handle_futex_death_entry env (\<lambda>_ x. x) i a pid m s = Some y" by blast
  define stuck where "stuck e ot m1 a1 p1 \<longleftrightarrow> e = env \<and> ot = (\<lambda>_ x. x) \<and> m1 = m \<and> a1 = a \<and> p1 = pid"
    for e and ot :: "nat \<Rightarrow> user_mem \<Rightarrow> user_mem" and m1 a1 p1
  have "\<not> stuck env (\<lambda>_ x. x) m a pid"
  proof (rule handle_futex_death_entry.raw_induct
      [where P = "\<lambda>e ot j a1 p1 m1 s1 y. \<not> stuck e ot m1 a1 p1", OF _ y], goal_cases)
    case (1 f e ot j a1 p1 m1 s1 y)
    then show ?case
      using ne assms(1,2) by (auto simp: stuck_def same Let_def died_word_def [symmetric] split: if_splits option.splits)
  qed
  then show False by (simp add: stuck_def)
qed

section \<open>Properties\<close>

text \<open>
  C12.  A task blocked on a futex and queued is never lost.  In every state the steps reach, a live blocked
  task has its entry in the queue of the address it is recorded to wait at, wherever requeueing
  has moved it, and a wake of that address whose count covers the queue makes it ready and puts
  it in the ready queue.
\<close>

theorem futex_waiter_stays_wakeable:
  assumes init: "futex_initial x" and reach: "futex_reachable x (s, p)"
    and live: "alive s t" and blk: "fstatus (ftasks s t) = TBlocked"
    and n: "int (length (queue_at s (futex_pa (ftasks s t)))) \<le> n"
  defines "s' \<equiv> snd (futex_wake_section (futex_pa (ftasks s t)) n (- 1) s)"
  shows "(\<exists>w \<in> set (queue_at s (futex_pa (ftasks s t))). waiter_task w = t \<and> waiter_key w = futex_key (ftasks s t)) \<and>
    fstatus (ftasks s' t) = TReady \<and> t \<in> set (enqueued s')"
proof -
  have inv: "futex_inv p s" using futex_reachable_inv [OF reach init] by simp
  let ?pa = "futex_pa (ftasks s t)"
  have b: "blocked s t" using blk by (simp add: blocked_def)
  obtain w where w: "w \<in> set (queue_at s ?pa)" "entry_of s t w"
    using inv findableD [OF _ live b] by (auto simp: futex_inv_def)
  then obtain q where q: "bt_get (FUTEX_QUEUE_BITMAP s) ?pa = Some q" "queue_at s ?pa = q"
    by (cases "bt_get (FUTEX_QUEUE_BITMAP s) ?pa") (auto simp: queue_at_def)
  obtain q' k s1 where l: "wake_loop (length q) (wake_limit n) (- 1) q s = (q', k, s1)"
    by (cases "wake_loop (length q) (wake_limit n) (- 1) q s")
  have s': "ftasks s' = ftasks s1" "enqueued s' = enqueued s1"
    by (simp_all add: s'_def futex_wake_section_def q(1) l)
  have "\<forall>w \<in> set q. waiter_bitset w \<noteq> 0"
    using inv q(2) by (auto simp: futex_inv_def bitsets_ok_def)
  moreover have "length q \<le> wake_limit n"
    using n q(2) w(1) by (auto simp: wake_limit_def)
  ultimately have "q' = []" using wake_loop_all [OF l] by blast
  then have "\<not> blocked s1 t"
    using wake_loop_keeps [OF l] live w q(2) by (auto simp: keeps_entries_def)
  moreover have "ftasks s1 t = ftasks s t \<or> fstatus (ftasks s1 t) = TReady \<and> t \<in> set (enqueued s1)"
    using wake_loop_only_wakes [OF l] unfolding only_wakes_def by blast
  ultimately show ?thesis
    using w b s' by (auto simp: entry_of_def blocked_def)
qed

text \<open>
  C33.  Waking is first come, first served: on a queue of waits in progress a wake makes exactly
  the first waiters ready, in queue order, as many as its count allows, answers how many, and
  leaves the rest queued in their order.  A count that is not positive wakes one.
\<close>

theorem futex_wake_is_fifo:
  assumes q: "bt_get (FUTEX_QUEUE_BITMAP s) pa = Some q" and fresh: "fresh_queue s q"
    and r: "futex_wake_up pa n s = (k, s')"
  shows "k = min (wake_limit n) (length q) \<and> enqueued s' = enqueued s @ map waiter_task (take (wake_limit n) q) \<and>
    queue_at s' = (queue_at s)(pa := drop (wake_limit n) q)"
proof -
  let ?s = "bump_futex_queue_version s"
  obtain q' k' s1 where l: "wake_loop (length q) (wake_limit n) (- 1) q ?s = (q', k', s1)"
    by (cases "wake_loop (length q) (wake_limit n) (- 1) q ?s")
  have b: "fresh_queue ?s q" "enqueued ?s = enqueued s" "FUTEX_QUEUE_BITMAP ?s = FUTEX_QUEUE_BITMAP s"
    using fresh by (simp_all add: fresh_queue_def bump_futex_queue_version_def)
  from wake_loop_fifo [OF b(1) l] wake_loop_keeps [OF l]
  have "q' = drop (wake_limit n) q" "k' = min (wake_limit n) (length q)"
    "enqueued s1 = enqueued s @ map waiter_task (take (wake_limit n) q)" "FUTEX_QUEUE_BITMAP s1 = FUTEX_QUEUE_BITMAP s"
    using b by simp_all
  with r show ?thesis
    by (auto simp: futex_wake_up_def futex_wake_up_bitset_def futex_wake_section_def b q l queue_at_def fun_eq_iff)
qed

text \<open>
  C32.  Requeueing splits a queue of waits in progress into three runs: the first are woken in
  order, the next are appended in order to the queue of the other address, and the rest stay.
  Only the woken ones are counted, and negative limits count as zero.
\<close>

theorem futex_requeue_splits_queue:
  assumes q: "bt_get (FUTEX_QUEUE_BITMAP s) old_pa = Some q" and fresh: "fresh_queue s q"
    and ne: "old_pa \<noteq> new_pa" and r: "futex_requeue old_pa n new_pa m s = (k, s')"
  shows "k = min (nat n) (length q) \<and> enqueued s' = enqueued s @ map waiter_task (take (nat n) q) \<and>
    queue_at s' = (queue_at s)(old_pa := drop (nat n + nat m) q,
                               new_pa := queue_at s new_pa @ take (nat m) (drop (nat n) q))"
proof -
  let ?s = "bump_futex_queue_version s"
  define s0 where "s0 = ?s\<lparr>FUTEX_QUEUE_BITMAP := bt_remove old_pa (FUTEX_QUEUE_BITMAP s)\<rparr>"
  obtain mv kp k' s1 where l: "requeue_loop (nat n) (nat m) new_pa q s0 = (mv, kp, k', s1)"
    by (metis prod_cases4)
  have b: "fresh_queue s0 q" "enqueued s0 = enqueued s" "FUTEX_QUEUE_BITMAP ?s = FUTEX_QUEUE_BITMAP s"
    using fresh by (simp_all add: fresh_queue_def bump_futex_queue_version_def s0_def)
  from requeue_loop_fifo [OF b(1) l] requeue_loop_keeps [OF l]
  have res: "mv = take (nat m) (drop (nat n) q)" "kp = drop (nat n + nat m) q" "k' = min (nat n) (length q)"
    "enqueued s1 = enqueued s @ map waiter_task (take (nat n) q)"
    "FUTEX_QUEUE_BITMAP s1 = bt_remove old_pa (FUTEX_QUEUE_BITMAP s)"
    using b by (simp_all add: s0_def)
  have "k = k'" "enqueued s' = enqueued s1"
    using r by (auto simp: futex_requeue_def futex_requeue_section_def b(3) q count_limit_def l s0_def [symmetric] Let_def)
  moreover have "queue_at s' = (queue_at s)(old_pa := kp, new_pa := queue_at s new_pa @ mv)"
    using r ne by (auto simp: futex_requeue_def futex_requeue_section_def b(3) q count_limit_def l
        s0_def [symmetric] Let_def queue_at_def fun_eq_iff res(5))
  ultimately show ?thesis using res by simp
qed

text \<open>
  C34.  The exit of a thread finishes its robust list.  However the list is linked, and whatever
  other threads do to the words for a bounded number of rounds, the walk returns, provided that
  every word that can be read can be written.
\<close>

theorem robust_list_exit_terminates:
  assumes quiet: "quiet_from n other" and words: "writable_words m"
  shows "\<exists>m' s'. handle_futex_when_exit env other head pid m s = Some (m', s')"
proof -
  have tail: "(case try_copy_from_user_val 8 head m2 of None \<Rightarrow> Some (m2, s2)
      | Some e \<Rightarrow> robust_walk env other ROBUST_LIST_LIMIT head off pid e m2 s2) \<noteq> None"
    if "same_perms m m2" for off m2 s2
  proof -
    have "writable_words m2" using words that by (simp add: writable_words_def same_perms_def)
    then show ?thesis using robust_walk_returns [OF quiet] by (auto split: option.splits)
  qed
  have "handle_futex_when_exit env other head pid m s \<noteq> None"
  proof (cases "head = 0 \<or> try_copy_from_user_val 8 (wrap64 (head + 8)) m = None \<or>
      try_copy_from_user_val 8 (wrap64 (head + 16)) m = None")
    case True
    then show ?thesis by (auto simp: handle_futex_when_exit_def split: option.splits)
  next
    case False
    then obtain off pending where r: "head \<noteq> 0" "try_copy_from_user_val 8 (wrap64 (head + 8)) m = Some off"
        "try_copy_from_user_val 8 (wrap64 (head + 16)) m = Some pending" by auto
    obtain b m1 s1 where d: "handle_futex_death_entry env other 0 (wrap64 (pending + off)) pid m s = Some (b, m1, s1)"
        "same_perms m m1"
      using death_entry_returns [OF assms] by blast
    have p: "same_perms m (copy_to_user_val 8 (wrap64 (head + 16)) 0 m1)" "same_perms m m"
      using d(2) by (simp_all add: same_perms_def)
    show ?thesis
      using tail [OF p(1)] tail [OF p(2)] by (simp add: handle_futex_when_exit_def r d(1))
  qed
  then show ?thesis by auto
qed

text \<open>
  The version check does not close the race of a wait with a wake.  The value is read before
  the version, so a wake that comes between the two is seen by neither check: the task is queued
  and blocked although the wake came after it read the value, the wake finds nobody, and the task
  sleeps until another one.  A wake that comes after the version is read is noticed.
\<close>

lemma futex_wake_between_reads_is_missed:
  assumes quiet: "\<not> visible_signal (ftasks s t)" and empty: "bt_get (FUTEX_QUEUE_BITMAP s) pa = None"
    and version: "FUTEX_QUEUE_VERSION s < usize_max"
  shows "(\<exists>s'. futex_wait_rounds pa t v b k [(Inr v, \<lambda>s. snd (futex_wake_up pa n s), id)] s = Some (None, s') \<and>
      fstatus (ftasks s' t) = TBlocked \<and> enqueued s' = enqueued s \<and>
      queue_at s' pa = [\<lparr>waiter_task = t, waiter_bitset = b, waiter_key = k\<rparr>]) \<and>
    (u \<noteq> v \<longrightarrow> futex_wait_rounds pa t v b k [(Inr v, id, \<lambda>s. snd (futex_wake_up pa n s)), (Inr u, id, id)] s =
      Some (Some EAGAIN, snd (futex_wake_up pa n s)))"
proof -
  have w: "snd (futex_wake_up pa n s) = bump_futex_queue_version s"
    using empty by (simp add: futex_wake_up_def futex_wake_up_bitset_def futex_wake_section_def bump_futex_queue_version_def)
  have ver: "FUTEX_QUEUE_VERSION (bump_futex_queue_version s) \<noteq> FUTEX_QUEUE_VERSION s"
    using version by (simp add: bump_futex_queue_version_def wrap64_def usize_max_def)
  have "\<exists>s'. futex_wait_rounds pa t v b k [(Inr v, \<lambda>s. snd (futex_wake_up pa n s), id)] s = Some (None, s') \<and>
      fstatus (ftasks s' t) = TBlocked \<and> enqueued s' = enqueued s \<and>
      queue_at s' pa = [\<lparr>waiter_task = t, waiter_bitset = b, waiter_key = k\<rparr>]"
    using quiet empty
    by (simp add: w futex_wait_section_def bump_futex_queue_version_def Let_def set_task_def queue_at_def)
  then show ?thesis
    using ver by (simp add: w futex_wait_section_def Let_def)
qed

section \<open>A stale timer\<close>

text \<open>
  A wait that a signal ends leaves its key and address in the task.  If the queue it emptied is
  then taken away by a requeue, the timer of that wait still matches the key, and finds no queue.
\<close>

lemma stale_timer_panics:
  assumes t: "visible_signal (ftasks s t)" "futex_key (ftasks s t) = k" "k \<noteq> 0" "futex_pa (ftasks s t) = pa"
    and q: "bt_get (FUTEX_QUEUE_BITMAP s) pa = Some [w]" "waiter_key w = k" and ne: "pa \<noteq> pa2"
  shows "fst (futex_wait_finish t s) = Inl EINTR \<and>
    handle_timer t k (snd (futex_requeue pa n pa2 r (snd (futex_wait_finish t s)))) = None"
proof -
  define s1 where "s1 = snd (futex_wait_finish t s)"
  have s1: "bt_get (FUTEX_QUEUE_BITMAP s1) pa = Some []" "ftasks s1 = ftasks s"
    using t q by (simp_all add: s1_def futex_wait_finish_def remove_waiter_def bump_futex_queue_version_def remove_nth_def Let_def)
  define s2 where "s2 = snd (futex_requeue pa n pa2 r s1)"
  have "bt_get (FUTEX_QUEUE_BITMAP s2) pa = None" "ftasks s2 = ftasks s"
    using s1 ne by (simp_all add: s2_def futex_requeue_def futex_requeue_section_def bump_futex_queue_version_def Let_def)
  then have "handle_timer t k s2 = None"
    using t by (simp add: handle_timer_def handle_timer_section_def bump_futex_queue_version_def Let_def)
  moreover have "fst (futex_wait_finish t s) = Inl EINTR"
    using t by (simp add: futex_wait_finish_def Let_def)
  ultimately show ?thesis by (simp add: s1_def s2_def)
qed

section \<open>Instances\<close>

definition idle_task :: futex_task where
  "idle_task = \<lparr>fstatus = TRunning, futex_timedout = False, futex_pa = 0, futex_key = 0,
     visible_signal = False, sigtimedwait_timedout = False, robust_list_head = 0\<rparr>"

definition waiting_task :: "nat \<Rightarrow> nat \<Rightarrow> futex_task" where
  "waiting_task pa key = idle_task\<lparr>fstatus := TBlocked, futex_pa := pa, futex_key := key\<rparr>"

definition waiter :: "nat \<Rightarrow> nat \<Rightarrow> FutexWaiter" where
  "waiter t key = \<lparr>waiter_task = t, waiter_bitset = 1, waiter_key = key\<rparr>"

definition idle_state :: futex_state where
  "idle_state = \<lparr>FUTEX_QUEUE_BITMAP = [], FUTEX_QUEUE_VERSION = 0, FUTEX_KEY_COUNTER = 0, TIMERS = [],
     ftasks = (\<lambda>_. idle_task), alive = (\<lambda>_. True), enqueued = [], interrupted = []\<rparr>"

text \<open>Tasks 1, 2 and 3 wait at address 64, in this order.\<close>

definition three_waiters :: futex_state where
  "three_waiters = idle_state\<lparr>FUTEX_QUEUE_BITMAP := [(64, [waiter 1 1, waiter 2 2, waiter 3 3])], FUTEX_KEY_COUNTER := 3,
     ftasks := (\<lambda>t. if t = 1 then waiting_task 64 1 else if t = 2 then waiting_task 64 2
                    else if t = 3 then waiting_task 64 3 else idle_task)\<rparr>"

lemmas instance_defs = idle_task_def waiting_task_def waiter_def idle_state_def three_waiters_def

lemma three_fresh: "fresh_queue three_waiters [waiter 1 1, waiter 2 2, waiter 3 3]"
  by (simp add: fresh_queue_def waits_for_def instance_defs)

theorem futex_wake_is_fifo_witness:
  "\<exists>k s'. futex_wake_up 64 2 three_waiters = (k, s') \<and> k = 2 \<and> enqueued s' = [1, 2] \<and> queue_at s' 64 = [waiter 3 3]"
proof -
  obtain k s' where r: "futex_wake_up 64 2 three_waiters = (k, s')" by fastforce
  have "bt_get (FUTEX_QUEUE_BITMAP three_waiters) 64 = Some [waiter 1 1, waiter 2 2, waiter 3 3]"
    by (simp add: three_waiters_def)
  from futex_wake_is_fifo [OF this three_fresh r] r show ?thesis
    by (simp add: wake_limit_def three_waiters_def idle_state_def waiter_def)
qed

theorem futex_requeue_splits_queue_witness:
  "\<exists>k s'. futex_requeue 64 1 128 1 three_waiters = (k, s') \<and> k = 1 \<and> enqueued s' = [1] \<and>
     queue_at s' 64 = [waiter 3 3] \<and> queue_at s' 128 = [waiter 2 2]"
proof -
  obtain k s' where r: "futex_requeue 64 1 128 1 three_waiters = (k, s')" by fastforce
  have "bt_get (FUTEX_QUEUE_BITMAP three_waiters) 64 = Some [waiter 1 1, waiter 2 2, waiter 3 3]"
    by (simp add: three_waiters_def)
  from futex_requeue_splits_queue [OF this three_fresh _ r]
  have "k = 1 \<and> enqueued s' = enqueued three_waiters @ [waiter_task (waiter 1 1)] \<and>
      queue_at s' = (queue_at three_waiters)(64 := [waiter 3 3], 128 := queue_at three_waiters 128 @ [waiter 2 2])"
    by simp
  moreover have "queue_at three_waiters 128 = []" "enqueued three_waiters = []" "waiter_task (waiter 1 1) = 1"
    by (simp_all add: queue_at_def three_waiters_def idle_state_def waiter_def)
  ultimately show ?thesis using r by simp
qed

lemma futex_wake_between_reads_is_missed_witness:
  "\<exists>s'. futex_wait_rounds 64 1 0 1 1 [(Inr 0, \<lambda>s. snd (futex_wake_up 64 1 s), id)] idle_state = Some (None, s') \<and>
     fstatus (ftasks s' 1) = TBlocked \<and> enqueued s' = []"
  using futex_wake_between_reads_is_missed [of idle_state 1 64 0 1 1 1 1]
  by (auto simp: instance_defs usize_max_def)

definition waiting_once :: futex_state where
  "waiting_once = idle_state\<lparr>FUTEX_QUEUE_BITMAP := [(64, [waiter 1 1])], FUTEX_KEY_COUNTER := 1,
     ftasks := (\<lambda>_. idle_task)(1 := waiting_task 64 1)\<rparr>"

lemma waiting_once_queued: "futex_wait_section 64 1 0 1 1 (idle_state\<lparr>FUTEX_KEY_COUNTER := 1\<rparr>) = Queued waiting_once"
  by (simp add: futex_wait_section_def waiting_once_def set_task_def Let_def instance_defs)

lemma waiting_once_reached: "futex_reachable (idle_state, \<lambda>_. None) (waiting_once, \<lambda>_. None)"
proof -
  let ?p = "(\<lambda>_. None)(1 \<mapsto> 1) :: nat \<Rightarrow> nat option"
  have "futex_step (idle_state, \<lambda>_. None) (idle_state\<lparr>FUTEX_KEY_COUNTER := 1\<rparr>, ?p)"
    by (rule futex_step.draw) (simp_all add: idle_state_def usize_max_def new_futex_key_def wrap64_def)
  moreover have "futex_step (idle_state\<lparr>FUTEX_KEY_COUNTER := 1\<rparr>, ?p) (waiting_once, ?p(1 := None))"
    by (rule futex_step.wait [OF _ _ waiting_once_queued]) simp_all
  moreover have "?p(1 := None) = (\<lambda>_. None)"
    by (rule ext) simp
  ultimately show ?thesis
    unfolding futex_reachable_def by (simp only: rtranclp.rtrancl_into_rtrancl [OF r_into_rtranclp])
qed

theorem futex_waiter_stays_wakeable_witness:
  "fstatus (ftasks waiting_once 1) = TBlocked \<and>
   fstatus (ftasks (snd (futex_wake_section 64 1 (- 1) waiting_once)) 1) = TReady"
proof -
  have "futex_initial (idle_state, \<lambda>_. None)"
    by (simp add: futex_initial_def idle_state_def idle_task_def blocked_def)
  from futex_waiter_stays_wakeable [OF this waiting_once_reached, of 1 1] show ?thesis
    by (simp add: waiting_once_def instance_defs queue_at_def)
qed

text \<open>A memory in which every byte is zero and may be read and written.\<close>

definition plain_mem :: user_mem where
  "plain_mem = \<lparr>mem_bytes = (\<lambda>_. 0), may_read = (\<lambda>_. True), may_write = (\<lambda>_. True), lacks_page = (\<lambda>_. False), in_use = True\<rparr>"

definition plain_env :: futex_env where
  "plain_env = \<lparr>mem_token = 0, translate = (\<lambda>a. Inr a), user_timeout = Inl EFAULT,
     time_now = \<lparr>ts_sec = 0, ts_nsec = 0\<rparr>, caller = 1, passes = [], asleep = id\<rparr>"

theorem robust_list_exit_terminates_witness:
  "quiet_from 0 (\<lambda>_ m. m) \<and> writable_words plain_mem \<and>
   (\<exists>m' s'. handle_futex_when_exit plain_env (\<lambda>_ m. m) 4096 7 plain_mem idle_state = Some (m', s'))"
proof -
  have q: "quiet_from 0 (\<lambda>_ m. m)" and w: "writable_words plain_mem"
    by (simp_all add: quiet_from_def writable_words_def range_ok_def plain_mem_def)
  with robust_list_exit_terminates [OF q w] show ?thesis by blast
qed

end
