(* ===== verification/Linked_List.thy ===== *)
theory Linked_List
  imports Prelude
begin

text \<open>
  \<^verbatim>\<open>crates/buddy_system_allocator/src/linked_list.rs\<close>: the intrusive list of free blocks.  The link of
  an item is stored in the item itself, so the list lives in the memory it manages: the store maps
  an address to the word at it, and 0 is the null pointer.  The operations are shown to act as
  operations on the sequence of items and to leave every other word alone.
\<close>

section \<open>Operations\<close>

type_synonym store = "nat \<Rightarrow> nat"

record LinkedList =
  head :: nat

definition LinkedList_new :: LinkedList where
  "LinkedList_new = \<lparr>head = 0\<rparr>"

definition list_is_empty :: "LinkedList \<Rightarrow> bool" where
  "list_is_empty l \<longleftrightarrow> head l = 0"

definition list_push :: "nat \<Rightarrow> store \<times> LinkedList \<Rightarrow> store \<times> LinkedList" where
  "list_push item = (\<lambda>(m, l). (m(item := head l), l\<lparr>head := item\<rparr>))"

definition list_pop :: "store \<times> LinkedList \<Rightarrow> nat option \<times> store \<times> LinkedList" where
  "list_pop = (\<lambda>(m, l).
     if list_is_empty l then (None, m, l) else (Some (head l), m, l\<lparr>head := m (head l)\<rparr>))"

text \<open>\<^verbatim>\<open>Iter::next\<close>: the item under the cursor and the cursor after it.\<close>

definition iter_list_next :: "store \<Rightarrow> nat \<Rightarrow> (nat \<times> nat) option" where
  "iter_list_next m cur = (if cur = 0 then None else Some (cur, m cur))"

text \<open>The place a mutable iterator comes from: the head field of the list, or the link of an item.\<close>

datatype link = AtHead | AtItem nat

record ListNode =
  node_prev :: link
  node_curr :: nat

definition node_pop :: "ListNode \<Rightarrow> store \<times> LinkedList \<Rightarrow> nat \<times> store \<times> LinkedList" where
  "node_pop n = (\<lambda>(m, l).
     (node_curr n,
      (case node_prev n of
         AtHead \<Rightarrow> (m, l\<lparr>head := m (node_curr n)\<rparr>)
       | AtItem a \<Rightarrow> (m(a := m (node_curr n)), l))))"

definition node_value :: "ListNode \<Rightarrow> nat" where
  "node_value n = node_curr n"

definition iter_mut :: "LinkedList \<Rightarrow> ListNode" where
  "iter_mut l = \<lparr>node_prev = AtHead, node_curr = head l\<rparr>"

definition iter_mut_next :: "store \<Rightarrow> ListNode \<Rightarrow> (ListNode \<times> ListNode) option" where
  "iter_mut_next m it =
     (if node_curr it = 0 then None
      else Some (it, \<lparr>node_prev = AtItem (node_curr it), node_curr = m (node_curr it)\<rparr>))"

text \<open>
  The search the allocator makes: the first node whose address is \<open>b\<close> is taken out.  On a cyclic
  chain of links the search does not end, which is \<open>None\<close>.
\<close>

partial_function (option) search_remove ::
    "nat \<Rightarrow> ListNode \<Rightarrow> store \<times> LinkedList \<Rightarrow> (bool \<times> store \<times> LinkedList) option" where
  "search_remove b it s =
     (case iter_mut_next (fst s) it of
        None \<Rightarrow> Some (False, s)
      | Some (node, it') \<Rightarrow>
          if node_value node = b then Some (True, snd (node_pop node s)) else search_remove b it' s)"

section \<open>The sequence a list stands for\<close>

fun chain :: "store \<Rightarrow> nat \<Rightarrow> nat list \<Rightarrow> bool" where
  "chain m p [] \<longleftrightarrow> p = 0"
| "chain m p (x # xs) \<longleftrightarrow> p = x \<and> x \<noteq> 0 \<and> chain m (m x) xs"

definition holds :: "store \<times> LinkedList \<Rightarrow> nat list \<Rightarrow> bool" where
  "holds s xs \<longleftrightarrow> chain (fst s) (head (snd s)) xs"

lemma chain_update [simp]: "a \<notin> set xs \<Longrightarrow> chain (m(a := v)) p xs = chain m p xs"
  by (induction xs arbitrary: p) auto

lemma chain_unique: "chain m p xs \<Longrightarrow> chain m p ys \<Longrightarrow> xs = ys"
proof (induction xs arbitrary: p ys)
  case Nil
  then show ?case by (cases ys) auto
next
  case (Cons x xs)
  then show ?case by (cases ys) auto
qed

lemma chain_append: "chain m p (xs @ ys) \<Longrightarrow> \<exists>q. chain m q ys"
  by (induction xs arbitrary: p) auto

lemma chain_head_not_again: "chain m x (x # xs) \<Longrightarrow> x \<notin> set xs"
proof
  assume c: "chain m x (x # xs)" and "x \<in> set xs"
  then obtain us vs where xs: "xs = us @ x # vs" by (auto simp: in_set_conv_decomp)
  from c xs obtain q where "chain m q (x # vs)" using chain_append [of m x "x # us" "x # vs"] by auto
  then have "chain m x (x # vs)" by simp
  from chain_unique [OF c this] show False using xs by simp
qed

lemma chain_distinct: "chain m p xs \<Longrightarrow> distinct xs"
proof (induction xs arbitrary: p)
  case (Cons x xs)
  then show ?case using chain_head_not_again [of m x xs] by auto
qed simp

lemma push_holds: "holds s xs \<Longrightarrow> item \<noteq> 0 \<Longrightarrow> item \<notin> set xs \<Longrightarrow> holds (list_push item s) (item # xs)"
  by (cases s) (simp add: holds_def list_push_def)

lemma pop_holds:
  "holds s xs \<Longrightarrow>
     (case xs of [] \<Rightarrow> list_pop s = (None, s) | x # xs' \<Rightarrow> fst (list_pop s) = Some x \<and> holds (snd (list_pop s)) xs')"
  by (cases s; cases xs) (auto simp: holds_def list_pop_def list_is_empty_def)

text \<open>The mutable iterator in front of \<open>ys\<close>, having passed \<open>us\<close>.\<close>

definition at_node :: "store \<times> LinkedList \<Rightarrow> nat list \<Rightarrow> nat list \<Rightarrow> ListNode \<Rightarrow> bool" where
  "at_node s us ys it \<longleftrightarrow> holds s (us @ ys) \<and> chain (fst s) (node_curr it) ys \<and>
     node_prev it = (if us = [] then AtHead else AtItem (last us))"

lemma at_start: "holds s xs \<Longrightarrow> at_node s [] xs (iter_mut (snd s))"
  by (simp add: at_node_def iter_mut_def holds_def)

lemma chain_cut:
  "chain m p (us @ y # ys) \<Longrightarrow> us \<noteq> [] \<Longrightarrow> chain (m(last us := m y)) p (us @ ys)"
proof (induction us arbitrary: p)
  case (Cons u us)
  have d: "u \<notin> set (us @ y # ys)"
    using chain_distinct [OF Cons.prems(1)] by simp
  show ?case
  proof (cases "us = []")
    case True
    from Cons.prems True have "p = u" "u \<noteq> 0" "chain m (m y) ys" "u \<notin> set ys" using d by auto
    with True chain_update [of u ys m "m y" "m y"] show ?thesis by (simp only: last.simps append.simps chain.simps fun_upd_same) simp
  next
    case False
    have "last us \<in> set us" using False by simp
    with d have "last us \<noteq> u" by auto
    with Cons.IH [of "m u"] Cons.prems False show ?thesis by simp
  qed
qed simp

lemma node_pop_holds:
  assumes "at_node s us (y # ys) it"
  shows "holds (snd (node_pop it s)) (us @ ys)"
proof -
  obtain m l where s: "s = (m, l)" by (cases s)
  from assms have c: "chain m (head l) (us @ y # ys)" and y: "node_curr it = y"
    and p: "node_prev it = (if us = [] then AtHead else AtItem (last us))"
    by (auto simp: at_node_def holds_def s)
  show ?thesis
    using c y p chain_cut [OF c] by (cases "us = []") (auto simp: node_pop_def holds_def s)
qed

lemma at_next:
  assumes "at_node s us (y # ys) it"
  shows "\<exists>it'. iter_mut_next (fst s) it = Some (it, it') \<and> node_value it = y \<and> at_node s (us @ [y]) ys it'"
  using assms by (auto simp: at_node_def iter_mut_next_def node_value_def)

lemma search_remove_holds:
  "at_node s us ys it \<Longrightarrow>
     \<exists>s'. search_remove b it s = Some (b \<in> set ys, s') \<and> holds s' (us @ remove1 b ys)"
proof (induction ys arbitrary: us it)
  case Nil
  then show ?case
    by (subst search_remove.simps) (auto simp: at_node_def iter_mut_next_def)
next
  case (Cons y ys)
  from at_next [OF Cons.prems] obtain it' where n: "iter_mut_next (fst s) it = Some (it, it')"
    "node_value it = y" "at_node s (us @ [y]) ys it'" by blast
  show ?case
  proof (cases "y = b")
    case True
    with n node_pop_holds [OF Cons.prems] show ?thesis
      by (subst search_remove.simps) auto
  next
    case False
    with n Cons.IH [OF n(3)] show ?thesis
      by (subst search_remove.simps) auto
  qed
qed

section \<open>Property\<close>

text \<open>
  C30.  The intrusive list is a list.  On a store that holds a chain of items, pushing a new item puts
  it first, popping takes the first one, and the search ends and takes out exactly the item looked
  for, also when it is the first or the last one; items of another list are not touched by a push.
\<close>

theorem linked_list_refines_list:
  assumes h: "holds (m, l) xs" and item: "item \<noteq> 0" "item \<notin> set xs"
  shows "holds (list_push item (m, l)) (item # xs) \<and>
    (xs \<noteq> [] \<longrightarrow> fst (list_pop (m, l)) = Some (hd xs) \<and> holds (snd (list_pop (m, l))) (tl xs)) \<and>
    (\<exists>s'. search_remove b (iter_mut l) (m, l) = Some (b \<in> set xs, s') \<and> holds s' (remove1 b xs)) \<and>
    (item \<notin> set ys \<longrightarrow> holds (m, l2) ys \<longrightarrow> holds (fst (list_push item (m, l)), l2) ys)"
proof -
  have "\<exists>s'. search_remove b (iter_mut l) (m, l) = Some (b \<in> set xs, s') \<and> holds s' (remove1 b xs)"
    using search_remove_holds [OF at_start [OF h], of b] by simp
  moreover have "xs \<noteq> [] \<longrightarrow> fst (list_pop (m, l)) = Some (hd xs) \<and> holds (snd (list_pop (m, l))) (tl xs)"
    using pop_holds [OF h] by (cases xs) auto
  moreover have "item \<notin> set ys \<longrightarrow> holds (m, l2) ys \<longrightarrow> holds (fst (list_push item (m, l)), l2) ys"
    by (simp add: holds_def list_push_def)
  ultimately show ?thesis using push_holds [OF h item] by simp
qed

theorem linked_list_refines_list_witness:
  "holds ((\<lambda>_. 0)(64 := 128), \<lparr>head = 64\<rparr>) [64, 128] \<and>
   (\<exists>s'. search_remove 128 (iter_mut \<lparr>head = 64\<rparr>) ((\<lambda>_. 0)(64 := 128), \<lparr>head = 64\<rparr>) = Some (True, s') \<and> holds s' [64])"
  using linked_list_refines_list [of "(\<lambda>_. 0)(64 := 128)" "\<lparr>head = 64\<rparr>" "[64, 128]" 32 128 "[]" "\<lparr>head = 0\<rparr>"]
  by (simp add: holds_def)

end
