(* ===== verification/Powers.thy ===== *)
theory Powers
  imports Prelude "HOL-Library.Log_Nat" "HOL-Library.Word"
begin

text \<open>
  The operations on powers of two that Rust has for \<^verbatim>\<open>usize\<close> and that the allocators use:
  \<^verbatim>\<open>next_power_of_two\<close>, \<^verbatim>\<open>trailing_zeros\<close>, \<^verbatim>\<open>leading_zeros\<close>, the lowest set bit of a number as
  \<^verbatim>\<open>x & (!x + 1)\<close>, and the buddy of a block as \<^verbatim>\<open>x ^ (1 << k)\<close>.
\<close>

unbundle bit_operations_syntax

definition next_power_of_two :: "nat \<Rightarrow> nat" where
  "next_power_of_two n = 2 ^ floorlog 2 (n - 1)"

definition leading_zeros :: "nat \<Rightarrow> nat" where
  "leading_zeros n = 64 - floorlog 2 n"

fun trailing_zeros :: "nat \<Rightarrow> nat" where
  "trailing_zeros n = (if n = 0 then 64 else if even n then Suc (trailing_zeros (n div 2)) else 0)"

declare trailing_zeros.simps [simp del]

definition lowbit :: "nat \<Rightarrow> nat" where
  "lowbit x = x AND wrap64 (2 ^ 64 - x)"

lemma floorlog_power: "n < 2 ^ floorlog 2 n"
  using floorlog_bounds [of n 2] by (cases "n = 0") auto

lemma next_power_of_two_ge: "n \<le> next_power_of_two n"
proof (cases n)
  case (Suc m)
  have "m < 2 ^ floorlog 2 m" by (rule floorlog_power)
  then show ?thesis by (simp add: next_power_of_two_def Suc)
qed simp

lemma next_power_of_two_least:
  assumes "n \<le> 2 ^ k"
  shows "next_power_of_two n \<le> 2 ^ k"
proof -
  have "floorlog 2 (n - 1) \<le> k"
    using assms by (intro floorlog_leI) (cases n; auto)+
  then show ?thesis by (simp add: next_power_of_two_def)
qed

lemma next_power_of_two_pow: "\<exists>k. next_power_of_two n = 2 ^ k"
  by (auto simp: next_power_of_two_def)

lemma trailing_zeros_odd [simp]: "odd n \<Longrightarrow> trailing_zeros n = 0"
  by (subst trailing_zeros.simps) (auto simp: odd_pos)

lemma trailing_zeros_double [simp]: "0 < n \<Longrightarrow> trailing_zeros (2 * n) = Suc (trailing_zeros n)"
  by (subst trailing_zeros.simps) auto

lemma trailing_zeros_0 [simp]: "trailing_zeros 0 = 64"
  by (subst trailing_zeros.simps) simp

lemma trailing_zeros_numeral [simp]:
  "trailing_zeros (Suc 0) = 0" "trailing_zeros (numeral (Num.Bit0 n)) = Suc (trailing_zeros (numeral n))"
  "trailing_zeros (numeral (Num.Bit1 n)) = 0"
  by (subst trailing_zeros.simps, simp)+

lemma floorlog_numeral [simp]:
  "floorlog 2 (Suc 0) = Suc 0" "floorlog 2 (numeral (Num.Bit0 n)) = Suc (floorlog 2 (numeral n))"
  "floorlog 2 (numeral (Num.Bit1 n)) = Suc (floorlog 2 (numeral n))"
  by (subst compute_floorlog, simp)+

lemma trailing_zeros_word: "0 < n \<Longrightarrow> 8 dvd n \<Longrightarrow> 3 \<le> trailing_zeros n"
proof -
  assume "0 < n" "8 dvd n"
  then obtain m where m: "n = 2 * (2 * (2 * m))" "0 < m" by (auto elim!: dvdE)
  show ?thesis unfolding m(1) using m(2) by (simp only: trailing_zeros_double nat_0_less_mult_iff zero_less_numeral simp_thms)
qed

lemma trailing_zeros_power [simp]: "trailing_zeros (2 ^ k) = k"
  by (induction k) auto

lemma trailing_zeros_decomp: "0 < n \<Longrightarrow> \<exists>m. odd m \<and> n = 2 ^ trailing_zeros n * m"
proof (induction n rule: less_induct)
  case (less n)
  show ?case
  proof (cases "even n")
    case True
    then obtain k where k: "n = 2 * k" by blast
    with less.prems have "0 < k" "k < n" by auto
    with less.IH [of k] obtain m where m: "odd m" "k = 2 ^ trailing_zeros k * m" by auto
    have "n = 2 ^ trailing_zeros n * m"
      using k \<open>0 < k\<close> m(2) by simp
    with m(1) show ?thesis by blast
  next
    case False
    then show ?thesis by auto
  qed
qed

lemma odd_and_minus: "odd m \<Longrightarrow> m AND (- m) = (1 :: int)"
proof -
  assume "odd m"
  then obtain k where m: "m = 2 * k + 1" by (elim oddE)
  have "m AND - m = (2 * k + 1) AND (2 * NOT k + 1)"
    by (simp add: m not_int_def algebra_simps)
  also have "\<dots> = 1 + 2 * (k AND NOT k)"
    by (simp add: and_int_rec [of "2 * k + 1"])
  finally show ?thesis by simp
qed

lemma int_and_minus: "odd m \<Longrightarrow> int (2 ^ k * m) AND - int (2 ^ k * m) = 2 ^ k"
proof -
  assume m: "odd m"
  have "int (2 ^ k * m) = push_bit k (int m)" "- int (2 ^ k * m) = push_bit k (- int m)"
    by (simp_all add: push_bit_eq_mult)
  then have "int (2 ^ k * m) AND - int (2 ^ k * m) = push_bit k (int m AND - int m)"
    by (simp only: push_bit_and)
  also have "int m AND - int m = 1" using m by (intro odd_and_minus) simp
  finally show ?thesis by (simp add: push_bit_eq_mult)
qed

lemma lowbit_power:
  assumes "0 < x" "x < 2 ^ 64"
  shows "lowbit x = 2 ^ trailing_zeros x"
proof -
  define k where "k = trailing_zeros x"
  obtain m where m: "odd m" "x = 2 ^ k * m"
    using trailing_zeros_decomp [OF assms(1)] k_def by blast
  have "2 ^ k \<le> x"
    using m assms(1) by simp
  then have k: "(2 :: int) ^ k < 2 ^ 64"
    using assms(2) by (metis of_nat_less_numeral_power_cancel_iff of_nat_numeral of_nat_power order_le_less_trans)
  have "(- int x) mod 2 ^ 64 = 2 ^ 64 - int x"
    using assms by (simp add: zmod_zminus1_eq_if)
  then have "int (wrap64 (2 ^ 64 - x)) = take_bit 64 (- int x)"
    using assms by (simp add: wrap64_def take_bit_eq_mod of_nat_diff)
  then have "int (lowbit x) = int x AND take_bit 64 (- int x)"
    by (simp add: lowbit_def of_nat_and_eq)
  also have "\<dots> = take_bit 64 (int x AND - int x)"
    using assms by (simp add: take_bit_and take_bit_int_eq_self)
  also have "int x AND - int x = 2 ^ k"
    using int_and_minus [OF m(1)] m(2) by simp
  also have "take_bit 64 (2 ^ k) = (2 ^ k :: int)"
    using k by (intro take_bit_int_eq_self) simp_all
  finally show ?thesis unfolding k_def by (metis of_nat_eq_iff of_nat_numeral of_nat_power)
qed

lemma lowbit_0 [simp]: "lowbit 0 = 0"
  by (simp add: lowbit_def)

lemma lowbit_dvd: "0 < x \<Longrightarrow> x < 2 ^ 64 \<Longrightarrow> lowbit x dvd x"
  using trailing_zeros_decomp [of x] by (metis dvd_triv_left lowbit_power)

text \<open>The buddy of a block of size \<open>2 ^ k\<close>.\<close>

definition buddy_of :: "nat \<Rightarrow> nat \<Rightarrow> nat" where
  "buddy_of k a = a XOR push_bit k 1"

lemma unset_bit_nat: "bit a k \<Longrightarrow> unset_bit k a = a - (2 :: nat) ^ k"
proof -
  assume "bit a k"
  then have "set_bit k (unset_bit k a) = a"
    by (intro bit_eqI) (auto simp: bit_set_bit_iff bit_unset_bit_iff)
  moreover have "set_bit k (unset_bit k a) = unset_bit k a + 2 ^ k"
    by (simp add: set_bit_eq bit_unset_bit_iff)
  ultimately show ?thesis by simp
qed

lemma buddy_eq: "buddy_of k a = (if odd (a div 2 ^ k) then a - 2 ^ k else a + 2 ^ k)"
proof -
  have "buddy_of k a = (if bit a k then unset_bit k a else set_bit k a)"
    unfolding buddy_of_def flip_bit_eq_xor [symmetric] flip_bit_eq_if by simp
  then show ?thesis
    by (simp add: unset_bit_nat set_bit_eq bit_iff_odd)
qed

lemma buddy_cases:
  assumes "2 ^ k dvd a"
  obtains (low) "2 ^ Suc k dvd a" "buddy_of k a = a + 2 ^ k" "min a (buddy_of k a) = a"
  | (high) b where "a = b + 2 ^ k" "2 ^ Suc k dvd b" "buddy_of k a = b" "min a (buddy_of k a) = b"
proof (cases "odd (a div 2 ^ k)")
  case False
  then have "2 ^ Suc k dvd a"
    using assms by (auto elim!: dvdE)
  with False show ?thesis using low by (simp add: buddy_eq)
next
  case True
  with assms obtain j where a: "a = 2 ^ k * (2 * j + 1)"
    by (auto elim!: dvdE oddE)
  have "odd (a div 2 ^ k)" by fact
  moreover have "a = 2 ^ Suc k * j + 2 ^ k" using a by (simp add: algebra_simps)
  ultimately show ?thesis
    using high [of "2 ^ Suc k * j"] by (simp add: buddy_eq)
qed

end
