(* ===== verification/Memory_Contract.thy ===== *)
theory Memory_Contract
  imports Prelude
begin

text \<open>
  What the owners of memory rely on.  The locale \<open>byte_allocator\<close> states the contract of an allocator
  by the number of free blocks that contain each byte: an allocation takes the bytes of one block
  from the free ones, a release returns them.  The client lemma \<open>run_keeps\<close> is proved once and holds
  for every allocator of the kernel: the buddy heap, the contiguous pages, the page cache and the
  memory manager built from them.
\<close>

text \<open>1 when the byte \<open>x\<close> lies in the \<open>n\<close> bytes from \<open>a\<close>, and 0 otherwise.\<close>

definition inside :: "nat \<Rightarrow> nat \<Rightarrow> nat \<Rightarrow> nat" where
  "inside a n x = of_bool (a \<le> x \<and> x < a + n)"

lemma inside_iff: "inside a n x = 1 \<longleftrightarrow> a \<le> x \<and> x < a + n"
  by (simp add: inside_def)

text \<open>
  A client takes blocks and gives them back in any order.  \<open>Give n\<close> gives back the \<open>n\<close>-th of the
  blocks it holds.
\<close>

datatype 'l mem_op = Take 'l | Give nat

fun mem_run :: "('l \<Rightarrow> 'h \<Rightarrow> (nat option \<times> 'h) option) \<Rightarrow> (nat \<Rightarrow> 'l \<Rightarrow> 'h \<Rightarrow> 'h option) \<Rightarrow>
    'l mem_op list \<Rightarrow> 'h \<Rightarrow> (nat \<times> 'l) list \<Rightarrow> ('h \<times> (nat \<times> 'l) list) option" where
  "mem_run alloc dealloc [] h held = Some (h, held)"
| "mem_run alloc dealloc (Take l # ops) h held =
     (case alloc l h of
        None \<Rightarrow> None
      | Some (None, h') \<Rightarrow> mem_run alloc dealloc ops h' held
      | Some (Some p, h') \<Rightarrow> mem_run alloc dealloc ops h' ((p, l) # held))"
| "mem_run alloc dealloc (Give n # ops) h held =
     (if n < length held then
        case dealloc (fst (held ! n)) (snd (held ! n)) h of
          None \<Rightarrow> None
        | Some h' \<Rightarrow> mem_run alloc dealloc ops h' (remove_nth n held)
      else mem_run alloc dealloc ops h held)"

definition held_cover :: "('l \<Rightarrow> nat) \<Rightarrow> (nat \<times> 'l) list \<Rightarrow> nat \<Rightarrow> nat" where
  "held_cover room held x = (\<Sum>(p, l)\<leftarrow>held. inside p (room l) x)"

definition op_valid :: "('l \<Rightarrow> bool) \<Rightarrow> 'l mem_op \<Rightarrow> bool" where
  "op_valid valid o1 = (case o1 of Take l \<Rightarrow> valid l | Give n \<Rightarrow> True)"

lemma held_cover_simps [simp]:
  "held_cover room [] x = 0" "held_cover room ((p, l) # held) x = inside p (room l) x + held_cover room held x"
  by (simp_all add: held_cover_def)

lemma held_cover_remove:
  "n < length held \<Longrightarrow> held_cover room held x =
     inside (fst (held ! n)) (room (snd (held ! n))) x + held_cover room (remove_nth n held) x"
proof (induction held arbitrary: n)
  case (Cons e held)
  then show ?case by (cases n; cases e) (auto simp: remove_nth_def)
qed simp

locale byte_allocator =
  fixes good :: "'h \<Rightarrow> bool" and free :: "'h \<Rightarrow> nat \<Rightarrow> nat"
    and valid :: "'l \<Rightarrow> bool" and room :: "'l \<Rightarrow> nat" and placed :: "nat \<Rightarrow> 'l \<Rightarrow> bool"
    and alloc :: "'l \<Rightarrow> 'h \<Rightarrow> (nat option \<times> 'h) option"
    and dealloc :: "nat \<Rightarrow> 'l \<Rightarrow> 'h \<Rightarrow> 'h option"
  assumes alloc_law: "good h \<Longrightarrow> valid l \<Longrightarrow> \<exists>r h'. alloc l h = Some (r, h') \<and> good h' \<and>
      (case r of None \<Rightarrow> free h' = free h
       | Some p \<Rightarrow> placed p l \<and> (\<forall>x. free h x = free h' x + inside p (room l) x))"
    and dealloc_law: "good h \<Longrightarrow> valid l \<Longrightarrow> placed p l \<Longrightarrow> (\<And>x. free h x + inside p (room l) x \<le> 1) \<Longrightarrow>
      \<exists>h'. dealloc p l h = Some h' \<and> good h' \<and> (\<forall>x. free h' x = free h x + inside p (room l) x)"
begin

definition holding :: "'h \<Rightarrow> (nat \<times> 'l) list \<Rightarrow> bool" where
  "holding h held \<longleftrightarrow> good h \<and> (\<forall>(p, l) \<in> set held. valid l \<and> placed p l) \<and> (\<forall>x. free h x + held_cover room held x \<le> 1)"

lemma take_step:
  assumes "holding h held" "valid l"
  shows "\<exists>r h'. alloc l h = Some (r, h') \<and>
    (let held' = (case r of None \<Rightarrow> held | Some p \<Rightarrow> (p, l) # held)
     in holding h' held' \<and> (\<forall>x. free h' x + held_cover room held' x = free h x + held_cover room held x))"
proof -
  from alloc_law [of h l] assms obtain r h' where a: "alloc l h = Some (r, h')" "good h'"
      "case r of None \<Rightarrow> free h' = free h
       | Some p \<Rightarrow> placed p l \<and> (\<forall>x. free h x = free h' x + inside p (room l) x)"
    unfolding holding_def by blast
  show ?thesis
  proof (cases r)
    case None
    with a assms show ?thesis by (auto simp: holding_def)
  next
    case (Some p)
    with a have "placed p l" and f: "\<And>x. free h x = free h' x + inside p (room l) x" by auto
    moreover have "free h' x + held_cover room ((p, l) # held) x = free h x + held_cover room held x" for x
      using f [of x] by simp
    ultimately show ?thesis using a assms Some by (auto simp: holding_def add.assoc)
  qed
qed

lemma give_step:
  assumes "holding h held" "n < length held"
  shows "\<exists>h'. dealloc (fst (held ! n)) (snd (held ! n)) h = Some h' \<and> holding h' (remove_nth n held) \<and>
    (\<forall>x. free h' x + held_cover room (remove_nth n held) x = free h x + held_cover room held x)"
proof -
  obtain p l where e: "held ! n = (p, l)" by fastforce
  then have pl: "(p, l) \<in> set held" using assms(2) by (metis nth_mem)
  have split: "held_cover room held x = inside p (room l) x + held_cover room (remove_nth n held) x" for x
    using held_cover_remove [OF assms(2), of room x] e by simp
  have once: "free h x + inside p (room l) x \<le> 1" for x
  proof -
    have "free h x + held_cover room held x \<le> 1" using assms(1) by (simp add: holding_def)
    with split [of x] show ?thesis by linarith
  qed
  have "good h" "valid l" "placed p l" using assms(1) pl by (auto simp: holding_def)
  from dealloc_law [OF this once] obtain h' where h': "dealloc p l h = Some h'" "good h'"
      "\<And>x. free h' x = free h x + inside p (room l) x" by blast
  have sum: "free h' x + held_cover room (remove_nth n held) x = free h x + held_cover room held x" for x
    using h'(3) [of x] split [of x] by simp
  have "holding h' (remove_nth n held)"
    unfolding holding_def sum using h'(2) assms(1) set_remove_nth [of n held] by (auto simp: holding_def)
  with sum h'(1) e show ?thesis by simp
qed

lemma run_keeps:
  "holding h held \<Longrightarrow> list_all (op_valid valid) ops \<Longrightarrow>
     \<exists>h' held'. mem_run alloc dealloc ops h held = Some (h', held') \<and> holding h' held' \<and>
       (\<forall>x. free h' x + held_cover room held' x = free h x + held_cover room held x)"
proof (induction ops arbitrary: h held)
  case Nil
  then show ?case by simp
next
  case (Cons o1 ops)
  show ?case
  proof (cases o1)
    case (Take l)
    with Cons.prems have "valid l" by (simp add: op_valid_def)
    from take_step [OF Cons.prems(1) this] obtain r h' where t: "alloc l h = Some (r, h')"
        "holding h' (case r of None \<Rightarrow> held | Some p \<Rightarrow> (p, l) # held)"
        "\<forall>x. free h' x + held_cover room (case r of None \<Rightarrow> held | Some p \<Rightarrow> (p, l) # held) x = free h x + held_cover room held x"
      by (auto simp: Let_def)
    from Cons.IH [OF t(2)] Cons.prems(2) t(1,3) Take show ?thesis by (cases r) auto
  next
    case (Give n)
    show ?thesis
    proof (cases "n < length held")
      case True
      from give_step [OF Cons.prems(1) True] Cons.IH Cons.prems(2) Give True show ?thesis by fastforce
    next
      case False
      with Cons Give show ?thesis by simp
    qed
  qed
qed

end

end
