(* ===== verification/Buddy.thy ===== *)
theory Buddy
  imports Linked_List Powers Memory_Contract
begin

text \<open>
  \<^verbatim>\<open>crates/buddy_system_allocator/src/lib.rs\<close>: the buddy allocator behind the kernel heap and the
  physical page allocator.  A free list is the sequence of its block addresses, which theory
  \<open>Linked_List\<close> justifies.  \<open>None\<close> is a panic: an index beyond the largest order, or a failed
  \<^verbatim>\<open>expect\<close>.  The contract of theory \<open>Memory_Contract\<close> is interpreted on the heap with its two
  ways of giving memory back.
\<close>

section \<open>Operations\<close>

definition MAX_ORDER :: nat where "MAX_ORDER = 35"

definition WORD :: nat where "WORD = 8"

record Heap =
  free_list :: "nat list list"
  h_user :: nat
  h_allocated :: nat
  h_total :: nat

definition Heap_new :: Heap where
  "Heap_new = \<lparr>free_list = replicate MAX_ORDER [], h_user = 0, h_allocated = 0, h_total = 0\<rparr>"

definition push_block :: "nat \<Rightarrow> nat \<Rightarrow> nat list list \<Rightarrow> nat list list" where
  "push_block i a fl = fl[i := a # fl ! i]"

definition prev_power_of_two :: "nat \<Rightarrow> nat" where
  "prev_power_of_two n = 2 ^ (64 - leading_zeros n - 1)"

text \<open>\<^verbatim>\<open>x & (!8 + 1)\<close>\<close>

definition word_floor :: "nat \<Rightarrow> nat" where
  "word_floor x = x AND (2 ^ 64 - WORD)"

definition piece_size :: "nat \<Rightarrow> nat \<Rightarrow> nat" where
  "piece_size start stop = min (lowbit start) (prev_power_of_two (stop - start))"

function add_pieces :: "nat \<Rightarrow> nat \<Rightarrow> nat \<Rightarrow> nat list list \<Rightarrow> (nat \<times> nat list list) option" where
  "add_pieces start stop acc fl =
     (if start + WORD \<le> stop then
        let size = piece_size start stop in
        if MAX_ORDER \<le> trailing_zeros size then None
        else add_pieces (start + size) stop (acc + size) (push_block (trailing_zeros size) start fl)
      else Some (acc, fl))"
  by pat_completeness auto
termination
proof (relation "measure (\<lambda>(start, stop, acc, fl). stop - start)", goal_cases)
  case (2 start stop acc fl size)
  then have "size \<noteq> 0" by (auto simp: MAX_ORDER_def intro!: Nat.gr0I)
  with 2 show ?case by (simp add: WORD_def)
qed simp

declare add_pieces.simps [simp del]

definition add_to_heap :: "nat \<Rightarrow> nat \<Rightarrow> Heap \<Rightarrow> Heap option" where
  "add_to_heap start stop h =
     (let s = word_floor (wrap64 (start + WORD - 1)); e = word_floor stop in
      if s \<le> e then
        map_option (\<lambda>(total, fl). h\<lparr>free_list := fl, h_total := wrap64 (h_total h + total)\<rparr>)
          (add_pieces s e 0 (free_list h))
      else None)"

definition heap_init :: "nat \<Rightarrow> nat \<Rightarrow> Heap \<Rightarrow> Heap option" where
  "heap_init start len h = add_to_heap start (wrap64 (start + len)) h"

record Layout =
  l_size :: nat
  l_align :: nat

definition block_size :: "Layout \<Rightarrow> nat" where
  "block_size l = max (next_power_of_two (l_size l)) (max (l_align l) WORD)"

definition class_of :: "Layout \<Rightarrow> nat" where
  "class_of l = trailing_zeros (block_size l)"

text \<open>The blocks are split from order \<open>i\<close> down to order \<open>c\<close>; \<open>False\<close> when a list turns out empty.\<close>

fun split_blocks :: "nat \<Rightarrow> nat \<Rightarrow> nat list list \<Rightarrow> bool \<times> nat list list" where
  "split_blocks c 0 fl = (True, fl)"
| "split_blocks c (Suc j) fl =
     (if Suc j \<le> c then (True, fl)
      else case fl ! Suc j of
             [] \<Rightarrow> (False, fl)
           | b # rest \<Rightarrow> split_blocks c j (push_block j b (push_block j (b + 2 ^ j) (fl[Suc j := rest]))))"

definition heap_alloc :: "Layout \<Rightarrow> Heap \<Rightarrow> (nat option \<times> Heap) option" where
  "heap_alloc l h =
     (let size = block_size l; c = class_of l in
      case find (\<lambda>i. free_list h ! i \<noteq> []) [c..<MAX_ORDER] of
        None \<Rightarrow> Some (None, h)
      | Some i \<Rightarrow>
          (case split_blocks c i (free_list h) of
             (False, fl) \<Rightarrow> Some (None, h\<lparr>free_list := fl\<rparr>)
           | (True, fl) \<Rightarrow>
               (case fl ! c of
                  [] \<Rightarrow> None
                | p # rest \<Rightarrow>
                    let h1 = h\<lparr>free_list := fl[c := rest]\<rparr> in
                    if p = 0 then Some (None, h1)
                    else Some (Some p, h1\<lparr>h_user := wrap64 (h_user h + l_size l),
                                          h_allocated := wrap64 (h_allocated h + size)\<rparr>))))"

text \<open>The search takes the buddy out of the list, and \<^verbatim>\<open>pop\<close> then the block that was pushed last.\<close>

function merge_buddies :: "nat \<Rightarrow> nat \<Rightarrow> nat list list \<Rightarrow> nat list list" where
  "merge_buddies c p fl =
     (if c + 1 < MAX_ORDER then
        let b = buddy_of c p in
        if b \<in> set (fl ! c)
        then merge_buddies (c + 1) (min p b) (push_block (c + 1) (min p b) (fl[c := tl (remove1 b (fl ! c))]))
        else fl
      else fl)"
  by pat_completeness auto
termination by (relation "measure (\<lambda>(c, p, fl). MAX_ORDER - c)") auto

declare merge_buddies.simps [simp del]

definition settle_stats :: "Layout \<Rightarrow> Heap \<Rightarrow> Heap" where
  "settle_stats l h = h\<lparr>h_user := sub64 (h_user h) (l_size l), h_allocated := sub64 (h_allocated h) (block_size l)\<rparr>"

definition heap_dealloc :: "nat \<Rightarrow> Layout \<Rightarrow> Heap \<Rightarrow> Heap option" where
  "heap_dealloc p l h =
     (let c = class_of l in
      if MAX_ORDER \<le> c then None
      else Some (settle_stats l (h\<lparr>free_list := merge_buddies c p (push_block c p (free_list h))\<rparr>)))"

text \<open>
  The bounded search looks at no more nodes than remain; a search that finds its node has looked
  at that one and those before it.
\<close>

function merge_bounded :: "nat \<Rightarrow> nat \<Rightarrow> nat \<Rightarrow> nat list list \<Rightarrow> nat list list option" where
  "merge_bounded remaining c p fl =
     (if c + 1 < MAX_ORDER \<and> remaining \<noteq> 0 then
        let b = buddy_of c p in
        case position (\<lambda>x. x = b) (take remaining (fl ! c)) of
          None \<Rightarrow> Some fl
        | Some i \<Rightarrow>
            (case remove_nth i (fl ! c) of
               [] \<Rightarrow> None
             | x # rest \<Rightarrow> merge_bounded (remaining - Suc i) (c + 1) (min p b) (push_block (c + 1) (min p b) (fl[c := rest])))
      else Some fl)"
  by pat_completeness auto
termination by (relation "measure (\<lambda>(r, c, p, fl). MAX_ORDER - c)") auto

declare merge_bounded.simps [simp del]

definition dealloc_with_bounded_merge :: "nat \<Rightarrow> nat \<Rightarrow> Layout \<Rightarrow> Heap \<Rightarrow> Heap option" where
  "dealloc_with_bounded_merge max_scan p l h =
     (let c = class_of l in
      if MAX_ORDER \<le> c then None
      else map_option (\<lambda>fl. settle_stats l (h\<lparr>free_list := fl\<rparr>))
             (merge_bounded max_scan c p (push_block c p (free_list h))))"

section \<open>The bytes of the free blocks\<close>

text \<open>How many blocks of a list, and of all lists, contain a byte.\<close>

definition list_cover :: "nat \<Rightarrow> nat list \<Rightarrow> nat \<Rightarrow> nat" where
  "list_cover i l x = (\<Sum>a\<leftarrow>l. inside a (2 ^ i) x)"

definition cover :: "nat list list \<Rightarrow> nat \<Rightarrow> nat" where
  "cover fl x = (\<Sum>i<length fl. list_cover i (fl ! i) x)"

definition aligned :: "nat list list \<Rightarrow> bool" where
  "aligned fl \<longleftrightarrow> length fl = MAX_ORDER \<and> (\<forall>i < MAX_ORDER. \<forall>a \<in> set (fl ! i). 0 < a \<and> 2 ^ i dvd a)"

definition heap_ok :: "Heap \<Rightarrow> bool" where
  "heap_ok h \<longleftrightarrow> aligned (free_list h) \<and> (\<forall>x. cover (free_list h) x \<le> 1)"

lemma list_cover_simps [simp]:
  "list_cover i [] x = 0" "list_cover i (a # l) x = inside a (2 ^ i) x + list_cover i l x"
  by (simp_all add: list_cover_def)

lemma list_cover_remove1: "b \<in> set l \<Longrightarrow> list_cover i l x = inside b (2 ^ i) x + list_cover i (remove1 b l) x"
  by (induction l) auto

lemma cover_update:
  assumes "i < length fl"
  shows "cover (fl[i := l]) x + list_cover i (fl ! i) x = cover fl x + list_cover i l x"
proof -
  have "cover fl x = list_cover i (fl ! i) x + (\<Sum>j\<in>{..<length fl} - {i}. list_cover j (fl ! j) x)"
    using assms by (simp add: cover_def sum.remove)
  moreover have "cover (fl[i := l]) x = list_cover i l x + (\<Sum>j\<in>{..<length fl} - {i}. list_cover j (fl[i := l] ! j) x)"
    using assms by (simp add: cover_def sum.remove)
  moreover have "(\<Sum>j\<in>{..<length fl} - {i}. list_cover j (fl[i := l] ! j) x) = (\<Sum>j\<in>{..<length fl} - {i}. list_cover j (fl ! j) x)"
    by (intro sum.cong) auto
  ultimately show ?thesis by simp
qed

lemma cover_push: "i < length fl \<Longrightarrow> cover (push_block i a fl) x = cover fl x + inside a (2 ^ i) x"
  using cover_update [of i fl "a # fl ! i" x] by (simp add: push_block_def)

lemma cover_ge: "i < length fl \<Longrightarrow> list_cover i (fl ! i) x \<le> cover fl x"
  unfolding cover_def by (intro member_le_sum) auto

lemma length_push [simp]: "length (push_block i a fl) = length fl"
  by (simp add: push_block_def)

lemma aligned_length: "aligned fl \<Longrightarrow> length fl = MAX_ORDER"
  by (simp add: aligned_def)

lemma alignedD: "aligned fl \<Longrightarrow> i < MAX_ORDER \<Longrightarrow> a \<in> set (fl ! i) \<Longrightarrow> 0 < a \<and> 2 ^ i dvd a"
  by (simp add: aligned_def)

lemma aligned_update:
  assumes al: "aligned fl" and l: "\<And>a. a \<in> set l \<Longrightarrow> 0 < a \<and> 2 ^ i dvd a"
  shows "aligned (fl[i := l])"
  unfolding aligned_def
proof (intro conjI allI ballI impI)
  fix k a
  assume k: "k < MAX_ORDER" and a: "a \<in> set (fl[i := l] ! k)"
  have "0 < a \<and> 2 ^ k dvd a"
  proof (cases "k = i")
    case True
    with a k l show ?thesis using aligned_length [OF al] by auto
  next
    case False
    with a k show ?thesis using alignedD [OF al, of k a] by simp
  qed
  then show "0 < a" "2 ^ k dvd a" by auto
qed (simp add: aligned_length [OF al])

lemma aligned_tail:
  assumes "aligned fl" "c < MAX_ORDER" "fl ! c = p # rest" "set rest' \<subseteq> set rest"
  shows "aligned (fl[c := rest'])"
proof (rule aligned_update [OF assms(1)])
  fix a
  assume "a \<in> set rest'"
  with assms(3,4) have "a \<in> set (fl ! c)" by auto
  then show "0 < a \<and> 2 ^ c dvd a" by (rule alignedD [OF assms(1,2)])
qed

lemma aligned_push:
  assumes "aligned fl" "0 < a" "2 ^ i dvd a"
  shows "aligned (push_block i a fl)"
proof (cases "i < MAX_ORDER")
  case True
  then show ?thesis
    unfolding push_block_def using assms alignedD [OF assms(1) True] by (intro aligned_update) auto
next
  case False
  then show ?thesis using assms(1) by (simp add: push_block_def aligned_length [OF assms(1)] list_update_beyond)
qed

lemma inside_split: "inside a (2 ^ Suc k) x = inside a (2 ^ k) x + inside (a + 2 ^ k) (2 ^ k) x"
  by (auto simp: inside_def)

lemma inside_buddy:
  assumes "2 ^ k dvd p"
  shows "inside p (2 ^ k) x + inside (buddy_of k p) (2 ^ k) x = inside (min p (buddy_of k p)) (2 ^ Suc k) x"
  using assms by (cases rule: buddy_cases) (auto simp: inside_split simp del: power_Suc)

lemma buddy_neq: "buddy_of k p \<noteq> p"
proof
  assume "buddy_of k p = p"
  then have "odd (p div 2 ^ k)" "p - 2 ^ k = p"
    by (auto simp: buddy_eq split: if_splits)
  then show False using diff_less [of "2 ^ k" p] by (cases "p = 0") auto
qed

lemma buddy_dvd:
  assumes "2 ^ k dvd p"
  shows "2 ^ k dvd buddy_of k p"
  using assms
proof (cases rule: buddy_cases)
  case low
  then show ?thesis using assms by simp
next
  case (high b)
  then show ?thesis by (metis dvd_mult_right power_Suc)
qed

lemma merged_dvd: "2 ^ k dvd p \<Longrightarrow> 2 ^ Suc k dvd min p (buddy_of k p)"
proof -
  assume "2 ^ k dvd p"
  then show ?thesis by (cases rule: buddy_cases) metis+
qed

section \<open>Splitting and merging\<close>

lemma split_blocks_spec:
  assumes "aligned fl" "c \<le> i" "i < MAX_ORDER" "fl ! i \<noteq> []"
  shows "\<exists>fl'. split_blocks c i fl = (True, fl') \<and> aligned fl' \<and> cover fl' = cover fl \<and> fl' ! c \<noteq> []"
  using assms
proof (induction i arbitrary: fl)
  case 0
  then show ?case by auto
next
  case (Suc j)
  show ?case
  proof (cases "Suc j \<le> c")
    case True
    with Suc.prems show ?thesis by auto
  next
    case False
    obtain b rest where b: "fl ! Suc j = b # rest" using Suc.prems(4) by (cases "fl ! Suc j") auto
    have len: "length fl = MAX_ORDER" using Suc.prems(1) by (rule aligned_length)
    have al: "0 < b" "2 ^ Suc j dvd b" using alignedD [OF Suc.prems(1,3), of b] b by auto
    let ?fl = "push_block j b (push_block j (b + 2 ^ j) (fl[Suc j := rest]))"
    have one: "aligned (fl[Suc j := rest])"
      using aligned_tail [OF Suc.prems(1,3) b order_refl] .
    have dvd: "2 ^ j dvd b" using al(2) by (metis dvd_mult_right power_Suc)
    have "aligned ?fl"
      using one al(1) dvd by (intro aligned_push) auto
    moreover have "cover ?fl = cover fl"
    proof
      fix x
      have "cover (fl[Suc j := rest]) x + list_cover (Suc j) (b # rest) x = cover fl x + list_cover (Suc j) rest x"
        using cover_update [of "Suc j" fl rest x] b len Suc.prems(3) by simp
      then show "cover ?fl x = cover fl x"
        using len Suc.prems(3) by (simp add: cover_push inside_split del: power_Suc)
    qed
    moreover have "?fl ! j \<noteq> []"
      using len Suc.prems(3) by (simp add: push_block_def)
    ultimately show ?thesis
      using Suc.IH [of ?fl] False Suc.prems(3) b by auto
  qed
qed

lemma merge_step:
  assumes al: "aligned fl" and c: "c + 1 < MAX_ORDER" and hd: "fl ! c = p # rest" and b: "buddy_of c p \<in> set rest"
    and rest': "set rest' \<subseteq> set rest" "\<And>x. list_cover c rest x = inside (buddy_of c p) (2 ^ c) x + list_cover c rest' x"
  defines "fl' \<equiv> push_block (c + 1) (min p (buddy_of c p)) (fl[c := rest'])"
  shows "aligned fl'" and "cover fl' = cover fl" and "fl' ! (c + 1) = min p (buddy_of c p) # fl ! (c + 1)"
proof -
  have len: "length fl = MAX_ORDER" using al by (rule aligned_length)
  have pb: "0 < p" "2 ^ c dvd p" "0 < buddy_of c p"
    using alignedD [OF al, of c] c hd b by auto
  have "aligned (fl[c := rest'])"
    using aligned_tail [OF al _ hd rest'(1)] c by simp
  then show "aligned fl'"
    unfolding fl'_def using pb merged_dvd [OF pb(2)] by (intro aligned_push) auto
  show "cover fl' = cover fl"
  proof
    fix x
    have "cover (fl[c := rest']) x + (inside p (2 ^ c) x + list_cover c rest x) = cover fl x + list_cover c rest' x"
      using cover_update [of c fl rest' x] hd len c by simp
    then show "cover fl' x = cover fl x"
      using rest'(2) [of x] inside_buddy [OF pb(2), of x] len c by (simp add: fl'_def cover_push)
  qed
  show "fl' ! (c + 1) = min p (buddy_of c p) # fl ! (c + 1)"
    using len c by (simp add: fl'_def push_block_def)
qed

lemma merge_buddies_spec:
  "aligned fl \<Longrightarrow> c < MAX_ORDER \<Longrightarrow> fl ! c = p # rest \<Longrightarrow>
     aligned (merge_buddies c p fl) \<and> cover (merge_buddies c p fl) = cover fl"
proof (induction c p fl arbitrary: rest rule: merge_buddies.induct)
  case (1 c p fl)
  let ?b = "buddy_of c p"
  show ?case
  proof (cases "c + 1 < MAX_ORDER \<and> ?b \<in> set (fl ! c)")
    case True
    then have b: "?b \<in> set rest" using 1(4) buddy_neq [of c p] by auto
    have tl: "tl (remove1 ?b (fl ! c)) = remove1 ?b rest"
      using 1(4) buddy_neq [of c p] by simp
    have c: "c + 1 < MAX_ORDER" using True by simp
    have sub: "set (remove1 ?b rest) \<subseteq> set rest" by (rule set_remove1_subset)
    note m = merge_step [OF 1(2) c 1(4) b sub list_cover_remove1 [OF b]]
    show ?thesis
      using 1(1) [OF c refl, of "fl ! (c + 1)"] True m c tl
      by (subst (1 2) merge_buddies.simps) (simp add: Let_def)
  next
    case False
    then show ?thesis using 1(2) by (subst (1 2) merge_buddies.simps) (auto simp: Let_def)
  qed
qed

lemma list_cover_remove_nth:
  "k < length l \<Longrightarrow> list_cover i l x = inside (l ! k) (2 ^ i) x + list_cover i (remove_nth k l) x"
proof (induction l arbitrary: k)
  case (Cons a l)
  then show ?case by (cases k) (auto simp: remove_nth_def)
qed simp

lemma merge_bounded_spec:
  "aligned fl \<Longrightarrow> c < MAX_ORDER \<Longrightarrow> fl ! c = p # rest \<Longrightarrow>
     \<exists>fl'. merge_bounded r c p fl = Some fl' \<and> aligned fl' \<and> cover fl' = cover fl"
proof (induction r c p fl arbitrary: rest rule: merge_bounded.induct)
  case (1 r c p fl)
  let ?b = "buddy_of c p"
  show ?case
  proof (cases "c + 1 < MAX_ORDER \<and> r \<noteq> 0 \<and> position (\<lambda>x. x = ?b) (take r (fl ! c)) \<noteq> None")
    case False
    then show ?thesis
      using 1(2) by (subst merge_bounded.simps) (auto simp: Let_def simp del: position_None split: option.splits)
  next
    case True
    then obtain i where i: "position (\<lambda>x. x = ?b) (take r (fl ! c)) = Some i" by blast
    have c: "c + 1 < MAX_ORDER" "r \<noteq> 0" using True by auto
    from position_SomeD [OF i] 1(4) have il: "i < length (p # rest)" "i < r" "(p # rest) ! i = ?b" by auto
    with buddy_neq [of c p] obtain k where k: "i = Suc k" "k < length rest" "rest ! k = ?b"
      by (cases i) auto
    have rm: "remove_nth i (fl ! c) = p # remove_nth k rest"
      using 1(4) k by (simp add: remove_nth_def)
    have b: "?b \<in> set rest" using k by (metis nth_mem)
    have cov: "list_cover c rest x = inside ?b (2 ^ c) x + list_cover c (remove_nth k rest) x" for x
      using list_cover_remove_nth [OF k(2), of c x] k(3) by simp
    note m = merge_step [OF 1(2) c(1) 1(4) b set_remove_nth cov]
    have "\<exists>fl'. merge_bounded (r - Suc i) (c + 1) (min p ?b) (push_block (c + 1) (min p ?b) (fl[c := remove_nth k rest])) = Some fl' \<and>
        aligned fl' \<and> cover fl' = cover fl"
      using 1(1) [OF _ refl i rm, of "fl ! (c + 1)"] m c by auto
    then show ?thesis
      using c i rm by (subst merge_bounded.simps) (simp add: Let_def)
  qed
qed

section \<open>Layouts\<close>

text \<open>What \<^verbatim>\<open>Layout\<close> guarantees: the alignment is a power of two and the size does not exceed \<^verbatim>\<open>isize\<close>.\<close>

definition layout_ok :: "Layout \<Rightarrow> bool" where
  "layout_ok l \<longleftrightarrow> (\<exists>k < 64. l_align l = 2 ^ k) \<and> l_size l \<le> 2 ^ 63"

lemma max_pow2: "max (2 ^ a) (2 ^ b :: nat) = 2 ^ max a b"
  by (simp add: max_def)

lemma block_size_pow:
  assumes "layout_ok l"
  shows "block_size l = 2 ^ class_of l"
proof -
  obtain k where k: "l_align l = 2 ^ k" using assms by (auto simp: layout_ok_def)
  obtain j where j: "next_power_of_two (l_size l) = 2 ^ j" using next_power_of_two_pow by blast
  from k j have "block_size l = 2 ^ max j (max k 3)"
    using max_pow2 [of k 3] max_pow2 [of j "max k 3"] by (simp add: block_size_def WORD_def)
  then show ?thesis by (simp add: class_of_def)
qed

lemma block_size_ge: "l_size l \<le> block_size l" "l_align l \<le> block_size l" "WORD \<le> block_size l"
  using next_power_of_two_ge [of "l_size l"] by (auto simp: block_size_def)

lemma align_dvd_block: "layout_ok l \<Longrightarrow> l_align l dvd block_size l"
proof -
  assume ok: "layout_ok l"
  then obtain k where k: "l_align l = 2 ^ k" by (auto simp: layout_ok_def)
  moreover have "2 ^ k \<le> (2 :: nat) ^ class_of l"
    using block_size_ge(2) [of l] k block_size_pow [OF ok] by simp
  ultimately show ?thesis
    using block_size_pow [OF ok] by (simp add: le_imp_power_dvd)
qed

section \<open>Allocating and freeing\<close>

lemma find_Some_cond: "find P xs = Some x \<Longrightarrow> x \<in> set xs \<and> P x"
  by (induction xs) (auto split: if_splits)

lemma find_None_cond: "find P xs = None \<Longrightarrow> x \<in> set xs \<Longrightarrow> \<not> P x"
  by (induction xs) (auto split: if_splits)

text \<open>A refusal means that no list of the class or above holds a block.\<close>

lemma heap_alloc_spec:
  assumes ok: "heap_ok h" and l: "layout_ok l"
  shows "\<exists>r h'. heap_alloc l h = Some (r, h') \<and> heap_ok h' \<and>
    (case r of
       None \<Rightarrow> h' = h \<and> (\<forall>i. class_of l \<le> i \<and> i < MAX_ORDER \<longrightarrow> free_list h ! i = [])
     | Some p \<Rightarrow> 0 < p \<and> block_size l dvd p \<and>
         (\<forall>x. cover (free_list h) x = cover (free_list h') x + inside p (block_size l) x))"
proof (cases "find (\<lambda>i. free_list h ! i \<noteq> []) [class_of l..<MAX_ORDER]")
  case None
  then show ?thesis
    using ok find_None_cond [OF None] by (auto simp: heap_alloc_def Let_def)
next
  case (Some i)
  let ?c = "class_of l"
  from find_Some_cond [OF Some] have i: "?c \<le> i" "i < MAX_ORDER" "free_list h ! i \<noteq> []" by auto
  have al: "aligned (free_list h)" using ok by (simp add: heap_ok_def)
  obtain fl where fl: "split_blocks ?c i (free_list h) = (True, fl)" "aligned fl"
      "cover fl = cover (free_list h)" "fl ! ?c \<noteq> []"
    using split_blocks_spec [OF al i] by blast
  obtain p rest where p: "fl ! ?c = p # rest" using fl(4) by (cases "fl ! ?c") auto
  have c: "?c < MAX_ORDER" using i by simp
  have pp: "0 < p" "2 ^ ?c dvd p" using alignedD [OF fl(2) c, of p] p by auto
  define h' where "h' = h\<lparr>free_list := fl[?c := rest], h_user := wrap64 (h_user h + l_size l),
      h_allocated := wrap64 (h_allocated h + block_size l)\<rparr>"
  have "heap_alloc l h = Some (Some p, h')"
    using pp by (simp add: heap_alloc_def Let_def Some fl(1) p h'_def)
  moreover have cov: "cover (free_list h) x = cover (free_list h') x + inside p (block_size l) x" for x
    using cover_update [of ?c fl rest x] p c aligned_length [OF fl(2)] fl(3) block_size_pow [OF l]
    by (simp add: h'_def)
  moreover have "heap_ok h'"
  proof -
    have "aligned (fl[?c := rest])"
      by (rule aligned_tail [OF fl(2) c p order_refl])
    moreover have "cover (free_list h') x \<le> 1" for x
      using cov [of x] ok unfolding heap_ok_def by (metis le_add1 le_trans)
    ultimately show ?thesis by (simp add: heap_ok_def h'_def)
  qed
  ultimately show ?thesis using pp block_size_pow [OF l] by auto
qed

text \<open>Giving back a block none of whose bytes is free.\<close>

definition freeable :: "nat \<Rightarrow> Layout \<Rightarrow> Heap \<Rightarrow> bool" where
  "freeable p l h \<longleftrightarrow> 0 < p \<and> block_size l dvd p \<and> class_of l < MAX_ORDER \<and>
     (\<forall>x. cover (free_list h) x + inside p (block_size l) x \<le> 1)"

lemma push_freed:
  assumes ok: "heap_ok h" and l: "layout_ok l" and f: "freeable p l h"
  defines "fl \<equiv> push_block (class_of l) p (free_list h)"
  shows "aligned fl" and "cover fl x = cover (free_list h) x + inside p (block_size l) x"
    and "fl ! class_of l = p # free_list h ! class_of l"
proof -
  have al: "aligned (free_list h)" and c: "class_of l < MAX_ORDER" and d: "0 < p" "2 ^ class_of l dvd p"
    using ok f block_size_pow [OF l] by (auto simp: heap_ok_def freeable_def)
  show "aligned fl" unfolding fl_def using al d by (rule aligned_push)
  show "cover fl x = cover (free_list h) x + inside p (block_size l) x"
    using c aligned_length [OF al] block_size_pow [OF l] by (simp add: fl_def cover_push)
  show "fl ! class_of l = p # free_list h ! class_of l"
    using c aligned_length [OF al] by (simp add: fl_def push_block_def)
qed

definition frees :: "nat \<Rightarrow> Layout \<Rightarrow> Heap \<Rightarrow> Heap \<Rightarrow> bool" where
  "frees p l h h' \<longleftrightarrow> heap_ok h' \<and> (\<forall>x. cover (free_list h') x = cover (free_list h) x + inside p (block_size l) x)"

lemma frees_intro:
  assumes "heap_ok h" "layout_ok l" "freeable p l h"
    and "aligned fl" "cover fl = cover (push_block (class_of l) p (free_list h))"
  shows "frees p l h (settle_stats l (h\<lparr>free_list := fl\<rparr>))"
  using assms push_freed [OF assms(1,2,3)]
  by (auto simp: frees_def heap_ok_def settle_stats_def freeable_def)

lemma heap_dealloc_spec:
  assumes "heap_ok h" "layout_ok l" "freeable p l h"
  shows "\<exists>h'. heap_dealloc p l h = Some h' \<and> frees p l h h'"
proof -
  note f = push_freed [OF assms]
  have c: "class_of l < MAX_ORDER" using assms(3) by (simp add: freeable_def)
  from merge_buddies_spec [OF f(1) c f(3)] c frees_intro [OF assms] show ?thesis
    by (auto simp: heap_dealloc_def Let_def)
qed

lemma bounded_dealloc_spec:
  assumes "heap_ok h" "layout_ok l" "freeable p l h"
  shows "\<exists>h'. dealloc_with_bounded_merge n p l h = Some h' \<and> frees p l h h'"
proof -
  note f = push_freed [OF assms]
  have c: "class_of l < MAX_ORDER" using assms(3) by (simp add: freeable_def)
  from merge_bounded_spec [OF f(1) c f(3), of n] c frees_intro [OF assms] show ?thesis
    by (auto simp: dealloc_with_bounded_merge_def Let_def)
qed

section \<open>Adding memory\<close>

lemma prev_power_bounds:
  assumes "0 < n" "n < 2 ^ 64"
  shows "\<exists>k. prev_power_of_two n = 2 ^ k \<and> 2 ^ k \<le> n \<and> n < 2 ^ Suc k"
proof -
  have b: "2 ^ (floorlog 2 n - 1) \<le> n" "n < 2 ^ floorlog 2 n"
    using floorlog_bounds [of n 2] assms(1) by auto
  have pos: "0 < floorlog 2 n" using b(2) assms(1) by (cases "floorlog 2 n") auto
  have "floorlog 2 n \<le> 64" using assms by (intro floorlog_leI) auto
  then have "prev_power_of_two n = 2 ^ (floorlog 2 n - 1)"
    by (simp add: prev_power_of_two_def leading_zeros_def)
  with b pos show ?thesis by (intro exI [of _ "floorlog 2 n - 1"]) simp
qed

lemma piece_size_spec:
  assumes "0 < s" "8 dvd s" "s + WORD \<le> e" "e < 2 ^ 64"
  shows "\<exists>k. piece_size s e = 2 ^ k \<and> 3 \<le> k \<and> 2 ^ k dvd s \<and> s + 2 ^ k \<le> e"
proof -
  have r: "0 < e - s" "e - s < 2 ^ 64" "s < 2 ^ 64" "8 \<le> e - s" using assms by (auto simp: WORD_def)
  obtain j where j: "prev_power_of_two (e - s) = 2 ^ j" "2 ^ j \<le> e - s" "e - s < 2 ^ Suc j"
    using prev_power_bounds [OF r(1,2)] by blast
  have low: "lowbit s = 2 ^ trailing_zeros s" using lowbit_power [OF assms(1) r(3)] .
  have dvd: "2 ^ trailing_zeros s dvd s" using lowbit_dvd [OF assms(1) r(3)] low by simp
  let ?k = "min (trailing_zeros s) j"
  have t: "3 \<le> trailing_zeros s" using assms(1,2) by (rule trailing_zeros_word)
  have "(2 :: nat) ^ 3 < 2 ^ Suc j" using j(3) r(4) by simp
  then have "3 < Suc j" by (rule power_less_imp_less_exp [rotated]) simp
  with t have k: "3 \<le> ?k" by simp
  have size: "piece_size s e = 2 ^ ?k"
    unfolding piece_size_def low j(1) by (simp add: min_def)
  have d: "2 ^ ?k dvd s" using dvd by (metis dvd_trans le_imp_power_dvd min.cobounded1)
  have "(2 :: nat) ^ ?k \<le> 2 ^ j" by (simp add: power_increasing)
  then have "s + 2 ^ ?k \<le> e" using j(2) r(1) by linarith
  with size k d show ?thesis by blast
qed

lemma inside_append: "inside s (n + m) x = inside s n x + inside (s + n) m x"
  by (auto simp: inside_def)

lemma add_pieces_spec:
  "aligned fl \<Longrightarrow> 0 < s \<Longrightarrow> 8 dvd s \<Longrightarrow> 8 dvd e \<Longrightarrow> s \<le> e \<Longrightarrow> e < 2 ^ 64 \<Longrightarrow> e - s < 2 ^ MAX_ORDER \<Longrightarrow>
     \<exists>fl'. add_pieces s e acc fl = Some (acc + (e - s), fl') \<and> aligned fl' \<and>
       (\<forall>x. cover fl' x = cover fl x + inside s (e - s) x)"
proof (induction s e acc fl rule: add_pieces.induct)
  case (1 s e acc fl)
  show ?case
  proof (cases "s + WORD \<le> e")
    case False
    have "8 dvd e - s" using 1(4,5) by (rule dvd_diff_nat [rotated])
    moreover have "e - s < 8" using False by (simp add: WORD_def)
    ultimately have "e - s = 0" using nat_dvd_not_less by blast
    with 1(6) have "s = e" by simp
    with 1(2) show ?thesis by (subst add_pieces.simps) (simp add: WORD_def inside_def)
  next
    case True
    obtain k where k: "piece_size s e = 2 ^ k" "3 \<le> k" "2 ^ k dvd s" "s + 2 ^ k \<le> e"
      using piece_size_spec [OF 1(3,4) True 1(7)] by blast
    have "(2 :: nat) ^ k < 2 ^ MAX_ORDER" using k(4) 1(8) by linarith
    then have ko: "k < MAX_ORDER" by (rule power_less_imp_less_exp [rotated]) simp
    have len: "length fl = MAX_ORDER" using 1(2) by (rule aligned_length)
    have "(2 :: nat) ^ 3 dvd 2 ^ k" using k(2) by (rule le_imp_power_dvd)
    then have d8: "8 dvd s + 2 ^ k" using 1(4) by simp
    have small: "e - (s + 2 ^ k) < 2 ^ MAX_ORDER" using 1(8) by linarith
    let ?fl = "push_block k s fl"
    have step: "\<not> MAX_ORDER \<le> k" "0 < s + 2 ^ k" using ko 1(3) by simp_all
    obtain fl' where f: "add_pieces (s + 2 ^ k) e (acc + 2 ^ k) ?fl = Some (acc + 2 ^ k + (e - (s + 2 ^ k)), fl')" "aligned fl'"
        "\<forall>x. cover fl' x = cover ?fl x + inside (s + 2 ^ k) (e - (s + 2 ^ k)) x"
      using 1(1) [OF True refl, unfolded k(1) trailing_zeros_power, OF step(1) aligned_push [OF 1(2,3) k(3)] step(2) d8 1(5) k(4) 1(7) small]
      by blast
    have sum: "2 ^ k + (e - (s + 2 ^ k)) = e - s" using k(4) by linarith
    have "inside s (e - s) x = inside s (2 ^ k) x + inside (s + 2 ^ k) (e - (s + 2 ^ k)) x" for x
      using inside_append [of s "2 ^ k" "e - (s + 2 ^ k)" x] unfolding sum .
    moreover have "add_pieces s e acc fl = Some (acc + (e - s), fl')"
      using f(1) True ko k(4) by (subst add_pieces.simps) (simp add: Let_def k(1))
    ultimately show ?thesis
      using f(2,3) ko len by (auto simp: cover_push)
  qed
qed

lemma and_push_bit: "x AND push_bit n y = push_bit n (drop_bit n x AND (y :: nat))"
  by (rule bit_eqI) (auto simp: bit_and_iff bit_push_bit_iff bit_drop_bit_eq)

lemma word_floor_eq:
  assumes "x < 2 ^ 64"
  shows "word_floor x = 8 * (x div 8)"
proof -
  have "2 ^ 64 - WORD = push_bit 3 (mask 61 :: nat)"
    by (simp add: WORD_def push_bit_eq_mult mask_eq_exp_minus_1)
  then have "word_floor x = push_bit 3 (take_bit 61 (drop_bit 3 x))"
    by (simp only: word_floor_def and_push_bit take_bit_eq_mask)
  moreover have "take_bit 61 (drop_bit 3 x) = x div 8"
    using assms by (simp add: take_bit_eq_mod drop_bit_eq_div)
  ultimately show ?thesis by (simp add: push_bit_eq_mult)
qed

definition first_word :: "nat \<Rightarrow> nat" where
  "first_word start = 8 * ((start + 7) div 8)"

definition last_word :: "nat \<Rightarrow> nat" where
  "last_word stop = 8 * (stop div 8)"

definition region_ok :: "nat \<Rightarrow> nat \<Rightarrow> bool" where
  "region_ok start stop \<longleftrightarrow> 0 < start \<and> start + 7 < 2 ^ 64 \<and> stop < 2 ^ 64 \<and>
     first_word start \<le> last_word stop \<and> last_word stop - first_word start < 2 ^ MAX_ORDER"

lemma add_to_heap_spec:
  assumes al: "aligned (free_list h)" and r: "region_ok start stop"
  shows "\<exists>h'. add_to_heap start stop h = Some h' \<and> aligned (free_list h') \<and>
    h_total h' = wrap64 (h_total h + (last_word stop - first_word start)) \<and>
    (\<forall>x. cover (free_list h') x = cover (free_list h) x + inside (first_word start) (last_word stop - first_word start) x)"
proof -
  have f: "word_floor (wrap64 (start + WORD - 1)) = first_word start" "word_floor stop = last_word stop"
    using r by (simp_all add: region_ok_def WORD_def word_floor_eq first_word_def last_word_def)
  have b: "0 < first_word start" "8 dvd first_word start" "8 dvd last_word stop"
      "first_word start \<le> last_word stop" "last_word stop < 2 ^ 64" "last_word stop - first_word start < 2 ^ MAX_ORDER"
  proof -
    show "last_word stop < 2 ^ 64"
      using r times_div_less_eq_dividend [of 8 stop] unfolding region_ok_def last_word_def by linarith
  qed (use r in \<open>auto simp: region_ok_def first_word_def last_word_def\<close>)
  have "add_to_heap start stop h = map_option (\<lambda>(total, fl). h\<lparr>free_list := fl, h_total := wrap64 (h_total h + total)\<rparr>)
      (add_pieces (first_word start) (last_word stop) 0 (free_list h))"
    unfolding add_to_heap_def Let_def f using b(4) by simp
  with add_pieces_spec [OF al b, of 0] show ?thesis by auto
qed

text \<open>A range that starts at address 0 makes the first piece empty, and its order is out of range.\<close>

lemma add_to_heap_null: "WORD \<le> stop \<Longrightarrow> stop < 2 ^ 64 \<Longrightarrow> add_to_heap 0 stop h = None"
proof -
  assume a: "WORD \<le> stop" "stop < 2 ^ 64"
  have z: "word_floor (wrap64 (0 + WORD - 1)) = 0" by (simp add: WORD_def word_floor_eq)
  have e: "WORD \<le> word_floor stop" using a by (simp add: word_floor_eq WORD_def)
  have "add_pieces 0 (word_floor stop) 0 (free_list h) = None"
    using e by (subst add_pieces.simps) (simp add: piece_size_def MAX_ORDER_def)
  then show ?thesis unfolding add_to_heap_def Let_def z by simp
qed

section \<open>The heap as an allocator of bytes\<close>

definition heap_free :: "Heap \<Rightarrow> nat \<Rightarrow> nat" where
  "heap_free h = cover (free_list h)"

definition heap_placed :: "nat \<Rightarrow> Layout \<Rightarrow> bool" where
  "heap_placed p l \<longleftrightarrow> 0 < p \<and> block_size l dvd p \<and> class_of l < MAX_ORDER"

lemma heap_alloc_class: "heap_alloc l h = Some (Some p, h') \<Longrightarrow> class_of l < MAX_ORDER"
  by (auto simp: heap_alloc_def Let_def split: option.splits prod.splits list.splits bool.splits if_splits
      dest!: find_Some_cond)

lemma heap_alloc_law:
  assumes "heap_ok h" "layout_ok l"
  shows "\<exists>r h'. heap_alloc l h = Some (r, h') \<and> heap_ok h' \<and>
    (case r of None \<Rightarrow> heap_free h' = heap_free h
     | Some p \<Rightarrow> heap_placed p l \<and> (\<forall>x. heap_free h x = heap_free h' x + inside p (block_size l) x))"
proof -
  from heap_alloc_spec [OF assms] obtain r h' where a: "heap_alloc l h = Some (r, h')" "heap_ok h'"
      "case r of None \<Rightarrow> h' = h \<and> (\<forall>i. class_of l \<le> i \<and> i < MAX_ORDER \<longrightarrow> free_list h ! i = [])
       | Some p \<Rightarrow> 0 < p \<and> block_size l dvd p \<and>
           (\<forall>x. cover (free_list h) x = cover (free_list h') x + inside p (block_size l) x)"
    by blast
  then show ?thesis
    using heap_alloc_class [of l h _ h'] by (cases r) (auto simp: heap_free_def heap_placed_def)
qed

lemma freeable_placed:
  "heap_placed p l \<Longrightarrow> (\<And>x. heap_free h x + inside p (block_size l) x \<le> 1) \<Longrightarrow> freeable p l h"
  by (simp add: freeable_def heap_placed_def heap_free_def)

interpretation buddy: byte_allocator heap_ok heap_free layout_ok block_size heap_placed heap_alloc heap_dealloc
proof unfold_locales
  fix h :: Heap and l p
  assume "heap_ok h" "layout_ok l" "heap_placed p l" "\<And>x. heap_free h x + inside p (block_size l) x \<le> 1"
  then show "\<exists>h'. heap_dealloc p l h = Some h' \<and> heap_ok h' \<and> (\<forall>x. heap_free h' x = heap_free h x + inside p (block_size l) x)"
    using heap_dealloc_spec [of h l p] freeable_placed [of p l h] by (auto simp: frees_def heap_free_def)
qed (rule heap_alloc_law)

interpretation bounded_buddy: byte_allocator heap_ok heap_free layout_ok block_size heap_placed heap_alloc
    "dealloc_with_bounded_merge n" for n
proof unfold_locales
  fix h :: Heap and l p
  assume "heap_ok h" "layout_ok l" "heap_placed p l" "\<And>x. heap_free h x + inside p (block_size l) x \<le> 1"
  then show "\<exists>h'. dealloc_with_bounded_merge n p l h = Some h' \<and> heap_ok h' \<and> (\<forall>x. heap_free h' x = heap_free h x + inside p (block_size l) x)"
    using bounded_dealloc_spec [of h l p n] freeable_placed [of p l h] by (auto simp: frees_def heap_free_def)
qed (rule heap_alloc_law)

section \<open>Coalesced heaps\<close>

text \<open>No block of a list is free together with its buddy, except at the largest order.\<close>

definition coalesced :: "nat list list \<Rightarrow> bool" where
  "coalesced fl \<longleftrightarrow> (\<forall>c p. c + 1 < MAX_ORDER \<longrightarrow> p \<in> set (fl ! c) \<longrightarrow> buddy_of c p \<notin> set (fl ! c))"

lemma coalescedD: "coalesced fl \<Longrightarrow> c + 1 < MAX_ORDER \<Longrightarrow> p \<in> set (fl ! c) \<Longrightarrow> buddy_of c p \<notin> set (fl ! c)"
  by (simp add: coalesced_def)

lemma buddy_involution: "buddy_of k (buddy_of k p) = p"
  by (simp add: buddy_of_def xor.assoc)

lemma list_cover_member: "a \<in> set l \<Longrightarrow> inside a (2 ^ i) x \<le> list_cover i l x"
  by (induction l) auto

lemma block_unique:
  assumes one: "cover fl x \<le> 1" and i: "i < length fl" "a \<in> set (fl ! i)" "inside a (2 ^ i) x = 1"
    and k: "k < length fl" "d \<in> set (fl ! k)" "inside d (2 ^ k) x = 1"
  shows "i = k \<and> a = d"
proof -
  have li: "1 \<le> list_cover i (fl ! i) x" using list_cover_member [OF i(2), of i x] i(3) by simp
  have "i = k"
  proof (rule ccontr)
    assume ne: "i \<noteq> k"
    have "cover (fl[i := []]) x = 0"
      using cover_update [OF i(1), of "[]" x] li one by simp
    moreover have "list_cover k (fl[i := []] ! k) x \<le> cover (fl[i := []]) x"
      using k(1) by (intro cover_ge) simp
    moreover have "1 \<le> list_cover k (fl ! k) x" using list_cover_member [OF k(2), of k x] k(3) by simp
    ultimately show False using ne by simp
  qed
  moreover have "a = d"
  proof (rule ccontr)
    assume "a \<noteq> d"
    then have "d \<in> set (remove1 a (fl ! i))" using k(2) \<open>i = k\<close> by simp
    from list_cover_member [OF this, of i x] list_cover_remove1 [OF i(2), of i x]
    have "2 \<le> list_cover i (fl ! i) x" using i(3) k(3) \<open>i = k\<close> by simp
    with cover_ge [OF i(1), of x] one show False by simp
  qed
  ultimately show ?thesis by blast
qed

lemma free_head_once:
  assumes "aligned fl" "cover fl p \<le> 1" "c < MAX_ORDER" "fl ! c = p # rest"
  shows "p \<notin> set rest"
proof
  assume "p \<in> set rest"
  from list_cover_member [OF this, of c p] have "2 \<le> list_cover c (fl ! c) p"
    using assms(4) by (simp add: inside_def)
  with cover_ge [of c fl p] assms(2,3) aligned_length [OF assms(1)] show False by simp
qed

text \<open>Coalesced but for the block that is being given back.\<close>

definition coalesced_but :: "nat \<Rightarrow> nat \<Rightarrow> nat list list \<Rightarrow> bool" where
  "coalesced_but c p fl \<longleftrightarrow> (\<forall>k q. k + 1 < MAX_ORDER \<longrightarrow> q \<in> set (fl ! k) \<longrightarrow> buddy_of k q \<in> set (fl ! k) \<longrightarrow>
     k = c \<and> (q = p \<or> buddy_of k q = p))"

lemma coalesced_but_push:
  assumes "coalesced fl" "c < length fl"
  shows "coalesced_but c p (push_block c p fl)"
  unfolding coalesced_but_def push_block_def
proof (intro allI impI)
  fix k q
  assume k: "k + 1 < MAX_ORDER" and q: "q \<in> set (fl[c := p # fl ! c] ! k)" "buddy_of k q \<in> set (fl[c := p # fl ! c] ! k)"
  show "k = c \<and> (q = p \<or> buddy_of k q = p)"
    using q assms coalescedD [OF assms(1) k] by (cases "k = c") auto
qed

lemma coalesced_but_merge:
  assumes but: "coalesced_but c p fl" and hd: "fl ! c = p # rest" and p: "p \<notin> set rest" and r: "set rest' \<subseteq> set rest"
    and len: "length fl = MAX_ORDER" and c: "c + 1 < MAX_ORDER"
  shows "coalesced_but (c + 1) v (push_block (c + 1) v (fl[c := rest']))"
proof -
  have "coalesced (fl[c := rest'])"
    unfolding coalesced_def
  proof (intro allI impI notI)
    fix k q
    assume k: "k + 1 < MAX_ORDER" and q: "q \<in> set (fl[c := rest'] ! k)" "buddy_of k q \<in> set (fl[c := rest'] ! k)"
    have sub: "set (fl[c := rest'] ! k) \<subseteq> set (fl ! k)" using hd r len k by (cases "k = c") auto
    with q but k have "k = c" "q = p \<or> buddy_of k q = p" unfolding coalesced_but_def by blast+
    with q p r len k show False by auto
  qed
  then show ?thesis using len c by (intro coalesced_but_push) simp_all
qed

lemma merge_buddies_coalesced:
  "aligned fl \<Longrightarrow> (\<And>x. cover fl x \<le> 1) \<Longrightarrow> c < MAX_ORDER \<Longrightarrow> fl ! c = p # rest \<Longrightarrow> coalesced_but c p fl \<Longrightarrow>
     coalesced (merge_buddies c p fl)"
proof (induction c p fl arbitrary: rest rule: merge_buddies.induct)
  case (1 c p fl)
  let ?b = "buddy_of c p"
  have len: "length fl = MAX_ORDER" using 1(2) by (rule aligned_length)
  show ?case
  proof (cases "c + 1 < MAX_ORDER \<and> ?b \<in> set (fl ! c)")
    case True
    have c: "c + 1 < MAX_ORDER" using True by simp
    have b: "?b \<in> set rest" using True 1(5) buddy_neq [of c p] by auto
    have tl: "tl (remove1 ?b (fl ! c)) = remove1 ?b rest"
      using 1(5) buddy_neq [of c p] by simp
    have sub: "set (remove1 ?b rest) \<subseteq> set rest" by (rule set_remove1_subset)
    note m = merge_step [OF 1(2) c 1(5) b sub list_cover_remove1 [OF b]]
    have p: "p \<notin> set rest" by (rule free_head_once [OF 1(2) 1(3) 1(4) 1(5)])
    have "coalesced (merge_buddies (c + 1) (min p ?b) (push_block (c + 1) (min p ?b) (fl[c := remove1 ?b rest])))"
      using 1(1) [OF c refl, unfolded tl, OF _ m(1) _ c m(3) coalesced_but_merge [OF 1(6,5) p sub len c]] True m(2) 1(3)
      by simp
    then show ?thesis using True tl by (subst merge_buddies.simps) (simp add: Let_def)
  next
    case False
    have "coalesced fl"
      unfolding coalesced_def
    proof (intro allI impI notI)
      fix k q
      assume k: "k + 1 < MAX_ORDER" and q: "q \<in> set (fl ! k)" "buddy_of k q \<in> set (fl ! k)"
      with 1(6) have "k = c" "q = p \<or> buddy_of k q = p" unfolding coalesced_but_def by blast+
      with q False k buddy_involution [of k q] show False by auto
    qed
    with False show ?thesis by (subst merge_buddies.simps) (auto simp: Let_def)
  qed
qed

lemma split_coalesced:
  "aligned fl \<Longrightarrow> c \<le> i \<Longrightarrow> i < MAX_ORDER \<Longrightarrow> fl ! i \<noteq> [] \<Longrightarrow> (\<And>j. c \<le> j \<Longrightarrow> j < i \<Longrightarrow> fl ! j = []) \<Longrightarrow>
   coalesced (fl[i := tl (fl ! i)]) \<Longrightarrow> split_blocks c i fl = (ok, fl') \<Longrightarrow> coalesced (fl'[c := tl (fl' ! c)])"
proof (induction i arbitrary: fl)
  case 0
  then show ?case by simp
next
  case (Suc j)
  show ?case
  proof (cases "Suc j \<le> c")
    case True
    with Suc.prems show ?thesis by (auto simp: le_antisym)
  next
    case False
    obtain b rest where b: "fl ! Suc j = b # rest" using Suc.prems(4) by (cases "fl ! Suc j") auto
    have len: "length fl = MAX_ORDER" using Suc.prems(1) by (rule aligned_length)
    let ?fl = "push_block j b (push_block j (b + 2 ^ j) (fl[Suc j := rest]))"
    have al: "0 < b" "2 ^ Suc j dvd b" using alignedD [OF Suc.prems(1,3), of b] b by auto
    have "2 ^ j dvd b" using al(2) by (metis dvd_mult_right power_Suc)
    then have "aligned ?fl"
      using aligned_tail [OF Suc.prems(1,3) b order_refl] al(1) by (intro aligned_push) auto
    moreover have j: "fl ! j = []" using Suc.prems(5) [of j] False by simp
    moreover have fj: "?fl ! j = [b, b + 2 ^ j]" using j len Suc.prems(3) by (simp add: push_block_def)
    moreover have "?fl ! k = []" if "c \<le> k" "k < j" for k
      using Suc.prems(5) [of k] that by (simp add: push_block_def)
    moreover have "coalesced (?fl[j := tl (?fl ! j)])"
    proof -
      have eq: "?fl[j := tl (?fl ! j)] = (fl[Suc j := rest])[j := [b + 2 ^ j]]"
        unfolding fj by (simp add: push_block_def)
      have old: "coalesced (fl[Suc j := rest])" using Suc.prems(6) b by simp
      show ?thesis
        unfolding eq coalesced_def
      proof (intro allI impI)
        fix k q
        assume k: "k + 1 < MAX_ORDER" and q: "q \<in> set (fl[Suc j := rest, j := [b + 2 ^ j]] ! k)"
        show "buddy_of k q \<notin> set (fl[Suc j := rest, j := [b + 2 ^ j]] ! k)"
          using q coalescedD [OF old k, of q] len k buddy_neq [of k q] by (cases "k = j") auto
      qed
    qed
    ultimately show ?thesis
      using Suc.IH [of ?fl] False Suc.prems(3,7) b by simp
  qed
qed

lemma find_first: "find P [c..<n] = Some i \<Longrightarrow> c \<le> j \<Longrightarrow> j < i \<Longrightarrow> \<not> P j"
proof (induction "n - c" arbitrary: c)
  case (Suc d)
  then have "c < n" by simp
  then have up: "[c..<n] = c # [Suc c..<n]" by (rule upt_conv_Cons)
  show ?case
  proof (cases "P c")
    case True
    with Suc.prems up show ?thesis by simp
  next
    case False
    with Suc.prems up have "find P [Suc c..<n] = Some i" by simp
    with Suc.hyps(1) [of "Suc c"] Suc.hyps(2) Suc.prems False show ?thesis
      by (cases "j = c") auto
  qed
qed simp

lemma heap_alloc_coalesced:
  assumes ok: "heap_ok h" and co: "coalesced (free_list h)" and a: "heap_alloc l h = Some (r, h')"
  shows "coalesced (free_list h')"
proof (cases "find (\<lambda>i. free_list h ! i \<noteq> []) [class_of l..<MAX_ORDER]")
  case None
  with a co show ?thesis by (simp add: heap_alloc_def Let_def)
next
  case (Some i)
  let ?c = "class_of l"
  from find_Some_cond [OF Some] have i: "?c \<le> i" "i < MAX_ORDER" "free_list h ! i \<noteq> []" by auto
  have al: "aligned (free_list h)" using ok by (simp add: heap_ok_def)
  obtain fl where fl: "split_blocks ?c i (free_list h) = (True, fl)" "fl ! ?c \<noteq> []"
    using split_blocks_spec [OF al i] by blast
  have "coalesced ((free_list h)[i := tl (free_list h ! i)])"
    unfolding coalesced_def
  proof (intro allI impI)
    fix k q
    assume k: "k + 1 < MAX_ORDER" and q: "q \<in> set ((free_list h)[i := tl (free_list h ! i)] ! k)"
    have "set ((free_list h)[i := tl (free_list h ! i)] ! k) \<subseteq> set (free_list h ! k)"
      using i aligned_length [OF al] by (cases "k = i") (auto dest: list.set_sel(2))
    with q coalescedD [OF co k] show "buddy_of k q \<notin> set ((free_list h)[i := tl (free_list h ! i)] ! k)" by blast
  qed
  from split_coalesced [OF al i _ this fl(1)] find_first [OF Some]
  have "coalesced (fl[?c := tl (fl ! ?c)])" by blast
  with a fl show ?thesis
    by (auto simp: heap_alloc_def Let_def Some split: list.splits if_splits)
qed

lemma heap_dealloc_coalesced:
  assumes "heap_ok h" "layout_ok l" "freeable p l h" "coalesced (free_list h)" "heap_dealloc p l h = Some h'"
  shows "coalesced (free_list h')"
proof -
  note f = push_freed [OF assms(1,2,3)]
  have c: "class_of l < MAX_ORDER" using assms(3) by (simp add: freeable_def)
  have "length (free_list h) = MAX_ORDER" using assms(1) by (simp add: heap_ok_def aligned_def)
  then have "coalesced_but (class_of l) p (push_block (class_of l) p (free_list h))"
    using coalesced_but_push [OF assms(4)] c by simp
  moreover have "cover (push_block (class_of l) p (free_list h)) x \<le> 1" for x
    using f(2) [of x] assms(3) by (simp add: freeable_def)
  ultimately have "coalesced (merge_buddies (class_of l) p (push_block (class_of l) p (free_list h)))"
    by (intro merge_buddies_coalesced [OF f(1) _ c f(3)])
  with assms(5) c show ?thesis by (auto simp: heap_dealloc_def Let_def settle_stats_def)
qed

text \<open>
  The coalescing allocator meets the contract with the stronger invariant as well.
\<close>

definition coalesced_heap :: "Heap \<Rightarrow> bool" where
  "coalesced_heap h \<longleftrightarrow> heap_ok h \<and> coalesced (free_list h)"

interpretation coalescing_buddy: byte_allocator coalesced_heap heap_free layout_ok block_size heap_placed heap_alloc heap_dealloc
proof unfold_locales
  fix h :: Heap and l
  assume h: "coalesced_heap h" and l: "layout_ok l"
  then obtain r h' where a: "heap_alloc l h = Some (r, h')" "heap_ok h'"
      "case r of None \<Rightarrow> heap_free h' = heap_free h
       | Some p \<Rightarrow> heap_placed p l \<and> (\<forall>x. heap_free h x = heap_free h' x + inside p (block_size l) x)"
    using heap_alloc_law [of h l] by (auto simp: coalesced_heap_def)
  moreover have "coalesced_heap h'"
    using heap_alloc_coalesced [OF _ _ a(1)] h a(2) by (simp add: coalesced_heap_def)
  ultimately show "\<exists>r h'. heap_alloc l h = Some (r, h') \<and> coalesced_heap h' \<and>
      (case r of None \<Rightarrow> heap_free h' = heap_free h
       | Some p \<Rightarrow> heap_placed p l \<and> (\<forall>x. heap_free h x = heap_free h' x + inside p (block_size l) x))"
    by blast
next
  fix h :: Heap and l p
  assume h: "coalesced_heap h" and l: "layout_ok l" and p: "heap_placed p l" "\<And>x. heap_free h x + inside p (block_size l) x \<le> 1"
  have ok: "heap_ok h" "coalesced (free_list h)" using h by (simp_all add: coalesced_heap_def)
  have f: "freeable p l h" using p by (rule freeable_placed)
  from heap_dealloc_spec [OF ok(1) l f] obtain h' where d: "heap_dealloc p l h = Some h'" "frees p l h h'" by blast
  with heap_dealloc_coalesced [OF ok(1) l f ok(2) d(1)]
  show "\<exists>h'. heap_dealloc p l h = Some h' \<and> coalesced_heap h' \<and> (\<forall>x. heap_free h' x = heap_free h x + inside p (block_size l) x)"
    by (auto simp: frees_def heap_free_def coalesced_heap_def)
qed

section \<open>Free ranges of a coalesced heap\<close>

lemma dyadic:
  assumes "2 ^ s dvd r" "2 ^ k dvd d" "s \<le> k" "d \<le> x" "x < d + 2 ^ k" "r \<le> x" "x < r + 2 ^ s"
  shows "d \<le> r \<and> r + 2 ^ s \<le> d + (2 :: nat) ^ k"
proof -
  obtain u where u: "r = 2 ^ s * u" using assms(1) by blast
  obtain w where w: "(2 :: nat) ^ k = 2 ^ s * w" using le_imp_power_dvd [OF assms(3), of 2] by blast
  obtain v where v: "d = 2 ^ s * v" using assms(2) w by (metis dvd_def mult.assoc)
  have xu: "x div 2 ^ s = u" using assms(6,7) u by (intro div_nat_eqI) (auto simp: algebra_simps)
  have "2 ^ s * v \<le> x" "x < 2 ^ s * (v + w)" using assms(4,5) v w by (simp_all add: algebra_simps)
  then have "v \<le> u" "u < v + w"
    using xu less_mult_imp_div_less [of x "v + w" "2 ^ s"] by (auto simp: less_eq_div_iff_mult_less_eq mult.commute)
  then have "2 ^ s * v \<le> 2 ^ s * u" "2 ^ s * (u + 1) \<le> 2 ^ s * (v + w)" by (simp_all only: mult_le_mono2 Suc_eq_plus1 [symmetric] Suc_leI)
  then show ?thesis using u v w by (simp add: algebra_simps)
qed

lemma list_cover_0: "(\<And>a. a \<in> set l \<Longrightarrow> inside a (2 ^ i) x \<noteq> 1) \<Longrightarrow> list_cover i l x = 0"
proof (induction l)
  case (Cons a l)
  have "inside a (2 ^ i) x = 0" using Cons.prems [of a] by (cases "a \<le> x \<and> x < a + 2 ^ i") (simp_all add: inside_def)
  moreover have "list_cover i l x = 0" using Cons.prems by (intro Cons.IH) simp
  ultimately show ?case by simp
qed simp

lemma covered_by_block:
  assumes "0 < cover fl x"
  shows "\<exists>i < length fl. \<exists>a \<in> set (fl ! i). inside a (2 ^ i) x = 1"
proof (rule ccontr)
  assume "\<not> ?thesis"
  then have "list_cover i (fl ! i) x = 0" if "i < length fl" for i
    using that by (intro list_cover_0) auto
  then have "cover fl x = 0" by (simp add: cover_def)
  with assms show False by simp
qed

lemma free_range_in_large_block:
  assumes ok: "heap_ok h" and co: "coalesced (free_list h)" and j: "j < MAX_ORDER" and b: "2 ^ j dvd b"
    and full: "\<And>x. b \<le> x \<Longrightarrow> x < b + 2 ^ j \<Longrightarrow> 0 < cover (free_list h) x"
  shows "i < MAX_ORDER \<Longrightarrow> a \<in> set (free_list h ! i) \<Longrightarrow> inside a (2 ^ i) x = 1 \<Longrightarrow> b \<le> x \<Longrightarrow> x < b + 2 ^ j \<Longrightarrow> j \<le> i"
proof (induction i arbitrary: a x rule: less_induct)
  case (less i)
  let ?fl = "free_list h"
  have al: "aligned ?fl" and one: "\<And>x. cover ?fl x \<le> 1" using ok by (auto simp: heap_ok_def)
  have len: "length ?fl = MAX_ORDER" using al by (rule aligned_length)
  have da: "2 ^ i dvd a" using alignedD [OF al less.prems(1,2)] by simp
  show ?case
  proof (rule ccontr)
    assume "\<not> j \<le> i"
    then have ij: "Suc i \<le> j" by simp
    let ?b = "buddy_of i a" and ?m = "min a (buddy_of i a)"
    have m: "2 ^ Suc i dvd ?m" using da by (rule merged_dvd)
    have both: "?m \<le> a" "a + 2 ^ i \<le> ?m + 2 ^ Suc i" "?m \<le> ?b" "?b + 2 ^ i \<le> ?m + 2 ^ Suc i"
      using da by (cases rule: buddy_cases; simp)+
    have ax: "a \<le> x" "x < a + 2 ^ i" using less.prems(3) unfolding inside_iff by auto
    have reg: "b \<le> ?m \<and> ?m + 2 ^ Suc i \<le> b + 2 ^ j"
      using both(1,2) ax less.prems(4,5) by (intro dyadic [OF m b ij, of x]) linarith+
    have pos: "(0 :: nat) < 2 ^ i" by simp
    have inb: "b \<le> ?b" "?b < b + 2 ^ j" using reg both(3,4) pos by linarith+
    from covered_by_block [OF full [OF inb]] obtain k d where k: "k < MAX_ORDER" "d \<in> set (?fl ! k)" "inside d (2 ^ k) ?b = 1"
      using len by auto
    have dk: "2 ^ k dvd d" using alignedD [OF al k(1,2)] by simp
    have db: "d \<le> ?b" "?b < d + 2 ^ k" using k(3) unfolding inside_iff by auto
    show False
    proof (cases "i < k")
      case True
      then have "Suc i \<le> k" by simp
      from dyadic [OF m dk this db both(3)] both(4) pos have "d \<le> ?m \<and> ?m + 2 ^ Suc i \<le> d + 2 ^ k" by linarith
      then have "d \<le> a" "a < d + 2 ^ k" using both(1,2) pos by linarith+
      then have "inside d (2 ^ k) a = 1" by (simp add: inside_def)
      moreover have "inside a (2 ^ i) a = 1" by (simp add: inside_def)
      ultimately have "i = k" using block_unique [OF one, of i a a k d] less.prems(1,2) k len by simp
      with True show False by simp
    next
      case False
      have "\<not> k < i" using less.IH [of k d ?b] k inb ij by auto
      with False have "k = i" by simp
      moreover have "d = ?b"
      proof -
        have dd: "2 ^ i dvd ?b" using da by (rule buddy_dvd)
        from dyadic [OF dk [unfolded \<open>k = i\<close>] dd order_refl, of ?b] db \<open>k = i\<close> show ?thesis by auto
      qed
      ultimately show False
        using coalescedD [OF co, of i a] less.prems(2) k(2) ij j by simp
    qed
  qed
qed

text \<open>The free lists of a coalesced heap are determined by which bytes are free.\<close>

lemma canonical_subset:
  assumes h: "coalesced_heap h" and g: "coalesced_heap g" and same: "cover (free_list h) = cover (free_list g)"
    and i: "i < MAX_ORDER" and a: "a \<in> set (free_list h ! i)"
  shows "a \<in> set (free_list g ! i)"
proof -
  have ok: "heap_ok h" "coalesced (free_list h)" "heap_ok g" "coalesced (free_list g)"
    using h g by (simp_all add: coalesced_heap_def)
  have al: "aligned (free_list h)" "aligned (free_list g)" using ok by (simp_all add: heap_ok_def)
  have da: "2 ^ i dvd a" using alignedD [OF al(1) i a] by simp
  have full_a: "0 < cover (free_list g) x" if "a \<le> x" "x < a + 2 ^ i" for x
  proof -
    have "inside a (2 ^ i) x \<le> list_cover i (free_list h ! i) x" by (rule list_cover_member [OF a])
    moreover have "list_cover i (free_list h ! i) x \<le> cover (free_list h) x"
      using i aligned_length [OF al(1)] by (intro cover_ge) simp
    ultimately show ?thesis using that same by (simp add: inside_def)
  qed
  have pos: "(0 :: nat) < 2 ^ i" by simp
  from covered_by_block [OF full_a [of a]] pos obtain j b where j: "j < MAX_ORDER" "b \<in> set (free_list g ! j)" "inside b (2 ^ j) a = 1"
    using aligned_length [OF al(2)] by auto
  have db: "2 ^ j dvd b" using alignedD [OF al(2) j(1,2)] by simp
  have ba: "b \<le> a" "a < b + 2 ^ j" using j(3) unfolding inside_iff by auto
  have full_b: "0 < cover (free_list h) x" if "b \<le> x" "x < b + 2 ^ j" for x
  proof -
    have "inside b (2 ^ j) x \<le> list_cover j (free_list g ! j) x" by (rule list_cover_member [OF j(2)])
    moreover have "list_cover j (free_list g ! j) x \<le> cover (free_list g) x"
      using j(1) aligned_length [OF al(2)] by (intro cover_ge) simp
    ultimately show ?thesis using that same by (simp add: inside_def)
  qed
  have self: "inside a (2 ^ i) a = 1" by (simp add: inside_def)
  have "j \<le> i" by (rule free_range_in_large_block [OF ok(1,2) j(1) db full_b i a self ba])
  moreover have "i \<le> j" using pos by (intro free_range_in_large_block [OF ok(3,4) i da full_a j]) auto
  ultimately have ij: "i = j" by simp
  from dyadic [OF db [folded ij] da order_refl, of a] ba pos ij have "a = b" by auto
  with j(2) ij show ?thesis by simp
qed

lemma canonical:
  "coalesced_heap h \<Longrightarrow> coalesced_heap g \<Longrightarrow> cover (free_list h) = cover (free_list g) \<Longrightarrow> i < MAX_ORDER \<Longrightarrow>
     set (free_list h ! i) = set (free_list g ! i)"
  using canonical_subset [of h g i] canonical_subset [of g h i] by (intro equalityI subsetI) simp_all

text \<open>The pieces of one range: none is the buddy of another.\<close>

definition pieces_of :: "nat \<Rightarrow> nat \<Rightarrow> nat list list \<Rightarrow> bool" where
  "pieces_of s e fl \<longleftrightarrow> aligned fl \<and> coalesced fl \<and>
     (\<forall>i < MAX_ORDER. \<forall>a \<in> set (fl ! i). a + 2 ^ i \<le> s \<and> (2 ^ Suc i dvd a \<longrightarrow> e - a < 2 ^ Suc i))"

lemma power_dvd_trailing: "0 < s \<Longrightarrow> 2 ^ k dvd s \<Longrightarrow> k \<le> trailing_zeros s"
proof (induction k arbitrary: s)
  case (Suc k)
  then obtain m where m: "s = 2 * (2 ^ k * m)" "0 < m" by (auto elim!: dvdE)
  with Suc.IH [of "2 ^ k * m"] show ?case unfolding m(1) by (subst trailing_zeros_double) auto
qed simp

lemma piece_low_fills:
  assumes "0 < s" "s < e" "e < 2 ^ 64" "piece_size s e = 2 ^ k" "2 ^ Suc k dvd s"
  shows "e - s < 2 ^ Suc k"
proof -
  obtain j where j: "prev_power_of_two (e - s) = 2 ^ j" "2 ^ j \<le> e - s" "e - s < 2 ^ Suc j"
    using prev_power_bounds [of "e - s"] assms by force
  have "lowbit s = 2 ^ trailing_zeros s" using lowbit_power [of s] assms by simp
  moreover have "Suc k \<le> trailing_zeros s" using power_dvd_trailing assms by blast
  ultimately have "2 ^ k < lowbit s" by simp
  then have "(2 :: nat) ^ j = 2 ^ k" using assms(4) j(1) by (auto simp: piece_size_def min_def split: if_splits)
  then show ?thesis using j(3) by simp
qed

lemma pieces_of_push:
  assumes p: "pieces_of s e fl" and s: "0 < s" "s < e" "e < 2 ^ 64"
    and k: "piece_size s e = 2 ^ k" "2 ^ k dvd s" "s + 2 ^ k \<le> e" "k < MAX_ORDER"
  shows "pieces_of (s + 2 ^ k) e (push_block k s fl)"
proof -
  let ?fl = "push_block k s fl"
  have al: "aligned fl" and co: "coalesced fl"
    and below: "\<And>i a. i < MAX_ORDER \<Longrightarrow> a \<in> set (fl ! i) \<Longrightarrow> a + 2 ^ i \<le> s"
    and low: "\<And>i a. i < MAX_ORDER \<Longrightarrow> a \<in> set (fl ! i) \<Longrightarrow> 2 ^ Suc i dvd a \<Longrightarrow> e - a < 2 ^ Suc i"
    using p by (auto simp: pieces_of_def)
  have at: "set (?fl ! i) = (if i = k then insert s (set (fl ! i)) else set (fl ! i))" if "i < MAX_ORDER" for i
    using that aligned_length [OF al] by (auto simp: push_block_def)
  have pos: "(0 :: nat) < 2 ^ k" by simp
  have fresh: "buddy_of k s \<notin> set (fl ! k)"
  proof
    assume b: "buddy_of k s \<in> set (fl ! k)"
    from k(2) show False
    proof (cases rule: buddy_cases)
      case low1: low
      with below [OF k(4) b] show False using pos by linarith
    next
      case (high b')
      with low [OF k(4) b] have "e - b' < 2 ^ Suc k" by simp
      with high(1) k(3) show False by simp
    qed
  qed
  have "coalesced ?fl"
    unfolding coalesced_def
  proof (intro allI impI)
    fix c q
    assume c: "c + 1 < MAX_ORDER" and q: "q \<in> set (?fl ! c)"
    show "buddy_of c q \<notin> set (?fl ! c)"
    proof (cases "c = k")
      case True
      have "buddy_of c q \<noteq> s" if "q \<in> set (fl ! c)"
        using that fresh True buddy_involution [of c q] by auto
      then show ?thesis
        using q at [of c] c True fresh coalescedD [OF co c, of q] buddy_neq [of c q] by auto
    next
      case False
      then show ?thesis using q at [of c] c coalescedD [OF co c] by auto
    qed
  qed
  moreover have "a + 2 ^ i \<le> s + 2 ^ k \<and> (2 ^ Suc i dvd a \<longrightarrow> e - a < 2 ^ Suc i)" if i: "i < MAX_ORDER" "a \<in> set (?fl ! i)" for i a
  proof (cases "i = k \<and> a = s")
    case True
    then show ?thesis using piece_low_fills [OF s k(1)] by simp
  next
    case False
    then have "a \<in> set (fl ! i)" using i at [of i] by (auto split: if_splits)
    then show ?thesis using below [OF i(1)] low [OF i(1)] by (meson trans_le_add1)
  qed
  ultimately show ?thesis
    using aligned_push [OF al s(1) k(2)] by (simp add: pieces_of_def)
qed

lemma add_pieces_coalesced:
  "pieces_of s e fl \<Longrightarrow> 0 < s \<Longrightarrow> 8 dvd s \<Longrightarrow> e < 2 ^ 64 \<Longrightarrow> add_pieces s e acc fl = Some (t, fl') \<Longrightarrow> coalesced fl'"
proof (induction s e acc fl rule: add_pieces.induct)
  case (1 s e acc fl)
  show ?case
  proof (cases "s + WORD \<le> e")
    case False
    then show ?thesis using 1(2,6) by (simp add: pieces_of_def add_pieces.simps [of s e])
  next
    case True
    obtain k where k: "piece_size s e = 2 ^ k" "3 \<le> k" "2 ^ k dvd s" "s + 2 ^ k \<le> e"
      using piece_size_spec [OF 1(3,4) True 1(5)] by blast
    have r: "k < MAX_ORDER" "add_pieces (s + 2 ^ k) e (acc + 2 ^ k) (push_block k s fl) = Some (t, fl')"
      using 1(6) True by (subst (asm) add_pieces.simps; simp add: Let_def k(1) split: if_splits)+
    have se: "s < e" using True by (simp add: WORD_def)
    have "(2 :: nat) ^ 3 dvd 2 ^ k" using k(2) by (rule le_imp_power_dvd)
    then have d8: "8 dvd s + 2 ^ k" using 1(4) by simp
    have "\<not> MAX_ORDER \<le> k" "0 < s + 2 ^ k" using r(1) 1(3) by simp_all
    from 1(1) [OF True refl, unfolded k(1) trailing_zeros_power, OF this(1)
        pieces_of_push [OF 1(2,3) se 1(5) k(1,3,4) r(1)] this(2) d8 1(5) r(2)]
    show ?thesis .
  qed
qed

lemma cover_new: "cover (free_list Heap_new) x = 0"
  by (simp add: cover_def Heap_new_def)

lemma aligned_new: "aligned (free_list Heap_new)"
  by (simp add: aligned_def Heap_new_def)

lemma pieces_of_new: "pieces_of s e (free_list Heap_new)"
  using aligned_new by (simp add: pieces_of_def Heap_new_def coalesced_def)

text \<open>A fresh heap that was given one range.\<close>

definition fresh_heap :: "nat \<Rightarrow> nat \<Rightarrow> Heap \<Rightarrow> bool" where
  "fresh_heap start stop h \<longleftrightarrow> add_to_heap start stop Heap_new = Some h"

definition in_region :: "nat \<Rightarrow> nat \<Rightarrow> nat \<Rightarrow> nat" where
  "in_region start stop = inside (first_word start) (last_word stop - first_word start)"

lemma fresh_heap_exists:
  assumes r: "region_ok start stop"
  shows "\<exists>h. fresh_heap start stop h \<and> coalesced_heap h \<and> (\<forall>x. heap_free h x = in_region start stop x) \<and>
    h_user h = 0 \<and> h_allocated h = 0"
proof -
  from add_to_heap_spec [OF aligned_new r] obtain h where h: "add_to_heap start stop Heap_new = Some h"
      "aligned (free_list h)" "\<forall>x. cover (free_list h) x = in_region start stop x"
    by (auto simp: cover_new in_region_def)
  have f: "word_floor (wrap64 (start + WORD - 1)) = first_word start" "word_floor stop = last_word stop"
    using r by (simp_all add: region_ok_def WORD_def word_floor_eq first_word_def last_word_def)
  have b: "0 < first_word start" "8 dvd first_word start" using r by (auto simp: region_ok_def first_word_def)
  have e: "last_word stop < 2 ^ 64"
    using r times_div_less_eq_dividend [of 8 stop] unfolding region_ok_def last_word_def by linarith
  from h(1) obtain t where t: "add_pieces (first_word start) (last_word stop) 0 (free_list Heap_new) = Some (t, free_list h)"
      "h_user h = 0" "h_allocated h = 0"
    unfolding add_to_heap_def Let_def f by (auto simp: Heap_new_def split: if_splits)
  have "coalesced (free_list h)" by (rule add_pieces_coalesced [OF pieces_of_new b e t(1)])
  with h t(2,3) show ?thesis
    by (auto simp: fresh_heap_def coalesced_heap_def heap_ok_def heap_free_def in_region_def inside_def)
qed

lemma fresh_heapD:
  assumes "region_ok start stop" "fresh_heap start stop h"
  shows "coalesced_heap h" "heap_ok h" "heap_free h x = in_region start stop x" "h_user h = 0" "h_allocated h = 0"
  using fresh_heap_exists [OF assms(1)] assms(2) by (auto simp: fresh_heap_def coalesced_heap_def)

lemma held_fresh:
  assumes "region_ok start stop" "fresh_heap start stop h"
  shows "buddy.holding h []" "coalescing_buddy.holding h []" "bounded_buddy.holding h []"
  using fresh_heapD [OF assms]
  by (auto simp: buddy.holding_def coalescing_buddy.holding_def bounded_buddy.holding_def in_region_def inside_def)

section \<open>The statistics\<close>

lemma wrap64_add: "wrap64 (wrap64 a + b) = wrap64 (a + b)"
  by (simp add: wrap64_def mod_add_left_eq)

lemma sub64_add: "b < 2 ^ 64 \<Longrightarrow> sub64 (wrap64 (b + a)) b = wrap64 a"
proof -
  assume b: "b < 2 ^ 64"
  have "sub64 (wrap64 (b + a)) b = ((b + a) mod 2 ^ 64 + (2 ^ 64 - b)) mod 2 ^ 64"
    using b by (simp add: sub64_def wrap64_def)
  also have "\<dots> = (b + a + (2 ^ 64 - b)) mod 2 ^ 64" by (rule mod_add_left_eq)
  also have "b + a + (2 ^ 64 - b) = a + 2 ^ 64" using b by simp
  finally show ?thesis by (simp add: wrap64_def)
qed

definition counts :: "Heap \<Rightarrow> (nat \<times> Layout) list \<Rightarrow> bool" where
  "counts h held \<longleftrightarrow> h_user h = wrap64 (\<Sum>(p, l)\<leftarrow>held. l_size l) \<and>
     h_allocated h = wrap64 (\<Sum>(p, l)\<leftarrow>held. block_size l)"

lemma counts_take:
  "counts h held \<Longrightarrow> heap_alloc l h = Some (r, h') \<Longrightarrow>
     counts h' (case r of None \<Rightarrow> held | Some p \<Rightarrow> (p, l) # held)"
  by (auto simp: counts_def heap_alloc_def Let_def wrap64_add [of _ "l_size l"] wrap64_add [of _ "block_size l"]
      add.commute [of "l_size l"] add.commute [of "block_size l"]
      split: option.splits prod.splits bool.splits list.splits if_splits)

lemma counts_give:
  assumes c: "counts h held" and n: "n < length held" "layout_ok (snd (held ! n))"
    and f: "free_list g = fl" "h_user g = h_user h" "h_allocated g = h_allocated h"
    and k: "class_of (snd (held ! n)) < MAX_ORDER"
  shows "counts (settle_stats (snd (held ! n)) g) (remove_nth n held)"
proof -
  let ?l = "snd (held ! n)"
  have "(2 :: nat) ^ class_of ?l < 2 ^ 64" using k by (intro power_strict_increasing) (auto simp: MAX_ORDER_def)
  then have b: "block_size ?l < 2 ^ 64" "l_size ?l < 2 ^ 64"
    using block_size_pow [OF n(2)] n(2) by (simp_all add: layout_ok_def)
  have s: "(\<Sum>e\<leftarrow>held. q (snd e)) = q ?l + (\<Sum>e\<leftarrow>remove_nth n held. q (snd e))" for q :: "Layout \<Rightarrow> nat"
    using sum_list_remove_nth [of n "map (\<lambda>e. q (snd e)) held"] n(1) by (simp add: map_remove_nth)
  show ?thesis
    using c f s [of l_size] s [of block_size] sub64_add [OF b(1)] sub64_add [OF b(2)]
    by (simp add: counts_def settle_stats_def case_prod_unfold)
qed

definition settles :: "(nat \<Rightarrow> Layout \<Rightarrow> Heap \<Rightarrow> Heap option) \<Rightarrow> bool" where
  "settles dealloc \<longleftrightarrow> (\<forall>p l h h'. dealloc p l h = Some h' \<longrightarrow> class_of l < MAX_ORDER \<and>
     (\<exists>fl. h' = settle_stats l (h\<lparr>free_list := fl\<rparr>)))"

lemma settles_dealloc [simp]: "settles heap_dealloc" "settles (dealloc_with_bounded_merge n)"
  by (auto simp: settles_def heap_dealloc_def dealloc_with_bounded_merge_def Let_def split: if_splits)

lemma counts_run:
  assumes d: "settles dealloc"
  shows "counts h held \<Longrightarrow> list_all (op_valid layout_ok) ops \<Longrightarrow> \<forall>e \<in> set held. layout_ok (snd e) \<Longrightarrow>
    mem_run heap_alloc dealloc ops h held = Some (h', held') \<Longrightarrow> counts h' held'"
proof (induction ops arbitrary: h held)
  case (Cons o1 ops)
  show ?case
  proof (cases o1)
    case (Take l)
    with Cons.prems(4) obtain r g where g: "heap_alloc l h = Some (r, g)" by (auto split: option.splits)
    note counts_take [OF Cons.prems(1) g]
    with Cons.prems Cons.IH [of g] g Take show ?thesis by (cases r) (auto simp: op_valid_def)
  next
    case (Give n)
    show ?thesis
    proof (cases "n < length held")
      case True
      with Cons.prems(4) Give obtain g where g: "dealloc (fst (held ! n)) (snd (held ! n)) h = Some g"
        by (auto split: option.splits)
      with d obtain fl where fl: "g = settle_stats (snd (held ! n)) (h\<lparr>free_list := fl\<rparr>)" "class_of (snd (held ! n)) < MAX_ORDER"
        unfolding settles_def by blast
      have "counts g (remove_nth n held)"
        unfolding fl(1) using True Cons.prems(3) fl(2) by (intro counts_give [OF Cons.prems(1)]) auto
      with Cons.IH [of g "remove_nth n held"] Cons.prems(2-4) Give True g set_remove_nth [of n held] show ?thesis by auto
    qed (use Cons Give in simp)
  qed
qed simp

section \<open>A heap of 32 bytes\<close>

lemma split_blocks_numeral:
  "split_blocks c (numeral n) fl = (if numeral n \<le> c then (True, fl)
     else case fl ! numeral n of
            [] \<Rightarrow> (False, fl)
          | b # rest \<Rightarrow> split_blocks c (pred_numeral n)
              (push_block (pred_numeral n) b (push_block (pred_numeral n) (b + 2 ^ pred_numeral n) (fl[numeral n := rest]))))"
  using split_blocks.simps(2) [of c "pred_numeral n"] unfolding numeral_eq_Suc [symmetric] by simp

lemmas buddy_eval = piece_size_def prev_power_of_two_def leading_zeros_def lowbit_def wrap64_def sub64_def MAX_ORDER_def
  WORD_def push_block_def word_floor_def settle_stats_def buddy_eq numeral_2_eq_2 [symmetric] Let_def
  add_pieces.simps merge_buddies.simps split_blocks_numeral remove_nth_def

definition small_heap :: Heap where
  "small_heap = Heap_new\<lparr>free_list := (replicate 35 [])[5 := [4096]], h_total := 32\<rparr>"

definition word_layout :: Layout where "word_layout = \<lparr>l_size = 8, l_align = 8\<rparr>"

definition pair_layout :: Layout where "pair_layout = \<lparr>l_size = 9, l_align = 2\<rparr>"

definition whole_layout :: Layout where "whole_layout = \<lparr>l_size = 32, l_align = 4\<rparr>"

lemma small_region: "region_ok 4096 4128"
  by (simp add: region_ok_def first_word_def last_word_def MAX_ORDER_def)

lemma small_heap_fresh: "add_to_heap 4096 4128 Heap_new = Some small_heap"
  by (simp add: add_to_heap_def buddy_eval Heap_new_def small_heap_def)

lemma small_layouts [simp]:
  "block_size word_layout = 8" "class_of word_layout = 3" "l_size word_layout = 8"
  "block_size pair_layout = 16" "class_of pair_layout = 4" "l_size pair_layout = 9"
  "block_size whole_layout = 32" "class_of whole_layout = 5"
  by (simp_all add: class_of_def block_size_def next_power_of_two_def WORD_def numeral_2_eq_2 [symmetric]
      word_layout_def pair_layout_def whole_layout_def)

lemma small_layouts_ok: "layout_ok word_layout" "layout_ok pair_layout" "layout_ok whole_layout"
proof -
  have "\<exists>k<64. (8 :: nat) = 2 ^ k" by (rule exI [of _ 3]) simp
  moreover have "\<exists>k<64. (2 :: nat) = 2 ^ k" by (rule exI [of _ 1]) simp
  moreover have "\<exists>k<64. (4 :: nat) = 2 ^ k" by (rule exI [of _ 2]) simp
  ultimately show "layout_ok word_layout" "layout_ok pair_layout" "layout_ok whole_layout"
    by (simp_all add: layout_ok_def word_layout_def pair_layout_def whole_layout_def)
qed

section \<open>Properties\<close>

lemma heap_run:
  assumes r: "region_ok start stop" "fresh_heap start stop h0" and ops: "list_all (op_valid layout_ok) ops"
    and d: "dealloc = heap_dealloc \<or> (\<exists>n. dealloc = dealloc_with_bounded_merge n)"
  shows "\<exists>h held. mem_run heap_alloc dealloc ops h0 [] = Some (h, held) \<and> heap_ok h \<and>
    (\<forall>(p, l) \<in> set held. layout_ok l \<and> heap_placed p l) \<and>
    (\<forall>x. heap_free h x + held_cover block_size held x = in_region start stop x)"
proof -
  have "\<exists>h held. mem_run heap_alloc dealloc ops h0 [] = Some (h, held) \<and> buddy.holding h held \<and>
      (\<forall>x. heap_free h x + held_cover block_size held x = heap_free h0 x + held_cover block_size [] x)"
    using d
  proof
    assume "dealloc = heap_dealloc"
    with buddy.run_keeps [OF held_fresh(1) [OF r] ops] show ?thesis by simp
  next
    assume "\<exists>n. dealloc = dealloc_with_bounded_merge n"
    with bounded_buddy.run_keeps [OF held_fresh(1) [OF r] ops] show ?thesis by blast
  qed
  then show ?thesis unfolding buddy.holding_def fresh_heapD(3) [OF r] by auto
qed

text \<open>
  C3.  A heap that was given one range of memory hands every byte of it to at most one owner.
  Take any sequence of allocations and releases, in any order, with releases by either routine:
  no step panics, every block held is aligned and large enough, and at the end the free lists
  and the blocks held together contain each byte of the range exactly once and no other byte.
  The statistics count what is held.
\<close>

theorem buddy_memory_has_one_owner:
  assumes "region_ok start stop" "list_all (op_valid layout_ok) ops"
    "dealloc = heap_dealloc \<or> (\<exists>n. dealloc = dealloc_with_bounded_merge n)"
  shows "\<exists>h0 h held. add_to_heap start stop Heap_new = Some h0 \<and> mem_run heap_alloc dealloc ops h0 [] = Some (h, held) \<and>
    (\<forall>x. cover (free_list h) x + held_cover block_size held x = in_region start stop x) \<and>
    list_all (\<lambda>(p, l). 0 < p \<and> l_align l dvd p \<and> l_size l \<le> block_size l) held \<and> counts h held"
proof -
  obtain h0 where h0: "fresh_heap start stop h0" "h_user h0 = 0" "h_allocated h0 = 0"
    using fresh_heap_exists [OF assms(1)] by blast
  from heap_run [OF assms(1) h0(1) assms(2,3)] obtain h held where h: "mem_run heap_alloc dealloc ops h0 [] = Some (h, held)"
      "\<forall>(p, l) \<in> set held. layout_ok l \<and> heap_placed p l" "\<forall>x. heap_free h x + held_cover block_size held x = in_region start stop x"
    by blast
  have "counts h0 []" using h0 by (simp add: counts_def)
  moreover have "settles dealloc" using assms(3) by auto
  ultimately have "counts h held" using counts_run [OF _ _ assms(2) _ h(1)] by simp
  moreover have "list_all (\<lambda>(p, l). 0 < p \<and> l_align l dvd p \<and> l_size l \<le> block_size l) held"
    using h(2) align_dvd_block block_size_ge by (fastforce simp: list_all_iff heap_placed_def intro: dvd_trans)
  ultimately show ?thesis using h h0(1) by (auto simp: fresh_heap_def heap_free_def)
qed

theorem buddy_memory_has_one_owner_witness:
  "\<exists>h0 h held. add_to_heap 4100 8192 Heap_new = Some h0 \<and>
     mem_run heap_alloc (dealloc_with_bounded_merge 1)
       [Take word_layout, Take pair_layout, Give 1] h0 [] = Some (h, held) \<and>
     (\<forall>x. cover (free_list h) x + held_cover block_size held x = in_region 4100 8192 x) \<and>
     list_all (\<lambda>(p, l). 0 < p \<and> l_align l dvd p \<and> l_size l \<le> block_size l) held \<and> counts h held"
proof (rule buddy_memory_has_one_owner)
  show "region_ok 4100 8192" by (simp add: region_ok_def first_word_def last_word_def MAX_ORDER_def)
  show "list_all (op_valid layout_ok) [Take word_layout, Take pair_layout, Give 1]"
    by (simp add: op_valid_def small_layouts_ok)
qed blast

text \<open>
  C26.  Releasing coalesces.  When everything taken from a fresh heap has been given back through
  \<^verbatim>\<open>dealloc\<close>, in whatever order, each free list holds the blocks it held at the start, so
  nothing is lost to fragmentation, and the statistics are zero again.
\<close>

theorem buddy_heap_coalesces:
  assumes r: "region_ok start stop" "add_to_heap start stop Heap_new = Some h0" and ops: "list_all (op_valid layout_ok) ops"
    and run: "mem_run heap_alloc heap_dealloc ops h0 [] = Some (h, [])" and i: "i < MAX_ORDER"
  shows "set (free_list h ! i) = set (free_list h0 ! i) \<and> h_user h = 0 \<and> h_allocated h = 0"
proof -
  have f: "fresh_heap start stop h0" using r(2) by (simp add: fresh_heap_def)
  note d = fresh_heapD [OF r(1) f]
  from coalescing_buddy.run_keeps [OF held_fresh(2) [OF r(1) f] ops] run
  have c: "coalesced_heap h" "heap_free h = heap_free h0" by (auto simp: coalescing_buddy.holding_def)
  then have "set (free_list h ! i) = set (free_list h0 ! i)"
    using canonical [OF c(1) d(1) _ i] by (simp add: heap_free_def)
  moreover have "counts h []" using counts_run [OF settles_dealloc(1) _ ops _ run] d by (simp add: counts_def)
  ultimately show ?thesis by (simp add: counts_def)
qed

theorem buddy_heap_coalesces_witness:
  "\<exists>h. mem_run heap_alloc heap_dealloc [Take word_layout, Give 0] small_heap [] = Some (h, []) \<and>
     set (free_list h ! 5) = set (free_list small_heap ! 5) \<and> h_user h = 0 \<and> h_allocated h = 0"
proof -
  let ?ops = "[Take word_layout, Give 0]"
  have "map_option snd (mem_run heap_alloc heap_dealloc ?ops small_heap []) = Some []"
    by (simp add: small_heap_def Heap_new_def heap_alloc_def heap_dealloc_def upt_rec_numeral buddy_eval)
  then obtain h where h: "mem_run heap_alloc heap_dealloc ?ops small_heap [] = Some (h, [])" by auto
  moreover have "list_all (op_valid layout_ok) ?ops" by (simp add: op_valid_def small_layouts_ok)
  ultimately show ?thesis
    using buddy_heap_coalesces [OF small_region small_heap_fresh _ h, of 5] by (simp add: MAX_ORDER_def)
qed

text \<open>
  C27.  Allocation is complete.  After any sequence of allocations and coalescing releases, a
  request is refused exactly when its order is beyond the largest or the range contains no
  aligned stretch of its block size that is clear of every block held.
\<close>

theorem buddy_alloc_refuses_only_without_room:
  assumes r: "region_ok start stop" "add_to_heap start stop Heap_new = Some h0" and ops: "list_all (op_valid layout_ok) ops"
    and run: "mem_run heap_alloc heap_dealloc ops h0 [] = Some (h, held)" and l: "layout_ok l"
  shows "(\<exists>p h'. heap_alloc l h = Some (Some p, h')) \<longleftrightarrow> class_of l < MAX_ORDER \<and>
    (\<exists>b. block_size l dvd b \<and> (\<forall>x. b \<le> x \<and> x < b + block_size l \<longrightarrow> in_region start stop x = 1 \<and> held_cover block_size held x = 0))"
    (is "?L \<longleftrightarrow> _ \<and> (\<exists>b. ?room b)")
proof -
  have f: "fresh_heap start stop h0" using r(2) by (simp add: fresh_heap_def)
  from coalescing_buddy.run_keeps [OF held_fresh(2) [OF r(1) f] ops] run
  have c: "coalesced_heap h" and tot: "\<And>x. heap_free h x + held_cover block_size held x = in_region start stop x"
    by (auto simp: coalescing_buddy.holding_def fresh_heapD(3) [OF r(1) f])
  have ok: "heap_ok h" "coalesced (free_list h)" using c by (simp_all add: coalesced_heap_def)
  have free_iff: "in_region start stop x = 1 \<and> held_cover block_size held x = 0 \<longleftrightarrow> 0 < heap_free h x" for x
  proof -
    have "in_region start stop x \<le> 1" by (simp add: in_region_def inside_def)
    with tot [of x] show ?thesis by auto
  qed
  show ?thesis
  proof
    assume ?L
    then obtain p h' where a: "heap_alloc l h = Some (Some p, h')" by blast
    with heap_alloc_law [OF ok(1) l] have p: "heap_placed p l" "\<And>x. heap_free h x = heap_free h' x + inside p (block_size l) x"
      by auto
    have "?room p" unfolding free_iff p(2) using p(1) by (auto simp: heap_placed_def inside_def)
    with p(1) show "class_of l < MAX_ORDER \<and> (\<exists>b. ?room b)" by (auto simp: heap_placed_def)
  next
    assume "class_of l < MAX_ORDER \<and> (\<exists>b. ?room b)"
    then obtain b where b: "class_of l < MAX_ORDER" "2 ^ class_of l dvd b"
        "\<And>x. b \<le> x \<Longrightarrow> x < b + 2 ^ class_of l \<Longrightarrow> 0 < cover (free_list h) x"
      unfolding free_iff block_size_pow [OF l] heap_free_def by blast
    have pos: "b < b + 2 ^ class_of l" by simp
    then obtain i a where i: "i < MAX_ORDER" "a \<in> set (free_list h ! i)" "inside a (2 ^ i) b = 1"
      using covered_by_block [OF b(3) [of b]] ok(1) by (auto simp: heap_ok_def aligned_def)
    have "class_of l \<le> i" by (rule free_range_in_large_block [OF ok b i order_refl pos])
    with i heap_alloc_spec [OF ok(1) l] show ?L by (force split: option.splits)
  qed
qed

theorem buddy_alloc_refuses_only_without_room_witness:
  "\<exists>h held. mem_run heap_alloc heap_dealloc [Take word_layout] small_heap [] = Some (h, held) \<and>
     \<not> (\<exists>p h'. heap_alloc whole_layout h = Some (Some p, h')) \<and>
     \<not> (class_of whole_layout < MAX_ORDER \<and>
         (\<exists>b. block_size whole_layout dvd b \<and> (\<forall>x. b \<le> x \<and> x < b + block_size whole_layout \<longrightarrow>
            in_region 4096 4128 x = 1 \<and> held_cover block_size held x = 0)))"
proof -
  let ?r = "mem_run heap_alloc heap_dealloc [Take word_layout] small_heap []"
  have ev: "\<exists>h held. ?r = Some (h, held) \<and> heap_alloc whole_layout h = Some (None, h)"
    by (simp add: small_heap_def Heap_new_def heap_alloc_def upt_rec_numeral buddy_eval)
  then obtain h held where h: "?r = Some (h, held)" "heap_alloc whole_layout h = Some (None, h)" by blast
  have "list_all (op_valid layout_ok) [Take word_layout]" by (simp add: op_valid_def small_layouts_ok)
  from buddy_alloc_refuses_only_without_room [OF small_region small_heap_fresh this h(1) small_layouts_ok(3)] h
  show ?thesis by auto
qed

end
