(* ===== verification/Cma.thy ===== *)
theory Cma
  imports Buddy
begin

text \<open>
  \<^verbatim>\<open>mm/frame_alloc/buddy_cma.rs\<close>: the allocator of physically contiguous pages.  It keeps one buddy
  heap of kernel addresses behind a spin lock with an owner.  The offset of the direct map differs
  between the platforms and is the argument \<open>off\<close>; the RAM ranges the firmware reports and the end of
  the kernel image are arguments too.  \<open>None\<close> is a panic.
\<close>

section \<open>Addresses and layouts\<close>

definition kernel_addr :: "nat \<Rightarrow> nat \<Rightarrow> nat" where
  "kernel_addr off pa = wrap64 (pa + off)"

definition phys_addr :: "nat \<Rightarrow> nat \<Rightarrow> nat" where
  "phys_addr off va = sub64 va off"

text \<open>
  \<^verbatim>\<open>Layout::from_size_align\<close>: the alignment is a power of two, and the size rounded up to it does not
  exceed \<^verbatim>\<open>isize::MAX\<close>.
\<close>

definition Layout_from_size_align :: "nat \<Rightarrow> nat \<Rightarrow> Layout option" where
  "Layout_from_size_align n a =
     (if a \<noteq> 0 \<and> 2 ^ trailing_zeros a = a \<and> n + a \<le> 2 ^ 63 then Some \<lparr>l_size = n, l_align = a\<rparr> else None)"

definition cma_layout :: "nat \<Rightarrow> nat \<Rightarrow> Layout option" where
  "cma_layout pages align_pages =
     (case (checked_mul_usize pages PAGE_SIZE, checked_mul_usize align_pages PAGE_SIZE) of
        (Some n, Some a) \<Rightarrow> Layout_from_size_align n a
      | _ \<Rightarrow> None)"

section \<open>The lock\<close>

definition CMA_UNLOCKED :: nat where "CMA_UNLOCKED = 0"

definition CMA_KERNEL_OWNER :: nat where "CMA_KERNEL_OWNER = usize_max"

text \<open>\<^verbatim>\<open>tid + 1\<close> when a task encodes an owner\<close>

definition task_owner :: "nat \<Rightarrow> nat option" where
  "task_owner tid =
     (case checked_add_usize tid 1 of
        Some owner \<Rightarrow> if owner \<noteq> CMA_KERNEL_OWNER then Some owner else None
      | None \<Rightarrow> None)"

definition owner_for_current_task :: "nat option \<Rightarrow> nat option" where
  "owner_for_current_task current = (case current of None \<Rightarrow> Some CMA_KERNEL_OWNER | Some tid \<Rightarrow> task_owner tid)"

text \<open>An atomic \<^verbatim>\<open>compare_exchange\<close> returns whether it stored the new value.\<close>

definition compare_exchange :: "nat \<Rightarrow> nat \<Rightarrow> nat \<Rightarrow> bool \<times> nat" where
  "compare_exchange current new cell = (if cell = current then (True, new) else (False, cell))"

text \<open>One turn of the spin loop of \<^verbatim>\<open>lock\<close>\<close>

definition lock_turn :: "nat \<Rightarrow> nat \<Rightarrow> bool \<times> nat" where
  "lock_turn owner cell = compare_exchange CMA_UNLOCKED owner cell"

definition drop_guard :: "nat \<Rightarrow> nat \<Rightarrow> nat option" where
  "drop_guard owner cell = (case compare_exchange owner CMA_UNLOCKED cell of (True, c) \<Rightarrow> Some c | (False, _) \<Rightarrow> None)"

definition cancel_task :: "nat \<Rightarrow> nat \<Rightarrow> nat option" where
  "cancel_task tid cell = (case task_owner tid of None \<Rightarrow> None | Some owner \<Rightarrow> Some (snd (compare_exchange owner CMA_UNLOCKED cell)))"

section \<open>Allocation\<close>

definition CMA_PAGE_BUDDY_SCAN_LIMIT :: nat where "CMA_PAGE_BUDDY_SCAN_LIMIT = 256"

definition cma_alloc_aligned :: "nat \<Rightarrow> nat \<Rightarrow> nat \<Rightarrow> Heap \<Rightarrow> (nat option \<times> Heap) option" where
  "cma_alloc_aligned off pages align_pages h =
     (if pages = 0 \<or> align_pages = 0 then Some (None, h)
      else case cma_layout pages align_pages of
             None \<Rightarrow> Some (None, h)
           | Some l \<Rightarrow>
               (case heap_alloc l h of
                  None \<Rightarrow> None
                | Some (None, h') \<Rightarrow> Some (None, h')
                | Some (Some p, h') \<Rightarrow> if p mod PAGE_SIZE \<noteq> 0 then None else Some (Some (phys_addr off p), h')))"

definition cma_alloc :: "nat \<Rightarrow> nat \<Rightarrow> Heap \<Rightarrow> (nat option \<times> Heap) option" where
  "cma_alloc off pages h = cma_alloc_aligned off pages 1 h"

definition cma_dealloc_aligned :: "nat \<Rightarrow> nat \<Rightarrow> nat \<Rightarrow> nat \<Rightarrow> Heap \<Rightarrow> Heap option" where
  "cma_dealloc_aligned off paddr pages align_pages h =
     (if pages = 0 \<or> paddr mod PAGE_SIZE \<noteq> 0 then None
      else case cma_layout pages align_pages of
             None \<Rightarrow> None
           | Some l \<Rightarrow>
               let va = kernel_addr off paddr in
               if va = 0 then None
               else if pages = 1 then dealloc_with_bounded_merge CMA_PAGE_BUDDY_SCAN_LIMIT va l h
               else heap_dealloc va l h)"

definition cma_dealloc :: "nat \<Rightarrow> nat \<Rightarrow> nat \<Rightarrow> Heap \<Rightarrow> Heap option" where
  "cma_dealloc off paddr pages h = cma_dealloc_aligned off paddr pages 1 h"

section \<open>The RAM given to the allocator at boot\<close>

text \<open>LoongArch: each range the firmware reports, from the end of the kernel image where that lies inside it\<close>

primrec init_ranges :: "nat \<Rightarrow> nat \<Rightarrow> (nat \<times> nat) list \<Rightarrow> nat \<Rightarrow> Heap \<Rightarrow> (nat \<times> Heap) option" where
  "init_ranges off ekernel_va [] acc h = Some (acc, h)"
| "init_ranges off ekernel_va (rg # ranges) acc h =
     (let start = fst rg; len = snd rg in
      if start mod PAGE_SIZE \<noteq> 0 \<or> len mod PAGE_SIZE \<noteq> 0 then None
      else
        let range_start = wrap64 (off + start); range_end = wrap64 (range_start + len);
            left = (if ekernel_va > range_start \<and> ekernel_va < range_end then ekernel_va else range_start) in
        if left \<ge> range_end then init_ranges off ekernel_va ranges acc h
        else case add_to_heap left range_end h of
               None \<Rightarrow> None
             | Some h' \<Rightarrow> init_ranges off ekernel_va ranges (wrap64 (acc + (range_end - left))) h')"

definition BOOTSTRAP_PHYSICAL_MEMORY_SIZE :: nat where "BOOTSTRAP_PHYSICAL_MEMORY_SIZE = 2 ^ 30"

text \<open>RISC-V: what the boot page table maps, and the rest once the direct map is complete\<close>

definition init_cma_bootstrap :: "nat \<Rightarrow> nat \<Rightarrow> (nat \<times> nat) list \<Rightarrow> Heap \<Rightarrow> (nat \<times> Heap) option" where
  "init_cma_bootstrap off ekernel_va ranges h =
     (case ranges of
        [(physical_start, physical_size)] \<Rightarrow>
          let used = sub64 (sub64 ekernel_va physical_start) off;
              bootstrap_size = min BOOTSTRAP_PHYSICAL_MEMORY_SIZE physical_size in
          if \<not> used < bootstrap_size then None
          else let len = bootstrap_size - used; left = wrap64 (wrap64 (off + physical_start) + used) in
               map_option (Pair len) (heap_init left len h)
      | _ \<Rightarrow> None)"

definition init_cma_late :: "nat \<Rightarrow> (nat \<times> nat) list \<Rightarrow> Heap \<Rightarrow> Heap option" where
  "init_cma_late off ranges h =
     (case ranges of
        [(physical_start, physical_size)] \<Rightarrow>
          let bootstrap_size = min BOOTSTRAP_PHYSICAL_MEMORY_SIZE physical_size in
          add_to_heap (wrap64 (wrap64 (off + physical_start) + bootstrap_size)) (wrap64 (wrap64 (off + physical_start) + physical_size)) h
      | _ \<Rightarrow> None)"

text \<open>\<^verbatim>\<open>init_cma\<close> of either platform: the image ends on a page, there is RAM, and some of it is free.\<close>

definition init_cma :: "(nat \<Rightarrow> (nat \<times> nat) list \<Rightarrow> Heap \<Rightarrow> (nat \<times> Heap) option) \<Rightarrow> nat \<Rightarrow> (nat \<times> nat) list \<Rightarrow> Heap \<Rightarrow> Heap option" where
  "init_cma init_cma_heap ekernel_va ranges h =
     (if ekernel_va mod 4096 \<noteq> 0 \<or> ranges = [] then None
      else case init_cma_heap ekernel_va ranges h of
             None \<Rightarrow> None
           | Some (acc, h') \<Rightarrow> if acc > 0 then Some h' else None)"

section \<open>The contract\<close>

definition cma_room :: "nat \<times> nat \<Rightarrow> nat" where
  "cma_room = (\<lambda>(pages, align_pages). case cma_layout pages align_pages of None \<Rightarrow> 0 | Some l \<Rightarrow> block_size l)"

text \<open>The kernel addresses through which the owner of the pages uses them\<close>

definition cma_take :: "nat \<Rightarrow> nat \<times> nat \<Rightarrow> Heap \<Rightarrow> (nat option \<times> Heap) option" where
  "cma_take off = (\<lambda>(pages, align_pages) h.
     map_option (\<lambda>(r, h'). (map_option (kernel_addr off) r, h')) (cma_alloc_aligned off pages align_pages h))"

definition cma_give :: "nat \<Rightarrow> nat \<Rightarrow> nat \<times> nat \<Rightarrow> Heap \<Rightarrow> Heap option" where
  "cma_give off va = (\<lambda>(pages, align_pages). cma_dealloc_aligned off (phys_addr off va) pages align_pages)"

text \<open>The free memory lies in the direct map.\<close>

definition direct_mapped :: "nat \<Rightarrow> Heap \<Rightarrow> bool" where
  "direct_mapped off h \<longleftrightarrow> (\<forall>x. 0 < heap_free h x \<longrightarrow> off \<le> x \<and> x < 2 ^ 64)"

definition cma_ok :: "nat \<Rightarrow> Heap \<Rightarrow> bool" where
  "cma_ok off h \<longleftrightarrow> heap_ok h \<and> direct_mapped off h \<and> PAGE_SIZE dvd off"

definition cma_placed :: "nat \<Rightarrow> nat \<Rightarrow> nat \<times> nat \<Rightarrow> bool" where
  "cma_placed off va = (\<lambda>(pages, align_pages). pages \<noteq> 0 \<and> off \<le> va \<and> va + cma_room (pages, align_pages) \<le> 2 ^ 64 \<and>
     (case cma_layout pages align_pages of None \<Rightarrow> False | Some l \<Rightarrow> heap_placed va l))"

lemma layout_from_ok: "Layout_from_size_align n a = Some l \<Longrightarrow> layout_ok l \<and> l_size l = n \<and> l_align l = a"
proof -
  assume "Layout_from_size_align n a = Some l"
  then have a: "2 ^ trailing_zeros a = a" "n + a \<le> 2 ^ 63" "l = \<lparr>l_size = n, l_align = a\<rparr>"
    by (auto simp: Layout_from_size_align_def split: if_splits)
  then have "(2 :: nat) ^ trailing_zeros a \<le> 2 ^ 63" by linarith
  then have "trailing_zeros a \<le> 63" by (rule power_le_imp_le_exp [rotated]) simp
  with a show ?thesis by (auto simp: layout_ok_def intro: exI [of _ "trailing_zeros a"])
qed

lemma cma_layoutD:
  assumes "cma_layout pages align_pages = Some l"
  shows "layout_ok l" "l_size l = pages * PAGE_SIZE" "l_align l = align_pages * PAGE_SIZE" "PAGE_SIZE dvd block_size l"
proof -
  show *: "layout_ok l" "l_size l = pages * PAGE_SIZE" "l_align l = align_pages * PAGE_SIZE"
    using assms by (auto simp: cma_layout_def checked_mul_usize_def split: if_splits dest!: layout_from_ok)
  show "PAGE_SIZE dvd block_size l" using align_dvd_block [OF *(1)] *(3) by (metis dvd_mult_right)
qed

lemma phys_kernel_addr: "off \<le> va \<Longrightarrow> va < 2 ^ 64 \<Longrightarrow> kernel_addr off (phys_addr off va) = va"
  by (simp add: kernel_addr_def phys_addr_def sub64_le)

lemma phys_addr_page:
  assumes "PAGE_SIZE dvd off" "off \<le> va" "va < 2 ^ 64" "PAGE_SIZE dvd va"
  shows "phys_addr off va mod PAGE_SIZE = 0"
  using assms dvd_diff_nat [of PAGE_SIZE va off] by (simp add: phys_addr_def sub64_le)

lemma placed_page: "heap_placed p l \<Longrightarrow> PAGE_SIZE dvd block_size l \<Longrightarrow> PAGE_SIZE dvd p"
  by (auto simp: heap_placed_def intro: dvd_trans)

lemma free_block_bounds:
  assumes "direct_mapped off h" "\<And>x. heap_free h x = heap_free h' x + inside p n x" "0 < n"
  shows "off \<le> p" "p + n \<le> 2 ^ 64" "direct_mapped off h'"
proof -
  have "inside p n p = 1" "inside p n (p + n - 1) = 1" unfolding inside_iff using assms(3) by linarith+
  then have "0 < heap_free h p" "0 < heap_free h (p + n - 1)" using assms(2) by simp_all
  with assms(1) have "off \<le> p" "p + n - 1 < 2 ^ 64" unfolding direct_mapped_def by blast+
  with assms(3) show "off \<le> p" "p + n \<le> 2 ^ 64" by linarith+
  show "direct_mapped off h'" using assms(1,2) by (simp add: direct_mapped_def)
qed

lemma block_size_pos: "0 < block_size l"
  using block_size_ge(3) [of l] by (simp add: WORD_def)

lemma cma_alloc_law:
  assumes ok: "cma_ok off h"
  shows "\<exists>r h'. cma_alloc_aligned off pages align_pages h = Some (map_option (phys_addr off) r, h') \<and> cma_ok off h' \<and>
    (case r of None \<Rightarrow> heap_free h' = heap_free h
     | Some p \<Rightarrow> cma_placed off p (pages, align_pages) \<and>
         (\<forall>x. heap_free h x = heap_free h' x + inside p (cma_room (pages, align_pages)) x))"
proof (cases "pages = 0 \<or> align_pages = 0 \<or> cma_layout pages align_pages = None")
  case True
  then show ?thesis using ok by (intro exI [of _ None] exI [of _ h]) (auto simp: cma_alloc_aligned_def)
next
  case False
  then obtain l where l: "cma_layout pages align_pages = Some l" by auto
  note L = cma_layoutD [OF l]
  have okh: "heap_ok h" "direct_mapped off h" "PAGE_SIZE dvd off" using ok by (simp_all add: cma_ok_def)
  from heap_alloc_law [OF okh(1) L(1)] obtain r h' where a: "heap_alloc l h = Some (r, h')" "heap_ok h'"
      "case r of None \<Rightarrow> heap_free h' = heap_free h
       | Some p \<Rightarrow> heap_placed p l \<and> (\<forall>x. heap_free h x = heap_free h' x + inside p (block_size l) x)"
    by blast
  show ?thesis
  proof (cases r)
    case None
    with a okh l False show ?thesis
      by (intro exI [of _ None] exI [of _ h']) (auto simp: cma_alloc_aligned_def cma_ok_def direct_mapped_def)
  next
    case (Some p)
    with a have p: "heap_placed p l" "\<And>x. heap_free h x = heap_free h' x + inside p (block_size l) x" by auto
    note b = free_block_bounds [OF okh(2) p(2) block_size_pos]
    have "cma_alloc_aligned off pages align_pages h = Some (Some (phys_addr off p), h')"
      using False l a(1) Some placed_page [OF p(1) L(4)] by (simp add: cma_alloc_aligned_def dvd_imp_mod_0)
    moreover have "cma_placed off p (pages, align_pages)" using False l p(1) b by (simp add: cma_placed_def cma_room_def)
    moreover have "cma_ok off h'" using a(2) b(3) okh(3) by (simp add: cma_ok_def)
    ultimately show ?thesis using p(2) l by (intro exI [of _ "Some p"] exI [of _ h']) (auto simp: cma_room_def)
  qed
qed

lemma cma_placed_addr:
  assumes "cma_placed off p q"
  shows "kernel_addr off (phys_addr off p) = p"
proof -
  obtain pages align_pages where q: "q = (pages, align_pages)" by (cases q)
  from assms obtain l where "cma_layout pages align_pages = Some l" "off \<le> p" "p + block_size l \<le> 2 ^ 64"
    by (auto simp: q cma_placed_def cma_room_def split: option.splits)
  moreover from this have "p < 2 ^ 64" using block_size_pos [of l] by linarith
  ultimately show ?thesis by (intro phys_kernel_addr)
qed

lemma cma_take_law:
  assumes "cma_ok off h"
  shows "\<exists>r h'. cma_take off q h = Some (r, h') \<and> cma_ok off h' \<and>
    (case r of None \<Rightarrow> heap_free h' = heap_free h
     | Some p \<Rightarrow> cma_placed off p q \<and> (\<forall>x. heap_free h x = heap_free h' x + inside p (cma_room q) x))"
proof (cases q)
  case (Pair pages align_pages)
  from cma_alloc_law [OF assms, of pages align_pages] obtain r h' where
    r: "cma_alloc_aligned off pages align_pages h = Some (map_option (phys_addr off) r, h')" "cma_ok off h'"
      "case r of None \<Rightarrow> heap_free h' = heap_free h
       | Some p \<Rightarrow> cma_placed off p (pages, align_pages) \<and>
           (\<forall>x. heap_free h x = heap_free h' x + inside p (cma_room (pages, align_pages)) x)"
    by blast
  then have "cma_take off q h = Some (r, h')" by (cases r) (auto simp: Pair cma_take_def cma_placed_addr)
  with r show ?thesis unfolding Pair by blast
qed

lemma cma_give_law:
  assumes ok: "cma_ok off h" and p: "cma_placed off va q" and one: "\<And>x. heap_free h x + inside va (cma_room q) x \<le> 1"
  shows "\<exists>h'. cma_give off va q h = Some h' \<and> cma_ok off h' \<and> (\<forall>x. heap_free h' x = heap_free h x + inside va (cma_room q) x)"
proof (cases q)
  case (Pair pages align_pages)
  with p obtain l where l: "cma_layout pages align_pages = Some l" "heap_placed va l" "pages \<noteq> 0" "off \<le> va"
      "va + block_size l \<le> 2 ^ 64"
    by (auto simp: cma_placed_def cma_room_def split: option.splits)
  note L = cma_layoutD [OF l(1)]
  have okh: "heap_ok h" "direct_mapped off h" "PAGE_SIZE dvd off" using ok by (simp_all add: cma_ok_def)
  have va: "va < 2 ^ 64" using l(5) block_size_pos [of l] by linarith
  have "0 < va" using l(2) by (simp add: heap_placed_def)
  then have g: "cma_give off va q h =
      (if pages = 1 then dealloc_with_bounded_merge CMA_PAGE_BUDDY_SCAN_LIMIT va l h else heap_dealloc va l h)"
    using l va phys_addr_page [OF okh(3) l(4) va placed_page [OF l(2) L(4)]] phys_kernel_addr [OF l(4) va]
    by (simp add: Pair cma_give_def cma_dealloc_aligned_def Let_def)
  have room: "cma_room q = block_size l" using l(1) by (simp add: Pair cma_room_def)
  have one': "heap_free h x + inside va (block_size l) x \<le> 1" for x using one [of x] room by simp
  have "\<exists>h'. cma_give off va q h = Some h' \<and> heap_ok h' \<and> (\<forall>x. heap_free h' x = heap_free h x + inside va (block_size l) x)"
    unfolding g using bounded_buddy.dealloc_law [OF okh(1) L(1) l(2) one', of CMA_PAGE_BUDDY_SCAN_LIMIT] buddy.dealloc_law [OF okh(1) L(1) l(2) one']
    by simp
  then obtain h' where h': "cma_give off va q h = Some h'" "heap_ok h'" "\<And>x. heap_free h' x = heap_free h x + inside va (block_size l) x"
    by blast
  have "direct_mapped off h'"
    using okh(2) l(4,5) by (auto simp: direct_mapped_def h'(3) inside_def)
  with h' okh(3) room show ?thesis by (auto simp: cma_ok_def)
qed

interpretation contiguous_pages: byte_allocator "cma_ok off" heap_free "\<lambda>q. True" cma_room "cma_placed off" "cma_take off" "cma_give off" for off
  by unfold_locales (rule cma_take_law, assumption, rule cma_give_law)

lemma cma_placed_pages:
  assumes "cma_placed off va (pages, align_pages)" "align_pages * PAGE_SIZE dvd off"
  shows "align_pages * PAGE_SIZE dvd phys_addr off va" "pages * PAGE_SIZE \<le> cma_room (pages, align_pages)"
proof -
  from assms obtain l where l: "cma_layout pages align_pages = Some l" "heap_placed va l" "off \<le> va" "va + block_size l \<le> 2 ^ 64"
    by (auto simp: cma_placed_def cma_room_def split: option.splits)
  note L = cma_layoutD [OF l(1)]
  have va: "va < 2 ^ 64" using l(4) block_size_pos [of l] by linarith
  have "align_pages * PAGE_SIZE dvd va"
    using align_dvd_block [OF L(1)] l(2) L(3) by (auto simp: heap_placed_def intro: dvd_trans)
  then show "align_pages * PAGE_SIZE dvd phys_addr off va"
    using assms(2) l(3) va by (simp add: phys_addr_def sub64_le dvd_diff_nat)
  show "pages * PAGE_SIZE \<le> cma_room (pages, align_pages)"
    using block_size_ge(1) [of l] L(2) l(1) by (simp add: cma_room_def)
qed

section \<open>Memory given to the allocator\<close>

lemma word_bounds:
  assumes "8 dvd a" "8 dvd b"
  shows "first_word a = a" "last_word b = b"
  using assms by (auto simp: first_word_def last_word_def elim!: dvdE)

text \<open>A range of whole pages in the direct map that is not yet free\<close>

definition addable :: "nat \<Rightarrow> nat \<Rightarrow> nat \<Rightarrow> Heap \<Rightarrow> bool" where
  "addable off a b h \<longleftrightarrow> PAGE_SIZE dvd a \<and> PAGE_SIZE dvd b \<and> 0 < a \<and> off \<le> a \<and> a \<le> b \<and> b < 2 ^ 64 \<and> b - a < 2 ^ MAX_ORDER \<and>
     (\<forall>x. heap_free h x + inside a (b - a) x \<le> 1)"

lemma add_pages:
  assumes ok: "heap_ok h" and a: "addable off a b h"
  shows "\<exists>h'. add_to_heap a b h = Some h' \<and> heap_ok h' \<and> (\<forall>x. heap_free h' x = heap_free h x + inside a (b - a) x) \<and>
    (direct_mapped off h \<longrightarrow> direct_mapped off h')"
proof -
  have d: "8 dvd a" "8 dvd b" using a by (auto simp: addable_def PAGE_SIZE_def elim!: dvdE)
  then obtain k where k: "a = 8 * k" by blast
  have "8 * k < 2 ^ 64" using a unfolding addable_def k by linarith
  then have "a + 7 < 2 ^ 64" unfolding k by simp
  then have r: "region_ok a b" using a d by (simp add: region_ok_def addable_def word_bounds)
  have al: "aligned (free_list h)" using ok by (simp add: heap_ok_def)
  from add_to_heap_spec [OF al r] obtain h' where h': "add_to_heap a b h = Some h'" "aligned (free_list h')"
      "\<And>x. heap_free h' x = heap_free h x + inside a (b - a) x"
    by (auto simp: word_bounds [OF d] heap_free_def)
  have "heap_ok h'" using h'(2,3) a by (simp add: heap_ok_def addable_def heap_free_def [symmetric])
  moreover have "direct_mapped off h'" if "direct_mapped off h"
    using that a by (auto simp: direct_mapped_def h'(3) inside_def addable_def)
  ultimately show ?thesis using h' by auto
qed

lemma fresh_ok: "heap_ok Heap_new" "heap_free Heap_new x = 0" "direct_mapped off Heap_new"
  by (simp_all add: heap_ok_def heap_free_def direct_mapped_def cover_new aligned_new)

text \<open>The part of a range that LoongArch gives to the allocator, by its kernel addresses\<close>

definition given_from :: "nat \<Rightarrow> nat \<Rightarrow> nat \<times> nat \<Rightarrow> nat" where
  "given_from off ekernel_va rg =
     (if ekernel_va > off + fst rg \<and> ekernel_va < off + fst rg + snd rg then ekernel_va else off + fst rg)"

definition given :: "nat \<Rightarrow> nat \<Rightarrow> nat \<times> nat \<Rightarrow> nat \<Rightarrow> nat" where
  "given off ekernel_va rg = inside (given_from off ekernel_va rg) (off + fst rg + snd rg - given_from off ekernel_va rg)"

definition ram_ok :: "nat \<Rightarrow> (nat \<times> nat) list \<Rightarrow> bool" where
  "ram_ok off ranges \<longleftrightarrow> 0 < off \<and> PAGE_SIZE dvd off \<and>
     (\<forall>(start, len) \<in> set ranges. PAGE_SIZE dvd start \<and> PAGE_SIZE dvd len \<and> off + start + len < 2 ^ 64 \<and> len < 2 ^ MAX_ORDER)"

lemma init_ranges_spec:
  assumes ek: "PAGE_SIZE dvd ekernel_va"
  shows "ram_ok off ranges \<Longrightarrow> heap_ok h \<Longrightarrow> direct_mapped off h \<Longrightarrow>
    (\<And>x. heap_free h x + (\<Sum>rg\<leftarrow>ranges. given off ekernel_va rg x) \<le> 1) \<Longrightarrow>
    \<exists>acc' h'. init_ranges off ekernel_va ranges acc h = Some (acc', h') \<and> heap_ok h' \<and> direct_mapped off h' \<and>
      (\<forall>x. heap_free h' x = heap_free h x + (\<Sum>rg\<leftarrow>ranges. given off ekernel_va rg x))"
proof (induction ranges arbitrary: acc h)
  case (Cons rg ranges)
  obtain start len where rg: "rg = (start, len)" by (cases rg)
  let ?e = "off + start + len" and ?l = "given_from off ekernel_va rg"
  have r: "PAGE_SIZE dvd off" "0 < off" "PAGE_SIZE dvd start" "PAGE_SIZE dvd len" "?e < 2 ^ 64" "len < 2 ^ MAX_ORDER" and rest: "ram_ok off ranges"
    using Cons.prems(1) by (auto simp: ram_ok_def rg)
  have w: "wrap64 (off + start) = off + start" "wrap64 (off + start + len) = ?e" using r(5) by simp_all
  have lo: "off + start \<le> ?l" "?l \<le> ?e" "PAGE_SIZE dvd ?l" "PAGE_SIZE dvd ?e"
    using ek r by (auto simp: given_from_def rg)
  have step: "init_ranges off ekernel_va (rg # ranges) acc h =
      (if ?l \<ge> ?e then init_ranges off ekernel_va ranges acc h
       else case add_to_heap ?l ?e h of None \<Rightarrow> None
            | Some h' \<Rightarrow> init_ranges off ekernel_va ranges (wrap64 (acc + (?e - ?l))) h')"
  proof -
    have l: "?l = (if ekernel_va > off + start \<and> ekernel_va < ?e then ekernel_va else off + start)" by (simp add: given_from_def rg)
    have "start mod PAGE_SIZE = 0" "len mod PAGE_SIZE = 0" using r(3,4) by (simp_all add: dvd_imp_mod_0)
    then show ?thesis unfolding l unfolding init_ranges.simps Let_def rg fst_conv snd_conv w by simp
  qed
  have g: "given off ekernel_va rg = inside ?l (?e - ?l)" by (simp add: given_def rg add.assoc)
  have addable: "addable off ?l ?e h"
  proof -
    have "?e - ?l < 2 ^ MAX_ORDER" using lo(1) r(6) by linarith
    moreover have "heap_free h x + inside ?l (?e - ?l) x \<le> 1" for x
      using Cons.prems(4) [of x] unfolding g [symmetric] by simp
    ultimately show ?thesis using lo r(2,5) by (simp add: addable_def)
  qed
  from add_pages [OF Cons.prems(2) addable] Cons.prems(3) obtain h1 where h1: "add_to_heap ?l ?e h = Some h1" "heap_ok h1"
      "\<And>x. heap_free h1 x = heap_free h x + given off ekernel_va rg x" "direct_mapped off h1"
    unfolding g by blast
  show ?case
  proof (cases "?l \<ge> ?e")
    case True
    have "given off ekernel_va rg x = 0" for x unfolding g using True by (simp add: inside_def)
    with Cons.IH [OF rest Cons.prems(2,3), of acc] Cons.prems(4) True step show ?thesis by simp
  next
    case False
    have "heap_free h1 x + (\<Sum>rg\<leftarrow>ranges. given off ekernel_va rg x) \<le> 1" for x
      using Cons.prems(4) [of x] h1(3) [of x] by simp
    from Cons.IH [OF rest h1(2,4) this, of "wrap64 (acc + (?e - ?l))"] h1(1,3) False step show ?thesis
      by (auto simp: add.assoc)
  qed
qed simp

text \<open>One range of RAM with the kernel image at its start\<close>

definition riscv_ram_ok :: "nat \<Rightarrow> nat \<Rightarrow> nat \<times> nat \<Rightarrow> bool" where
  "riscv_ram_ok off ekernel_va ram \<longleftrightarrow> PAGE_SIZE dvd ekernel_va \<and> ram_ok off [ram] \<and> off + fst ram \<le> ekernel_va \<and>
     ekernel_va < off + fst ram + min BOOTSTRAP_PHYSICAL_MEMORY_SIZE (snd ram)"

lemma bootstrap_spec:
  assumes r: "riscv_ram_ok off ekernel_va (start, len)"
  defines "b \<equiv> off + start + min BOOTSTRAP_PHYSICAL_MEMORY_SIZE len"
  shows "\<exists>h. init_cma (init_cma_bootstrap off) ekernel_va [(start, len)] Heap_new = Some h \<and> heap_ok h \<and> direct_mapped off h \<and>
    (\<forall>x. heap_free h x = inside ekernel_va (b - ekernel_va) x)"
proof -
  have p: "PAGE_SIZE dvd ekernel_va" "PAGE_SIZE dvd off" "PAGE_SIZE dvd start" "PAGE_SIZE dvd len" "0 < off"
      "off + start + len < 2 ^ 64" "len < 2 ^ MAX_ORDER" "off + start \<le> ekernel_va" "ekernel_va < b"
    using r by (auto simp: riscv_ram_ok_def ram_ok_def b_def)
  have bl: "b \<le> off + start + len" by (simp add: b_def)
  have "PAGE_SIZE dvd BOOTSTRAP_PHYSICAL_MEMORY_SIZE" by (simp add: PAGE_SIZE_def BOOTSTRAP_PHYSICAL_MEMORY_SIZE_def)
  then have pb: "PAGE_SIZE dvd b" using p(2-4) by (simp add: b_def min_def)
  have small: "b < 2 ^ 64" "ekernel_va < 2 ^ 64" "off + start < 2 ^ 64" using bl p(6,8,9) by linarith+
  have used: "sub64 (sub64 ekernel_va start) off = ekernel_va - start - off"
  proof -
    have "sub64 ekernel_va start = ekernel_va - start" by (rule sub64_le) (use p(8) small in linarith)+
    moreover have "sub64 (ekernel_va - start) off = ekernel_va - start - off" by (rule sub64_le) (use p(8) small in linarith)+
    ultimately show ?thesis by simp
  qed
  let ?u = "ekernel_va - start - off"
  have u: "off + start + ?u = ekernel_va" using p(8) by simp
  have lt: "?u < min BOOTSTRAP_PHYSICAL_MEMORY_SIZE len" using p(9) p(8) unfolding b_def by linarith
  have len: "min BOOTSTRAP_PHYSICAL_MEMORY_SIZE len - ?u = b - ekernel_va" using p(8) unfolding b_def by linarith
  have "b - ekernel_va < 2 ^ MAX_ORDER" using bl p(7,8) by linarith
  then have "addable off ekernel_va b Heap_new" using p pb small by (simp add: addable_def fresh_ok inside_def)
  from add_pages [OF fresh_ok(1) this] obtain h where h: "add_to_heap ekernel_va b Heap_new = Some h" "heap_ok h" "direct_mapped off h"
      "\<And>x. heap_free h x = inside ekernel_va (b - ekernel_va) x"
    by (auto simp: fresh_ok)
  have "heap_init ekernel_va (b - ekernel_va) Heap_new = Some h"
    using h(1) p(9) small(1) by (simp add: heap_init_def)
  then have "init_cma_bootstrap off ekernel_va [(start, len)] Heap_new = Some (b - ekernel_va, h)"
    unfolding init_cma_bootstrap_def list.case prod.case Let_def used wrap64_id [OF small(3)] u len wrap64_id [OF small(2)]
    by (simp only: lt not_True_eq_False if_False option.map)
  moreover have "ekernel_va mod 4096 = 0" using p(1) by (simp add: PAGE_SIZE_def dvd_imp_mod_0)
  ultimately show ?thesis using h(2-4) p(9) by (auto simp: init_cma_def)
qed

text \<open>
  On RISC-V the two stages of boot hand the page allocator all RAM behind the kernel image, each
  byte once: what the boot page table maps first, and the rest after the direct map is complete.
\<close>

lemma riscv_boot:
  assumes r: "riscv_ram_ok off ekernel_va (start, len)"
  shows "\<exists>h1 h2. init_cma (init_cma_bootstrap off) ekernel_va [(start, len)] Heap_new = Some h1 \<and>
    init_cma_late off [(start, len)] h1 = Some h2 \<and> cma_ok off h2 \<and>
    (\<forall>x. heap_free h2 x = inside ekernel_va (off + start + len - ekernel_va) x)"
proof -
  let ?b = "off + start + min BOOTSTRAP_PHYSICAL_MEMORY_SIZE len" and ?e = "off + start + len"
  from bootstrap_spec [OF r] obtain h1 where h1: "init_cma (init_cma_bootstrap off) ekernel_va [(start, len)] Heap_new = Some h1"
      "heap_ok h1" "direct_mapped off h1" "\<And>x. heap_free h1 x = inside ekernel_va (?b - ekernel_va) x"
    by blast
  have p: "PAGE_SIZE dvd off" "PAGE_SIZE dvd start" "PAGE_SIZE dvd len" "0 < off"
      "?e < 2 ^ 64" "len < 2 ^ MAX_ORDER" "off + start \<le> ekernel_va" "ekernel_va < ?b"
    using r by (auto simp: riscv_ram_ok_def ram_ok_def)
  have be: "?b \<le> ?e" by simp
  have "PAGE_SIZE dvd BOOTSTRAP_PHYSICAL_MEMORY_SIZE" by (simp add: PAGE_SIZE_def BOOTSTRAP_PHYSICAL_MEMORY_SIZE_def)
  then have pb: "PAGE_SIZE dvd ?b" "PAGE_SIZE dvd ?e" using p(1-3) by (simp_all add: min_def)
  have "?e - ?b < 2 ^ MAX_ORDER" using p(6) by linarith
  moreover have "inside ekernel_va (?b - ekernel_va) x + inside ?b (?e - ?b) x = inside ekernel_va (?e - ekernel_va) x" for x
    using p(8) be by (auto simp: inside_def)
  ultimately have "addable off ?b ?e h1" and sum: "\<And>x. heap_free h1 x + inside ?b (?e - ?b) x = inside ekernel_va (?e - ekernel_va) x"
    using pb p(4,5) be by (simp_all add: addable_def h1(4) inside_def [of ekernel_va "?e - ekernel_va"])
  from add_pages [OF h1(2) this(1)] h1(3) obtain h2 where h2: "add_to_heap ?b ?e h1 = Some h2" "heap_ok h2" "direct_mapped off h2"
      "\<And>x. heap_free h2 x = inside ekernel_va (?e - ekernel_va) x"
    unfolding sum by blast
  have "off + start < 2 ^ 64" "?b < 2 ^ 64" using be p(5) by linarith+
  then have "init_cma_late off [(start, len)] h1 = Some h2"
    using h2(1) p(5) by (simp add: init_cma_late_def Let_def)
  with h1(1) h2(2-4) p(1) show ?thesis by (auto simp: cma_ok_def)
qed

text \<open>LoongArch gives each range from the end of the image where that lies strictly inside it, and in full otherwise.\<close>

lemma loongarch_boot:
  assumes "PAGE_SIZE dvd ekernel_va" "ram_ok off ranges" "\<And>x. (\<Sum>rg\<leftarrow>ranges. given off ekernel_va rg x) \<le> 1"
  shows "\<exists>acc h. init_ranges off ekernel_va ranges 0 Heap_new = Some (acc, h) \<and> cma_ok off h \<and>
    (\<forall>x. heap_free h x = (\<Sum>rg\<leftarrow>ranges. given off ekernel_va rg x))"
  using init_ranges_spec [OF assms(1,2) fresh_ok(1,3), of 0] assms(2,3)
  by (auto simp: fresh_ok cma_ok_def ram_ok_def)

text \<open>A range that ends where the image ends is given in full, image included.\<close>

lemma loongarch_image_at_range_end:
  "given off (off + start + len) (start, len) = inside (off + start) len"
  by (simp add: given_def given_from_def)

section \<open>Exclusion\<close>

text \<open>
  Tasks and task-less contexts share the lock.  \<open>guards\<close> are the owners inside the critical section;
  a task that is detached loses its kernel stack, and with it its guard, without running the drop.
  \<^verbatim>\<open>cancel_cma_lock_owner\<close> is called for detached tasks only.
\<close>

record cma_lock =
  lk_cell :: nat
  lk_guards :: "nat list"
  lk_detached :: "nat set"

inductive cma_step :: "cma_lock \<Rightarrow> cma_lock \<Rightarrow> bool" where
  acquire: "owner_for_current_task current = Some owner \<Longrightarrow> (\<And>tid. current = Some tid \<Longrightarrow> tid \<notin> lk_detached s) \<Longrightarrow>
    lock_turn owner (lk_cell s) = (True, c) \<Longrightarrow> cma_step s (s\<lparr>lk_cell := c, lk_guards := owner # lk_guards s\<rparr>)"
| spin: "owner_for_current_task current = Some owner \<Longrightarrow> lock_turn owner (lk_cell s) = (False, c) \<Longrightarrow>
    cma_step s (s\<lparr>lk_cell := c\<rparr>)"
| release: "owner \<in> set (lk_guards s) \<Longrightarrow> drop_guard owner (lk_cell s) = Some c \<Longrightarrow>
    cma_step s (s\<lparr>lk_cell := c, lk_guards := remove1 owner (lk_guards s)\<rparr>)"
| detach: "task_owner tid = Some owner \<Longrightarrow>
    cma_step s (s\<lparr>lk_guards := removeAll owner (lk_guards s), lk_detached := insert tid (lk_detached s)\<rparr>)"
| cancel: "tid \<in> lk_detached s \<Longrightarrow> cancel_task tid (lk_cell s) = Some c \<Longrightarrow> cma_step s (s\<lparr>lk_cell := c\<rparr>)"

inductive cma_reachable :: "cma_lock \<Rightarrow> bool" where
  unlocked: "cma_reachable \<lparr>lk_cell = CMA_UNLOCKED, lk_guards = [], lk_detached = {}\<rparr>"
| later: "cma_reachable s \<Longrightarrow> cma_step s s' \<Longrightarrow> cma_reachable s'"

definition abandoned :: "cma_lock \<Rightarrow> bool" where
  "abandoned s \<longleftrightarrow> (\<exists>tid \<in> lk_detached s. task_owner tid = Some (lk_cell s))"

definition lock_inv :: "cma_lock \<Rightarrow> bool" where
  "lock_inv s \<longleftrightarrow> (if lk_cell s = CMA_UNLOCKED then lk_guards s = []
     else lk_guards s = [lk_cell s] \<or> lk_guards s = [] \<and> abandoned s)"

lemma owner_nonzero: "owner_for_current_task current = Some owner \<Longrightarrow> owner \<noteq> CMA_UNLOCKED"
  by (auto simp: owner_for_current_task_def task_owner_def CMA_KERNEL_OWNER_def CMA_UNLOCKED_def usize_max_def
      checked_add_usize_Some split: option.splits if_splits)

lemma owner_encodes:
  "task_owner tid = Some owner \<Longrightarrow> owner_for_current_task current = Some owner \<Longrightarrow> current = Some tid"
  by (auto simp: owner_for_current_task_def task_owner_def CMA_KERNEL_OWNER_def
      checked_add_usize_Some split: option.splits if_splits)

lemma task_owner_inj: "task_owner t = Some owner \<Longrightarrow> task_owner u = Some owner \<Longrightarrow> t = u"
  by (auto simp: task_owner_def checked_add_usize_Some split: option.splits if_splits)

lemma cancel_abandoned: "task_owner tid = Some (lk_cell s) \<Longrightarrow> cancel_task tid (lk_cell s) = Some CMA_UNLOCKED"
  by (simp add: cancel_task_def compare_exchange_def)

text \<open>An owner inside the critical section is not detached.\<close>

definition guards_live :: "cma_lock \<Rightarrow> bool" where
  "guards_live s \<longleftrightarrow> (\<forall>tid \<in> lk_detached s. \<forall>owner. task_owner tid = Some owner \<longrightarrow> owner \<notin> set (lk_guards s))"

lemma lock_inv_step: "cma_step s s' \<Longrightarrow> lock_inv s \<and> guards_live s \<Longrightarrow> lock_inv s' \<and> guards_live s'"
proof (induction rule: cma_step.induct)
  case (acquire current owner s c)
  have c: "lk_cell s = CMA_UNLOCKED" "c = owner"
    using acquire.hyps(3) by (auto simp: lock_turn_def compare_exchange_def split: if_splits)
  with acquire.prems have "lk_guards s = []" by (simp add: lock_inv_def)
  with c owner_nonzero [OF acquire.hyps(1)] acquire.prems acquire.hyps(2) owner_encodes [OF _ acquire.hyps(1)]
  show ?case by (auto simp: lock_inv_def guards_live_def)
next
  case (spin current owner s c)
  then show ?case by (auto simp: lock_turn_def compare_exchange_def lock_inv_def guards_live_def abandoned_def split: if_splits)
next
  case (release owner s c)
  have c: "lk_cell s = owner" "c = CMA_UNLOCKED"
    using release.hyps(2) by (auto simp: drop_guard_def compare_exchange_def split: if_splits)
  with release have "lk_guards s = [owner]" by (auto simp: lock_inv_def split: if_splits)
  with c release.prems show ?case by (simp add: lock_inv_def guards_live_def)
next
  case (detach tid owner s)
  then show ?case
    using task_owner_inj by (auto simp: lock_inv_def guards_live_def abandoned_def split: if_splits)
next
  case (cancel tid s c)
  then obtain owner where o1: "task_owner tid = Some owner" "c = snd (compare_exchange owner CMA_UNLOCKED (lk_cell s))"
    by (auto simp: cancel_task_def split: option.splits)
  show ?case
  proof (cases "lk_cell s = owner")
    case True
    with cancel o1 have "owner \<notin> set (lk_guards s)" by (auto simp: guards_live_def)
    with cancel.prems True have "lk_guards s = []" by (auto simp: lock_inv_def split: if_splits)
    then show ?thesis using o1(2) True by (simp add: compare_exchange_def lock_inv_def guards_live_def)
  next
    case False
    then show ?thesis using o1(2) cancel.prems by (auto simp: compare_exchange_def lock_inv_def guards_live_def abandoned_def split: if_splits)
  qed
qed

lemma lock_inv_reachable: "cma_reachable s \<Longrightarrow> lock_inv s \<and> guards_live s"
  by (induction rule: cma_reachable.induct) (auto simp: lock_inv_def guards_live_def dest: lock_inv_step)

text \<open>
  The owner lock of the page allocator excludes.  In every reachable state at most one owner is
  inside the critical section; its guard can be dropped without a panic; and a lock that is taken
  with nobody inside belongs to a detached task, whose cancellation frees it.
\<close>

lemma cma_lock_excludes:
  assumes "cma_reachable s"
  shows "length (lk_guards s) \<le> 1 \<and>
    list_all (\<lambda>owner. drop_guard owner (lk_cell s) = Some CMA_UNLOCKED) (lk_guards s) \<and>
    (lk_cell s = CMA_UNLOCKED \<or> lk_guards s \<noteq> [] \<or> (\<exists>tid \<in> lk_detached s. cancel_task tid (lk_cell s) = Some CMA_UNLOCKED))"
  using lock_inv_reachable [OF assms] cancel_abandoned
  by (auto simp: lock_inv_def abandoned_def drop_guard_def compare_exchange_def split: if_splits)

lemma cma_lock_excludes_witness:
  "\<exists>s :: cma_lock. lk_cell s = 8 \<and> lk_guards s = [] \<and> (\<exists>tid \<in> lk_detached s. cancel_task tid (lk_cell s) = Some CMA_UNLOCKED)"
proof -
  let ?s0 = "\<lparr>lk_cell = CMA_UNLOCKED, lk_guards = [], lk_detached = {}\<rparr>"
  let ?s1 = "?s0\<lparr>lk_cell := 8, lk_guards := [8]\<rparr>"
  let ?s2 = "?s1\<lparr>lk_guards := [], lk_detached := {7}\<rparr>"
  have o7: "task_owner 7 = Some 8"
    by (simp add: task_owner_def checked_add_usize_def usize_max_def CMA_KERNEL_OWNER_def)
  have "cma_step ?s0 ?s1"
    using cma_step.acquire [of "Some 7" 8 ?s0 8] o7
    by (simp add: owner_for_current_task_def lock_turn_def compare_exchange_def)
  moreover have "cma_step ?s1 ?s2" using cma_step.detach [OF o7, of ?s1] by simp
  ultimately have "cma_reachable ?s2" using cma_reachable.intros by blast
  from cma_lock_excludes [OF this] have "cancel_task 7 8 = Some CMA_UNLOCKED" by (simp add: CMA_UNLOCKED_def)
  then show ?thesis by (intro exI [of _ ?s2]) simp
qed

end
