(* ===== verification/Page_Frames.thy ===== *)
theory Page_Frames
  imports Cma
begin

text \<open>
  \<^verbatim>\<open>mm/frame_alloc/page_cache.rs\<close> and \<^verbatim>\<open>frame_tracker.rs\<close>: single pages, cached in front of the
  contiguous allocator, and the trackers that own them.  A page cache and the heap behind it are
  again an allocator of bytes, for single pages and for contiguous ones at the same time.
\<close>

section \<open>The page cache\<close>

text \<open>\<^verbatim>\<open>PhysPageNum::from(PhysAddr)\<close> asserts that the address is on a page.\<close>

definition page_of_addr :: "nat \<Rightarrow> nat option" where
  "page_of_addr pa = (if pa mod PAGE_SIZE \<noteq> 0 then None else Some (pa div PAGE_SIZE))"

definition addr_of_page :: "nat \<Rightarrow> nat" where
  "addr_of_page ppn = wrap64 (ppn * 2 ^ 12)"

record PageCache =
  pc_list :: "nat list"
  pc_count :: nat
  pc_total_allocated :: nat
  pc_total_deallocated :: nat
  pc_high :: nat
  pc_low :: nat
  pc_refill :: nat
  pc_flush :: nat

definition MAX_WATERMARK :: nat where "MAX_WATERMARK = 65536"

definition MAX_BATCH :: nat where "MAX_BATCH = 4096"

definition PageCache_new :: PageCache where
  "PageCache_new = \<lparr>pc_list = [], pc_count = 0, pc_total_allocated = 0, pc_total_deallocated = 0,
     pc_high = 128, pc_low = 32, pc_refill = 16, pc_flush = 64\<rparr>"

definition configure :: "nat \<Rightarrow> nat \<Rightarrow> nat \<Rightarrow> nat \<Rightarrow> PageCache \<Rightarrow> SysErrNo + PageCache" where
  "configure high_watermark low_watermark refill_batch flush_batch pc =
     (if low_watermark = 0 \<or> low_watermark > high_watermark \<or> high_watermark > MAX_WATERMARK \<or> refill_batch = 0 \<or>
         flush_batch = 0 \<or> refill_batch > MAX_BATCH \<or> flush_batch > MAX_BATCH
      then Inl EINVAL
      else Inr (pc\<lparr>pc_high := high_watermark, pc_low := low_watermark, pc_refill := refill_batch, pc_flush := flush_batch\<rparr>))"

text \<open>The batch that refills an empty cache; \<open>False\<close> when the contiguous allocator runs out.\<close>

primrec refill :: "nat \<Rightarrow> nat \<Rightarrow> nat list \<Rightarrow> Heap \<Rightarrow> (bool \<times> nat list \<times> Heap) option" where
  "refill off 0 l h = Some (True, l, h)"
| "refill off (Suc n) l h =
     (case cma_alloc off 1 h of
        None \<Rightarrow> None
      | Some (None, h') \<Rightarrow> Some (False, l, h')
      | Some (Some pa, h') \<Rightarrow>
          (case page_of_addr pa of
             None \<Rightarrow> None
           | Some ppn \<Rightarrow> refill off n (l @ [ppn]) h'))"

text \<open>The loop of \<^verbatim>\<open>alloc\<close>; it runs forever when the batch is empty.\<close>

partial_function (option) pc_alloc :: "nat \<Rightarrow> PageCache \<Rightarrow> Heap \<Rightarrow> (nat option \<times> PageCache \<times> Heap) option" where
  "pc_alloc off pc h =
     (if pc_list pc \<noteq> [] then
        Some (Some (last (pc_list pc)),
              pc\<lparr>pc_list := butlast (pc_list pc), pc_count := sub64 (pc_count pc) 1,
                 pc_total_allocated := wrap64 (pc_total_allocated pc + 1)\<rparr>, h)
      else case refill off (pc_refill pc) [] h of
             None \<Rightarrow> None
           | Some (ok, l, h') \<Rightarrow>
               if ok then pc_alloc off (pc\<lparr>pc_list := l, pc_count := wrap64 (pc_count pc + pc_refill pc)\<rparr>) h'
               else Some (None, pc\<lparr>pc_list := l\<rparr>, h'))"

declare pc_alloc.simps [code]

primrec flush :: "nat \<Rightarrow> nat list \<Rightarrow> Heap \<Rightarrow> Heap option" where
  "flush off [] h = Some h"
| "flush off (ppn # l) h =
     (case cma_dealloc off (addr_of_page ppn) 1 h of None \<Rightarrow> None | Some h' \<Rightarrow> flush off l h')"

definition pc_dealloc :: "nat \<Rightarrow> nat \<Rightarrow> PageCache \<Rightarrow> Heap \<Rightarrow> (PageCache \<times> Heap) option" where
  "pc_dealloc off ppn pc h =
     (let l = pc_list pc @ [ppn]; count = wrap64 (pc_count pc + 1);
          pc1 = pc\<lparr>pc_list := l, pc_count := count, pc_total_deallocated := wrap64 (pc_total_deallocated pc + 1)\<rparr> in
      if count \<ge> pc_high pc then
        if length l \<le> pc_low pc then Some (pc1, h)
        else
          let n = min (pc_flush pc) (length l - pc_low pc); kept = take (length l - n) l; flush_pages = rev (drop (length l - n) l) in
          map_option (Pair (pc1\<lparr>pc_list := kept, pc_count := sub64 count (length flush_pages)\<rparr>)) (flush off flush_pages h)
      else Some (pc1, h))"

section \<open>Frame trackers\<close>

text \<open>A block of contiguous pages with the arguments of its allocation, shared by the trackers of its pages\<close>

record HugeFrameBlock =
  base_ppn :: nat
  hb_pages :: nat
  hb_align_pages :: nat

record FrameTracker =
  ppn :: nat
  huge_block :: "HugeFrameBlock option"

type_synonym memory = "nat \<Rightarrow> 8 word"

definition page_va :: "nat \<Rightarrow> nat \<Rightarrow> nat" where
  "page_va off q = kernel_addr off (addr_of_page q)"

text \<open>\<^verbatim>\<open>new\<close> clears the page.\<close>

definition FrameTracker_new :: "nat \<Rightarrow> nat \<Rightarrow> memory \<Rightarrow> FrameTracker \<times> memory" where
  "FrameTracker_new off q m =
     (\<lparr>ppn = q, huge_block = None\<rparr>, \<lambda>x. if page_va off q \<le> x \<and> x < page_va off q + PAGE_SIZE then 0 else m x)"

definition frame_alloc :: "nat \<Rightarrow> PageCache \<Rightarrow> Heap \<Rightarrow> memory \<Rightarrow> (FrameTracker option \<times> PageCache \<times> Heap \<times> memory) option" where
  "frame_alloc off pc h m =
     (case pc_alloc off pc h of
        None \<Rightarrow> None
      | Some (None, pc', h') \<Rightarrow> Some (None, pc', h', m)
      | Some (Some q, pc', h') \<Rightarrow> (let (f, m') = FrameTracker_new off q m in Some (Some f, pc', h', m')))"

definition from_huge_ppn :: "nat \<Rightarrow> nat \<Rightarrow> HugeFrameBlock \<Rightarrow> memory \<Rightarrow> FrameTracker \<times> memory" where
  "from_huge_ppn off q block m = (let (f, m') = FrameTracker_new off q m in (f\<lparr>huge_block := Some block\<rparr>, m'))"

definition huge_drop :: "nat \<Rightarrow> HugeFrameBlock \<Rightarrow> Heap \<Rightarrow> Heap option" where
  "huge_drop off b h = cma_dealloc_aligned off (addr_of_page (base_ppn b)) (hb_pages b) (hb_align_pages b) h"

text \<open>
  The last reference to a tracker goes.  A single page returns to the cache.  The page of a block
  releases its share of the block, and the block itself when none of the other \<open>live\<close> trackers
  shares it.
\<close>

definition tracker_drop :: "nat \<Rightarrow> FrameTracker \<Rightarrow> FrameTracker list \<Rightarrow> PageCache \<Rightarrow> Heap \<Rightarrow> (PageCache \<times> Heap) option" where
  "tracker_drop off f live pc h =
     (case huge_block f of
        None \<Rightarrow> pc_dealloc off (ppn f) pc h
      | Some b \<Rightarrow> if \<exists>g \<in> set live. huge_block g = Some b then Some (pc, h) else map_option (Pair pc) (huge_drop off b h))"

section \<open>The contract\<close>

datatype page_req = Frame | Contiguous nat nat

fun req_key :: "page_req \<Rightarrow> nat \<times> nat" where
  "req_key Frame = (1, 1)"
| "req_key (Contiguous pages align_pages) = (pages, align_pages)"

definition cached :: "nat \<Rightarrow> nat list \<Rightarrow> nat \<Rightarrow> nat" where
  "cached off l x = (\<Sum>q\<leftarrow>l. inside (page_va off q) (cma_room (1, 1)) x)"

definition page_ok :: "nat \<Rightarrow> nat \<Rightarrow> bool" where
  "page_ok off q \<longleftrightarrow> cma_placed off (page_va off q) (1, 1)"

definition frames_free :: "nat \<Rightarrow> PageCache \<times> Heap \<Rightarrow> nat \<Rightarrow> nat" where
  "frames_free off = (\<lambda>(pc, h) x. heap_free h x + cached off (pc_list pc) x)"

definition frames_ok :: "nat \<Rightarrow> PageCache \<times> Heap \<Rightarrow> bool" where
  "frames_ok off s \<longleftrightarrow> cma_ok off (snd s) \<and> (\<forall>q \<in> set (pc_list (fst s)). page_ok off q) \<and>
     (\<forall>x. frames_free off s x \<le> 1) \<and> 0 < pc_refill (fst s)"

fun req_take :: "nat \<Rightarrow> page_req \<Rightarrow> PageCache \<times> Heap \<Rightarrow> (nat option \<times> PageCache \<times> Heap) option" where
  "req_take off Frame (pc, h) = map_option (\<lambda>(r, s). (map_option (page_va off) r, s)) (pc_alloc off pc h)"
| "req_take off (Contiguous pages align_pages) (pc, h) =
     map_option (\<lambda>(r, h'). (r, (pc, h'))) (cma_take off (pages, align_pages) h)"

fun req_give :: "nat \<Rightarrow> nat \<Rightarrow> page_req \<Rightarrow> PageCache \<times> Heap \<Rightarrow> (PageCache \<times> Heap) option" where
  "req_give off va Frame (pc, h) = pc_dealloc off (phys_addr off va div PAGE_SIZE) pc h"
| "req_give off va (Contiguous pages align_pages) (pc, h) = map_option (Pair pc) (cma_give off va (pages, align_pages) h)"

lemma cached_simps [simp]:
  "cached off [] x = 0" "cached off (q # l) x = inside (page_va off q) (cma_room (1, 1)) x + cached off l x"
  "cached off (l @ l') x = cached off l x + cached off l' x" "cached off (rev l) x = cached off l x"
  by (simp_all add: cached_def rev_map [symmetric] sum_list_rev)

lemma cached_butlast: "l \<noteq> [] \<Longrightarrow> cached off l x = cached off (butlast l) x + inside (page_va off (last l)) (cma_room (1, 1)) x"
  using cached_simps(3) [of off "butlast l" "[last l]" x] by simp

lemma cached_split: "cached off l x = cached off (take n l) x + cached off (drop n l) x"
  using cached_simps(3) [of off "take n l" "drop n l" x] by simp

text \<open>A page that the contiguous allocator hands out is the page of its number.\<close>

lemma page_number:
  assumes p: "cma_placed off p (1, 1)" and off: "PAGE_SIZE dvd off"
  shows "page_of_addr (phys_addr off p) = Some (phys_addr off p div PAGE_SIZE)"
    "addr_of_page (phys_addr off p div PAGE_SIZE) = phys_addr off p"
    "page_va off (phys_addr off p div PAGE_SIZE) = p"
proof -
  have "PAGE_SIZE dvd phys_addr off p" using cma_placed_pages(1) [OF p] off by simp
  then obtain k where k: "phys_addr off p = PAGE_SIZE * k" by blast
  have "phys_addr off p < 2 ^ 64" by (simp add: phys_addr_def sub64_def wrap64_def)
  then show a: "page_of_addr (phys_addr off p) = Some (phys_addr off p div PAGE_SIZE)"
    "addr_of_page (phys_addr off p div PAGE_SIZE) = phys_addr off p"
    using k by (simp_all add: page_of_addr_def addr_of_page_def PAGE_SIZE_def mult.commute)
  show "page_va off (phys_addr off p div PAGE_SIZE) = p"
    unfolding page_va_def a(2) by (rule cma_placed_addr [OF p])
qed

lemma refill_spec:
  "cma_ok off h \<Longrightarrow> \<forall>q \<in> set l. page_ok off q \<Longrightarrow>
     \<exists>ok l' h'. refill off n l h = Some (ok, l', h') \<and> cma_ok off h' \<and> (\<forall>q \<in> set l'. page_ok off q) \<and>
       (\<forall>x. heap_free h' x + cached off l' x = heap_free h x + cached off l x) \<and> (ok \<longrightarrow> length l' = length l + n)"
proof (induction n arbitrary: l h)
  case (Suc n)
  have off: "PAGE_SIZE dvd off" using Suc.prems(1) by (simp add: cma_ok_def)
  from cma_alloc_law [OF Suc.prems(1), of 1 1] obtain r h1 where
    r: "cma_alloc off 1 h = Some (map_option (phys_addr off) r, h1)" "cma_ok off h1"
      "case r of None \<Rightarrow> heap_free h1 = heap_free h
       | Some p \<Rightarrow> cma_placed off p (1, 1) \<and> (\<forall>x. heap_free h x = heap_free h1 x + inside p (cma_room (1, 1)) x)"
    unfolding cma_alloc_def by blast
  show ?case
  proof (cases r)
    case None
    with r Suc.prems(2) show ?thesis by auto
  next
    case (Some p)
    with r(3) have p: "cma_placed off p (1, 1)" "\<And>x. heap_free h x = heap_free h1 x + inside p (cma_room (1, 1)) x" by auto
    let ?q = "phys_addr off p div PAGE_SIZE"
    note q = page_number [OF p(1) off]
    have "\<forall>q \<in> set (l @ [?q]). page_ok off q" using Suc.prems(2) p(1) q(3) by (simp add: page_ok_def)
    from Suc.IH [OF r(2) this] r(1) Some q(1,3) p(2) show ?thesis by auto
  qed
qed auto

lemma pc_alloc_hit: "pc_list pc \<noteq> [] \<Longrightarrow> pc_alloc off pc h = Some (Some (last (pc_list pc)),
    pc\<lparr>pc_list := butlast (pc_list pc), pc_count := sub64 (pc_count pc) 1,
       pc_total_allocated := wrap64 (pc_total_allocated pc + 1)\<rparr>, h)"
  by (subst pc_alloc.simps) simp

lemma frames_take_hit:
  assumes ok: "frames_ok off (pc, h)" and l: "pc_list pc \<noteq> []"
  shows "\<exists>q pc'. pc_alloc off pc h = Some (Some q, pc', h) \<and> frames_ok off (pc', h) \<and> page_ok off q \<and>
    (\<forall>x. frames_free off (pc, h) x = frames_free off (pc', h) x + inside (page_va off q) (cma_room (1, 1)) x)"
proof -
  let ?q = "last (pc_list pc)"
  obtain pc' where pc': "pc_alloc off pc h = Some (Some ?q, pc', h)" "pc_list pc' = butlast (pc_list pc)" "pc_refill pc' = pc_refill pc"
    using pc_alloc_hit [OF l] by simp
  have free: "frames_free off (pc, h) x = frames_free off (pc', h) x + inside (page_va off ?q) (cma_room (1, 1)) x" for x
    using cached_butlast [OF l, of off x] pc'(2) by (simp add: frames_free_def)
  have "frames_free off (pc', h) x \<le> 1" for x
    using ok free [of x] unfolding frames_ok_def by (metis add_leD1)
  moreover have "page_ok off ?q" using ok l by (simp add: frames_ok_def)
  ultimately show ?thesis
    using ok pc' free by (auto simp: frames_ok_def dest: in_set_butlastD)
qed

lemma pc_alloc_miss:
  assumes "pc_list pc = []" "refill off (pc_refill pc) [] h = Some (ok, l, h')"
  shows "pc_alloc off pc h =
    (if ok then pc_alloc off (pc\<lparr>pc_list := l, pc_count := wrap64 (pc_count pc + pc_refill pc)\<rparr>) h' else Some (None, pc\<lparr>pc_list := l\<rparr>, h'))"
  by (subst pc_alloc.simps) (simp add: assms)

lemma pc_alloc_law:
  assumes ok: "frames_ok off (pc, h)"
  shows "\<exists>r pc' h'. pc_alloc off pc h = Some (r, pc', h') \<and> frames_ok off (pc', h') \<and>
    (case r of None \<Rightarrow> frames_free off (pc', h') = frames_free off (pc, h)
     | Some q \<Rightarrow> page_ok off q \<and>
         (\<forall>x. frames_free off (pc, h) x = frames_free off (pc', h') x + inside (page_va off q) (cma_room (1, 1)) x))"
proof (cases "pc_list pc = []")
  case False
  from frames_take_hit [OF ok False] obtain q pc' where
    "pc_alloc off pc h = Some (Some q, pc', h)" "frames_ok off (pc', h)" "page_ok off q"
    "\<forall>x. frames_free off (pc, h) x = frames_free off (pc', h) x + inside (page_va off q) (cma_room (1, 1)) x"
    by blast
  then show ?thesis by (intro exI [of _ "Some q"] exI [of _ pc'] exI [of _ h]) simp
next
  case True
  have "cma_ok off h" using ok by (simp add: frames_ok_def)
  from refill_spec [OF this, of "[]" "pc_refill pc"] obtain b l h' where
    r: "refill off (pc_refill pc) [] h = Some (b, l, h')" "cma_ok off h'" "\<forall>q \<in> set l. page_ok off q"
      "\<And>x. heap_free h' x + cached off l x = heap_free h x" "b \<longrightarrow> length l = pc_refill pc"
    by auto
  have keep: "frames_ok off (pc1, h') \<and> frames_free off (pc1, h') = frames_free off (pc, h)"
    if "pc_list pc1 = l" "pc_refill pc1 = pc_refill pc" for pc1
  proof -
    have "frames_free off (pc1, h') x = frames_free off (pc, h) x" for x
      using r(4) [of x] True that(1) by (simp add: frames_free_def)
    then show ?thesis using ok r(2,3) that by (auto simp: frames_ok_def fun_eq_iff)
  qed
  let ?pc1 = "pc\<lparr>pc_list := l, pc_count := wrap64 (pc_count pc + pc_refill pc)\<rparr>"
  show ?thesis
  proof (cases b)
    case True
    have "0 < pc_refill pc" using ok by (simp add: frames_ok_def)
    then have "pc_list ?pc1 \<noteq> []" using r(5) True by auto
    from frames_take_hit [OF _ this, of off h'] keep [of ?pc1] obtain q pc' where
      "pc_alloc off ?pc1 h' = Some (Some q, pc', h')" "frames_ok off (pc', h')" "page_ok off q"
      "\<forall>x. frames_free off (pc, h) x = frames_free off (pc', h') x + inside (page_va off q) (cma_room (1, 1)) x"
      by auto
    then show ?thesis using pc_alloc_miss [OF \<open>pc_list pc = []\<close> r(1)] True
      by (intro exI [of _ "Some q"] exI [of _ pc'] exI [of _ h']) auto
  next
    case False
    then show ?thesis using pc_alloc_miss [OF \<open>pc_list pc = []\<close> r(1)] keep [of "pc\<lparr>pc_list := l\<rparr>"]
      by (intro exI [of _ None] exI [of _ "pc\<lparr>pc_list := l\<rparr>"] exI [of _ h']) auto
  qed
qed

lemma flush_spec:
  "cma_ok off h \<Longrightarrow> \<forall>q \<in> set l. page_ok off q \<and> addr_of_page q = phys_addr off (page_va off q) \<Longrightarrow>
   (\<And>x. heap_free h x + cached off l x \<le> 1) \<Longrightarrow>
     \<exists>h'. flush off l h = Some h' \<and> cma_ok off h' \<and> (\<forall>x. heap_free h' x = heap_free h x + cached off l x)"
proof (induction l arbitrary: h)
  case (Cons q l)
  have q: "cma_placed off (page_va off q) (1, 1)" using Cons.prems(2) by (simp add: page_ok_def)
  have "heap_free h x + inside (page_va off q) (cma_room (1, 1)) x \<le> 1" for x using Cons.prems(3) [of x] by simp
  from cma_give_law [OF Cons.prems(1) q this] obtain h1 where h1: "cma_give off (page_va off q) (1, 1) h = Some h1" "cma_ok off h1"
      "\<And>x. heap_free h1 x = heap_free h x + inside (page_va off q) (cma_room (1, 1)) x"
    by blast
  have d: "cma_dealloc off (addr_of_page q) 1 h = Some h1"
    using h1(1) Cons.prems(2) by (simp add: cma_give_def cma_dealloc_def)
  have "heap_free h1 x + cached off l x \<le> 1" for x using Cons.prems(3) [of x] h1(3) [of x] by simp
  with Cons.IH [OF h1(2)] Cons.prems(2) obtain h' where "flush off l h1 = Some h'" "cma_ok off h'"
      "\<forall>x. heap_free h' x = heap_free h1 x + cached off l x"
    by auto
  with d h1(3) show ?case by auto
qed simp

lemma page_ok_addr:
  assumes "page_ok off q"
  shows "addr_of_page q = phys_addr off (page_va off q)"
proof -
  have off: "off \<le> page_va off q" using assms by (simp add: page_ok_def cma_placed_def)
  have b: "addr_of_page q < 2 ^ 64" by (simp add: addr_of_page_def wrap64_def)
  have eq: "page_va off q = (addr_of_page q + off) mod 2 ^ 64" by (simp add: page_va_def kernel_addr_def wrap64_def)
  have o64: "off < 2 ^ 64" by (rule order.strict_trans1 [OF off [unfolded eq]]) simp
  have "addr_of_page q + off < 2 ^ 64"
  proof (rule ccontr)
    assume "\<not> ?thesis"
    then have ge: "2 ^ 64 \<le> addr_of_page q + off" by simp
    then have "page_va off q = addr_of_page q + off - 2 ^ 64" unfolding eq using b o64 by (simp add: mod_if)
    with off b ge show False by simp
  qed
  then have "page_va off q = addr_of_page q + off" unfolding eq by simp
  then show ?thesis using \<open>addr_of_page q + off < 2 ^ 64\<close> by (simp add: phys_addr_def sub64_le)
qed

lemma pc_dealloc_law:
  assumes ok: "frames_ok off (pc, h)" and q: "page_ok off q"
    and one: "\<And>x. frames_free off (pc, h) x + inside (page_va off q) (cma_room (1, 1)) x \<le> 1"
  shows "\<exists>pc' h'. pc_dealloc off q pc h = Some (pc', h') \<and> frames_ok off (pc', h') \<and>
    (\<forall>x. frames_free off (pc', h') x = frames_free off (pc, h) x + inside (page_va off q) (cma_room (1, 1)) x)"
proof -
  let ?l = "pc_list pc @ [q]"
  have c: "cma_ok off h" "0 < pc_refill pc" and pg: "\<forall>q \<in> set ?l. page_ok off q" using ok q by (auto simp: frames_ok_def)
  have all: "heap_free h x + cached off ?l x = frames_free off (pc, h) x + inside (page_va off q) (cma_room (1, 1)) x" for x
    by (simp add: frames_free_def)
  have keep: "frames_ok off (pc1, h1) \<and> (\<forall>x. frames_free off (pc1, h1) x = frames_free off (pc, h) x + inside (page_va off q) (cma_room (1, 1)) x)"
    if "cma_ok off h1" "pc_refill pc1 = pc_refill pc" "set (pc_list pc1) \<subseteq> set ?l"
      "\<And>x. heap_free h1 x + cached off (pc_list pc1) x = heap_free h x + cached off ?l x" for pc1 h1
  proof -
    have "frames_free off (pc1, h1) x = frames_free off (pc, h) x + inside (page_va off q) (cma_room (1, 1)) x" for x
      using that(4) [of x] all [of x] by (simp add: frames_free_def)
    moreover from this have "frames_free off (pc1, h1) x \<le> 1" for x using one [of x] by simp
    moreover have "\<forall>q \<in> set (pc_list pc1). page_ok off q" using that(3) pg by blast
    ultimately show ?thesis using that(1,2) c(2) by (simp add: frames_ok_def)
  qed
  let ?pc1 = "pc\<lparr>pc_list := ?l, pc_count := wrap64 (pc_count pc + 1), pc_total_deallocated := wrap64 (pc_total_deallocated pc + 1)\<rparr>"
  show ?thesis
  proof (cases "wrap64 (pc_count pc + 1) \<ge> pc_high pc \<and> \<not> length ?l \<le> pc_low pc")
    case False
    then have "pc_dealloc off q pc h = Some (?pc1, h)" by (auto simp: pc_dealloc_def Let_def)
    then show ?thesis using keep [of h ?pc1] c by auto
  next
    case True
    define n where "n = length ?l - min (pc_flush pc) (length ?l - pc_low pc)"
    let ?f = "rev (drop n ?l)"
    have sub: "set (drop n ?l) \<subseteq> set ?l" "set (take n ?l) \<subseteq> set ?l" by (rule set_drop_subset, rule set_take_subset)
    have "heap_free h x + cached off ?f x \<le> 1" for x
      using one [of x] all [of x] cached_split [of off ?l x n] by simp
    moreover have "\<forall>q \<in> set ?f. page_ok off q \<and> addr_of_page q = phys_addr off (page_va off q)"
      using pg sub(1) page_ok_addr by auto
    ultimately obtain h' where h': "flush off ?f h = Some h'" "cma_ok off h'" "\<And>x. heap_free h' x = heap_free h x + cached off ?f x"
      using flush_spec [OF c(1)] by blast
    let ?pc2 = "?pc1\<lparr>pc_list := take n ?l, pc_count := sub64 (wrap64 (pc_count pc + 1)) (length ?f)\<rparr>"
    have "pc_dealloc off q pc h = Some (?pc2, h')"
      using True h'(1) by (simp add: pc_dealloc_def Let_def n_def)
    moreover have "heap_free h' x + cached off (take n ?l) x = heap_free h x + cached off ?l x" for x
      using h'(3) [of x] cached_split [of off ?l x n] by simp
    ultimately show ?thesis using keep [of h' ?pc2] h'(2) sub(2) by auto
  qed
qed

definition req_room :: "page_req \<Rightarrow> nat" where "req_room q = cma_room (req_key q)"

definition req_placed :: "nat \<Rightarrow> nat \<Rightarrow> page_req \<Rightarrow> bool" where "req_placed off va q = cma_placed off va (req_key q)"

lemma req_take_law:
  assumes ok: "frames_ok off s"
  shows "\<exists>r s'. req_take off q s = Some (r, s') \<and> frames_ok off s' \<and>
    (case r of None \<Rightarrow> frames_free off s' = frames_free off s
     | Some p \<Rightarrow> req_placed off p q \<and> (\<forall>x. frames_free off s x = frames_free off s' x + inside p (req_room q) x))"
proof -
  obtain pc h where s: "s = (pc, h)" by (cases s)
  show ?thesis
  proof (cases q)
    case Frame
    from pc_alloc_law [OF ok [unfolded s]] obtain r pc' h' where r: "pc_alloc off pc h = Some (r, pc', h')" "frames_ok off (pc', h')"
        "case r of None \<Rightarrow> frames_free off (pc', h') = frames_free off (pc, h)
         | Some q \<Rightarrow> page_ok off q \<and> (\<forall>x. frames_free off (pc, h) x = frames_free off (pc', h') x + inside (page_va off q) (cma_room (1, 1)) x)"
      by blast
    then show ?thesis
      by (cases r) (auto simp: s Frame req_placed_def req_room_def page_ok_def)
  next
    case (Contiguous pages align_pages)
    have c: "cma_ok off h" using ok by (simp add: frames_ok_def s)
    from cma_take_law [OF c, of "(pages, align_pages)"] obtain r h' where
      r: "cma_take off (pages, align_pages) h = Some (r, h')" "cma_ok off h'"
        "case r of None \<Rightarrow> heap_free h' = heap_free h
         | Some p \<Rightarrow> cma_placed off p (pages, align_pages) \<and> (\<forall>x. heap_free h x = heap_free h' x + inside p (cma_room (pages, align_pages)) x)"
      by blast
    have f: "frames_free off (pc, g) x = heap_free g x + cached off (pc_list pc) x" for g x by (simp add: frames_free_def)
    have "heap_free h' x \<le> heap_free h x" for x using r(3) by (cases r) auto
    then have "frames_free off (pc, h') x \<le> 1" for x
    proof -
      have "frames_free off (pc, h) x \<le> 1" using ok by (simp add: s frames_ok_def)
      with \<open>\<And>x. heap_free h' x \<le> heap_free h x\<close> [of x] show ?thesis unfolding f by linarith
    qed
    then have "frames_ok off (pc, h')" using ok r(2) by (simp add: s frames_ok_def)
    then show ?thesis using r(1,3)
      by (cases r) (auto simp: s Contiguous req_placed_def req_room_def f fun_eq_iff)
  qed
qed

lemma req_give_law:
  assumes ok: "frames_ok off s" and p: "req_placed off p q" and one: "\<And>x. frames_free off s x + inside p (req_room q) x \<le> 1"
  shows "\<exists>s'. req_give off p q s = Some s' \<and> frames_ok off s' \<and> (\<forall>x. frames_free off s' x = frames_free off s x + inside p (req_room q) x)"
proof -
  obtain pc h where s: "s = (pc, h)" by (cases s)
  have c: "cma_ok off h" using ok by (simp add: frames_ok_def s)
  show ?thesis
  proof (cases q)
    case Frame
    have va: "page_va off (phys_addr off p div PAGE_SIZE) = p"
      using page_number(3) [of off p] p c by (simp add: req_placed_def Frame cma_ok_def)
    have "page_ok off (phys_addr off p div PAGE_SIZE)" using p by (simp add: page_ok_def va req_placed_def Frame)
    from pc_dealloc_law [OF ok [unfolded s] this, unfolded va] one show ?thesis
      by (auto simp: s Frame req_room_def)
  next
    case (Contiguous pages align_pages)
    have f: "frames_free off (pc, g) x = heap_free g x + cached off (pc_list pc) x" for g x by (simp add: frames_free_def)
    have "heap_free h x + inside p (cma_room (pages, align_pages)) x \<le> 1" for x
      using one [of x] by (simp add: s Contiguous req_room_def f)
    with cma_give_law [OF c, of p "(pages, align_pages)"] p obtain h' where
      h': "cma_give off p (pages, align_pages) h = Some h'" "cma_ok off h'" "\<And>x. heap_free h' x = heap_free h x + inside p (cma_room (pages, align_pages)) x"
      by (auto simp: req_placed_def Contiguous)
    have "frames_free off (pc, h') x \<le> 1" for x using one [of x] h'(3) by (simp add: s Contiguous req_room_def f)
    then have "frames_ok off (pc, h')" using ok h'(2) by (simp add: s frames_ok_def)
    then show ?thesis using h' by (auto simp: s Contiguous req_room_def f)
  qed
qed

interpretation page_frames: byte_allocator "frames_ok off" "frames_free off" "\<lambda>q. True" req_room "req_placed off" "req_take off" "req_give off" for off
  by unfold_locales (rule req_take_law, assumption, rule req_give_law)

section \<open>Shared blocks\<close>

text \<open>The trackers of one block go one after the other.\<close>

primrec drop_trackers :: "nat \<Rightarrow> FrameTracker list \<Rightarrow> FrameTracker list \<Rightarrow> PageCache \<Rightarrow> Heap \<Rightarrow> (PageCache \<times> Heap) option" where
  "drop_trackers off [] live pc h = Some (pc, h)"
| "drop_trackers off (f # fs) live pc h =
     (case tracker_drop off f (fs @ live) pc h of None \<Rightarrow> None | Some (pc', h') \<Rightarrow> drop_trackers off fs live pc' h')"

lemma block_returned_once:
  "fs \<noteq> [] \<Longrightarrow> \<forall>f \<in> set fs. huge_block f = Some b \<Longrightarrow> \<forall>g \<in> set live. huge_block g \<noteq> Some b \<Longrightarrow>
     drop_trackers off fs live pc h = map_option (Pair pc) (huge_drop off b h)"
proof (induction fs)
  case (Cons f fs)
  show ?case
  proof (cases fs)
    case Nil
    with Cons.prems show ?thesis by (auto simp: tracker_drop_def split: option.splits)
  next
    case (Cons g gs)
    with Cons.IH Cons.prems show ?thesis by (auto simp: tracker_drop_def)
  qed
qed simp

section \<open>The count of cached pages\<close>

lemma count_dealloc:
  assumes "pc_count pc = length (pc_list pc)" "length (pc_list pc) < 2 ^ 64 - 1" "pc_dealloc off q pc h = Some (pc', h')"
  shows "pc_count pc' = length (pc_list pc')"
proof -
  have w: "wrap64 (Suc (length (pc_list pc))) = Suc (length (pc_list pc))" using assms(2) by (intro wrap64_id) simp
  have s: "sub64 (Suc (length (pc_list pc))) k = Suc (length (pc_list pc)) - k" if "k \<le> Suc (length (pc_list pc))" for k
    using assms(2) that by (intro sub64_le) simp_all
  show ?thesis using assms(1,3) by (auto simp: pc_dealloc_def Let_def w s split: if_splits) (simp add: min_def; arith)
qed

text \<open>
  When the contiguous allocator runs out in the middle of a refill, the page cache refuses the
  request although pages for it have just been cached, and does not count them: the next request is
  served from the same cache, and takes one from a count that never included the page, so that a
  count of zero wraps around.
\<close>

lemma interrupted_refill_loses_count:
  assumes "pc_list pc = []" "pc_count pc = 0" "refill off (pc_refill pc) [] h = Some (False, l, h')" "l \<noteq> []"
  shows "\<exists>pc1 pc2. pc_alloc off pc h = Some (None, pc1, h') \<and> pc_list pc1 = l \<and> pc_count pc1 = 0 \<and>
    pc_alloc off pc1 h' = Some (Some (last l), pc2, h') \<and> pc_count pc2 = 2 ^ 64 - 1"
proof -
  let ?pc1 = "pc\<lparr>pc_list := l\<rparr>"
  have "pc_alloc off pc h = Some (None, ?pc1, h')" using pc_alloc_miss [OF assms(1,3)] by simp
  with pc_alloc_hit [of ?pc1 off h'] assms(2,4) show ?thesis by (simp add: sub64_def wrap64_def)
qed

definition one_page_heap :: Heap where
  "one_page_heap = Heap_new\<lparr>free_list := (replicate 35 [])[12 := [8192]], h_total := 4096\<rparr>"

lemma interrupted_refill_loses_count_witness:
  "\<exists>h' pc1 pc2. pc_alloc 4096 PageCache_new one_page_heap = Some (None, pc1, h') \<and> pc_list pc1 = [1] \<and> pc_count pc1 = 0 \<and>
     pc_alloc 4096 pc1 h' = Some (Some (last [1]), pc2, h') \<and> pc_count pc2 = 2 ^ 64 - 1"
proof -
  have l: "cma_layout 1 1 = Some \<lparr>l_size = 4096, l_align = 4096\<rparr>"
    by (simp add: cma_layout_def checked_mul_usize_def usize_max_def PAGE_SIZE_def Layout_from_size_align_def)
  have c: "class_of \<lparr>l_size = 4096, l_align = 4096\<rparr> = 12" "block_size \<lparr>l_size = 4096, l_align = 4096\<rparr> = 4096"
    by (simp_all add: class_of_def block_size_def next_power_of_two_def WORD_def numeral_2_eq_2 [symmetric])
  have "\<exists>h'. refill 4096 (Suc (Suc n)) [] one_page_heap = Some (False, [1], h')" for n
    by (simp add: cma_alloc_def cma_alloc_aligned_def l [simplified] c one_page_heap_def Heap_new_def heap_alloc_def
        upt_rec_numeral buddy_eval page_of_addr_def phys_addr_def PAGE_SIZE_def)
  from this [of 14] obtain h' where "refill 4096 (pc_refill PageCache_new) [] one_page_heap = Some (False, [1], h')"
    by (auto simp: PageCache_new_def)
  from interrupted_refill_loses_count [OF _ _ this] show ?thesis by (auto simp: PageCache_new_def)
qed

end
