(* ===== verification/Kernel_Heap.thy ===== *)
theory Kernel_Heap
  imports Page_Frames
begin

text \<open>
  \<^verbatim>\<open>mm/heap_allocator.rs\<close>: the global allocator of the kernel.  It allocates from its own buddy heap
  and takes contiguous pages from the page allocator, for good, when that heap cannot serve a
  request.  The kernel heap, the page cache and the page allocator together are one more allocator
  of bytes: memory moves between them, and each byte keeps one owner.
\<close>

section \<open>Operations\<close>

record KernelHeap =
  kh_heap :: Heap
  kh_ready :: bool
  kh_backing :: nat

definition HEAP_BUDDY_SCAN_LIMIT :: nat where "HEAP_BUDDY_SCAN_LIMIT = 256"

definition CMA_HEAP_GROW_MIN :: nat where "CMA_HEAP_GROW_MIN = 0x08000000"

definition KERNEL_HEAP_SIZE :: nat where "KERNEL_HEAP_SIZE = 0x8000000"

definition KernelHeap_empty :: KernelHeap where
  "KernelHeap_empty = \<lparr>kh_heap = Heap_new, kh_ready = False, kh_backing = 0\<rparr>"

definition checked_next_power_of_two :: "nat \<Rightarrow> nat option" where
  "checked_next_power_of_two n = (if n \<le> 2 ^ 63 then Some (next_power_of_two n) else None)"

definition required_cma_bytes :: "Layout \<Rightarrow> nat option" where
  "required_cma_bytes l = map_option (\<lambda>requested. max (max requested (l_align l)) PAGE_SIZE) (checked_next_power_of_two (l_size l))"

text \<open>The loop that asks for ever smaller blocks; not returning is \<open>None\<close>, like a panic.\<close>

partial_function (option) grow_loop ::
    "nat \<Rightarrow> Layout \<Rightarrow> nat \<Rightarrow> nat \<Rightarrow> KernelHeap \<Rightarrow> Heap \<Rightarrow> (nat option \<times> KernelHeap \<times> Heap) option" where
  "grow_loop off l required grow_size kh cma =
     (let pages = grow_size div PAGE_SIZE in
      case cma_alloc off pages cma of
        None \<Rightarrow> None
      | Some (Some paddr, cma') \<Rightarrow>
          let start = kernel_addr off paddr in
          (case checked_add_usize start grow_size of
             None \<Rightarrow> map_option (\<lambda>c. (None, kh, c)) (cma_dealloc off paddr pages cma')
           | Some stop \<Rightarrow>
               (case add_to_heap start stop (kh_heap kh) of
                  None \<Rightarrow> None
                | Some h1 \<Rightarrow>
                    map_option (\<lambda>(r, h2). (r, kh\<lparr>kh_heap := h2, kh_backing := wrap64 (kh_backing kh + grow_size)\<rparr>, cma'))
                      (heap_alloc l h1)))
      | Some (None, cma') \<Rightarrow>
          if grow_size = required then Some (None, kh, cma')
          else grow_loop off l required (max required (grow_size div 2)) kh cma')"

declare grow_loop.simps [code]

definition grow_from_cma :: "nat \<Rightarrow> Layout \<Rightarrow> KernelHeap \<Rightarrow> Heap \<Rightarrow> (nat option \<times> KernelHeap \<times> Heap) option" where
  "grow_from_cma off l kh cma =
     (if \<not> kh_ready kh then Some (None, kh, cma)
      else case required_cma_bytes l of
             None \<Rightarrow> Some (None, kh, cma)
           | Some required \<Rightarrow>
               (case heap_alloc l (kh_heap kh) of
                  None \<Rightarrow> None
                | Some (Some p, h') \<Rightarrow> Some (Some p, kh\<lparr>kh_heap := h'\<rparr>, cma)
                | Some (None, h') \<Rightarrow> grow_loop off l required (max required CMA_HEAP_GROW_MIN) (kh\<lparr>kh_heap := h'\<rparr>) cma))"

definition alloc_from_heap :: "nat \<Rightarrow> Layout \<Rightarrow> KernelHeap \<Rightarrow> Heap \<Rightarrow> (nat option \<times> KernelHeap \<times> Heap) option" where
  "alloc_from_heap off l kh cma =
     (case heap_alloc l (kh_heap kh) of
        None \<Rightarrow> None
      | Some (Some p, h') \<Rightarrow> Some (Some p, kh\<lparr>kh_heap := h'\<rparr>, cma)
      | Some (None, h') \<Rightarrow> grow_from_cma off l (kh\<lparr>kh_heap := h'\<rparr>) cma)"

text \<open>\<^verbatim>\<open>GlobalAlloc\<close>: a null pointer is a failure.\<close>

definition global_alloc :: "nat \<Rightarrow> Layout \<Rightarrow> KernelHeap \<Rightarrow> Heap \<Rightarrow> (nat \<times> KernelHeap \<times> Heap) option" where
  "global_alloc off l kh cma = map_option (\<lambda>(r, s). (case r of None \<Rightarrow> 0 | Some p \<Rightarrow> p, s)) (alloc_from_heap off l kh cma)"

definition global_dealloc :: "nat \<Rightarrow> Layout \<Rightarrow> KernelHeap \<Rightarrow> KernelHeap option" where
  "global_dealloc p l kh =
     map_option (\<lambda>h. kh\<lparr>kh_heap := h\<rparr>) (dealloc_with_bounded_merge HEAP_BUDDY_SCAN_LIMIT p l (kh_heap kh))"

definition init_heap :: "nat \<Rightarrow> KernelHeap \<Rightarrow> KernelHeap option" where
  "init_heap heap_space kh = map_option (\<lambda>h. kh\<lparr>kh_heap := h\<rparr>) (heap_init heap_space KERNEL_HEAP_SIZE (kh_heap kh))"

definition enable_cma_backing :: "KernelHeap \<Rightarrow> KernelHeap" where
  "enable_cma_backing kh = kh\<lparr>kh_ready := True\<rparr>"

record ContinuousPages =
  cp_base :: nat
  cp_page_num :: nat
  cp_layout :: Layout

definition ContinuousPages_new :: "nat \<Rightarrow> nat \<Rightarrow> KernelHeap \<Rightarrow> Heap \<Rightarrow> (ContinuousPages option \<times> KernelHeap \<times> Heap) option" where
  "ContinuousPages_new off page_num kh cma =
     (case checked_mul_usize page_num PAGE_SIZE of
        None \<Rightarrow> Some (None, kh, cma)
      | Some n \<Rightarrow>
          (case Layout_from_size_align n PAGE_SIZE of
             None \<Rightarrow> Some (None, kh, cma)
           | Some l \<Rightarrow>
               (case alloc_from_heap off l kh cma of
                  None \<Rightarrow> None
                | Some (None, s) \<Rightarrow> Some (None, s)
                | Some (Some p, s) \<Rightarrow>
                    if p mod PAGE_SIZE \<noteq> 0 then None
                    else Some (Some \<lparr>cp_base = p, cp_page_num = n, cp_layout = l\<rparr>, s))))"

definition ContinuousPages_drop :: "ContinuousPages \<Rightarrow> KernelHeap \<Rightarrow> KernelHeap option" where
  "ContinuousPages_drop cp kh = (if cp_base cp = 0 then None else global_dealloc (cp_base cp) (cp_layout cp) kh)"

section \<open>Growing\<close>

lemma add_aligned_block:
  assumes al: "aligned (free_list h)" and k: "3 \<le> k" "k < MAX_ORDER" "2 ^ k dvd p" "0 < p" "p + 2 ^ k < 2 ^ 64"
  shows "\<exists>h'. add_to_heap p (p + 2 ^ k) h = Some h' \<and> p \<in> set (free_list h' ! k)"
proof -
  have "(2 :: nat) ^ 3 dvd 2 ^ k" using k(1) by (rule le_imp_power_dvd)
  then have d: "8 dvd (2 :: nat) ^ k" "8 dvd p" using k(3) by (auto intro: dvd_trans)
  have small: "(2 :: nat) ^ k < 2 ^ 64" using k(5) by linarith
  have sz: "piece_size p (p + 2 ^ k) = 2 ^ k"
  proof -
    have "k \<le> trailing_zeros p" using power_dvd_trailing k(3,4) by blast
    then have "(2 :: nat) ^ k \<le> lowbit p" using lowbit_power [of p] k(4,5) by simp
    moreover obtain j where j: "prev_power_of_two (2 ^ k) = 2 ^ j" "2 ^ j \<le> (2 :: nat) ^ k" "(2 :: nat) ^ k < 2 ^ Suc j"
      using prev_power_bounds [of "2 ^ k"] small by auto
    moreover have "j = k" using j(2,3) by (metis Suc_leI le_antisym less_Suc_eq_le not_less power_less_imp_less_exp one_less_numeral_iff power_strict_increasing_iff semiring_norm(76))
    ultimately show ?thesis by (simp add: piece_size_def)
  qed
  have w: "word_floor (wrap64 (p + WORD - 1)) = p" "word_floor (p + 2 ^ k) = p + 2 ^ k"
  proof -
    obtain m where m: "p = 8 * m" using d(2) by blast
    have "p + 7 < 2 ^ 64" using k(5) d(1) dvd_imp_le [OF d(1)] by simp
    then show "word_floor (wrap64 (p + WORD - 1)) = p" by (simp add: WORD_def word_floor_eq m)
    show "word_floor (p + 2 ^ k) = p + 2 ^ k" using k(5) d by (simp add: word_floor_eq)
  qed
  have "WORD \<le> 2 ^ k" using dvd_imp_le [OF d(1)] by (simp add: WORD_def)
  then have "add_pieces p (p + 2 ^ k) 0 (free_list h) = Some (2 ^ k, push_block k p (free_list h))"
    using k(2) by (simp add: add_pieces.simps [of p] add_pieces.simps [of "p + 2 ^ k"] Let_def sz WORD_def)
  then have "add_to_heap p (p + 2 ^ k) h = Some (h\<lparr>free_list := push_block k p (free_list h), h_total := wrap64 (h_total h + 2 ^ k)\<rparr>)"
    unfolding add_to_heap_def Let_def w by simp
  then show ?thesis using k(2) aligned_length [OF al] by (auto simp: push_block_def)
qed

lemma pages_layout:
  assumes "cma_placed off p (2 ^ j div PAGE_SIZE, 1)" "12 \<le> j"
  shows "cma_room (2 ^ j div PAGE_SIZE, 1) = 2 ^ j" "2 ^ j dvd p" "j < MAX_ORDER" "0 < p"
proof -
  from assms(1) obtain l where l: "cma_layout (2 ^ j div PAGE_SIZE) 1 = Some l" "heap_placed p l"
    by (auto simp: cma_placed_def split: option.splits)
  note L = cma_layoutD [OF l(1)]
  have "PAGE_SIZE dvd 2 ^ j" using le_imp_power_dvd [OF assms(2), of 2] by (simp add: PAGE_SIZE_def)
  then have sz: "l_size l = 2 ^ j" "l_align l = PAGE_SIZE" using L(2,3) by simp_all
  have "next_power_of_two (2 ^ j) = 2 ^ j"
    using next_power_of_two_least [of "2 ^ j" j] next_power_of_two_ge [of "2 ^ j"] by simp
  moreover have "(2 :: nat) ^ 12 \<le> 2 ^ j" using assms(2) by (rule power_increasing) simp
  ultimately have b: "block_size l = 2 ^ j" by (simp add: block_size_def sz PAGE_SIZE_def WORD_def)
  then show "cma_room (2 ^ j div PAGE_SIZE, 1) = 2 ^ j" using l(1) by (simp add: cma_room_def)
  have "class_of l = j" using b by (simp add: class_of_def)
  then show "2 ^ j dvd p" "j < MAX_ORDER" "0 < p" using l(2) b by (auto simp: heap_placed_def)
qed

text \<open>A refusal leaves the page allocator as it was.\<close>

lemma cma_refusal:
  assumes "cma_ok off h" "cma_alloc_aligned off pages align_pages h = Some (None, h')"
  shows "h' = h"
proof (cases "pages = 0 \<or> align_pages = 0 \<or> cma_layout pages align_pages = None")
  case True
  with assms(2) show ?thesis by (auto simp: cma_alloc_aligned_def split: if_splits)
next
  case False
  then obtain l where l: "cma_layout pages align_pages = Some l" by auto
  have "heap_ok h" using assms(1) by (simp add: cma_ok_def)
  from heap_alloc_spec [OF this cma_layoutD(1) [OF l]] assms(2) False l show ?thesis
    by (auto simp: cma_alloc_aligned_def split: option.splits if_splits)
qed

definition kernel_free :: "KernelHeap \<Rightarrow> Heap \<Rightarrow> nat \<Rightarrow> nat" where
  "kernel_free kh cma x = heap_free (kh_heap kh) x + heap_free cma x"

definition kernel_ok :: "nat \<Rightarrow> KernelHeap \<Rightarrow> Heap \<Rightarrow> bool" where
  "kernel_ok off kh cma \<longleftrightarrow> heap_ok (kh_heap kh) \<and> cma_ok off cma \<and> (\<forall>x. kernel_free kh cma x \<le> 1)"

text \<open>What an allocation does to the free bytes of the kernel heap and the page allocator\<close>

definition served :: "nat \<Rightarrow> Layout \<Rightarrow> KernelHeap \<Rightarrow> Heap \<Rightarrow> nat option \<Rightarrow> KernelHeap \<Rightarrow> Heap \<Rightarrow> bool" where
  "served off l kh cma r kh' cma' \<longleftrightarrow> kernel_ok off kh' cma' \<and>
     (case r of None \<Rightarrow> kernel_free kh' cma' = kernel_free kh cma
      | Some p \<Rightarrow> heap_placed p l \<and> (\<forall>x. kernel_free kh cma x = kernel_free kh' cma' x + inside p (block_size l) x))"

lemma served_by_heap:
  assumes ok: "heap_ok (kh_heap kh1)" "cma_ok off cma'" "\<And>x. kernel_free kh1 cma' x \<le> 1" and l: "layout_ok l"
    and same: "kernel_free kh1 cma' = kernel_free kh cma"
  shows "\<exists>r h2. heap_alloc l (kh_heap kh1) = Some (r, h2) \<and> (\<forall>b. served off l kh cma r (kh\<lparr>kh_heap := h2, kh_backing := b\<rparr>) cma') \<and>
    served off l kh cma r (kh\<lparr>kh_heap := h2\<rparr>) cma'"
proof -
  from heap_alloc_law [OF ok(1) l] obtain r h2 where r: "heap_alloc l (kh_heap kh1) = Some (r, h2)" "heap_ok h2"
      "case r of None \<Rightarrow> heap_free h2 = heap_free (kh_heap kh1)
       | Some p \<Rightarrow> heap_placed p l \<and> (\<forall>x. heap_free (kh_heap kh1) x = heap_free h2 x + inside p (block_size l) x)"
    by blast
  have le: "heap_free h2 x \<le> heap_free (kh_heap kh1) x" for x using r(3) by (cases r) auto
  have "served off l kh cma r kh2 cma'" if "kh_heap kh2 = h2" for kh2
  proof -
    have "kernel_free kh2 cma' x \<le> 1" for x
      using le [of x] ok(3) [of x] by (simp add: kernel_free_def that)
    then show ?thesis
      using r(2,3) ok(2) by (cases r) (auto simp: served_def kernel_ok_def that same [symmetric] kernel_free_def fun_eq_iff)
  qed
  then show ?thesis using r(1) by (intro exI [of _ r] exI [of _ h2]) simp
qed

lemma grow_step:
  assumes ok: "kernel_ok off kh cma" and l: "layout_ok l" "block_size l \<le> 2 ^ j" and j: "12 \<le> j"
    and p: "cma_placed off p (2 ^ j div PAGE_SIZE, 1)" "cma_ok off cma'" "\<And>x. heap_free cma x = heap_free cma' x + inside p (2 ^ j) x"
    and lt: "p + 2 ^ j < 2 ^ 64"
  shows "\<exists>h1 q h2. add_to_heap p (p + 2 ^ j) (kh_heap kh) = Some h1 \<and> heap_alloc l h1 = Some (Some q, h2) \<and>
    (\<forall>b. served off l kh cma (Some q) (kh\<lparr>kh_heap := h2, kh_backing := b\<rparr>) cma')"
proof -
  note P = pages_layout [OF p(1) j]
  have hk: "heap_ok (kh_heap kh)" using ok by (simp add: kernel_ok_def)
  have "(2 :: nat) ^ 12 dvd 2 ^ j" using j by (rule le_imp_power_dvd)
  then have pg: "PAGE_SIZE dvd (2 :: nat) ^ j" by (simp add: PAGE_SIZE_def)
  have "off \<le> p" using p(1) by (simp add: cma_placed_def)
  moreover have "heap_free (kh_heap kh) x + inside p (2 ^ j) x \<le> 1" for x
  proof -
    have "kernel_free kh cma x \<le> 1" using ok by (simp add: kernel_ok_def)
    then show ?thesis using p(3) [of x] by (simp add: kernel_free_def)
  qed
  moreover have "(2 :: nat) ^ j < 2 ^ MAX_ORDER" using P(3) by simp
  ultimately have a: "addable off p (p + 2 ^ j) (kh_heap kh)"
    using P(2,4) pg lt by (auto simp: addable_def intro: dvd_trans)
  from add_pages [OF hk a] obtain h1 where h1: "add_to_heap p (p + 2 ^ j) (kh_heap kh) = Some h1" "heap_ok h1"
      "\<And>x. heap_free h1 x = heap_free (kh_heap kh) x + inside p (2 ^ j) x"
    by auto
  have "3 \<le> j" using j by simp
  with hk h1(1) have in_list: "p \<in> set (free_list h1 ! j)"
    using add_aligned_block [of "kh_heap kh" j p] P(2-4) lt by (simp add: heap_ok_def)
  have same: "kernel_free (kh\<lparr>kh_heap := h1\<rparr>) cma' = kernel_free kh cma"
    using h1(3) p(3) by (simp add: kernel_free_def fun_eq_iff)
  have one: "kernel_free (kh\<lparr>kh_heap := h1\<rparr>) cma' x \<le> 1" for x using ok by (simp add: same kernel_ok_def)
  from served_by_heap [of "kh\<lparr>kh_heap := h1\<rparr>" off cma' l kh cma] h1(2) p(2) one l(1) same
  obtain r h2 where r: "heap_alloc l h1 = Some (r, h2)" "\<forall>b. served off l kh cma r (kh\<lparr>kh_heap := h2, kh_backing := b\<rparr>) cma'"
    by auto
  have "class_of l \<le> j"
    using l(2) unfolding block_size_pow [OF l(1)] by (rule power_le_imp_le_exp [rotated]) simp
  then have "r \<noteq> None" using heap_alloc_spec [OF h1(2) l(1)] r(1) in_list P(3) by (auto split: option.splits)
  then show ?thesis using h1(1) r by auto
qed

lemma grow_loop_spec:
  assumes ok: "kernel_ok off kh cma" and l: "layout_ok l" "block_size l \<le> 2 ^ i" and i: "12 \<le> i"
  shows "i \<le> j \<Longrightarrow> \<exists>r kh' cma'. grow_loop off l (2 ^ i) (2 ^ j) kh cma = Some (r, kh', cma') \<and> served off l kh cma r kh' cma' \<and>
    (heap_free cma (2 ^ 64 - 1) = 0 \<longrightarrow> (\<exists>pa c. cma_alloc off (2 ^ i div PAGE_SIZE) cma = Some (Some pa, c)) \<longrightarrow> r \<noteq> None)"
proof (induction j)
  case 0
  with i show ?case by simp
next
  case (Suc k)
  let ?j = "Suc k" and ?n = "2 ^ Suc k div PAGE_SIZE"
  have cok: "cma_ok off cma" using ok by (simp add: kernel_ok_def)
  have lj: "block_size l \<le> 2 ^ ?j" using l(2) power_increasing [OF Suc.prems, of "2 :: nat"] by simp
  have j12: "12 \<le> ?j" using i Suc.prems by simp
  from cma_alloc_law [OF cok, of ?n 1] obtain r cma' where
    r: "cma_alloc off ?n cma = Some (map_option (phys_addr off) r, cma')" "cma_ok off cma'"
      "case r of None \<Rightarrow> heap_free cma' = heap_free cma
       | Some p \<Rightarrow> cma_placed off p (?n, 1) \<and> (\<forall>x. heap_free cma x = heap_free cma' x + inside p (cma_room (?n, 1)) x)"
    unfolding cma_alloc_def by blast
  show ?case
  proof (cases r)
    case None
    then have c: "cma' = cma" using cma_refusal [OF cok] r(1) by (simp add: cma_alloc_def)
    show ?thesis
    proof (cases "i = ?j")
      case True
      then have "grow_loop off l (2 ^ i) (2 ^ ?j) kh cma = Some (None, kh, cma)"
        using r(1) None c by (subst grow_loop.simps) (simp add: Let_def)
      moreover have "served off l kh cma None kh cma" using ok by (simp add: served_def)
      ultimately show ?thesis using r(1) None True by auto
    next
      case False
      then have ik: "i \<le> k" using Suc.prems by simp
      have "(2 :: nat) ^ i \<le> 2 ^ k" using ik by simp
      then have "max (2 ^ i) (2 ^ ?j div 2) = (2 :: nat) ^ k" by simp
      moreover have "(2 :: nat) ^ ?j \<noteq> 2 ^ i" using False by (metis power_inject_exp one_less_numeral_iff semiring_norm(76))
      ultimately have "grow_loop off l (2 ^ i) (2 ^ ?j) kh cma = grow_loop off l (2 ^ i) (2 ^ k) kh cma"
        using r(1) None c by (subst grow_loop.simps) (simp add: Let_def)
      with Suc.IH [OF ik] show ?thesis by simp
    qed
  next
    case (Some p)
    with r(3) have p: "cma_placed off p (?n, 1)" "\<And>x. heap_free cma x = heap_free cma' x + inside p (cma_room (?n, 1)) x" by auto
    note P = pages_layout [OF p(1) j12]
    have free: "heap_free cma x = heap_free cma' x + inside p (2 ^ ?j) x" for x using p(2) [of x] unfolding P(1) .
    have va: "kernel_addr off (phys_addr off p) = p" by (rule cma_placed_addr [OF p(1)])
    have top: "p + 2 ^ ?j \<le> 2 ^ 64" using p(1) P(1) by (simp add: cma_placed_def)
    show ?thesis
    proof (cases "p + 2 ^ ?j < 2 ^ 64")
      case True
      from grow_step [OF ok l(1) lj j12 p(1) r(2) free True] obtain h1 q h2 where
        g: "add_to_heap p (p + 2 ^ ?j) (kh_heap kh) = Some h1" "heap_alloc l h1 = Some (Some q, h2)"
          "\<forall>b. served off l kh cma (Some q) (kh\<lparr>kh_heap := h2, kh_backing := b\<rparr>) cma'"
        by blast
      have "checked_add_usize p (2 ^ ?j) = Some (p + 2 ^ ?j)" using True by (simp add: checked_add_usize_def usize_max_def)
      then have "grow_loop off l (2 ^ i) (2 ^ ?j) kh cma =
          Some (Some q, kh\<lparr>kh_heap := h2, kh_backing := wrap64 (kh_backing kh + 2 ^ ?j)\<rparr>, cma')"
        using r(1) Some g(1,2) va by (subst grow_loop.simps) (simp add: Let_def)
      with g(3) show ?thesis by blast
    next
      case False
      then have "p + 2 ^ ?j = 2 ^ 64" using top by simp
      moreover have "(0 :: nat) < 2 ^ ?j" by simp
      ultimately have "inside p (2 ^ ?j) (2 ^ 64 - 1) = 1" unfolding inside_iff by linarith
      then have used: "heap_free cma (2 ^ 64 - 1) \<noteq> 0" using free [of "2 ^ 64 - 1"] by simp
      have one: "heap_free cma' x + inside p (cma_room (?n, 1)) x \<le> 1" for x
      proof -
        have "kernel_free kh cma x \<le> 1" using ok by (simp add: kernel_ok_def)
        then show ?thesis using p(2) [of x] by (simp add: kernel_free_def)
      qed
      from cma_give_law [OF r(2) p(1) one] obtain c where
        c: "cma_give off p (?n, 1) cma' = Some c" "cma_ok off c" "\<And>x. heap_free c x = heap_free cma x"
        using p(2) by auto
      have "checked_add_usize p (2 ^ ?j) = None" using False by (simp add: checked_add_usize_def usize_max_def)
      then have "grow_loop off l (2 ^ i) (2 ^ ?j) kh cma = Some (None, kh, c)"
        using r(1) Some c(1) va by (subst grow_loop.simps) (simp add: Let_def cma_give_def cma_dealloc_def)
      moreover have "served off l kh cma None kh c"
        using ok c(2,3) by (simp add: served_def kernel_ok_def kernel_free_def fun_eq_iff)
      ultimately show ?thesis using used by (intro exI [of _ None] exI [of _ kh] exI [of _ c]) simp
    qed
  qed
qed

lemma required_power:
  assumes l: "layout_ok l"
  shows "\<exists>i. required_cma_bytes l = Some (2 ^ i) \<and> 12 \<le> i \<and> block_size l \<le> 2 ^ i"
proof -
  obtain a where a: "l_align l = 2 ^ a" using l by (auto simp: layout_ok_def)
  obtain b where b: "next_power_of_two (l_size l) = 2 ^ b" using next_power_of_two_pow by blast
  have p: "PAGE_SIZE = 2 ^ 12" by (simp add: PAGE_SIZE_def)
  have "required_cma_bytes l = Some (2 ^ max (max b a) 12)"
    using l unfolding max_pow2 [symmetric]
    by (simp add: required_cma_bytes_def checked_next_power_of_two_def layout_ok_def a b p)
  moreover have "block_size l \<le> 2 ^ max (max b a) 12"
  proof -
    have "block_size l = 2 ^ max b (max a 3)" using max_pow2 [of a 3] by (simp add: block_size_def a b WORD_def max_pow2)
    then show ?thesis by (simp add: le_max_iff_disj) arith
  qed
  ultimately show ?thesis by auto
qed

lemma grow_from_cma_spec:
  assumes ok: "kernel_ok off kh cma" and l: "layout_ok l"
  shows "\<exists>r kh' cma'. grow_from_cma off l kh cma = Some (r, kh', cma') \<and> served off l kh cma r kh' cma' \<and>
    (kh_ready kh \<longrightarrow> heap_free cma (2 ^ 64 - 1) = 0 \<longrightarrow>
       (\<exists>n pa c. required_cma_bytes l = Some n \<and> cma_alloc off (n div PAGE_SIZE) cma = Some (Some pa, c)) \<longrightarrow> r \<noteq> None)"
proof (cases "kh_ready kh")
  case False
  have "served off l kh cma None kh cma" using ok by (simp add: served_def)
  with False show ?thesis by (simp add: grow_from_cma_def)
next
  case True
  obtain i where i: "required_cma_bytes l = Some (2 ^ i)" "12 \<le> i" "block_size l \<le> 2 ^ i" using required_power [OF l] by blast
  have k: "heap_ok (kh_heap kh)" "cma_ok off cma" "\<And>x. kernel_free kh cma x \<le> 1" using ok by (simp_all add: kernel_ok_def)
  from served_by_heap [OF k l refl] obtain r h2 where r: "heap_alloc l (kh_heap kh) = Some (r, h2)" "served off l kh cma r (kh\<lparr>kh_heap := h2\<rparr>) cma"
    by blast
  show ?thesis
  proof (cases r)
    case (Some p)
    with r True i(1) show ?thesis by (simp add: grow_from_cma_def)
  next
    case None
    have m: "max (2 ^ i) CMA_HEAP_GROW_MIN = 2 ^ max i 27" using max_pow2 [of i 27] by (simp add: CMA_HEAP_GROW_MIN_def)
    let ?kh = "kh\<lparr>kh_heap := h2\<rparr>"
    have ok2: "kernel_ok off ?kh cma" and free2: "kernel_free ?kh cma = kernel_free kh cma"
      using r(2) None by (auto simp: served_def)
    from grow_loop_spec [OF ok2 l i(3,2), of "max i 27"] obtain r' kh' cma' where
      g: "grow_loop off l (2 ^ i) (2 ^ max i 27) ?kh cma = Some (r', kh', cma')" "served off l ?kh cma r' kh' cma'"
        "heap_free cma (2 ^ 64 - 1) = 0 \<longrightarrow> (\<exists>pa c. cma_alloc off (2 ^ i div PAGE_SIZE) cma = Some (Some pa, c)) \<longrightarrow> r' \<noteq> None"
      by auto
    have "served off l kh cma r' kh' cma'" using g(2) unfolding served_def free2 .
    moreover have "grow_from_cma off l kh cma = Some (r', kh', cma')"
      using True i(1) r(1) None g(1) by (simp add: grow_from_cma_def m)
    ultimately show ?thesis using g(3) i(1) by auto
  qed
qed

lemma alloc_from_heap_spec:
  assumes ok: "kernel_ok off kh cma" and l: "layout_ok l"
  shows "\<exists>r kh' cma'. alloc_from_heap off l kh cma = Some (r, kh', cma') \<and> served off l kh cma r kh' cma' \<and>
    (kh_ready kh \<longrightarrow> heap_free cma (2 ^ 64 - 1) = 0 \<longrightarrow>
       (\<exists>n pa c. required_cma_bytes l = Some n \<and> cma_alloc off (n div PAGE_SIZE) cma = Some (Some pa, c)) \<longrightarrow> r \<noteq> None)"
proof -
  have k: "heap_ok (kh_heap kh)" "cma_ok off cma" "\<And>x. kernel_free kh cma x \<le> 1" using ok by (simp_all add: kernel_ok_def)
  from served_by_heap [OF k l refl] obtain r h2 where r: "heap_alloc l (kh_heap kh) = Some (r, h2)" "served off l kh cma r (kh\<lparr>kh_heap := h2\<rparr>) cma"
    by blast
  show ?thesis
  proof (cases r)
    case (Some p)
    with r show ?thesis by (simp add: alloc_from_heap_def)
  next
    case None
    let ?kh = "kh\<lparr>kh_heap := h2\<rparr>"
    have ok2: "kernel_ok off ?kh cma" and free2: "kernel_free ?kh cma = kernel_free kh cma"
      using r(2) None by (auto simp: served_def)
    from grow_from_cma_spec [OF ok2 l] obtain r' kh' cma' where
      g: "grow_from_cma off l ?kh cma = Some (r', kh', cma')" "served off l ?kh cma r' kh' cma'"
        "kh_ready kh \<longrightarrow> heap_free cma (2 ^ 64 - 1) = 0 \<longrightarrow>
         (\<exists>n pa c. required_cma_bytes l = Some n \<and> cma_alloc off (n div PAGE_SIZE) cma = Some (Some pa, c)) \<longrightarrow> r' \<noteq> None"
      by auto
    have "served off l kh cma r' kh' cma'" using g(2) unfolding served_def free2 .
    with g(1,3) r(1) None show ?thesis by (simp add: alloc_from_heap_def)
  qed
qed

section \<open>The memory manager\<close>

text \<open>
  The kernel heap, the page cache and the page allocator with all their clients: kernel objects,
  page frames, and contiguous pages for devices and huge mappings.
\<close>

type_synonym memory_state = "KernelHeap \<times> PageCache \<times> Heap"

datatype mem_req = KernelMem Layout | Pages page_req

fun mem_take :: "nat \<Rightarrow> mem_req \<Rightarrow> memory_state \<Rightarrow> (nat option \<times> memory_state) option" where
  "mem_take off (KernelMem l) (kh, pc, cma) =
     map_option (\<lambda>(r, kh', cma'). (r, (kh', pc, cma'))) (alloc_from_heap off l kh cma)"
| "mem_take off (Pages q) (kh, s) = map_option (\<lambda>(r, s'). (r, (kh, s'))) (req_take off q s)"

fun mem_give :: "nat \<Rightarrow> nat \<Rightarrow> mem_req \<Rightarrow> memory_state \<Rightarrow> memory_state option" where
  "mem_give off va (KernelMem l) (kh, s) = map_option (\<lambda>kh'. (kh', s)) (global_dealloc va l kh)"
| "mem_give off va (Pages q) (kh, s) = map_option (Pair kh) (req_give off va q s)"

fun mem_room :: "mem_req \<Rightarrow> nat" where
  "mem_room (KernelMem l) = block_size l"
| "mem_room (Pages q) = req_room q"

fun mem_valid :: "mem_req \<Rightarrow> bool" where
  "mem_valid (KernelMem l) = layout_ok l"
| "mem_valid (Pages q) = True"

fun mem_placed :: "nat \<Rightarrow> nat \<Rightarrow> mem_req \<Rightarrow> bool" where
  "mem_placed off va (KernelMem l) = heap_placed va l"
| "mem_placed off va (Pages q) = req_placed off va q"

definition mem_free :: "nat \<Rightarrow> memory_state \<Rightarrow> nat \<Rightarrow> nat" where
  "mem_free off = (\<lambda>(kh, s) x. heap_free (kh_heap kh) x + frames_free off s x)"

definition mem_ok :: "nat \<Rightarrow> memory_state \<Rightarrow> bool" where
  "mem_ok off s \<longleftrightarrow> heap_ok (kh_heap (fst s)) \<and> frames_ok off (snd s) \<and> (\<forall>x. mem_free off s x \<le> 1)"

lemma mem_free_split: "mem_free off (kh, pc, cma) x = kernel_free kh cma x + cached off (pc_list pc) x"
  by (simp add: mem_free_def kernel_free_def frames_free_def)

lemma mem_ok_kernel:
  assumes "mem_ok off (kh, pc, cma)"
  shows "kernel_ok off kh cma"
proof -
  have "kernel_free kh cma x \<le> 1" for x
  proof -
    have "mem_free off (kh, pc, cma) x \<le> 1" using assms by (simp add: mem_ok_def)
    then show ?thesis unfolding mem_free_split by simp
  qed
  then show ?thesis using assms by (simp add: mem_ok_def kernel_ok_def frames_ok_def)
qed

lemma mem_ok_intro:
  assumes "mem_ok off (kh, pc, cma)" "kernel_ok off kh' cma'" "\<And>x. kernel_free kh' cma' x + cached off (pc_list pc) x \<le> 1"
  shows "mem_ok off (kh', pc, cma')"
proof -
  have "frames_free off (pc, cma') x \<le> 1" for x using assms(3) [of x] by (simp add: frames_free_def kernel_free_def)
  then show ?thesis
    using assms by (auto simp: mem_ok_def frames_ok_def kernel_ok_def mem_free_split)
qed

lemma mem_take_law:
  assumes ok: "mem_ok off s" and v: "mem_valid q"
  shows "\<exists>r s'. mem_take off q s = Some (r, s') \<and> mem_ok off s' \<and>
    (case r of None \<Rightarrow> mem_free off s' = mem_free off s
     | Some p \<Rightarrow> mem_placed off p q \<and> (\<forall>x. mem_free off s x = mem_free off s' x + inside p (mem_room q) x))"
proof -
  obtain kh pc cma where s: "s = (kh, pc, cma)" by (cases s)
  have one: "mem_free off (kh, pc, cma) x \<le> 1" for x using ok by (simp add: mem_ok_def s)
  show ?thesis
  proof (cases q)
    case (KernelMem l)
    from alloc_from_heap_spec [OF mem_ok_kernel [OF ok [unfolded s]], of l] v KernelMem obtain r kh' cma' where
      r: "alloc_from_heap off l kh cma = Some (r, kh', cma')" "served off l kh cma r kh' cma'"
      by auto
    have le: "kernel_free kh' cma' x \<le> kernel_free kh cma x" for x using r(2) by (cases r) (auto simp: served_def)
    have "kernel_free kh' cma' x + cached off (pc_list pc) x \<le> 1" for x
      using one [of x] le [of x] unfolding mem_free_split by linarith
    then have "mem_ok off (kh', pc, cma')" using mem_ok_intro [OF ok [unfolded s]] r(2) by (simp add: served_def)
    then show ?thesis using r by (cases r) (auto simp: s KernelMem served_def mem_free_split fun_eq_iff)
  next
    case (Pages p)
    have f: "frames_ok off (pc, cma)" using ok by (simp add: mem_ok_def s)
    from req_take_law [OF f, of p] obtain r s' where
      r: "req_take off p (pc, cma) = Some (r, s')" "frames_ok off s'"
        "case r of None \<Rightarrow> frames_free off s' = frames_free off (pc, cma)
         | Some va \<Rightarrow> req_placed off va p \<and> (\<forall>x. frames_free off (pc, cma) x = frames_free off s' x + inside va (req_room p) x)"
      by blast
    have m: "mem_free off (kh, t) x = heap_free (kh_heap kh) x + frames_free off t x" for t x by (simp add: mem_free_def)
    have le: "frames_free off s' x \<le> frames_free off (pc, cma) x" for x using r(3) by (cases r) auto
    have "mem_free off (kh, s') x \<le> 1" for x using one [of x] le [of x] unfolding m by linarith
    then have "mem_ok off (kh, s')" using ok r(2) by (simp add: mem_ok_def s)
    then show ?thesis using r(1,3) by (cases r) (auto simp: s Pages m fun_eq_iff)
  qed
qed

lemma mem_give_law:
  assumes ok: "mem_ok off s" and v: "mem_valid q" and p: "mem_placed off p q" and one: "\<And>x. mem_free off s x + inside p (mem_room q) x \<le> 1"
  shows "\<exists>s'. mem_give off p q s = Some s' \<and> mem_ok off s' \<and> (\<forall>x. mem_free off s' x = mem_free off s x + inside p (mem_room q) x)"
proof -
  obtain kh t where s: "s = (kh, t)" by (cases s)
  have m: "mem_free off (k, t') x = heap_free (kh_heap k) x + frames_free off t' x" for k t' x by (simp add: mem_free_def)
  have h: "heap_ok (kh_heap kh)" "frames_ok off t" using ok by (simp_all add: mem_ok_def s)
  show ?thesis
  proof (cases q)
    case (KernelMem l)
    have "heap_free (kh_heap kh) x + inside p (block_size l) x \<le> 1" for x
      using one [of x] by (simp add: s KernelMem m)
    with bounded_buddy.dealloc_law [OF h(1), of l p HEAP_BUDDY_SCAN_LIMIT] v p KernelMem obtain h' where
      h': "dealloc_with_bounded_merge HEAP_BUDDY_SCAN_LIMIT p l (kh_heap kh) = Some h'" "heap_ok h'"
        "\<And>x. heap_free h' x = heap_free (kh_heap kh) x + inside p (block_size l) x"
      by auto
    let ?kh = "kh\<lparr>kh_heap := h'\<rparr>"
    have free: "mem_free off (?kh, t) x = mem_free off (kh, t) x + inside p (block_size l) x" for x by (simp add: m h'(3))
    then have "mem_free off (?kh, t) x \<le> 1" for x using one [of x] by (simp add: s KernelMem)
    then have "mem_ok off (?kh, t)" using h(2) h'(2) by (simp add: mem_ok_def)
    then show ?thesis using h'(1) free by (simp add: s KernelMem global_dealloc_def)
  next
    case (Pages r)
    have "frames_free off t x + inside p (req_room r) x \<le> 1" for x using one [of x] by (simp add: s Pages m)
    with req_give_law [OF h(2), of p r] p Pages obtain t' where
      t': "req_give off p r t = Some t'" "frames_ok off t'" "\<And>x. frames_free off t' x = frames_free off t x + inside p (req_room r) x"
      by auto
    have "mem_free off (kh, t') x \<le> 1" for x using one [of x] by (simp add: s Pages m t'(3))
    then have "mem_ok off (kh, t')" using h(1) t'(2) by (simp add: mem_ok_def)
    then show ?thesis using t' by (simp add: s Pages m)
  qed
qed

interpretation memory_manager: byte_allocator "mem_ok off" "mem_free off" mem_valid mem_room "mem_placed off" "mem_take off" "mem_give off" for off
  by unfold_locales (rule mem_take_law, assumption+, rule mem_give_law)

section \<open>Properties\<close>

text \<open>The static heap lies in the kernel image, below the RAM given to the page allocator.\<close>

definition image_ok :: "nat \<Rightarrow> nat \<Rightarrow> nat \<Rightarrow> nat \<times> nat \<Rightarrow> bool" where
  "image_ok off heap_space ekernel_va ram \<longleftrightarrow> riscv_ram_ok off ekernel_va ram \<and> PAGE_SIZE dvd heap_space \<and>
     off + fst ram \<le> heap_space \<and> heap_space + KERNEL_HEAP_SIZE \<le> ekernel_va"

lemma init_heap_spec:
  assumes "image_ok off heap_space ekernel_va (start, len)"
  shows "\<exists>kh. init_heap heap_space KernelHeap_empty = Some kh \<and> heap_ok (kh_heap kh) \<and>
    (\<forall>x. heap_free (kh_heap kh) x = inside heap_space KERNEL_HEAP_SIZE x)"
proof -
  let ?e = "heap_space + KERNEL_HEAP_SIZE"
  have a: "PAGE_SIZE dvd heap_space" "0 < heap_space" "off \<le> heap_space" "?e < 2 ^ 64"
    using assms by (auto simp: image_ok_def riscv_ram_ok_def ram_ok_def)
  moreover have "PAGE_SIZE dvd KERNEL_HEAP_SIZE" "KERNEL_HEAP_SIZE < 2 ^ MAX_ORDER"
    by (simp_all add: PAGE_SIZE_def KERNEL_HEAP_SIZE_def MAX_ORDER_def)
  ultimately have "addable off heap_space ?e Heap_new"
    by (simp add: addable_def fresh_ok inside_def)
  from add_pages [OF fresh_ok(1) this] a(4) show ?thesis
    by (auto simp: init_heap_def KernelHeap_empty_def heap_init_def fresh_ok)
qed

lemma boot_state:
  assumes im: "image_ok off heap_space ekernel_va (start, len)"
  shows "\<exists>kh h1 h2. init_heap heap_space KernelHeap_empty = Some kh \<and>
    init_cma (init_cma_bootstrap off) ekernel_va [(start, len)] Heap_new = Some h1 \<and> init_cma_late off [(start, len)] h1 = Some h2 \<and>
    mem_ok off (enable_cma_backing kh, PageCache_new, h2) \<and>
    (\<forall>x. mem_free off (enable_cma_backing kh, PageCache_new, h2) x =
       inside heap_space KERNEL_HEAP_SIZE x + inside ekernel_va (off + start + len - ekernel_va) x)"
proof -
  from init_heap_spec [OF im] obtain kh where kh: "init_heap heap_space KernelHeap_empty = Some kh" "heap_ok (kh_heap kh)"
      "\<And>x. heap_free (kh_heap kh) x = inside heap_space KERNEL_HEAP_SIZE x"
    by blast
  have "riscv_ram_ok off ekernel_va (start, len)" using im by (simp add: image_ok_def)
  from riscv_boot [OF this] obtain h1 h2 where h: "init_cma (init_cma_bootstrap off) ekernel_va [(start, len)] Heap_new = Some h1"
      "init_cma_late off [(start, len)] h1 = Some h2" "cma_ok off h2" "\<And>x. heap_free h2 x = inside ekernel_va (off + start + len - ekernel_va) x"
    by blast
  let ?s = "(enable_cma_backing kh, PageCache_new, h2)"
  have e: "kh_heap (enable_cma_backing kh) = kh_heap kh" by (simp add: enable_cma_backing_def)
  have fr: "frames_free off (PageCache_new, h2) x = heap_free h2 x" for x by (simp add: frames_free_def PageCache_new_def)
  have free: "mem_free off ?s x = inside heap_space KERNEL_HEAP_SIZE x + inside ekernel_va (off + start + len - ekernel_va) x" for x
    by (simp add: mem_free_def e kh(3) fr h(4))
  have "heap_space + KERNEL_HEAP_SIZE \<le> ekernel_va" using im by (simp add: image_ok_def)
  then have "mem_free off ?s x \<le> 1" for x unfolding free by (auto simp: inside_def)
  moreover have "frames_ok off (PageCache_new, h2)"
    unfolding frames_ok_def fr using h(3) by (simp add: PageCache_new_def fr h(4) inside_def)
  ultimately have "mem_ok off ?s" using kh(2) by (simp add: mem_ok_def e)
  with kh(1) h(1,2) free show ?thesis by blast
qed

text \<open>
  C2.  Memory has one owner across the whole memory manager.  Boot a RISC-V machine, then let kernel
  objects, page frames and contiguous pages be taken and given back in any order and number: no
  step panics, growing the kernel heap included, and every byte of the static heap and of the RAM
  behind the image is either free once, in exactly one of the kernel heap, the page cache and the
  page allocator, or inside exactly one of the blocks held.
\<close>

theorem memory_has_one_owner:
  assumes "image_ok off heap_space ekernel_va (start, len)" "list_all (op_valid mem_valid) ops"
  shows "\<exists>kh h1 h2 s held. init_heap heap_space KernelHeap_empty = Some kh \<and>
    init_cma (init_cma_bootstrap off) ekernel_va [(start, len)] Heap_new = Some h1 \<and> init_cma_late off [(start, len)] h1 = Some h2 \<and>
    mem_run (mem_take off) (mem_give off) ops (enable_cma_backing kh, PageCache_new, h2) [] = Some (s, held) \<and>
    (\<forall>x. mem_free off s x + held_cover mem_room held x =
       inside heap_space KERNEL_HEAP_SIZE x + inside ekernel_va (off + start + len - ekernel_va) x)"
proof -
  from boot_state [OF assms(1)] obtain kh h1 h2 where b: "init_heap heap_space KernelHeap_empty = Some kh"
      "init_cma (init_cma_bootstrap off) ekernel_va [(start, len)] Heap_new = Some h1" "init_cma_late off [(start, len)] h1 = Some h2"
      "mem_ok off (enable_cma_backing kh, PageCache_new, h2)"
      "\<And>x. mem_free off (enable_cma_backing kh, PageCache_new, h2) x =
         inside heap_space KERNEL_HEAP_SIZE x + inside ekernel_va (off + start + len - ekernel_va) x"
    by blast
  let ?s = "(enable_cma_backing kh, PageCache_new, h2)"
  have "mem_free off ?s x \<le> 1" for x using b(4) by (simp add: mem_ok_def)
  then have "memory_manager.holding off ?s []" using b(4) by (simp add: memory_manager.holding_def)
  from memory_manager.run_keeps [OF this assms(2)] b(1-3,5) show ?thesis by auto
qed

theorem memory_has_one_owner_witness:
  "\<exists>kh h1 h2 s held. init_heap 0xffffffc080200000 KernelHeap_empty = Some kh \<and>
     init_cma (init_cma_bootstrap 0xffffffc000000000) 0xffffffc08a000000 [(0x80000000, 0x40000000)] Heap_new = Some h1 \<and>
     init_cma_late 0xffffffc000000000 [(0x80000000, 0x40000000)] h1 = Some h2 \<and>
     mem_run (mem_take 0xffffffc000000000) (mem_give 0xffffffc000000000)
       [Take (KernelMem word_layout), Take (Pages Frame), Take (Pages (Contiguous 512 512)), Give 1, Give 0]
       (enable_cma_backing kh, PageCache_new, h2) [] = Some (s, held) \<and>
     (\<forall>x. mem_free 0xffffffc000000000 s x + held_cover mem_room held x =
        inside 0xffffffc080200000 KERNEL_HEAP_SIZE x +
        inside 0xffffffc08a000000 (0xffffffc000000000 + 0x80000000 + 0x40000000 - 0xffffffc08a000000) x)"
proof (rule memory_has_one_owner)
  show "image_ok 0xffffffc000000000 0xffffffc080200000 0xffffffc08a000000 (0x80000000, 0x40000000)"
    by (simp add: image_ok_def riscv_ram_ok_def ram_ok_def PAGE_SIZE_def BOOTSTRAP_PHYSICAL_MEMORY_SIZE_def MAX_ORDER_def KERNEL_HEAP_SIZE_def)
  show "list_all (op_valid mem_valid)
      [Take (KernelMem word_layout), Take (Pages Frame), Take (Pages (Contiguous 512 512)), Give 1, Give 0]"
    by (simp add: op_valid_def small_layouts_ok)
qed

text \<open>
  C15.  The kernel heap serves a request as long as the page allocator can give the pages for it.
  Once growing is enabled, an allocation of any layout succeeds when the page allocator has the
  block that \<^verbatim>\<open>required_cma_bytes\<close> asks for, whether or not it has the larger ones that are tried
  first: the loop ends, the block is added, and the retry finds it.  The pointer is aligned, and
  the block it starts is no longer free anywhere.
\<close>

theorem kernel_heap_grows_while_pages_last:
  assumes "kernel_ok off kh cma" "layout_ok l" "kh_ready kh" "heap_free cma (2 ^ 64 - 1) = 0"
    "required_cma_bytes l = Some n" "cma_alloc off (n div PAGE_SIZE) cma = Some (Some pa, c)"
  shows "\<exists>p kh' cma'. alloc_from_heap off l kh cma = Some (Some p, kh', cma') \<and> l_align l dvd p \<and> kernel_ok off kh' cma' \<and>
    (\<forall>x. kernel_free kh cma x = kernel_free kh' cma' x + inside p (block_size l) x)"
proof -
  from alloc_from_heap_spec [OF assms(1,2)] assms(3-6) obtain p kh' cma' where
    a: "alloc_from_heap off l kh cma = Some (Some p, kh', cma')" "served off l kh cma (Some p) kh' cma'"
    by auto
  have "l_align l dvd p" using a(2) align_dvd_block [OF assms(2)] by (auto simp: served_def heap_placed_def intro: dvd_trans)
  with a show ?thesis by (auto simp: served_def)
qed

lemma one_page_fresh: "add_to_heap 8192 12288 Heap_new = Some one_page_heap"
  by (simp add: add_to_heap_def buddy_eval Heap_new_def one_page_heap_def)

theorem kernel_heap_grows_while_pages_last_witness:
  "\<exists>p kh' cma'. alloc_from_heap 4096 word_layout \<lparr>kh_heap = Heap_new, kh_ready = True, kh_backing = 0\<rparr> one_page_heap =
     Some (Some p, kh', cma') \<and> l_align word_layout dvd p \<and> kernel_ok 4096 kh' cma' \<and>
     (\<forall>x. kernel_free \<lparr>kh_heap = Heap_new, kh_ready = True, kh_backing = 0\<rparr> one_page_heap x =
        kernel_free kh' cma' x + inside p (block_size word_layout) x)"
proof -
  have r: "region_ok 8192 12288" by (simp add: region_ok_def first_word_def last_word_def MAX_ORDER_def)
  have f: "heap_ok one_page_heap" "heap_free one_page_heap x = inside 8192 4096 x" for x
    using fresh_heapD [OF r, of one_page_heap] one_page_fresh
    by (simp_all add: fresh_heap_def in_region_def first_word_def last_word_def)
  have d: "direct_mapped 4096 one_page_heap" by (auto simp: direct_mapped_def f inside_def)
  have k: "kernel_ok 4096 \<lparr>kh_heap = Heap_new, kh_ready = True, kh_backing = 0\<rparr> one_page_heap"
    using f d by (simp add: kernel_ok_def cma_ok_def kernel_free_def fresh_ok PAGE_SIZE_def inside_def)
  have q: "required_cma_bytes word_layout = Some 4096"
    by (simp add: required_cma_bytes_def checked_next_power_of_two_def next_power_of_two_def word_layout_def PAGE_SIZE_def numeral_2_eq_2 [symmetric])
  have l: "cma_layout 1 1 = Some \<lparr>l_size = 4096, l_align = 4096\<rparr>"
    by (simp add: cma_layout_def checked_mul_usize_def usize_max_def PAGE_SIZE_def Layout_from_size_align_def)
  have c: "class_of \<lparr>l_size = 4096, l_align = 4096\<rparr> = 12"
    by (simp add: class_of_def block_size_def next_power_of_two_def WORD_def numeral_2_eq_2 [symmetric])
  have "\<exists>pa c. cma_alloc 4096 (4096 div PAGE_SIZE) one_page_heap = Some (Some pa, c)"
    by (simp add: cma_alloc_def cma_alloc_aligned_def l [simplified] c one_page_heap_def Heap_new_def heap_alloc_def
        upt_rec_numeral buddy_eval PAGE_SIZE_def)
  then obtain pa c where a: "cma_alloc 4096 (4096 div PAGE_SIZE) one_page_heap = Some (Some pa, c)" by blast
  show ?thesis
    by (rule kernel_heap_grows_while_pages_last [OF k small_layouts_ok(1) _ _ q a]) (simp_all add: f inside_def)
qed

end
