(* ===== verification/Fd_Table.thy ===== *)
theory Fd_Table
  imports Prelude Open_Flags
begin

text \<open>
  \<^verbatim>\<open>fs/fstruct.rs\<close>: descriptors and descriptor tables.  The status of an open file is shared between
  the descriptors that \<^verbatim>\<open>dup\<close> and \<^verbatim>\<open>fork\<close> make of it, so it is an entry of a list of statuses and a
  descriptor holds its index.  The file behind a descriptor is its class and the identity of the
  object.  How many references an object has beyond the table is the argument \<open>strong_count\<close>.
  Allocation is in two phases, reserve and install; the step relation at the end interleaves them.
\<close>

section \<open>Descriptors\<close>

datatype FileClass = File nat | PipeFile nat | Socket nat | FsContext nat | DetachedMount nat | Abs nat

record OpenFileStatus =
  os_flags :: OpenFlags
  os_rw_hint :: nat

type_synonym statuses = "OpenFileStatus list"

record FileDescriptor =
  descriptor_flags :: OpenFlags
  status :: nat
  fd_file :: FileClass

definition getfl_visible_flags :: OpenFlags where
  "getfl_visible_flags = O_ACCMODE OR O_APPEND OR O_NONBLOCK OR O_DSYNC OR O_SYNC OR O_RSYNC OR O_ASYNC OR O_DIRECT OR
     O_LARGEFILE OR O_NOATIME OR O_PATH"

definition FileDescriptor_new :: "OpenFlags \<Rightarrow> FileClass \<Rightarrow> statuses \<Rightarrow> FileDescriptor \<times> statuses" where
  "FileDescriptor_new flags f sts =
     (\<lparr>descriptor_flags = flags AND O_CLOEXEC, status = length sts, fd_file = f\<rparr>,
      sts @ [\<lparr>os_flags = flags AND getfl_visible_flags, os_rw_hint = 0\<rparr>])"

definition fd_flags :: "FileDescriptor \<Rightarrow> statuses \<Rightarrow> OpenFlags" where
  "fd_flags d sts = descriptor_flags d OR os_flags (sts ! status d)"

definition getfl_flags :: "FileDescriptor \<Rightarrow> statuses \<Rightarrow> OpenFlags" where
  "getfl_flags d sts = os_flags (sts ! status d)"

definition is_path_only :: "FileDescriptor \<Rightarrow> statuses \<Rightarrow> bool" where
  "is_path_only d sts = flags_contain (os_flags (sts ! status d)) O_PATH"

definition set_cloexec :: "FileDescriptor \<Rightarrow> FileDescriptor" where
  "set_cloexec d = d\<lparr>descriptor_flags := flags_insert O_CLOEXEC (descriptor_flags d)\<rparr>"

definition unset_cloexec :: "FileDescriptor \<Rightarrow> FileDescriptor" where
  "unset_cloexec d = d\<lparr>descriptor_flags := flags_remove O_CLOEXEC (descriptor_flags d)\<rparr>"

definition cloexec :: "FileDescriptor \<Rightarrow> bool" where
  "cloexec d = flags_contain (descriptor_flags d) O_CLOEXEC"

definition non_block :: "FileDescriptor \<Rightarrow> statuses \<Rightarrow> bool" where
  "non_block d sts = flags_contain (os_flags (sts ! status d)) O_NONBLOCK"

definition on_status :: "(OpenFileStatus \<Rightarrow> OpenFileStatus) \<Rightarrow> FileDescriptor \<Rightarrow> statuses \<Rightarrow> statuses" where
  "on_status f d sts = sts[status d := f (sts ! status d)]"

definition desc_set_nonblock :: "FileDescriptor \<Rightarrow> statuses \<Rightarrow> statuses" where
  "desc_set_nonblock = on_status (\<lambda>s. s\<lparr>os_flags := flags_insert O_NONBLOCK (os_flags s)\<rparr>)"

definition desc_unset_nonblock :: "FileDescriptor \<Rightarrow> statuses \<Rightarrow> statuses" where
  "desc_unset_nonblock = on_status (\<lambda>s. s\<lparr>os_flags := flags_remove O_NONBLOCK (os_flags s)\<rparr>)"

definition mutable_flags :: OpenFlags where
  "mutable_flags = O_APPEND OR O_NONBLOCK OR O_ASYNC OR O_DIRECT OR O_NOATIME"

definition desc_set_status_flags :: "OpenFlags \<Rightarrow> FileDescriptor \<Rightarrow> statuses \<Rightarrow> statuses" where
  "desc_set_status_flags flags =
     on_status (\<lambda>s. s\<lparr>os_flags := flags_insert (flags AND mutable_flags) (flags_remove mutable_flags (os_flags s))\<rparr>)"

definition file_rw_hint :: "FileDescriptor \<Rightarrow> statuses \<Rightarrow> nat" where
  "file_rw_hint d sts = os_rw_hint (sts ! status d)"

definition set_file_rw_hint :: "nat \<Rightarrow> FileDescriptor \<Rightarrow> statuses \<Rightarrow> statuses" where
  "set_file_rw_hint hint = on_status (\<lambda>s. s\<lparr>os_rw_hint := hint\<rparr>)"

definition same_open_file_description :: "FileDescriptor \<Rightarrow> FileDescriptor \<Rightarrow> bool" where
  "same_open_file_description d d' \<longleftrightarrow> status d = status d'"

text \<open>The socket that closing the descriptor shuts down\<close>

definition close_socket_if_last_ref :: "(nat \<Rightarrow> nat) \<Rightarrow> FileDescriptor \<Rightarrow> nat option" where
  "close_socket_if_last_ref strong_count d =
     (case fd_file d of Socket s \<Rightarrow> if strong_count s = 1 then Some s else None | _ \<Rightarrow> None)"

definition has_fd_alias :: "FileDescriptor \<Rightarrow> FileDescriptor option list \<Rightarrow> bool" where
  "has_fd_alias d fs =
     (case fd_file d of
        Socket s \<Rightarrow> list_ex (\<lambda>slot. case slot of None \<Rightarrow> False | Some d' \<Rightarrow> fd_file d' = Socket s) fs
      | _ \<Rightarrow> False)"

section \<open>Tables\<close>

record FdTable =
  soft_limit :: nat
  hard_limit :: nat
  files :: "FileDescriptor option list"
  reserved :: "bool list"
  owners :: nat

definition FdTable_empty :: FdTable where
  "FdTable_empty = \<lparr>soft_limit = 128, hard_limit = 256, files = [], reserved = [], owners = 1\<rparr>"

definition FdTable_new :: "nat \<Rightarrow> nat \<Rightarrow> FileDescriptor option list \<Rightarrow> FdTable" where
  "FdTable_new soft hard fs = \<lparr>soft_limit = soft, hard_limit = hard, files = fs, reserved = replicate (length fs) False, owners = 1\<rparr>"

text \<open>The standard streams, objects \<open>stdin\<close> and \<open>stdout\<close>\<close>

definition new_with_stdio :: "nat \<Rightarrow> nat \<Rightarrow> nat \<Rightarrow> statuses \<Rightarrow> FdTable \<times> statuses" where
  "new_with_stdio stdin stdout stderr sts =
     (let (d0, s0) = FileDescriptor_new 0 (Abs stdin) sts; (d1, s1) = FileDescriptor_new 0 (Abs stdout) s0;
          (d2, s2) = FileDescriptor_new 0 (Abs stderr) s1 in
      (FdTable_new 128 256 [Some d0, Some d1, Some d2], s2))"

definition from_another :: "FdTable \<Rightarrow> FdTable" where
  "from_another t = t\<lparr>reserved := replicate (length (files t)) False, owners := 1\<rparr>"

definition acquire_owner :: "FdTable \<Rightarrow> FdTable" where
  "acquire_owner t = t\<lparr>owners := wrap64 (owners t + 1)\<rparr>"

definition clear :: "FdTable \<Rightarrow> FdTable" where
  "clear t = t\<lparr>files := [], reserved := []\<rparr>"

definition release_owner :: "FdTable \<Rightarrow> bool \<times> FdTable" where
  "release_owner t =
     (let t1 = t\<lparr>owners := sub64 (owners t) 1\<rparr> in if owners t = 1 then (True, clear t1) else (False, t1))"

text \<open>\<^verbatim>\<open>Vec::resize\<close>\<close>

definition vec_resize :: "nat \<Rightarrow> 'a \<Rightarrow> 'a list \<Rightarrow> 'a list" where
  "vec_resize n x xs = take n xs @ replicate (n - length xs) x"

definition vacant :: "FileDescriptor option \<times> bool \<Rightarrow> bool" where
  "vacant = (\<lambda>(slot, r). slot = None \<and> \<not> r)"

definition push_reserved :: "FdTable \<Rightarrow> syscall_ret \<times> FdTable" where
  "push_reserved t =
     (if length (files t) \<ge> soft_limit t then (Inl EMFILE, t)
      else (Inr (length (files t)), t\<lparr>files := files t @ [None], reserved := reserved t @ [True]\<rparr>))"

definition alloc_fd :: "FdTable \<Rightarrow> syscall_ret \<times> FdTable" where
  "alloc_fd t =
     (case position vacant (zip (files t) (reserved t)) of
        Some fd \<Rightarrow> (Inr fd, t\<lparr>reserved := (reserved t)[fd := True]\<rparr>)
      | None \<Rightarrow> push_reserved t)"

definition alloc_fd_larger_than :: "nat \<Rightarrow> FdTable \<Rightarrow> syscall_ret \<times> FdTable" where
  "alloc_fd_larger_than arg t =
     (if arg \<ge> soft_limit t then (Inl EINVAL, t)
      else
        let t1 = (if length (files t) < arg
                  then t\<lparr>files := vec_resize arg None (files t), reserved := vec_resize arg False (reserved t)\<rparr> else t) in
        case position vacant (drop arg (zip (files t1) (reserved t1))) of
          Some i \<Rightarrow> (Inr (i + arg), t1\<lparr>reserved := (reserved t1)[i + arg := True]\<rparr>)
        | None \<Rightarrow> push_reserved t1)"

definition resize :: "nat \<Rightarrow> FdTable \<Rightarrow> unit sys_result \<times> FdTable" where
  "resize n t =
     (if n > soft_limit t then (Inl EMFILE, t)
      else (Inr (), t\<lparr>files := vec_resize n None (files t), reserved := vec_resize n False (reserved t)\<rparr>))"

definition try_get :: "FdTable \<Rightarrow> nat \<Rightarrow> FileDescriptor option" where
  "try_get t fd = (if fd < length (files t) then files t ! fd else None)"

definition get_fd :: "FdTable \<Rightarrow> nat \<Rightarrow> FileDescriptor sys_result" where
  "get_fd t fd = (case try_get t fd of None \<Rightarrow> Inl EBADF | Some d \<Rightarrow> Inr d)"

definition has_other_regular_file_reference :: "nat \<Rightarrow> (nat \<Rightarrow> nat) \<Rightarrow> nat \<Rightarrow> FdTable \<Rightarrow> bool" where
  "has_other_regular_file_reference fd inode f t =
     list_ex (\<lambda>(other_fd, slot). other_fd \<noteq> fd \<and>
       (case slot of Some d \<Rightarrow> (case fd_file d of File other \<Rightarrow> inode other = inode f | _ \<Rightarrow> False) | None \<Rightarrow> False))
       (enumerate 0 (files t))"

definition get_cloexec :: "FdTable \<Rightarrow> nat \<Rightarrow> bool sys_result" where
  "get_cloexec t fd = (case try_get t fd of None \<Rightarrow> Inl EBADF | Some d \<Rightarrow> Inr (cloexec d))"

definition tab_set_cloexec :: "nat \<Rightarrow> FdTable \<Rightarrow> syscall_ret \<times> FdTable" where
  "tab_set_cloexec fd t =
     (case try_get t fd of None \<Rightarrow> (Inl EBADF, t) | Some d \<Rightarrow> (Inr 0, t\<lparr>files := (files t)[fd := Some (set_cloexec d)]\<rparr>))"

definition tab_unset_cloexec :: "nat \<Rightarrow> FdTable \<Rightarrow> syscall_ret \<times> FdTable" where
  "tab_unset_cloexec fd t =
     (case try_get t fd of None \<Rightarrow> (Inl EBADF, t) | Some d \<Rightarrow> (Inr 0, t\<lparr>files := (files t)[fd := Some (unset_cloexec d)]\<rparr>))"

definition tab_set_nonblock :: "nat \<Rightarrow> FdTable \<Rightarrow> statuses \<Rightarrow> syscall_ret \<times> statuses" where
  "tab_set_nonblock fd t sts = (case try_get t fd of None \<Rightarrow> (Inl EBADF, sts) | Some d \<Rightarrow> (Inr 0, desc_set_nonblock d sts))"

definition tab_unset_nonblock :: "nat \<Rightarrow> FdTable \<Rightarrow> statuses \<Rightarrow> syscall_ret \<times> statuses" where
  "tab_unset_nonblock fd t sts = (case try_get t fd of None \<Rightarrow> (Inl EBADF, sts) | Some d \<Rightarrow> (Inr 0, desc_unset_nonblock d sts))"

definition tab_set_status_flags :: "nat \<Rightarrow> OpenFlags \<Rightarrow> FdTable \<Rightarrow> statuses \<Rightarrow> syscall_ret \<times> statuses" where
  "tab_set_status_flags fd flags t sts =
     (case try_get t fd of None \<Rightarrow> (Inl EBADF, sts) | Some d \<Rightarrow> (Inr 0, desc_set_status_flags flags d sts))"

definition set_limit :: "nat \<Rightarrow> nat \<Rightarrow> FdTable \<Rightarrow> FdTable" where
  "set_limit soft hard t = t\<lparr>soft_limit := soft, hard_limit := hard\<rparr>"

text \<open>Installing a descriptor; with the socket that the old one shuts down\<close>

definition set_fd :: "(nat \<Rightarrow> nat) \<Rightarrow> nat \<Rightarrow> FileDescriptor \<Rightarrow> FdTable \<Rightarrow> unit sys_result \<times> nat option \<times> FdTable" where
  "set_fd strong_count fd d t =
     (let r = (if fd < length (reserved t) then reserved t ! fd else False) in
      if fd \<ge> soft_limit t \<and> \<not> r then (Inl EMFILE, None, t)
      else
        let t1 = (if fd \<ge> length (files t)
                  then t\<lparr>files := vec_resize (fd + 1) None (files t), reserved := vec_resize (fd + 1) False (reserved t)\<rparr> else t);
            t2 = t1\<lparr>files := (files t1)[fd := Some d], reserved := (reserved t1)[fd := False]\<rparr> in
        (Inr (),
         case files t1 ! fd of
           None \<Rightarrow> None
         | Some old \<Rightarrow> if has_fd_alias old (files t2) then None else close_socket_if_last_ref strong_count old,
         t2))"

definition take_fd :: "nat \<Rightarrow> FdTable \<Rightarrow> FileDescriptor option \<times> FdTable" where
  "take_fd fd t = (try_get t fd, t\<lparr>files := (files t)[fd := None], reserved := (reserved t)[fd := False]\<rparr>)"

definition close_fd :: "(nat \<Rightarrow> nat) \<Rightarrow> nat \<Rightarrow> FdTable \<Rightarrow> FileDescriptor option \<times> nat option \<times> FdTable" where
  "close_fd strong_count fd t =
     (case try_get t fd of
        None \<Rightarrow> (None, None, t)
      | Some d \<Rightarrow>
          let t1 = t\<lparr>files := (files t)[fd := None]\<rparr> in
          (Some d, if has_fd_alias d (files t1) then None else close_socket_if_last_ref strong_count d, t1))"

definition cloexec_fds :: "FdTable \<Rightarrow> nat list" where
  "cloexec_fds t = filter (\<lambda>fd. case files t ! fd of None \<Rightarrow> False | Some d \<Rightarrow> cloexec d) [0..<length (files t)]"

definition close_on_exec :: "(nat \<Rightarrow> nat) \<Rightarrow> FdTable \<Rightarrow> FdTable" where
  "close_on_exec strong_count t = fold (\<lambda>fd u. snd (snd (close_fd strong_count fd u))) (cloexec_fds t) t"

definition has_write_fd :: "FdTable \<Rightarrow> statuses \<Rightarrow> bool" where
  "has_write_fd t sts = list_ex (\<lambda>slot. case slot of None \<Rightarrow> False | Some d \<Rightarrow> fd_flags d sts AND 3 \<noteq> 0) (files t)"

section \<open>Tables by their slots\<close>

definition is_reserved :: "FdTable \<Rightarrow> nat \<Rightarrow> bool" where
  "is_reserved t fd \<longleftrightarrow> fd < length (reserved t) \<and> reserved t ! fd"

text \<open>No slot is both open and reserved.\<close>

definition fd_ok :: "FdTable \<Rightarrow> bool" where
  "fd_ok t \<longleftrightarrow> length (reserved t) = length (files t) \<and> (\<forall>fd. is_reserved t fd \<longrightarrow> try_get t fd = None)"

definition free_slot :: "FdTable \<Rightarrow> nat \<Rightarrow> bool" where
  "free_slot t fd \<longleftrightarrow> try_get t fd = None \<and> \<not> is_reserved t fd"

lemma nth_vec_resize: "i < n \<Longrightarrow> vec_resize n x xs ! i = (if i < length xs then xs ! i else x)"
  by (auto simp: vec_resize_def nth_append)

lemma length_vec_resize [simp]: "length (vec_resize n x xs) = n"
  by (simp add: vec_resize_def)

lemma fd_ok_length: "fd_ok t \<Longrightarrow> length (reserved t) = length (files t)"
  by (simp add: fd_ok_def)

lemma vacant_iff:
  "fd_ok t \<Longrightarrow> i < length (files t) \<Longrightarrow> vacant (zip (files t) (reserved t) ! i) \<longleftrightarrow> free_slot t i"
  by (auto simp: vacant_def free_slot_def try_get_def is_reserved_def fd_ok_def)

lemma free_slot_beyond: "fd_ok t \<Longrightarrow> length (files t) \<le> fd \<Longrightarrow> free_slot t fd"
  by (auto simp: free_slot_def try_get_def is_reserved_def fd_ok_def)

text \<open>What reserving a slot does\<close>

definition reserves :: "nat \<Rightarrow> FdTable \<Rightarrow> FdTable \<Rightarrow> bool" where
  "reserves fd t t' \<longleftrightarrow> fd_ok t' \<and> try_get t' = try_get t \<and> is_reserved t' = (is_reserved t)(fd := True) \<and> soft_limit t' = soft_limit t \<and>
     hard_limit t' = hard_limit t \<and> owners t' = owners t \<and> fd < length (files t')"

lemma reserve_slot:
  assumes ok: "fd_ok t" and f: "free_slot t fd" and lt: "fd < length (files t)"
  shows "reserves fd t (t\<lparr>reserved := (reserved t)[fd := True]\<rparr>)"
  using assms by (auto simp: reserves_def fd_ok_def free_slot_def try_get_def is_reserved_def fun_eq_iff nth_list_update)

lemma push_reserved_spec:
  assumes ok: "fd_ok t" and p: "push_reserved t = (r, t')"
  shows "case r of Inl e \<Rightarrow> e = EMFILE \<and> t' = t \<and> soft_limit t \<le> length (files t)
    | Inr fd \<Rightarrow> fd = length (files t) \<and> fd < soft_limit t \<and> reserves fd t t'"
proof (cases "length (files t) \<ge> soft_limit t")
  case True
  with p show ?thesis by (auto simp: push_reserved_def)
next
  case False
  with p have "r = Inr (length (files t))" "t' = t\<lparr>files := files t @ [None], reserved := reserved t @ [True]\<rparr>"
    by (auto simp: push_reserved_def)
  with False ok show ?thesis
    by (auto simp: reserves_def fd_ok_def try_get_def is_reserved_def fun_eq_iff nth_append less_Suc_eq)
qed

lemma alloc_fd_spec:
  assumes ok: "fd_ok t" and a: "alloc_fd t = (r, t')"
  shows "case r of Inl e \<Rightarrow> e = EMFILE \<and> t' = t \<and> soft_limit t \<le> length (files t) \<and> (\<forall>j < length (files t). \<not> free_slot t j)
    | Inr fd \<Rightarrow> free_slot t fd \<and> (\<forall>j < fd. \<not> free_slot t j) \<and> reserves fd t t'"
proof (cases "position vacant (zip (files t) (reserved t))")
  case (Some fd)
  note p = position_SomeD [OF Some]
  have lt: "fd < length (files t)" using p by simp
  have "\<not> free_slot t j" if "j < fd" for j
    using p that vacant_iff [OF ok, of j] lt by (simp del: nth_zip)
  moreover have "free_slot t fd" using p vacant_iff [OF ok lt] by (simp del: nth_zip)
  ultimately have f: "fd < length (files t)" "free_slot t fd" "\<forall>j < fd. \<not> free_slot t j" using lt by auto
  with a Some reserve_slot [OF ok f(2,1)] show ?thesis by (auto simp: alloc_fd_def)
next
  case None
  have full: "\<not> free_slot t j" if "j < length (files t)" for j
  proof -
    have "zip (files t) (reserved t) ! j \<in> set (zip (files t) (reserved t))" using that fd_ok_length [OF ok] by (intro nth_mem) simp
    with None show ?thesis using vacant_iff [OF ok that] by auto
  qed
  have "push_reserved t = (r, t')" using a None by (simp add: alloc_fd_def)
  from push_reserved_spec [OF ok this] full free_slot_beyond [OF ok] show ?thesis by (auto split: sum.splits)
qed

lemma resized:
  assumes ok: "fd_ok t" and n: "length (files t) \<le> n"
  defines "t' \<equiv> t\<lparr>files := vec_resize n None (files t), reserved := vec_resize n False (reserved t)\<rparr>"
  shows "fd_ok t'" "try_get t' = try_get t" "is_reserved t' = is_reserved t" "length (files t') = n"
proof -
  show g: "try_get t' = try_get t" "is_reserved t' = is_reserved t" "length (files t') = n"
    using ok n by (auto simp: t'_def try_get_def is_reserved_def fun_eq_iff nth_vec_resize fd_ok_def split: if_splits)
  show "fd_ok t'" using ok unfolding fd_ok_def g by (simp add: t'_def)
qed

lemma alloc_fd_larger_spec:
  assumes ok: "fd_ok t" and a: "alloc_fd_larger_than arg t = (r, t')"
  shows "case r of
      Inl e \<Rightarrow> fd_ok t' \<and> try_get t' = try_get t \<and> is_reserved t' = is_reserved t \<and>
        (e = EINVAL \<and> soft_limit t \<le> arg \<or> e = EMFILE \<and> (\<forall>j. arg \<le> j \<and> j < soft_limit t \<longrightarrow> \<not> free_slot t j))
    | Inr fd \<Rightarrow> arg \<le> fd \<and> free_slot t fd \<and> (\<forall>j. arg \<le> j \<and> j < fd \<longrightarrow> \<not> free_slot t j) \<and> reserves fd t t'"
proof (cases "arg \<ge> soft_limit t")
  case True
  with a ok show ?thesis by (auto simp: alloc_fd_larger_than_def)
next
  case False
  define t1 where "t1 = (if length (files t) < arg
    then t\<lparr>files := vec_resize arg None (files t), reserved := vec_resize arg False (reserved t)\<rparr> else t)"
  have t1: "fd_ok t1" "try_get t1 = try_get t" "is_reserved t1 = is_reserved t" "arg \<le> length (files t1)"
      "soft_limit t1 = soft_limit t" "hard_limit t1 = hard_limit t" "owners t1 = owners t"
    using ok resized [OF ok, of arg] by (auto simp: t1_def)
  have fs: "free_slot t1 = free_slot t" by (simp add: free_slot_def fun_eq_iff t1)
  have res: "reserves fd t1 t' \<longleftrightarrow> reserves fd t t'" for fd by (simp add: reserves_def t1)
  let ?z = "zip (files t1) (reserved t1)"
  have len: "length ?z = length (files t1)" using fd_ok_length [OF t1(1)] by simp
  have a1: "(r, t') = (case position vacant (drop arg ?z) of
      Some i \<Rightarrow> (Inr (i + arg), t1\<lparr>reserved := (reserved t1)[i + arg := True]\<rparr>) | None \<Rightarrow> push_reserved t1)"
    using a False unfolding alloc_fd_larger_than_def Let_def t1_def [symmetric] by simp
  show ?thesis
  proof (cases "position vacant (drop arg ?z)")
    case (Some i)
    from position_SomeD [OF Some] have i: "i + arg < length (files t1)" "vacant (?z ! (i + arg))"
        "\<And>j. j < i \<Longrightarrow> \<not> vacant (?z ! (j + arg))"
      using len t1(4) by (auto simp: add.commute)
    have "free_slot t1 (i + arg)" using vacant_iff [OF t1(1) i(1)] i(2) by simp
    moreover have "\<not> free_slot t j" if "arg \<le> j" "j < i + arg" for j
    proof -
      have "\<not> vacant (?z ! j)" using i(3) [of "j - arg"] that by simp
      then show ?thesis using vacant_iff [OF t1(1), of j] i(1) that fs by simp
    qed
    ultimately show ?thesis
      using a1 Some reserve_slot [OF t1(1) _ i(1)] res fs by auto
  next
    case None
    have full: "\<not> free_slot t j" if "arg \<le> j" "j < length (files t1)" for j
    proof -
      have "drop arg ?z ! (j - arg) \<in> set (drop arg ?z)" using that len by (intro nth_mem) simp
      then have "\<not> vacant (?z ! j)" using None that len by simp
      then show ?thesis using vacant_iff [OF t1(1) that(2)] fs by simp
    qed
    have "push_reserved t1 = (r, t')" using a1 None by simp
    from push_reserved_spec [OF t1(1) this] full free_slot_beyond [OF t1(1)] res fs t1 show ?thesis
      by (auto split: sum.splits)
  qed
qed

lemma set_fd_spec:
  assumes ok: "fd_ok t"
  shows "case set_fd sc fd d t of
      (Inl e, sock, t') \<Rightarrow> e = EMFILE \<and> t' = t \<and> soft_limit t \<le> fd \<and> \<not> is_reserved t fd
    | (Inr _, sock, t') \<Rightarrow> (fd < soft_limit t \<or> is_reserved t fd) \<and> fd_ok t' \<and> try_get t' = (try_get t)(fd \<mapsto> d) \<and>
        is_reserved t' = (is_reserved t)(fd := False) \<and> soft_limit t' = soft_limit t"
proof (cases "fd \<ge> soft_limit t \<and> \<not> is_reserved t fd")
  case True
  then show ?thesis by (auto simp: set_fd_def Let_def is_reserved_def)
next
  case False
  define t1 where "t1 = (if fd \<ge> length (files t)
    then t\<lparr>files := vec_resize (fd + 1) None (files t), reserved := vec_resize (fd + 1) False (reserved t)\<rparr> else t)"
  have t1: "fd_ok t1" "try_get t1 = try_get t" "is_reserved t1 = is_reserved t" "fd < length (files t1)" "soft_limit t1 = soft_limit t"
    using ok resized [OF ok, of "fd + 1"] by (auto simp: t1_def)
  let ?t2 = "t1\<lparr>files := (files t1)[fd := Some d], reserved := (reserved t1)[fd := False]\<rparr>"
  have g: "try_get ?t2 = (try_get t)(fd \<mapsto> d)" "is_reserved ?t2 = (is_reserved t)(fd := False)"
    unfolding t1(2,3) [symmetric] using t1(1,4) by (auto simp: try_get_def is_reserved_def fun_eq_iff nth_list_update fd_ok_def)
  have "fd_ok ?t2" using t1(1) ok unfolding fd_ok_def g by auto
  moreover have "\<exists>sock. set_fd sc fd d t = (Inr (), sock, ?t2)"
    using False by (auto simp: set_fd_def Let_def is_reserved_def t1_def)
  ultimately show ?thesis using g t1(5) False by auto
qed

text \<open>Installing into a slot that was reserved always succeeds.\<close>

lemma set_reserved:
  assumes a: "reserves fd t t1" and f: "free_slot t fd"
  shows "\<exists>sock t2. set_fd sc fd d t1 = (Inr (), sock, t2) \<and> fd_ok t2 \<and> try_get t2 = (try_get t)(fd \<mapsto> d) \<and>
    is_reserved t2 = is_reserved t"
proof -
  have r: "fd_ok t1" "try_get t1 = try_get t" "is_reserved t1 = (is_reserved t)(fd := True)"
    using a by (auto simp: reserves_def)
  obtain x sock t2 where s: "set_fd sc fd d t1 = (x, sock, t2)" by (cases "set_fd sc fd d t1") auto
  have x: "x = Inr ()" "fd_ok t2" "try_get t2 = (try_get t1)(fd \<mapsto> d)" "is_reserved t2 = (is_reserved t1)(fd := False)"
    using set_fd_spec [OF r(1), where sc = sc and fd = fd and d = d] s r(3) by (auto split: sum.splits)
  have "is_reserved t2 = is_reserved t" using f unfolding x(4) r(3) by (simp add: free_slot_def fun_upd_idem)
  then show ?thesis using s x r(2) by auto
qed

lemma take_fd_spec:
  assumes "fd_ok t"
  shows "fst (take_fd fd t) = try_get t fd" "fd_ok (snd (take_fd fd t))" "try_get (snd (take_fd fd t)) = (try_get t)(fd := None)"
    "is_reserved (snd (take_fd fd t)) = (is_reserved t)(fd := False)"
  using assms
  by (cases "fd < length (files t)"; auto simp: take_fd_def fd_ok_def try_get_def is_reserved_def fun_eq_iff nth_list_update)+

lemma close_fd_spec:
  assumes "fd_ok t"
  shows "fst (close_fd sc fd t) = try_get t fd" "fd_ok (snd (snd (close_fd sc fd t)))"
    "try_get (snd (snd (close_fd sc fd t))) = (try_get t)(fd := None)"
    "is_reserved (snd (snd (close_fd sc fd t))) = is_reserved t"
  using assms by (auto simp: close_fd_def Let_def fd_ok_def try_get_def is_reserved_def fun_eq_iff nth_list_update split: option.splits)

lemma close_many:
  "fd_ok t \<Longrightarrow> fd_ok (fold (\<lambda>fd u. snd (snd (close_fd sc fd u))) fds t) \<and>
     try_get (fold (\<lambda>fd u. snd (snd (close_fd sc fd u))) fds t) = (\<lambda>fd. if fd \<in> set fds then None else try_get t fd) \<and>
     is_reserved (fold (\<lambda>fd u. snd (snd (close_fd sc fd u))) fds t) = is_reserved t"
proof (induction fds arbitrary: t)
  case (Cons fd fds)
  note c = close_fd_spec [OF Cons.prems, of sc fd]
  from Cons.IH [OF c(2)] show ?case unfolding c(3,4) by (auto simp: fun_eq_iff)
qed simp

lemma cloexec_fds_iff: "fd \<in> set (cloexec_fds t) \<longleftrightarrow> (\<exists>d. try_get t fd = Some d \<and> cloexec d)"
  by (auto simp: cloexec_fds_def try_get_def split: option.splits)

section \<open>Well-formed tables\<close>

text \<open>
  Every descriptor refers to a status that exists, keeps only \<^verbatim>\<open>O_CLOEXEC\<close> itself, and every status
  keeps only the flags that \<^verbatim>\<open>F_GETFL\<close> may show.
\<close>

definition desc_ok :: "statuses \<Rightarrow> FileDescriptor \<Rightarrow> bool" where
  "desc_ok sts d \<longleftrightarrow> status d < length sts \<and> flags_within O_CLOEXEC (descriptor_flags d)"

definition tab_ok :: "statuses \<Rightarrow> FdTable \<Rightarrow> bool" where
  "tab_ok sts t \<longleftrightarrow> fd_ok t \<and> (\<forall>fd d. try_get t fd = Some d \<longrightarrow> desc_ok sts d) \<and>
     (\<forall>s \<in> set sts. flags_within getfl_visible_flags (os_flags s))"

lemma tab_okD: "tab_ok sts t \<Longrightarrow> fd_ok t" "tab_ok sts t \<Longrightarrow> try_get t fd = Some d \<Longrightarrow> desc_ok sts d"
  by (auto simp: tab_ok_def)

lemma tab_ok_change:
  assumes "tab_ok sts t" "fd_ok t'" "\<And>fd d. try_get t' fd = Some d \<Longrightarrow> try_get t fd = Some d \<or> desc_ok sts d"
  shows "tab_ok sts t'"
  using assms unfolding tab_ok_def by blast

lemma cloexec_ops [simp]:
  "cloexec (set_cloexec d)" "\<not> cloexec (unset_cloexec d)" "status (set_cloexec d) = status d" "status (unset_cloexec d) = status d"
  "fd_file (set_cloexec d) = fd_file d" "fd_file (unset_cloexec d) = fd_file d"
proof -
  have "(descriptor_flags d OR O_CLOEXEC) AND O_CLOEXEC = O_CLOEXEC" by (auto simp: bit_eq_iff bit_simps)
  then show "cloexec (set_cloexec d)" by (simp add: cloexec_def set_cloexec_def flags_insert_def flags_contain_def)
  have "(descriptor_flags d AND NOT O_CLOEXEC) AND O_CLOEXEC = 0" by (auto simp: bit_eq_iff bit_simps)
  then show "\<not> cloexec (unset_cloexec d)" by (simp add: cloexec_def unset_cloexec_def flags_remove_def flags_contain_def O_CLOEXEC_def)
qed (simp_all add: set_cloexec_def unset_cloexec_def)

lemma desc_ok_cloexec: "desc_ok sts d \<Longrightarrow> desc_ok sts (set_cloexec d)" "desc_ok sts d \<Longrightarrow> desc_ok sts (unset_cloexec d)"
proof -
  have "flags_within O_CLOEXEC O_CLOEXEC" by (simp add: flags_within_def)
  then show "desc_ok sts d \<Longrightarrow> desc_ok sts (set_cloexec d)" "desc_ok sts d \<Longrightarrow> desc_ok sts (unset_cloexec d)"
    by (auto simp: desc_ok_def set_cloexec_def unset_cloexec_def)
qed

lemma tab_ok_status:
  assumes "tab_ok sts t" "\<And>s. flags_within getfl_visible_flags (os_flags s) \<Longrightarrow> flags_within getfl_visible_flags (os_flags (f s))"
    "status d < length sts"
  shows "tab_ok (on_status f d sts) t"
proof -
  have "flags_within getfl_visible_flags (os_flags s)" if "s \<in> set (on_status f d sts)" for s
  proof -
    from that have "s \<in> set sts \<or> s = f (sts ! status d)" unfolding on_status_def using set_update_subset_insert by fastforce
    then show ?thesis using assms by (auto simp: tab_ok_def)
  qed
  then show ?thesis using assms(1) by (auto simp: tab_ok_def desc_ok_def on_status_def)
qed

lemma mutable_visible: "flags_within getfl_visible_flags mutable_flags" "flags_within getfl_visible_flags O_NONBLOCK"
  by (simp_all add: flags_within_def getfl_visible_flags_def mutable_flags_def O_ACCMODE_def O_APPEND_def O_NONBLOCK_def O_DSYNC_def
      O_SYNC_def O_RSYNC_def O_ASYNC_def O_DIRECT_def O_LARGEFILE_def O_NOATIME_def O_PATH_def)

lemma tab_ok_flag_ops:
  assumes "tab_ok sts t" "status d < length sts"
  shows "tab_ok (desc_set_status_flags flags d sts) t" "tab_ok (desc_set_nonblock d sts) t" "tab_ok (desc_unset_nonblock d sts) t"
    "tab_ok (set_file_rw_hint hint d sts) t"
proof -
  have "flags_within getfl_visible_flags (flags AND mutable_flags)"
    using flags_within_trans [OF flags_within_ops(1) mutable_visible(1)] .
  then show "tab_ok (desc_set_status_flags flags d sts) t" "tab_ok (desc_set_nonblock d sts) t" "tab_ok (desc_unset_nonblock d sts) t"
    "tab_ok (set_file_rw_hint hint d sts) t"
    unfolding desc_set_status_flags_def desc_set_nonblock_def desc_unset_nonblock_def set_file_rw_hint_def
    using mutable_visible(2) by (auto intro!: tab_ok_status [OF assms(1) _ assms(2)] flags_within_ops)
qed

lemma tab_ok_new:
  assumes "tab_ok sts t" "FileDescriptor_new flags f sts = (d, sts')"
  shows "tab_ok sts' t" "desc_ok sts' d"
proof -
  have d: "d = \<lparr>descriptor_flags = flags AND O_CLOEXEC, status = length sts, fd_file = f\<rparr>"
      "sts' = sts @ [\<lparr>os_flags = flags AND getfl_visible_flags, os_rw_hint = 0\<rparr>]"
    using assms(2) by (auto simp: FileDescriptor_new_def)
  have "desc_ok sts' e" if "desc_ok sts e" for e using that by (simp add: desc_ok_def d(2))
  then show "tab_ok sts' t" using assms(1) flags_within_ops(1) [of getfl_visible_flags flags] unfolding tab_ok_def d(2) by auto
  show "desc_ok sts' d" using flags_within_ops(1) [of O_CLOEXEC flags] by (simp add: desc_ok_def d)
qed

section \<open>Allocations in flight\<close>

text \<open>
  Threads that share a table reserve slots and install descriptors later, outside the lock.
  \<open>pending\<close> are the reserved slots whose installation is still to come.  \<^verbatim>\<open>dup3\<close> installs into any
  slot, and resizing or clearing the table drops slots; \<open>lost\<close> are the pending numbers this happened to.
\<close>

type_synonym fd_state = "FdTable \<times> nat list \<times> nat set"

inductive fd_step :: "fd_state \<Rightarrow> fd_state \<Rightarrow> bool" where
  reserve: "alloc_fd t = (Inr fd, t') \<Longrightarrow> fd_step (t, pending, lost) (t', fd # pending, lost)"
| reserve_from: "alloc_fd_larger_than arg t = (Inr fd, t') \<Longrightarrow> fd_step (t, pending, lost) (t', fd # pending, lost)"
| refused: "alloc_fd_larger_than arg t = (Inl e, t') \<Longrightarrow> fd_step (t, pending, lost) (t', pending, lost)"
| commit: "fd \<in> set pending \<Longrightarrow> set_fd sc fd d t = (Inr (), sock, t') \<Longrightarrow>
    fd_step (t, pending, lost) (t', remove1 fd pending, lost \<inter> set (remove1 fd pending))"
| give_up: "fd \<in> set pending \<Longrightarrow> take_fd fd t = (old, t') \<Longrightarrow>
    fd_step (t, pending, lost) (t', remove1 fd pending, lost \<inter> set (remove1 fd pending))"
| install: "set_fd sc fd d t = (Inr (), sock, t') \<Longrightarrow>
    fd_step (t, pending, lost) (t', pending, lost \<union> ({fd} \<inter> set pending))"
| close: "close_fd sc fd t = (old, sock, t') \<Longrightarrow> fd_step (t, pending, lost) (t', pending, lost)"
| mark: "tab_set_cloexec fd t = (r, t') \<or> tab_unset_cloexec fd t = (r, t') \<Longrightarrow> fd_step (t, pending, lost) (t', pending, lost)"
| resize: "resize n t = (Inr (), t') \<Longrightarrow> fd_step (t, pending, lost) (t', pending, lost \<union> ({n..} \<inter> set pending))"
| clear: "fd_step (t, pending, lost) (clear t, pending, set pending)"
| limits: "fd_step (t, pending, lost) (set_limit soft hard t, pending, lost)"

inductive fd_reachable :: "fd_state \<Rightarrow> bool" where
  start: "fd_ok t \<Longrightarrow> (\<And>fd. \<not> is_reserved t fd) \<Longrightarrow> fd_reachable (t, [], {})"
| later: "fd_reachable s \<Longrightarrow> fd_step s s' \<Longrightarrow> fd_reachable s'"

text \<open>A reserved slot is pending; a pending number that was not lost is reserved, for one thread.\<close>

definition pending_ok :: "fd_state \<Rightarrow> bool" where
  "pending_ok = (\<lambda>(t, pending, lost). fd_ok t \<and> lost \<subseteq> set pending \<and> (\<forall>fd. is_reserved t fd \<longrightarrow> fd \<in> set pending) \<and>
     (\<forall>fd. fd \<in> set pending \<and> fd \<notin> lost \<longrightarrow> is_reserved t fd \<and> count_list pending fd = 1))"

lemma pending_okI:
  assumes "fd_ok t" "lost \<subseteq> set pending" "\<And>fd. is_reserved t fd \<Longrightarrow> fd \<in> set pending"
    "\<And>fd. fd \<in> set pending \<Longrightarrow> fd \<notin> lost \<Longrightarrow> is_reserved t fd \<and> count_list pending fd = 1"
  shows "pending_ok (t, pending, lost)"
  using assms by (simp add: pending_ok_def)

lemma pending_okD:
  assumes "pending_ok (t, pending, lost)"
  shows "fd_ok t" "lost \<subseteq> set pending" "is_reserved t fd \<Longrightarrow> fd \<in> set pending"
    "fd \<in> set pending \<Longrightarrow> fd \<notin> lost \<Longrightarrow> is_reserved t fd \<and> count_list pending fd = 1"
  using assms by (auto simp: pending_ok_def)

lemma count_list_remove1: "count_list (remove1 x xs) y = count_list xs y - (if x = y then 1 else 0)"
proof (induction xs)
  case (Cons a xs)
  have "x \<in> set xs \<Longrightarrow> 0 < count_list xs x" using count_list_0_iff [of xs x] by auto
  then show ?case using Cons by auto
qed simp

lemma pending_reserve:
  assumes ok: "pending_ok (t, pending, lost)" and r: "reserves fd t t'" and f: "free_slot t fd"
  shows "pending_ok (t', fd # pending, lost)"
proof -
  note P = pending_okD [OF ok]
  have new: "fd \<in> lost \<or> fd \<notin> set pending" using P(4) [of fd] f by (auto simp: free_slot_def)
  have "is_reserved t' j \<longleftrightarrow> j = fd \<or> is_reserved t j" for j using r by (auto simp: reserves_def)
  moreover have "count_list pending fd = 0" if "fd \<notin> lost" using new that by (simp add: count_list_0_iff)
  ultimately show ?thesis using r P(2,3,4) by (intro pending_okI) (auto simp: reserves_def)
qed

text \<open>Giving a number back, by installing or by giving up\<close>

lemma pending_release:
  assumes ok: "pending_ok (t, pending, lost)" and fd: "fd_ok t'" "is_reserved t' = (is_reserved t)(fd := False)"
  shows "pending_ok (t', remove1 fd pending, lost \<inter> set (remove1 fd pending))"
proof -
  note P = pending_okD [OF ok]
  have once: "fd \<notin> set (remove1 fd pending)" if "fd \<in> set pending" "fd \<notin> lost"
    using P(4) [OF that] count_list_remove1 [of fd pending fd] count_list_0_iff [of "remove1 fd pending" fd] by simp
  show ?thesis
  proof (rule pending_okI)
    fix j
    assume "is_reserved t' j"
    then have "j \<noteq> fd" "j \<in> set pending" using fd(2) P(3) by (auto split: if_splits)
    then show "j \<in> set (remove1 fd pending)" by simp
  next
    fix j
    assume j: "j \<in> set (remove1 fd pending)" "j \<notin> lost \<inter> set (remove1 fd pending)"
    then have k: "j \<in> set pending" "j \<notin> lost" using set_remove1_subset [of fd pending] by auto
    then have "j \<noteq> fd" using once j(1) by blast
    then show "is_reserved t' j \<and> count_list (remove1 fd pending) j = 1"
      using P(4) [OF k] by (simp add: fd(2) count_list_remove1)
  qed (use fd(1) in auto)
qed

lemma resize_spec:
  assumes ok: "fd_ok t" and r: "resize n t = (Inr (), t')"
  shows "fd_ok t'" "is_reserved t' j \<longleftrightarrow> is_reserved t j \<and> j < n"
proof -
  have t': "t' = t\<lparr>files := vec_resize n None (files t), reserved := vec_resize n False (reserved t)\<rparr>"
    using r by (auto simp: resize_def split: if_splits)
  show g: "is_reserved t' j \<longleftrightarrow> is_reserved t j \<and> j < n" for j
    by (auto simp: t' is_reserved_def nth_vec_resize split: if_splits)
  have "try_get t' j = (if j < n then try_get t j else None)" for j
    by (auto simp: t' try_get_def nth_vec_resize)
  then show "fd_ok t'" using ok g unfolding fd_ok_def by (auto simp: t')
qed

lemma mark_spec:
  assumes ok: "fd_ok t" and m: "tab_set_cloexec fd t = (r, t') \<or> tab_unset_cloexec fd t = (r, t')"
  shows "fd_ok t'" "is_reserved t' = is_reserved t"
proof -
  obtain f where t': "t' = t \<or> try_get t fd \<noteq> None \<and> t' = t\<lparr>files := (files t)[fd := Some f]\<rparr>"
    using m by (auto simp: tab_set_cloexec_def tab_unset_cloexec_def split: option.splits)
  then show "is_reserved t' = is_reserved t" by (auto simp: is_reserved_def fun_eq_iff)
  show "fd_ok t'" using t' ok by (auto simp: fd_ok_def is_reserved_def try_get_def nth_list_update split: if_splits)
qed

lemma pending_step: "fd_step s s' \<Longrightarrow> pending_ok s \<Longrightarrow> pending_ok s'"
proof (induction rule: fd_step.induct)
  case (reserve t fd t' pending lost)
  from alloc_fd_spec [OF pending_okD(1) [OF reserve.prems] reserve.hyps] show ?case by (auto intro: pending_reserve [OF reserve.prems])
next
  case (reserve_from arg t fd t' pending lost)
  from alloc_fd_larger_spec [OF pending_okD(1) [OF reserve_from.prems] reserve_from.hyps] show ?case
    by (auto intro: pending_reserve [OF reserve_from.prems])
next
  case (refused arg t e t' pending lost)
  from alloc_fd_larger_spec [OF pending_okD(1) [OF refused.prems] refused.hyps] refused.prems show ?case by (auto simp: pending_ok_def)
next
  case (commit fd pending sc d t sock t' lost)
  from set_fd_spec [OF pending_okD(1) [OF commit.prems], where sc = sc and fd = fd and d = d] commit.hyps(2)
  show ?case by (intro pending_release [OF commit.prems]) auto
next
  case (give_up fd pending t old t' lost)
  from take_fd_spec [OF pending_okD(1) [OF give_up.prems], of fd] give_up.hyps(2)
  show ?case by (intro pending_release [OF give_up.prems]) auto
next
  case (install sc fd d t sock t' pending lost)
  note P = pending_okD [OF install.prems]
  from set_fd_spec [OF P(1), where sc = sc and fd = fd and d = d] install.hyps
  have "fd_ok t'" "is_reserved t' = (is_reserved t)(fd := False)" by auto
  with P(2-) show ?case by (intro pending_okI) (auto split: if_splits)
next
  case (close sc fd t old sock t' pending lost)
  from close_fd_spec [OF pending_okD(1) [OF close.prems], of sc fd] close.hyps close.prems show ?case by (simp add: pending_ok_def)
next
  case (mark fd t r t' pending lost)
  from mark_spec [OF pending_okD(1) [OF mark.prems] mark.hyps] mark.prems show ?case by (simp add: pending_ok_def)
next
  case (resize n t t' pending lost)
  note P = pending_okD [OF resize.prems]
  from resize_spec [OF P(1) resize.hyps] P(2-) show ?case by (intro pending_okI) auto
next
  case (clear t pending lost)
  show ?case by (intro pending_okI) (auto simp: clear_def fd_ok_def is_reserved_def)
next
  case (limits t pending lost soft hard)
  have "try_get (set_limit soft hard t) = try_get t" "is_reserved (set_limit soft hard t) = is_reserved t"
    by (simp_all add: try_get_def is_reserved_def set_limit_def fun_eq_iff)
  with limits show ?case by (simp add: pending_ok_def fd_ok_def) (simp add: set_limit_def)
qed

lemma pending_reachable: "fd_reachable s \<Longrightarrow> pending_ok s"
proof (induction rule: fd_reachable.induct)
  case (start t)
  then show ?case by (intro pending_okI) auto
qed (rule pending_step)

text \<open>
  C10.  A reserved descriptor number belongs to one thread until someone writes over it.  However the
  operations on a shared table interleave, take a number that a thread has reserved and not yet
  installed, and over which meanwhile nobody installed (as \<^verbatim>\<open>dup3\<close> does without looking at reservations)
  and which no resizing and no clearing of the table dropped.  Then no other thread has the number
  reserved, its slot is closed, no allocation returns it, and its installation succeeds even if the
  soft limit has dropped below it.  No slot stays reserved when no reservation of it is pending.
\<close>

theorem reserved_fd_belongs_to_one_thread:
  assumes "fd_reachable (t, pending, lost)"
  shows "(\<forall>fd. fd \<in> set pending \<and> fd \<notin> lost \<longrightarrow> count_list pending fd = 1 \<and> try_get t fd = None \<and>
      fst (alloc_fd t) \<noteq> Inr fd \<and> fst (alloc_fd_larger_than arg t) \<noteq> Inr fd \<and> fst (set_fd sc fd d t) = Inr ()) \<and>
    (\<forall>fd. is_reserved t fd \<longrightarrow> fd \<in> set pending)"
proof -
  note P = pending_okD [OF pending_reachable [OF assms]]
  have "count_list pending fd = 1 \<and> try_get t fd = None \<and> fst (alloc_fd t) \<noteq> Inr fd \<and>
      fst (alloc_fd_larger_than arg t) \<noteq> Inr fd \<and> fst (set_fd sc fd d t) = Inr ()" if fd: "fd \<in> set pending" "fd \<notin> lost" for fd
  proof -
    have r: "is_reserved t fd" "count_list pending fd = 1" using P(4) [OF fd] by auto
    have "fst (alloc_fd t) \<noteq> Inr fd"
      using alloc_fd_spec [OF P(1)] r(1) by (cases "alloc_fd t") (auto simp: free_slot_def)
    moreover have "fst (alloc_fd_larger_than arg t) \<noteq> Inr fd"
      using alloc_fd_larger_spec [OF P(1), of arg] r(1) by (cases "alloc_fd_larger_than arg t") (auto simp: free_slot_def)
    moreover have "fst (set_fd sc fd d t) = Inr ()"
      using set_fd_spec [OF P(1), where sc = sc and fd = fd and d = d] r(1) by (cases "set_fd sc fd d t") (auto split: sum.splits)
    ultimately show ?thesis using r P(1) by (auto simp: fd_ok_def)
  qed
  then show ?thesis using P(3) by blast
qed

text \<open>Two numbers are pending; \<^verbatim>\<open>dup3\<close> takes the first, and the soft limit drops below the second.\<close>

theorem reserved_fd_belongs_to_one_thread_witness:
  "\<exists>t. fd_reachable (t, [1, 0], {0}) \<and> soft_limit t = 1 \<and> try_get t 0 \<noteq> None \<and> try_get t 1 = None \<and>
     fst (alloc_fd t) \<noteq> Inr 1 \<and> fst (set_fd (\<lambda>s. 0) 1 \<lparr>descriptor_flags = 0, status = 0, fd_file = Abs 0\<rparr> t) = Inr ()"
proof -
  let ?d = "\<lparr>descriptor_flags = 0, status = 0, fd_file = Abs 0\<rparr>"
  let ?t1 = "FdTable_empty\<lparr>files := [None], reserved := [True]\<rparr>"
  let ?t2 = "FdTable_empty\<lparr>files := [None, None], reserved := [True, True]\<rparr>"
  let ?t3 = "FdTable_empty\<lparr>files := [Some ?d, None], reserved := [False, True]\<rparr>"
  have r0: "fd_reachable (FdTable_empty, [], {})"
    by (rule fd_reachable.start) (auto simp: fd_ok_def is_reserved_def FdTable_empty_def)
  have "alloc_fd FdTable_empty = (Inr 0, ?t1)" by (simp add: alloc_fd_def push_reserved_def FdTable_empty_def)
  from fd_reachable.later [OF r0 fd_step.reserve [OF this]] have r1: "fd_reachable (?t1, [0], {})" .
  have "alloc_fd ?t1 = (Inr 1, ?t2)" by (simp add: alloc_fd_def push_reserved_def FdTable_empty_def vacant_def)
  from fd_reachable.later [OF r1 fd_step.reserve [OF this]] have r2: "fd_reachable (?t2, [1, 0], {})" .
  have "set_fd (\<lambda>s. 0) 0 ?d ?t2 = (Inr (), None, ?t3)" by (simp add: set_fd_def FdTable_empty_def)
  from fd_reachable.later [OF r2 fd_step.install [OF this]] have r3: "fd_reachable (?t3, [1, 0], {0})" by simp
  have r4: "fd_reachable (set_limit 1 1 ?t3, [1, 0], {0})" by (rule fd_reachable.later [OF r3 fd_step.limits])
  have one: "1 \<in> set [1, 0 :: nat] \<and> 1 \<notin> {0 :: nat}" by simp
  note T = reserved_fd_belongs_to_one_thread [OF r4, THEN conjunct1, rule_format, OF one]
  have "soft_limit (set_limit 1 1 ?t3) = 1" "try_get (set_limit 1 1 ?t3) 0 \<noteq> None" by (simp_all add: set_limit_def try_get_def)
  with r4 T [of undefined "\<lambda>s. 0" ?d] show ?thesis by blast
qed

end
