(* ===== verification/Lock_Contract.thy ===== *)
theory Lock_Contract
  imports Prelude
begin

text \<open>
  What the programs that use one of the kernel's three advisory lock tables (record locks,
  whole-file locks, leases) rely on: conflicting holders exclude each other, a granted request
  is held, requests and releases of one owner do not touch what others hold.  The locale
  derives the guarantee an owner wants, that an exclusive lock stays exclusive until the owner
  itself acts, from these laws; each table interprets it.
\<close>

datatype ('q, 'x) lock_op = Acquire 'q | Release 'x

primrec lock_apply :: "('q \<Rightarrow> 's \<Rightarrow> bool \<times> 's) \<Rightarrow> ('x \<Rightarrow> 's \<Rightarrow> 's) \<Rightarrow> ('q, 'x) lock_op \<Rightarrow> 's \<Rightarrow> 's" where
  "lock_apply acq rel (Acquire q) s = snd (acq q s)"
| "lock_apply acq rel (Release x) s = rel x s"

primrec lock_actor :: "('q \<Rightarrow> 'p) \<Rightarrow> ('x \<Rightarrow> 'p) \<Rightarrow> ('q, 'x) lock_op \<Rightarrow> 'p" where
  "lock_actor rq rl (Acquire q) = rq q"
| "lock_actor rq rl (Release x) = rl x"

locale advisory_locks =
  fixes ok :: "'s \<Rightarrow> bool"
    and holds :: "'s \<Rightarrow> 'r \<Rightarrow> 'p \<Rightarrow> bool \<Rightarrow> bool"
    and acquire :: "'q \<Rightarrow> 's \<Rightarrow> bool \<times> 's"
    and release :: "'x \<Rightarrow> 's \<Rightarrow> 's"
    and requester :: "'q \<Rightarrow> 'p"
    and covers :: "'q \<Rightarrow> 'r \<Rightarrow> bool"
    and exclusive :: "'q \<Rightarrow> bool"
    and releaser :: "'x \<Rightarrow> 'p"
    and scope :: "'x \<Rightarrow> 'r \<Rightarrow> bool"
  assumes exclusion: "ok s \<Longrightarrow> holds s r p True \<Longrightarrow> holds s r p' e \<Longrightarrow> p' = p"
    and acquire_ok: "ok s \<Longrightarrow> ok (snd (acquire q s))"
    and release_ok: "ok s \<Longrightarrow> ok (release x s)"
    and acquired: "ok s \<Longrightarrow> fst (acquire q s) \<Longrightarrow> covers q r \<Longrightarrow>
      holds (snd (acquire q s)) r (requester q) (exclusive q)"
    and acquire_frame: "ok s \<Longrightarrow> p \<noteq> requester q \<Longrightarrow> holds (snd (acquire q s)) r p e = holds s r p e"
    and release_holds: "ok s \<Longrightarrow>
      holds (release x s) r p e \<longleftrightarrow> holds s r p e \<and> \<not> (p = releaser x \<and> scope x r)"
begin

lemma run_ok: "ok s \<Longrightarrow> ok (fold (lock_apply acquire release) ops s)"
proof (induction ops arbitrary: s)
  case (Cons a ops)
  then show ?case by (cases a) (simp_all add: acquire_ok release_ok)
qed simp

lemma others_keep:
  "ok s \<Longrightarrow> \<forall>a \<in> set ops. lock_actor requester releaser a \<noteq> p \<Longrightarrow> holds (fold (lock_apply acquire release) ops s) r p e = holds s r p e"
proof (induction ops arbitrary: s)
  case (Cons a ops)
  then have "ok (lock_apply acquire release a s)" using run_ok [of s "[a]"] by simp
  moreover have "holds (lock_apply acquire release a s) r p e = holds s r p e"
    using Cons.prems by (cases a) (auto simp: acquire_frame release_holds)
  ultimately show ?case using Cons by simp
qed simp

lemma exclusive_until_owner_acts:
  assumes "ok s" and "fst (acquire q s)" and "covers q r" and "exclusive q"
    and "\<forall>a \<in> set ops. lock_actor requester releaser a \<noteq> requester q"
  shows "holds (fold (lock_apply acquire release) ops (snd (acquire q s))) r p e \<longrightarrow> p = requester q"
    and "holds (fold (lock_apply acquire release) ops (snd (acquire q s))) r (requester q) True"
proof -
  let ?s = "snd (acquire q s)"
  have h: "holds ?s r (requester q) True" using acquired [OF assms(1-3)] assms(4) by simp
  show g: "holds (fold (lock_apply acquire release) ops ?s) r (requester q) True"
    using others_keep [OF acquire_ok [OF assms(1)] assms(5)] h by simp
  show "holds (fold (lock_apply acquire release) ops ?s) r p e \<longrightarrow> p = requester q"
    using exclusion [OF run_ok [OF acquire_ok [OF assms(1)]] g] by blast
qed

lemma shared_excludes_writers:
  assumes "ok s" and "fst (acquire q s)" and "covers q r"
    and "\<forall>a \<in> set ops. lock_actor requester releaser a \<noteq> requester q" and "p \<noteq> requester q"
  shows "\<not> holds (fold (lock_apply acquire release) ops (snd (acquire q s))) r p True"
proof
  assume h: "holds (fold (lock_apply acquire release) ops (snd (acquire q s))) r p True"
  have "holds (fold (lock_apply acquire release) ops (snd (acquire q s))) r (requester q) (exclusive q)"
    using others_keep [OF acquire_ok [OF assms(1)] assms(4)] acquired [OF assms(1-3)] by simp
  with exclusion [OF run_ok [OF acquire_ok [OF assms(1)]] h] assms(5) show False by blast
qed

end

end
