(* ===== verification/Posix_Locks.thy ===== *)
theory Posix_Locks
  imports BTree_Map Blocking Bytes Lock_Contract
    "HOL-Library.Product_Lexorder" "HOL-Library.List_Lexorder" "HOL-Library.Char_ord"
begin

text \<open>
  \<^verbatim>\<open>os/src/syscall/fs/file_lock/posix.rs\<close> and \<^verbatim>\<open>types.rs\<close>: the byte-range
  record locks of \<^verbatim>\<open>fcntl\<close>, with the wait-for graph of F_SETLKW and the blocking
  loop of \<^verbatim>\<open>os/src/syscall/fs/fcntl.rs\<close>.  The table is read through the
  question which owner holds which type of lock at which byte; the lemmas show that setting,
  converting, splitting, merging and releasing locks answer it as the manual page says.
\<close>

section \<open>The user structure\<close>

record Flock =
  fl_type :: int
  fl_whence :: int
  fl_start :: int
  fl_len :: int
  fl_pid :: int

definition Flock_from_bytes :: "byte list \<Rightarrow> Flock option" where
  "Flock_from_bytes bs =
     (if length bs < 28 then None
      else Some \<lparr>fl_type = le_sint (take 2 bs),
                 fl_whence = le_sint (take 2 (drop 2 bs)),
                 fl_start = le_sint (take 8 (drop 8 bs)),
                 fl_len = le_sint (take 8 (drop 16 bs)),
                 fl_pid = le_sint (take 4 (drop 24 bs))\<rparr>)"

definition Flock_to_bytes :: "Flock \<Rightarrow> byte list" where
  "Flock_to_bytes fl =
     le_bytes 2 (fl_type fl) @ le_bytes 2 (fl_whence fl) @ replicate 4 0 @
     le_bytes 8 (fl_start fl) @ le_bytes 8 (fl_len fl) @
     le_bytes 4 (fl_pid fl) @ le_bytes 4 (fl_pid fl)"

definition flock_fits :: "Flock \<Rightarrow> bool" where
  "flock_fits fl \<longleftrightarrow> fits_signed 2 (fl_type fl) \<and> fits_signed 2 (fl_whence fl) \<and>
     fits_signed 8 (fl_start fl) \<and> fits_signed 8 (fl_len fl) \<and> fits_signed 4 (fl_pid fl)"

section \<open>The lock table\<close>

definition F_RDLCK :: int where "F_RDLCK = 0"
definition F_WRLCK :: int where "F_WRLCK = 1"
definition F_UNLCK :: int where "F_UNLCK = 2"
definition SEEK_SET :: int where "SEEK_SET = 0"
definition SEEK_CUR :: int where "SEEK_CUR = 1"
definition SEEK_END :: int where "SEEK_END = 2"

lemmas fcntl_consts = F_RDLCK_def F_WRLCK_def F_UNLCK_def SEEK_SET_def SEEK_CUR_def SEEK_END_def

record PosixLock =
  l_type :: int
  l_start :: int
  l_end :: int
  l_pid :: int

record posix_locks =
  FILE_LOCKS :: "(string, PosixLock list) btree_map"
  POSIX_LOCK_WAITERS :: "(string, atomic_waker) btree_map"
  POSIX_LOCK_WAITS :: "(int, int list) btree_map"

definition flock_base :: "Flock \<Rightarrow> int \<Rightarrow> int \<Rightarrow> int sys_result" where
  "flock_base fl file_size current_offset =
     (if fl_whence fl = SEEK_SET then Inr (fl_start fl)
      else if fl_whence fl = SEEK_CUR then Inr (saturating_add_i64 current_offset (fl_start fl))
      else if fl_whence fl = SEEK_END then Inr (saturating_add_i64 file_size (fl_start fl))
      else Inl EINVAL)"

definition to_absolute :: "Flock \<Rightarrow> int \<Rightarrow> int \<Rightarrow> (int \<times> int) sys_result" where
  "to_absolute fl file_size current_offset =
     (case flock_base fl file_size current_offset of
        Inl e \<Rightarrow> Inl e
      | Inr start \<Rightarrow>
           if start < 0 then Inl EINVAL
           else if fl_len fl = 0 then Inr (start, i64_max)
           else if fl_len fl < 0 then
             (let lock_start = saturating_add_i64 (saturating_add_i64 start (fl_len fl)) 1
              in if lock_start < 0 then Inl EINVAL else Inr (lock_start, start))
           else Inr (start, saturating_sub_i64 (saturating_add_i64 start (fl_len fl)) 1))"

definition ranges_overlap :: "int \<Rightarrow> int \<Rightarrow> int \<Rightarrow> int \<Rightarrow> bool" where
  "ranges_overlap start1 end1 start2 end2 \<longleftrightarrow> start1 \<le> end2 \<and> start2 \<le> end1"

definition ranges_touch_or_overlap :: "int \<Rightarrow> int \<Rightarrow> int \<Rightarrow> int \<Rightarrow> bool" where
  "ranges_touch_or_overlap start1 end1 start2 end2 \<longleftrightarrow>
     start1 \<le> saturating_add_i64 end2 1 \<and> start2 \<le> saturating_add_i64 end1 1"

definition locks_conflict :: "PosixLock \<Rightarrow> PosixLock \<Rightarrow> bool" where
  "locks_conflict l1 l2 =
     (if l_type l1 = F_RDLCK \<and> l_type l2 = F_RDLCK then False
      else l_start l1 \<le> l_end l2 \<and> l_start l2 \<le> l_end l1)"

text \<open>The parameter \<open>out\<close> is the vector the pieces are pushed to.\<close>

definition split_owned_lock :: "PosixLock \<Rightarrow> int \<Rightarrow> int \<Rightarrow> PosixLock list \<Rightarrow> PosixLock list" where
  "split_owned_lock existing start fin out =
     (let out1 = (if l_start existing < start
                  then out @ [existing\<lparr>l_end := saturating_sub_i64 start 1\<rparr>] else out)
      in if fin \<noteq> i64_max \<and> l_end existing > fin
         then out1 @ [existing\<lparr>l_start := saturating_add_i64 fin 1\<rparr>] else out1)"

definition cut_owned :: "int \<Rightarrow> int \<Rightarrow> int \<Rightarrow> PosixLock \<Rightarrow> PosixLock list \<Rightarrow> PosixLock list" where
  "cut_owned owner_pid start fin existing out =
     (if l_pid existing = owner_pid \<and> ranges_overlap (l_start existing) (l_end existing) start fin
      then split_owned_lock existing start fin out else out @ [existing])"

definition merge_push :: "PosixLock \<Rightarrow> PosixLock list \<Rightarrow> PosixLock list" where
  "merge_push lock merged =
     (if merged \<noteq> [] \<and> l_pid (last merged) = l_pid lock \<and> l_type (last merged) = l_type lock \<and>
         ranges_touch_or_overlap (l_start (last merged)) (l_end (last merged)) (l_start lock) (l_end lock)
      then butlast merged @ [(last merged)\<lparr>l_end := max (l_end (last merged)) (l_end lock)\<rparr>]
      else merged @ [lock])"

definition normalize_locks :: "PosixLock list \<Rightarrow> PosixLock list" where
  "normalize_locks locks =
     fold merge_push (sort_key (\<lambda>l. (l_start l, l_end l, l_pid l, l_type l)) locks) []"

fun conflicting_owners_locked :: "PosixLock list \<Rightarrow> PosixLock \<Rightarrow> int list \<Rightarrow> int list" where
  "conflicting_owners_locked [] new_lock owners = owners"
| "conflicting_owners_locked (existing # entry) new_lock owners =
     (if l_pid existing \<noteq> l_pid new_lock \<and> locks_conflict existing new_lock \<and> l_pid existing \<notin> set owners
      then conflicting_owners_locked entry new_lock (owners @ [l_pid existing])
      else conflicting_owners_locked entry new_lock owners)"

definition conflicting_owners :: "posix_locks \<Rightarrow> string \<Rightarrow> Flock \<Rightarrow> int \<Rightarrow> int \<Rightarrow> int \<Rightarrow> int list" where
  "conflicting_owners s path fl file_size current_offset owner_pid =
     (if fl_type fl = F_UNLCK then []
      else case to_absolute fl file_size current_offset of
             Inl _ \<Rightarrow> []
           | Inr (start, fin) \<Rightarrow>
               (case bt_get (FILE_LOCKS s) path of
                  None \<Rightarrow> []
                | Some entry \<Rightarrow> conflicting_owners_locked entry
                    \<lparr>l_type = fl_type fl, l_start = start, l_end = fin, l_pid = owner_pid\<rparr> []))"

section \<open>The wait-for graph\<close>

text \<open>
  The depth-first search shares one \<open>visited\<close> vector between all branches; the second
  component of the result is that vector afterwards.
\<close>

function (sequential)
  wait_path_reaches :: "(int, int list) btree_map \<Rightarrow> int \<Rightarrow> int \<Rightarrow> int list \<Rightarrow> bool \<times> int list" and
  any_path_reaches :: "(int, int list) btree_map \<Rightarrow> int list \<Rightarrow> int \<Rightarrow> int list \<Rightarrow> bool \<times> int list" where
  "wait_path_reaches graph current target visited =
     (if current = target then (True, visited)
      else if current \<in> set visited then (False, visited)
      else case bt_get graph current of
             None \<Rightarrow> (False, visited @ [current])
           | Some nxt \<Rightarrow> any_path_reaches graph nxt target (visited @ [current]))"
| "any_path_reaches graph [] target visited = (False, visited)"
| "any_path_reaches graph (pid # pids) target visited =
     (case wait_path_reaches graph pid target visited of
        (True, visited1) \<Rightarrow> (True, visited1)
      | (False, visited1) \<Rightarrow> any_path_reaches graph pids target visited1)"
  by pat_completeness auto

termination
proof (relation "measures [
    \<lambda>x. case x of Inl (g, c, t, v) \<Rightarrow> card (fst ` set g - set v) | Inr (g, ps, t, v) \<Rightarrow> card (fst ` set g - set v),
    \<lambda>x. case x of Inl _ \<Rightarrow> 0 | Inr (g, ps, t, v) \<Rightarrow> Suc (length ps)]", goal_cases)
  case (2 graph current target visited nxt)
  then have "current \<in> fst ` set graph - set visited"
    by (metis DiffI map_of_SomeD fst_conv image_iff)
  then have "card (fst ` set graph - set (visited @ [current])) < card (fst ` set graph - set visited)"
    by (intro psubset_card_mono) auto
  then show ?case by simp
next
  case (4 graph pid pids target visited x visited1)
  have grows:
    "wait_path_reaches_any_path_reaches_dom (Inl (g, c, t, v)) \<Longrightarrow>
       set v \<subseteq> set (snd (wait_path_reaches g c t v))"
    "wait_path_reaches_any_path_reaches_dom (Inr (g, ps, t, v)) \<Longrightarrow>
       set v \<subseteq> set (snd (any_path_reaches g ps t v))" for g c t v ps
  proof (induction g c t v and g ps t v rule: wait_path_reaches_any_path_reaches.pinduct)
    case (1 graph current target visited)
    then show ?case
      by (auto simp: wait_path_reaches.psimps split: option.splits)
  next
    case (3 graph pid pids target visited)
    then show ?case
      by (cases "wait_path_reaches graph pid target visited")
         (auto simp: any_path_reaches.psimps split: bool.splits)
  qed (auto simp: any_path_reaches.psimps)
  from 4 have "set visited \<subseteq> set visited1"
    by (metis snd_conv grows(1))
  then have "card (fst ` set graph - set visited1) \<le> card (fst ` set graph - set visited)"
    by (intro card_mono) auto
  then show ?case by (auto simp: le_less)
qed simp_all

declare wait_path_reaches.simps [simp del]

definition would_deadlock :: "posix_locks \<Rightarrow> int \<Rightarrow> int list \<Rightarrow> bool" where
  "would_deadlock s owner_pid waiting_for =
     list_ex (\<lambda>pid. fst (wait_path_reaches (POSIX_LOCK_WAITS s) pid owner_pid [])) waiting_for"

definition record_wait :: "int \<Rightarrow> int list \<Rightarrow> posix_locks \<Rightarrow> posix_locks" where
  "record_wait owner_pid waiting_for s =
     (if waiting_for = [] then s\<lparr>POSIX_LOCK_WAITS := bt_remove owner_pid (POSIX_LOCK_WAITS s)\<rparr>
      else s\<lparr>POSIX_LOCK_WAITS := bt_insert owner_pid waiting_for (POSIX_LOCK_WAITS s)\<rparr>)"

definition clear_wait :: "int \<Rightarrow> posix_locks \<Rightarrow> posix_locks" where
  "clear_wait owner_pid s = s\<lparr>POSIX_LOCK_WAITS := bt_remove owner_pid (POSIX_LOCK_WAITS s)\<rparr>"

section \<open>Waiters\<close>

definition wake_posix_waiters :: "string \<Rightarrow> posix_locks \<Rightarrow> posix_locks \<times> waker list" where
  "wake_posix_waiters path s =
     (case bt_get (POSIX_LOCK_WAITERS s) path of
        None \<Rightarrow> (s, [])
      | Some slot \<Rightarrow>
          (let (slot', woken) = AtomicWaker_wake slot
           in (s\<lparr>POSIX_LOCK_WAITERS := bt_insert path slot' (POSIX_LOCK_WAITERS s)\<rparr>, woken)))"

definition register_posix_waker :: "string \<Rightarrow> waker \<Rightarrow> posix_locks \<Rightarrow> posix_locks" where
  "register_posix_waker path w s =
     (let waiters = bt_or_insert path None (POSIX_LOCK_WAITERS s)
      in s\<lparr>POSIX_LOCK_WAITERS := bt_alter path (AtomicWaker_register w) waiters\<rparr>)"

section \<open>Operations on the table\<close>

definition release_posix_locks :: "string \<Rightarrow> int \<Rightarrow> posix_locks \<Rightarrow> posix_locks \<times> waker list" where
  "release_posix_locks path owner_pid s =
     (let (s1, changed) =
        (case bt_get (FILE_LOCKS s) path of
           None \<Rightarrow> (s, False)
         | Some entry \<Rightarrow>
             (let entry' = filter (\<lambda>lock. l_pid lock \<noteq> owner_pid) entry;
                  changed = (length entry' \<noteq> length entry)
              in (s\<lparr>FILE_LOCKS := (if entry' = [] then bt_remove path (FILE_LOCKS s)
                                   else bt_insert path entry' (FILE_LOCKS s))\<rparr>, changed)));
          s2 = clear_wait owner_pid s1
      in if changed then wake_posix_waiters path s2 else (s2, []))"

fun wake_paths :: "string list \<Rightarrow> posix_locks \<Rightarrow> posix_locks \<times> waker list" where
  "wake_paths [] s = (s, [])"
| "wake_paths (path # paths) s =
     (let (s1, woken) = wake_posix_waiters path s; (s2, woken2) = wake_paths paths s1
      in (s2, woken @ woken2))"

definition release_posix_locks_by_owner :: "int \<Rightarrow> posix_locks \<Rightarrow> posix_locks \<times> waker list" where
  "release_posix_locks_by_owner owner_pid s =
     (let retained = map (\<lambda>(path, entry). (path, filter (\<lambda>lock. l_pid lock \<noteq> owner_pid) entry)) (FILE_LOCKS s);
          changed_paths = map fst (filter (\<lambda>(path, entry).
            length (filter (\<lambda>lock. l_pid lock \<noteq> owner_pid) entry) \<noteq> length entry) (FILE_LOCKS s));
          s1 = s\<lparr>FILE_LOCKS := filter (\<lambda>e. snd e \<noteq> []) retained\<rparr>
      in wake_paths changed_paths (clear_wait owner_pid s1))"

definition setlk ::
  "string \<Rightarrow> Flock \<Rightarrow> int \<Rightarrow> int \<Rightarrow> int \<Rightarrow> posix_locks \<Rightarrow> syscall_ret \<times> posix_locks \<times> waker list" where
  "setlk path fl file_size current_offset owner_pid s =
     (if fl_type fl \<noteq> F_RDLCK \<and> fl_type fl \<noteq> F_WRLCK \<and> fl_type fl \<noteq> F_UNLCK then (Inl EINVAL, s, [])
      else case to_absolute fl file_size current_offset of
        Inl e \<Rightarrow> (Inl e, s, [])
      | Inr (start, fin) \<Rightarrow>
          (let new_lock = \<lparr>l_type = fl_type fl, l_start = start, l_end = fin, l_pid = owner_pid\<rparr>;
               locks = bt_or_insert path [] (FILE_LOCKS s);
               entry = the (bt_get locks path)
           in if fl_type fl \<noteq> F_UNLCK \<and>
                 list_ex (\<lambda>existing. l_pid existing \<noteq> owner_pid \<and> locks_conflict existing new_lock) entry
              then (Inl EAGAIN, s\<lparr>FILE_LOCKS := locks\<rparr>, [])
              else
                (let updated = fold (cut_owned owner_pid start fin) entry [];
                     entry' = normalize_locks (if fl_type fl \<noteq> F_UNLCK then updated @ [new_lock] else updated);
                     (s1, woken) = wake_posix_waiters path (s\<lparr>FILE_LOCKS := bt_insert path entry' locks\<rparr>)
                 in (Inr 0, s1, woken))))"

definition getlk ::
  "posix_locks \<Rightarrow> string \<Rightarrow> Flock \<Rightarrow> int \<Rightarrow> int \<Rightarrow> int \<Rightarrow> syscall_ret \<times> Flock" where
  "getlk s path fl file_size current_offset owner_pid =
     (if fl_type fl \<noteq> F_RDLCK \<and> fl_type fl \<noteq> F_WRLCK then (Inl EINVAL, fl)
      else case to_absolute fl file_size current_offset of
        Inl e \<Rightarrow> (Inl e, fl)
      | Inr (start, fin) \<Rightarrow>
          (let probe = \<lparr>l_type = fl_type fl, l_start = start, l_end = fin, l_pid = 0\<rparr>;
               conflict = (case bt_get (FILE_LOCKS s) path of
                 None \<Rightarrow> None
               | Some entry \<Rightarrow> min_by_key (\<lambda>l. (l_start l, l_end l))
                   (filter (\<lambda>existing. l_pid existing \<noteq> owner_pid \<and> locks_conflict existing probe) entry))
           in case conflict of
                Some existing \<Rightarrow>
                  (Inr 0, fl\<lparr>fl_type := l_type existing, fl_pid := l_pid existing,
                    fl_start := l_start existing,
                    fl_len := (if l_end existing = i64_max then 0 else l_end existing - l_start existing + 1),
                    fl_whence := SEEK_SET\<rparr>)
              | None \<Rightarrow> (Inr 0, fl\<lparr>fl_type := F_UNLCK\<rparr>)))"

section \<open>F_SETLK, F_GETLK and F_SETLKW\<close>

text \<open>
  The branches of \<^verbatim>\<open>sys_fcntl\<close>: \<open>bs\<close> are the bytes copied from the user
  structure, \<open>write_user\<close> is the outcome of copying the answer back.
\<close>

definition fcntl_setlk ::
  "string \<Rightarrow> byte list \<Rightarrow> int \<Rightarrow> int \<Rightarrow> int \<Rightarrow> posix_locks \<Rightarrow> syscall_ret \<times> posix_locks \<times> waker list" where
  "fcntl_setlk inode_path bs file_size current_offset owner_pid s =
     (case Flock_from_bytes bs of
        None \<Rightarrow> (Inl EINVAL, s, [])
      | Some flock \<Rightarrow>
          (case setlk inode_path flock file_size current_offset owner_pid s of
             (Inl e, s1, woken) \<Rightarrow> (Inl e, s1, woken)
           | (Inr _, s1, woken) \<Rightarrow> (Inr 0, s1, woken)))"

definition fcntl_getlk ::
  "posix_locks \<Rightarrow> string \<Rightarrow> byte list \<Rightarrow> int \<Rightarrow> int \<Rightarrow> int \<Rightarrow> (byte list \<Rightarrow> unit sys_result) \<Rightarrow> syscall_ret" where
  "fcntl_getlk s inode_path bs file_size current_offset owner_pid write_user =
     (case Flock_from_bytes bs of
        None \<Rightarrow> Inl EINVAL
      | Some flock \<Rightarrow>
          (case getlk s inode_path flock file_size current_offset owner_pid of
             (Inl e, _) \<Rightarrow> Inl e
           | (Inr _, flock1) \<Rightarrow>
               (case write_user (Flock_to_bytes flock1) of Inl e \<Rightarrow> Inl e | Inr _ \<Rightarrow> Inr 0)))"

text \<open>
  One poll of F_SETLKW is a sequence of critical sections, each under a lock of its own: the attempt,
  the search for the conflicting owners, the test for a deadlock, the recording of the wait, the
  registration of the waker, the second attempt, and the removal of the wait.  \<open>others i\<close> is what other
  tasks do to the tables before the section that follows gap \<open>i\<close>.
\<close>

definition setlk_blocking_poll ::
  "string \<Rightarrow> Flock \<Rightarrow> int \<Rightarrow> int \<Rightarrow> int \<Rightarrow> waker \<Rightarrow> (nat \<Rightarrow> posix_locks \<Rightarrow> posix_locks) \<Rightarrow> posix_locks \<Rightarrow>
   nat sys_result poll \<times> posix_locks \<times> waker list" where
  "setlk_blocking_poll path fl file_size current_offset owner_pid w others s =
     (case setlk path fl file_size current_offset owner_pid s of
        (Inr ret, s1, woken) \<Rightarrow> (Ready (Inr ret), clear_wait owner_pid (others 0 s1), woken)
      | (Inl err, s1, woken) \<Rightarrow>
          if err = EAGAIN then
            (let s2 = others 0 s1;
                 owners = conflicting_owners s2 path fl file_size current_offset owner_pid;
                 s3 = others 1 s2 in
             if would_deadlock s3 owner_pid owners
             then (Ready (Inl EDEADLK), clear_wait owner_pid (others 2 s3), woken)
             else
               (let s4 = record_wait owner_pid owners (others 2 s3);
                    s5 = register_posix_waker path w (others 3 s4) in
                case setlk path fl file_size current_offset owner_pid (others 4 s5) of
                  (Inr ret, s6, woken6) \<Rightarrow> (Ready (Inr ret), clear_wait owner_pid (others 5 s6), woken @ woken6)
                | (Inl err6, s6, woken6) \<Rightarrow>
                    if err6 = EAGAIN then (Pending, s6, woken @ woken6)
                    else (Ready (Inl err6), clear_wait owner_pid (others 5 s6), woken @ woken6)))
          else (Ready (Inl err), clear_wait owner_pid (others 0 s1), woken))"

text \<open>The whole call; \<open>others now\<close> are the gaps of the poll at the time \<open>now\<close>.\<close>

definition setlk_blocking ::
  "string \<Rightarrow> Flock \<Rightarrow> int \<Rightarrow> int \<Rightarrow> int \<Rightarrow> waker \<Rightarrow> (nat \<Rightarrow> nat \<Rightarrow> posix_locks \<Rightarrow> posix_locks) \<Rightarrow> posix_locks \<Rightarrow>
   posix_locks wait_event list \<Rightarrow> syscall_ret option \<times> posix_locks \<times> waker list" where
  "setlk_blocking path fl file_size current_offset owner_pid w others s evs =
     (case block_on_interruptible
             (\<lambda>now. setlk_blocking_poll path fl file_size current_offset owner_pid w (others now)) s evs of
        (None, s1, woken) \<Rightarrow> (None, s1, woken)
      | (Some r, s1, woken) \<Rightarrow> (Some r, clear_wait owner_pid s1, woken))"

section \<open>Which owner holds which byte\<close>

definition held :: "PosixLock list \<Rightarrow> int \<Rightarrow> int \<Rightarrow> int \<Rightarrow> bool" where
  "held ls p t b \<longleftrightarrow> (\<exists>l \<in> set ls. l_pid l = p \<and> l_type l = t \<and> l_start l \<le> b \<and> b \<le> l_end l)"

definition lock_wf :: "PosixLock \<Rightarrow> bool" where
  "lock_wf l \<longleftrightarrow> 0 \<le> l_start l \<and> is_i64 (l_start l) \<and> is_i64 (l_end l) \<and> l_type l \<in> {F_RDLCK, F_WRLCK}"

lemma held_Nil [simp]: "\<not> held [] p t b"
  by (simp add: held_def)

lemma held_append [simp]: "held (xs @ ys) p t b \<longleftrightarrow> held xs p t b \<or> held ys p t b"
  by (auto simp: held_def)

lemma held_Cons: "held (x # xs) p t b \<longleftrightarrow> held [x] p t b \<or> held xs p t b"
  by (auto simp: held_def)

lemma saturating_succ:
  "is_i64 x \<Longrightarrow> saturating_add_i64 x 1 = (if x = i64_max then i64_max else x + 1)"
  by (auto simp: saturating_add_i64_def clamp_i64_def is_i64_def i64_max_def i64_min_def)

lemma saturating_pred: "0 \<le> x \<Longrightarrow> is_i64 x \<Longrightarrow> saturating_sub_i64 x 1 = x - 1"
  by (auto simp: saturating_sub_i64_def clamp_i64_def is_i64_def i64_max_def i64_min_def)

lemma saturating_is_i64 [simp]:
  "is_i64 (saturating_add_i64 x y)" "is_i64 (saturating_sub_i64 x y)" "is_i64 i64_max"
  by (simp_all add: saturating_add_i64_def saturating_sub_i64_def)
     (simp add: is_i64_def i64_max_def i64_min_def)

lemma flock_base_range: "flock_base fl sz off = Inr start \<Longrightarrow> is_i64 (fl_start fl) \<Longrightarrow> is_i64 start"
  by (auto simp: flock_base_def split: if_splits)

lemma to_absolute_range:
  assumes "to_absolute fl sz off = Inr (a, b)" and "is_i64 (fl_start fl)"
  shows "0 \<le> a \<and> is_i64 a \<and> is_i64 b"
proof (cases "flock_base fl sz off")
  case (Inr start)
  with assms flock_base_range [OF Inr] show ?thesis
    by (auto simp: to_absolute_def Let_def split: if_splits)
qed (use assms in \<open>simp add: to_absolute_def\<close>)

section \<open>Merging and splitting keep what is held\<close>

lemma held_merge_push:
  assumes "lock_wf l" and "\<forall>x \<in> set m. lock_wf x" and "m \<noteq> [] \<Longrightarrow> l_start (last m) \<le> l_start l"
  shows "held (merge_push l m) p t b \<longleftrightarrow> held m p t b \<or> held [l] p t b"
proof (cases "merge_push l m = m @ [l]")
  case False
  then have ne: "m \<noteq> []" and same: "l_pid (last m) = l_pid l" "l_type (last m) = l_type l"
    and touch: "l_start l \<le> saturating_add_i64 (l_end (last m)) 1"
    and res: "merge_push l m = butlast m @ [(last m)\<lparr>l_end := max (l_end (last m)) (l_end l)\<rparr>]"
    by (auto simp: merge_push_def ranges_touch_or_overlap_def split: if_splits)
  have wf: "lock_wf (last m)" using assms(2) ne by simp
  then have touch': "l_start l \<le> l_end (last m) + 1"
    using touch assms(1)
    by (cases "l_end (last m) = i64_max") (auto simp: saturating_succ lock_wf_def is_i64_def)
  have "held [(last m)\<lparr>l_end := max (l_end (last m)) (l_end l)\<rparr>] p t b
    \<longleftrightarrow> held [last m] p t b \<or> held [l] p t b"
    using same touch' assms(3) [OF ne] by (auto simp: held_def)
  moreover have "held m p t b \<longleftrightarrow> held (butlast m) p t b \<or> held [last m] p t b"
    by (metis append_butlast_last_id held_append ne)
  ultimately show ?thesis using res by auto
qed simp

lemma merge_push_wf:
  assumes "lock_wf l" and "\<forall>x \<in> set m. lock_wf x"
  shows "\<forall>x \<in> set (merge_push l m). lock_wf x"
proof -
  have "lock_wf ((last m)\<lparr>l_end := max (l_end (last m)) (l_end l)\<rparr>)" if "m \<noteq> []"
    using that assms by (auto simp: lock_wf_def max_def)
  then show ?thesis
    using assms by (auto simp: merge_push_def dest: in_set_butlastD)
qed

lemma merge_push_last: "m = [] \<or> l_start (last m) \<le> l_start l \<Longrightarrow> l_start (last (merge_push l m)) \<le> l_start l"
  by (auto simp: merge_push_def)

lemma held_fold_merge:
  assumes "sorted (map l_start xs)" and "\<forall>x \<in> set xs. lock_wf x" and "\<forall>x \<in> set m. lock_wf x"
    and "m = [] \<or> (\<forall>x \<in> set xs. l_start (last m) \<le> l_start x)"
  shows "(\<forall>p t b. held (fold merge_push xs m) p t b \<longleftrightarrow> held m p t b \<or> held xs p t b)
    \<and> (\<forall>x \<in> set (fold merge_push xs m). lock_wf x)"
  using assms
proof (induction xs arbitrary: m)
  case (Cons x xs)
  have step: "held (merge_push x m) p t b \<longleftrightarrow> held m p t b \<or> held [x] p t b" for p t b
    using Cons.prems by (intro held_merge_push) auto
  have wf: "\<forall>y \<in> set (merge_push x m). lock_wf y" using Cons.prems by (intro merge_push_wf) auto
  have "l_start (last (merge_push x m)) \<le> l_start x" using Cons.prems(4) by (intro merge_push_last) auto
  then have "\<forall>y \<in> set xs. l_start (last (merge_push x m)) \<le> l_start y"
    using Cons.prems(1) by fastforce
  then have "(\<forall>p t b. held (fold merge_push xs (merge_push x m)) p t b \<longleftrightarrow>
      held (merge_push x m) p t b \<or> held xs p t b) \<and>
    (\<forall>y \<in> set (fold merge_push xs (merge_push x m)). lock_wf y)"
    using Cons.prems wf by (intro Cons.IH) auto
  with step show ?case by (auto simp: held_Cons [of x xs])
qed simp

lemma normalize_locks_held:
  assumes "\<forall>x \<in> set ls. lock_wf x"
  shows "held (normalize_locks ls) p t b = held ls p t b"
    and "\<forall>x \<in> set (normalize_locks ls). lock_wf x"
proof -
  let ?k = "\<lambda>l. (l_start l, l_end l, l_pid l, l_type l)" and ?xs = "sort_key (\<lambda>l. (l_start l, l_end l, l_pid l, l_type l)) ls"
  have "sorted (map ?k ?xs)" by simp
  then have "sorted (map l_start ?xs)"
    by (auto simp: sorted_wrt_map less_eq_prod_def elim!: sorted_wrt_mono_rel [rotated])
  moreover have "held ?xs p t b = held ls p t b" for p t b by (simp add: held_def)
  ultimately show "held (normalize_locks ls) p t b = held ls p t b"
    and "\<forall>x \<in> set (normalize_locks ls). lock_wf x"
    using held_fold_merge [of ?xs "[]"] assms by (auto simp: normalize_locks_def)
qed

lemma held_cut_owned:
  assumes "lock_wf e" and "0 \<le> start" and "is_i64 start" and "is_i64 fin"
  shows "held (cut_owned owner start fin e out) p t b \<longleftrightarrow>
    held out p t b \<or> (held [e] p t b \<and> \<not> (p = owner \<and> start \<le> b \<and> b \<le> fin))"
proof (cases "l_pid e = owner \<and> ranges_overlap (l_start e) (l_end e) start fin")
  case True
  have left: "saturating_sub_i64 start 1 = start - 1" using assms by (simp add: saturating_pred)
  have right: "saturating_add_i64 fin 1 = fin + 1" if "fin \<noteq> i64_max"
    using that assms by (simp add: saturating_succ)
  have top: "l_end e \<le> i64_max" using assms by (simp add: lock_wf_def is_i64_def)
  show ?thesis
    using True left right top
    by (auto simp: cut_owned_def split_owned_lock_def held_def ranges_overlap_def)
next
  case False
  then show ?thesis by (auto simp: cut_owned_def held_def ranges_overlap_def)
qed

lemma saturating_succ_nonneg: "0 \<le> x + 1 \<Longrightarrow> 0 \<le> saturating_add_i64 x 1"
  by (simp add: saturating_add_i64_def clamp_i64_def i64_max_def)

lemma cut_owned_wf:
  assumes "lock_wf e" and "0 \<le> start" and "\<forall>x \<in> set out. lock_wf x"
    and "fin < start \<longrightarrow> 0 \<le> fin + 1"
  shows "\<forall>x \<in> set (cut_owned owner start fin e out). lock_wf x"
proof -
  have "0 \<le> fin + 1" using assms by linarith
  then have "lock_wf (e\<lparr>l_start := saturating_add_i64 fin 1\<rparr>)"
    using assms(1) by (simp add: lock_wf_def saturating_succ_nonneg)
  moreover have "lock_wf (e\<lparr>l_end := saturating_sub_i64 start 1\<rparr>)"
    using assms(1) by (simp add: lock_wf_def)
  ultimately show ?thesis
    using assms by (auto simp: cut_owned_def split_owned_lock_def)
qed

lemma held_fold_cut:
  assumes "\<forall>x \<in> set es. lock_wf x" and "0 \<le> start" and "is_i64 start" and "is_i64 fin"
    and "fin < start \<longrightarrow> 0 \<le> fin + 1" and "\<forall>x \<in> set out. lock_wf x"
  shows "(\<forall>p t b. held (fold (cut_owned owner start fin) es out) p t b \<longleftrightarrow>
      held out p t b \<or> (held es p t b \<and> \<not> (p = owner \<and> start \<le> b \<and> b \<le> fin)))
    \<and> (\<forall>x \<in> set (fold (cut_owned owner start fin) es out). lock_wf x)"
  using assms
proof (induction es arbitrary: out)
  case (Cons e es)
  have "\<forall>x \<in> set (cut_owned owner start fin e out). lock_wf x"
    using Cons.prems by (intro cut_owned_wf) auto
  from Cons.IH [OF _ Cons.prems(2-5) this] Cons.prems held_cut_owned [of e start fin owner out]
  show ?case by (auto simp: held_Cons [of e es])
qed simp

section \<open>Effect of the operations\<close>

definition locks_at :: "posix_locks \<Rightarrow> string \<Rightarrow> PosixLock list" where
  "locks_at s path = (case bt_get (FILE_LOCKS s) path of None \<Rightarrow> [] | Some entry \<Rightarrow> entry)"

definition exclusive_entry :: "PosixLock list \<Rightarrow> bool" where
  "exclusive_entry ls \<longleftrightarrow>
     (\<forall>p p' t t' b. held ls p t b \<and> held ls p' t' b \<longrightarrow>
        (if p = p' then t = t' else t = F_RDLCK \<and> t' = F_RDLCK))"

definition posix_ok :: "posix_locks \<Rightarrow> bool" where
  "posix_ok s \<longleftrightarrow> bt_ok (FILE_LOCKS s) \<and>
     (\<forall>path. (\<forall>l \<in> set (locks_at s path). lock_wf l) \<and> exclusive_entry (locks_at s path))"

lemma wake_FILE_LOCKS [simp]:
  "FILE_LOCKS (fst (wake_posix_waiters path s)) = FILE_LOCKS s"
  "POSIX_LOCK_WAITS (fst (wake_posix_waiters path s)) = POSIX_LOCK_WAITS s"
  by (simp_all add: wake_posix_waiters_def split: option.splits prod.splits)

lemma wake_paths_FILE_LOCKS [simp]:
  "FILE_LOCKS (fst (wake_paths paths s)) = FILE_LOCKS s"
  "POSIX_LOCK_WAITS (fst (wake_paths paths s)) = POSIX_LOCK_WAITS s"
  by (induction paths arbitrary: s)
     (auto simp: split_beta Let_def simp del: wake_FILE_LOCKS simp: wake_FILE_LOCKS)

lemma clear_wait_FILE_LOCKS [simp]: "FILE_LOCKS (clear_wait p s) = FILE_LOCKS s"
  by (simp add: clear_wait_def)

lemma record_wait_FILE_LOCKS [simp]: "FILE_LOCKS (record_wait p ps s) = FILE_LOCKS s"
  by (simp add: record_wait_def)

lemma register_posix_waker_FILE_LOCKS [simp]: "FILE_LOCKS (register_posix_waker path w s) = FILE_LOCKS s"
  by (simp add: register_posix_waker_def)

lemma locks_at_cong: "FILE_LOCKS s = FILE_LOCKS s' \<Longrightarrow> locks_at s path = locks_at s' path"
  by (simp add: locks_at_def)

lemma posix_ok_cong: "FILE_LOCKS s = FILE_LOCKS s' \<Longrightarrow> posix_ok s = posix_ok s'"
  by (simp add: posix_ok_def locks_at_def)

text \<open>The byte range to which a request of \<open>setlk\<close> applies.\<close>

lemma to_absolute_empty:
  assumes "to_absolute fl sz off = Inr (a, b)" and "is_i64 (fl_start fl)"
  shows "0 \<le> b + 1"
proof (cases "flock_base fl sz off")
  case (Inr start)
  with assms(1) flock_base_range [OF Inr assms(2)] show ?thesis
    by (auto simp: to_absolute_def Let_def saturating_add_i64_def saturating_sub_i64_def clamp_i64_def
        is_i64_def i64_max_def i64_min_def split: if_splits)
qed (use assms in \<open>simp add: to_absolute_def\<close>)

lemma wake_FILE_LOCKS_D: "wake_posix_waiters path s = (s', woken) \<Longrightarrow> FILE_LOCKS s' = FILE_LOCKS s"
  by (metis fst_conv wake_FILE_LOCKS(1))

lemma setlk_entry:
  "the (bt_get (bt_or_insert path [] (FILE_LOCKS s)) path) = locks_at s path"
  by (simp add: locks_at_def split: option.splits)

text \<open>The table after a request was granted, before its reading by bytes.\<close>

lemma setlk_granted:
  assumes "setlk path fl sz off owner s = (Inr r, s', woken)"
  obtains a b' where "to_absolute fl sz off = Inr (a, b')"
    and "fl_type fl \<in> {F_RDLCK, F_WRLCK, F_UNLCK}"
    and "fl_type fl \<noteq> F_UNLCK \<longrightarrow> (\<forall>x \<in> set (locks_at s path). l_pid x \<noteq> owner \<longrightarrow>
      \<not> locks_conflict x \<lparr>l_type = fl_type fl, l_start = a, l_end = b', l_pid = owner\<rparr>)"
    and "FILE_LOCKS s' = bt_insert path (normalize_locks
      (if fl_type fl \<noteq> F_UNLCK
       then fold (cut_owned owner a b') (locks_at s path) [] @
         [\<lparr>l_type = fl_type fl, l_start = a, l_end = b', l_pid = owner\<rparr>]
       else fold (cut_owned owner a b') (locks_at s path) [])) (bt_or_insert path [] (FILE_LOCKS s))"
proof -
  obtain a b' where abs: "to_absolute fl sz off = Inr (a, b')"
    and ty: "fl_type fl \<in> {F_RDLCK, F_WRLCK, F_UNLCK}"
    using assms by (auto simp: setlk_def split: if_splits sum.splits)
  show thesis
    using assms ty
    by (intro that [OF abs ty]; unfold setlk_def Let_def setlk_entry)
       (auto simp: abs list_ex_iff split: if_splits prod.splits dest!: wake_FILE_LOCKS_D
          simp del: bt_get_or_insert)
qed

lemma setlk_success:
  assumes "posix_ok s" and "is_i64 (fl_start fl)"
    and "setlk path fl sz off owner s = (Inr r, s', woken)"
  obtains a b' where "to_absolute fl sz off = Inr (a, b')"
    and "fl_type fl \<in> {F_RDLCK, F_WRLCK, F_UNLCK}"
    and "fl_type fl \<noteq> F_UNLCK \<longrightarrow> (\<forall>x \<in> set (locks_at s path). l_pid x \<noteq> owner \<longrightarrow>
      \<not> locks_conflict x \<lparr>l_type = fl_type fl, l_start = a, l_end = b', l_pid = owner\<rparr>)"
    and "\<And>path' p t b. held (locks_at s' path') p t b \<longleftrightarrow>
      (if path' = path \<and> p = owner \<and> a \<le> b \<and> b \<le> b' then t = fl_type fl \<and> t \<noteq> F_UNLCK
       else held (locks_at s path') p t b)"
    and "\<And>path'. \<forall>x \<in> set (locks_at s' path'). lock_wf x"
    and "bt_ok (FILE_LOCKS s')"
proof -
  obtain a b' where g: "to_absolute fl sz off = Inr (a, b')"
    "fl_type fl \<in> {F_RDLCK, F_WRLCK, F_UNLCK}"
    "fl_type fl \<noteq> F_UNLCK \<longrightarrow> (\<forall>x \<in> set (locks_at s path). l_pid x \<noteq> owner \<longrightarrow>
      \<not> locks_conflict x \<lparr>l_type = fl_type fl, l_start = a, l_end = b', l_pid = owner\<rparr>)"
    and fl': "FILE_LOCKS s' = bt_insert path (normalize_locks
      (if fl_type fl \<noteq> F_UNLCK
       then fold (cut_owned owner a b') (locks_at s path) [] @
         [\<lparr>l_type = fl_type fl, l_start = a, l_end = b', l_pid = owner\<rparr>]
       else fold (cut_owned owner a b') (locks_at s path) [])) (bt_or_insert path [] (FILE_LOCKS s))"
    by (rule setlk_granted [OF assms(3)])
  define nl where "nl = \<lparr>l_type = fl_type fl, l_start = a, l_end = b', l_pid = owner\<rparr>"
  define upd where "upd = fold (cut_owned owner a b') (locks_at s path) []"
  define ent where "ent = (if fl_type fl \<noteq> F_UNLCK then upd @ [nl] else upd)"
  have rng: "0 \<le> a" "is_i64 a" "is_i64 b'" "b' < a \<longrightarrow> 0 \<le> b' + 1"
    using to_absolute_range [OF g(1) assms(2)] to_absolute_empty [OF g(1) assms(2)] by auto
  have wf: "\<forall>x \<in> set (locks_at s path'). lock_wf x" for path' using assms(1) by (simp add: posix_ok_def)
  note cut = held_fold_cut [OF wf [of path] rng, of "[]" owner, folded upd_def]
  have wfe: "\<forall>x \<in> set ent. lock_wf x"
    using cut g(2) rng by (auto simp: ent_def nl_def lock_wf_def [of "\<lparr>l_type = _, l_start = _, l_end = _, l_pid = _\<rparr>"])
  have at: "locks_at s' path' = (if path' = path then normalize_locks ent else locks_at s path')" for path'
    by (simp add: locks_at_def fl' ent_def nl_def upd_def)
  have nl: "held [nl] p t b \<longleftrightarrow> p = owner \<and> t = fl_type fl \<and> a \<le> b \<and> b \<le> b'" for p t b
    by (auto simp: held_def nl_def)
  have "held ent p t b \<longleftrightarrow> (if p = owner \<and> a \<le> b \<and> b \<le> b' then t = fl_type fl \<and> t \<noteq> F_UNLCK
      else held (locks_at s path) p t b)" for p t b
    using cut nl by (auto simp: ent_def)
  then have h: "held (locks_at s' path') p t b \<longleftrightarrow>
      (if path' = path \<and> p = owner \<and> a \<le> b \<and> b \<le> b' then t = fl_type fl \<and> t \<noteq> F_UNLCK
       else held (locks_at s path') p t b)" for path' p t b
    by (simp add: at normalize_locks_held(1) [OF wfe])
  have "\<forall>x \<in> set (locks_at s' path'). lock_wf x" for path'
    using at wf normalize_locks_held(2) [OF wfe] by simp
  moreover have "bt_ok (FILE_LOCKS s')" using fl' assms(1) by (simp add: posix_ok_def)
  ultimately show thesis using that [OF g h] by blast
qed

lemma setlk_refused:
  assumes "setlk path fl sz off owner s = (Inl e, s', woken)"
  shows "locks_at s' path' = locks_at s path'" and "bt_ok (FILE_LOCKS s) \<Longrightarrow> bt_ok (FILE_LOCKS s')"
    and "woken = []" and "POSIX_LOCK_WAITS s' = POSIX_LOCK_WAITS s" and "POSIX_LOCK_WAITERS s' = POSIX_LOCK_WAITERS s"
proof -
  have "s' = s \<or> s' = s\<lparr>FILE_LOCKS := bt_or_insert path [] (FILE_LOCKS s)\<rparr>" and w: "woken = []"
    using assms by (auto simp: setlk_def Let_def split: if_splits sum.splits prod.splits)
  then show "locks_at s' path' = locks_at s path'" and "bt_ok (FILE_LOCKS s) \<Longrightarrow> bt_ok (FILE_LOCKS s')"
    and "woken = []" and "POSIX_LOCK_WAITS s' = POSIX_LOCK_WAITS s" and "POSIX_LOCK_WAITERS s' = POSIX_LOCK_WAITERS s"
    by (auto simp: locks_at_def split: option.splits if_splits)
qed

lemma exclusive_entryD:
  "exclusive_entry ls \<Longrightarrow> held ls p t b \<Longrightarrow> held ls p' t' b \<Longrightarrow> p \<noteq> p' \<Longrightarrow> t = F_RDLCK \<and> t' = F_RDLCK"
  unfolding exclusive_entry_def by metis

lemma no_conflict_shared:
  assumes "\<forall>x \<in> set ls. l_pid x \<noteq> owner \<longrightarrow>
      \<not> locks_conflict x \<lparr>l_type = ty, l_start = a, l_end = b', l_pid = owner\<rparr>"
    and "held ls p t b" and "p \<noteq> owner" and "a \<le> b" and "b \<le> b'"
  shows "t = F_RDLCK \<and> ty = F_RDLCK"
proof -
  obtain x where x: "x \<in> set ls" "l_pid x = p" "l_type x = t" "l_start x \<le> b" "b \<le> l_end x"
    using assms(2) by (auto simp: held_def)
  with assms show ?thesis by (fastforce simp: locks_conflict_def split: if_splits)
qed

lemma exclusive_entry_update:
  assumes old: "exclusive_entry ls"
    and new: "\<And>p t b. held ls' p t b \<longleftrightarrow>
      (if p = owner \<and> a \<le> b \<and> b \<le> b' then t = ty \<and> t \<noteq> F_UNLCK else held ls p t b)"
    and sh: "\<And>p t b. held ls p t b \<Longrightarrow> p \<noteq> owner \<Longrightarrow> a \<le> b \<Longrightarrow> b \<le> b' \<Longrightarrow> ty \<noteq> F_UNLCK \<Longrightarrow>
      t = F_RDLCK \<and> ty = F_RDLCK"
  shows "exclusive_entry ls'"
  unfolding exclusive_entry_def
proof (intro allI impI, elim conjE)
  fix p p' t t' b
  assume h: "held ls' p t b" "held ls' p' t' b"
  have o: "if p = p' then t = t' else t = F_RDLCK \<and> t' = F_RDLCK"
    if "held ls p t b" "held ls p' t' b"
    using old that unfolding exclusive_entry_def by blast
  show "if p = p' then t = t' else t = F_RDLCK \<and> t' = F_RDLCK"
  proof (cases "a \<le> b \<and> b \<le> b'")
    case True
    then show ?thesis using h sh [of p t b] sh [of p' t' b] o unfolding new by (auto split: if_splits)
  next
    case False
    then show ?thesis using h o unfolding new by auto
  qed
qed

lemma posix_ok_setlk:
  assumes "posix_ok s" and "is_i64 (fl_start fl)"
  shows "posix_ok (fst (snd (setlk path fl sz off owner s)))"
proof -
  obtain r s' woken where r: "setlk path fl sz off owner s = (r, s', woken)"
    by (cases "setlk path fl sz off owner s") auto
  show ?thesis
  proof (cases r)
    case (Inl e)
    with setlk_refused(1,2) [of path fl sz off owner s e s' woken] r assms(1) show ?thesis
      by (simp add: posix_ok_def)
  next
    case (Inr n)
    obtain a b' where g: "fl_type fl \<noteq> F_UNLCK \<longrightarrow> (\<forall>x \<in> set (locks_at s path). l_pid x \<noteq> owner \<longrightarrow>
        \<not> locks_conflict x \<lparr>l_type = fl_type fl, l_start = a, l_end = b', l_pid = owner\<rparr>)"
      and h: "\<And>path' p t b. held (locks_at s' path') p t b \<longleftrightarrow>
        (if path' = path \<and> p = owner \<and> a \<le> b \<and> b \<le> b' then t = fl_type fl \<and> t \<noteq> F_UNLCK
         else held (locks_at s path') p t b)"
      and wf: "\<And>path'. \<forall>x \<in> set (locks_at s' path'). lock_wf x" and bt: "bt_ok (FILE_LOCKS s')"
      by (rule setlk_success [OF assms]) (use r Inr in auto)
    have old: "exclusive_entry (locks_at s path')" for path' using assms(1) by (simp add: posix_ok_def)
    have sh: "t = F_RDLCK \<and> fl_type fl = F_RDLCK"
      if "held (locks_at s path) p t b" "p \<noteq> owner" "a \<le> b" "b \<le> b'" "fl_type fl \<noteq> F_UNLCK" for p t b
      using no_conflict_shared that g by blast
    have "exclusive_entry (locks_at s' path')" for path'
    proof (cases "path' = path")
      case True
      show ?thesis
        unfolding True using h [of path] sh by (intro exclusive_entry_update [OF old]) auto
    next
      case False
      then show ?thesis using old [of path'] h [of path'] by (simp add: exclusive_entry_def)
    qed
    with wf bt show ?thesis using r by (simp add: posix_ok_def)
  qed
qed

subsection \<open>Release\<close>

lemma held_filter_owner: "held (filter (\<lambda>l. l_pid l \<noteq> q) ls) p t b \<longleftrightarrow> p \<noteq> q \<and> held ls p t b"
  by (auto simp: held_def)

lemma release_posix_locks_at:
  "locks_at (fst (release_posix_locks path q s)) path' =
     (if path' = path then filter (\<lambda>l. l_pid l \<noteq> q) (locks_at s path) else locks_at s path')"
  by (auto simp: release_posix_locks_def Let_def locks_at_def split: option.splits)

lemma bt_ok_release: "bt_ok (FILE_LOCKS s) \<Longrightarrow> bt_ok (FILE_LOCKS (fst (release_posix_locks path q s)))"
  by (auto simp: release_posix_locks_def Let_def split: option.splits)

lemma bt_ok_mapval: "bt_ok (map (\<lambda>(k, v). (k, f k v)) m) = bt_ok m"
  by (simp add: bt_ok_def case_prod_beta' comp_def)

lemma release_by_owner_at:
  assumes "bt_ok (FILE_LOCKS s)"
  shows "locks_at (fst (release_posix_locks_by_owner q s)) path = filter (\<lambda>l. l_pid l \<noteq> q) (locks_at s path)"
    and "bt_ok (FILE_LOCKS (fst (release_posix_locks_by_owner q s)))"
  using assms
    bt_get_filter_val [of "map (\<lambda>(path, entry). (path, filter (\<lambda>lock. l_pid lock \<noteq> q) entry)) (FILE_LOCKS s)"
      "\<lambda>e. e \<noteq> []" path]
  by (auto simp: release_posix_locks_by_owner_def Let_def locks_at_def bt_ok_mapval bt_get_mapval
      split: option.splits)

lemma exclusive_entry_filter: "exclusive_entry ls \<Longrightarrow> exclusive_entry (filter (\<lambda>l. l_pid l \<noteq> q) ls)"
  unfolding exclusive_entry_def held_filter_owner by blast

lemma posix_ok_release:
  assumes "posix_ok s"
  shows "posix_ok (fst (release_posix_locks path q s))" and "posix_ok (fst (release_posix_locks_by_owner q s))"
  using assms
  by (auto simp: posix_ok_def release_posix_locks_at release_by_owner_at bt_ok_release
      intro: exclusive_entry_filter)

section \<open>The contract of the lock table\<close>

datatype posix_release = OnFile string int | Everywhere int

fun posix_releaser :: "posix_release \<Rightarrow> int" where
  "posix_releaser (OnFile path p) = p"
| "posix_releaser (Everywhere p) = p"

fun posix_scope :: "posix_release \<Rightarrow> string \<times> int \<Rightarrow> bool" where
  "posix_scope (OnFile path p) r = (fst r = path)"
| "posix_scope (Everywhere p) r = True"

fun posix_release_op :: "posix_release \<Rightarrow> posix_locks \<Rightarrow> posix_locks" where
  "posix_release_op (OnFile path p) s = fst (release_posix_locks path p s)"
| "posix_release_op (Everywhere p) s = fst (release_posix_locks_by_owner p s)"

text \<open>A request of F_SETLK as the system call receives it.\<close>

record posix_request =
  rq_path :: string
  rq_bytes :: "byte list"
  rq_size :: int
  rq_offset :: int
  rq_owner :: int

definition posix_acquire :: "posix_request \<Rightarrow> posix_locks \<Rightarrow> bool \<times> posix_locks" where
  "posix_acquire q s =
     (case fcntl_setlk (rq_path q) (rq_bytes q) (rq_size q) (rq_offset q) (rq_owner q) s of
        (Inr _, s1, _) \<Rightarrow> (True, s1) | (Inl _, s1, _) \<Rightarrow> (False, s1))"

definition posix_covers :: "posix_request \<Rightarrow> string \<times> int \<Rightarrow> bool" where
  "posix_covers q r =
     (case Flock_from_bytes (rq_bytes q) of
        None \<Rightarrow> False
      | Some fl \<Rightarrow>
          fl_type fl \<in> {F_RDLCK, F_WRLCK} \<and> fst r = rq_path q \<and>
          (case to_absolute fl (rq_size q) (rq_offset q) of
             Inl _ \<Rightarrow> False | Inr (a, b) \<Rightarrow> a \<le> snd r \<and> snd r \<le> b))"

definition posix_exclusive :: "posix_request \<Rightarrow> bool" where
  "posix_exclusive q = (case Flock_from_bytes (rq_bytes q) of None \<Rightarrow> False | Some fl \<Rightarrow> fl_type fl = F_WRLCK)"

definition posix_holds :: "posix_locks \<Rightarrow> string \<times> int \<Rightarrow> int \<Rightarrow> bool \<Rightarrow> bool" where
  "posix_holds s r p e = held (locks_at s (fst r)) p (if e then F_WRLCK else F_RDLCK) (snd r)"

lemma is_i64_fits: "fits_signed 8 x = is_i64 x"
  by (auto simp: fits_signed_def is_i64_def i64_min_def i64_max_def)

lemma Flock_from_bytes_fits: "Flock_from_bytes bs = Some fl \<Longrightarrow> flock_fits fl"
  using fits_signed_le_sint [of "take 2 bs"] fits_signed_le_sint [of "take 2 (drop 2 bs)"]
    fits_signed_le_sint [of "take 8 (drop 8 bs)"] fits_signed_le_sint [of "take 8 (drop 16 bs)"]
    fits_signed_le_sint [of "take 4 (drop 24 bs)"]
  by (auto simp: Flock_from_bytes_def flock_fits_def split: if_splits)

lemma posix_acquire_cases:
  obtains "\<not> fst (posix_acquire q s)" and "\<And>path. locks_at (snd (posix_acquire q s)) path = locks_at s path"
      and "bt_ok (FILE_LOCKS s) \<longrightarrow> bt_ok (FILE_LOCKS (snd (posix_acquire q s)))"
  | fl r s1 woken where "fst (posix_acquire q s)" and "Flock_from_bytes (rq_bytes q) = Some fl"
      and "is_i64 (fl_start fl)"
      and "setlk (rq_path q) fl (rq_size q) (rq_offset q) (rq_owner q) s = (Inr r, s1, woken)"
      and "snd (posix_acquire q s) = s1"
proof (cases "Flock_from_bytes (rq_bytes q)")
  case None
  then show thesis using that(1) by (simp add: posix_acquire_def fcntl_setlk_def)
next
  case (Some fl)
  obtain r s1 woken where r: "setlk (rq_path q) fl (rq_size q) (rq_offset q) (rq_owner q) s = (r, s1, woken)"
    by (cases "setlk (rq_path q) fl (rq_size q) (rq_offset q) (rq_owner q) s") auto
  have i: "is_i64 (fl_start fl)"
    using Flock_from_bytes_fits [OF Some] by (simp add: flock_fits_def is_i64_fits)
  show thesis
  proof (cases r)
    case (Inl e)
    then show thesis
      using r Some setlk_refused(1,2) [of _ fl _ _ _ s e s1 woken]
      by (intro that(1)) (auto simp: posix_acquire_def fcntl_setlk_def)
  next
    case (Inr n)
    then show thesis
      using r Some i by (intro that(2)) (auto simp: posix_acquire_def fcntl_setlk_def)
  qed
qed

interpretation posix: advisory_locks posix_ok posix_holds posix_acquire posix_release_op rq_owner
  posix_covers posix_exclusive posix_releaser posix_scope
proof
  fix s r p p' e assume a: "posix_ok s" "posix_holds s r p True" "posix_holds s r p' e"
  then have x: "exclusive_entry (locks_at s (fst r))" by (simp add: posix_ok_def)
  have "F_WRLCK \<noteq> F_RDLCK" by (simp add: fcntl_consts)
  with a exclusive_entryD [OF x, of p F_WRLCK "snd r" p'] show "p' = p"
    by (auto simp: posix_holds_def)
next
  fix s q assume ok: "posix_ok s"
  then show "posix_ok (snd (posix_acquire q s))"
  proof (cases rule: posix_acquire_cases [of q s])
    case 1
    then show ?thesis using ok by (simp add: posix_ok_def)
  next
    case (2 fl r s1 woken)
    then show ?thesis using posix_ok_setlk [OF ok 2(3)] by (metis fst_conv snd_conv)
  qed
next
  fix s x assume "posix_ok s"
  then show "posix_ok (posix_release_op x s)" by (cases x) (simp_all add: posix_ok_release)
next
  fix s q r assume ok: "posix_ok s" and g: "fst (posix_acquire q s)" and c: "posix_covers q r"
  show "posix_holds (snd (posix_acquire q s)) r (rq_owner q) (posix_exclusive q)"
  proof (cases rule: posix_acquire_cases [of q s])
    case 1
    then show ?thesis using g by simp
  next
    case (2 fl n s1 woken)
    show ?thesis
      by (rule setlk_success [OF ok 2(3) 2(4)])
         (use 2(2,5) c in \<open>auto simp: posix_holds_def posix_covers_def posix_exclusive_def fcntl_consts
           split: if_splits\<close>)
  qed
next
  fix s p r e and q :: posix_request assume ok: "posix_ok s" and p: "p \<noteq> rq_owner q"
  show "posix_holds (snd (posix_acquire q s)) r p e = posix_holds s r p e"
  proof (cases rule: posix_acquire_cases [of q s])
    case 1
    then show ?thesis by (simp add: posix_holds_def)
  next
    case (2 fl n s1 woken)
    show ?thesis
      by (rule setlk_success [OF ok 2(3) 2(4)]) (use 2(5) p in \<open>simp add: posix_holds_def\<close>)
  qed
next
  fix s x r p e assume "posix_ok s"
  then show "posix_holds (posix_release_op x s) r p e \<longleftrightarrow>
      posix_holds s r p e \<and> \<not> (p = posix_releaser x \<and> posix_scope x r)"
    by (cases x) (auto simp: posix_holds_def release_posix_locks_at release_by_owner_at posix_ok_def
        held_filter_owner)
qed

section \<open>Deadlock detection\<close>

definition wait_edges :: "(int, int list) btree_map \<Rightarrow> (int \<times> int) set" where
  "wait_edges g = {(x, y). \<exists>ns. bt_get g x = Some ns \<and> y \<in> set ns}"

lemma dfs_True:
  "wait_path_reaches g c t v = (True, v') \<Longrightarrow> (c, t) \<in> (wait_edges g)\<^sup>*"
  "any_path_reaches g ps t v = (True, v') \<Longrightarrow> \<exists>p \<in> set ps. (p, t) \<in> (wait_edges g)\<^sup>*"
proof (induction g c t v and g ps t v arbitrary: v' and v' rule: wait_path_reaches_any_path_reaches.induct)
  case (1 g c t v)
  show ?case
  proof (cases "c = t")
    case False
    with "1.prems" obtain nxt where n: "c \<notin> set v" "bt_get g c = Some nxt"
      "any_path_reaches g nxt t (v @ [c]) = (True, v')"
      by (auto simp: wait_path_reaches.simps [of g c] split: if_splits option.splits)
    from "1.IH" [OF False n] obtain p where "p \<in> set nxt" "(p, t) \<in> (wait_edges g)\<^sup>*" by blast
    then show ?thesis using n by (auto simp: wait_edges_def intro: converse_rtrancl_into_rtrancl)
  qed simp
next
  case (3 g p ps t v)
  obtain d v1 where d: "wait_path_reaches g p t v = (d, v1)" by (cases "wait_path_reaches g p t v")
  with 3 show ?case by (cases d) auto
qed simp

lemma dfs_False:
  "wait_path_reaches g c t v = (False, v') \<Longrightarrow> set v \<subseteq> set v' \<and> c \<in> set v' \<and> t \<notin> set v' - set v \<and>
     (\<forall>x y. x \<in> set v' - set v \<longrightarrow> (x, y) \<in> wait_edges g \<longrightarrow> y \<in> set v')"
  "any_path_reaches g ps t v = (False, v') \<Longrightarrow> set v \<subseteq> set v' \<and> set ps \<subseteq> set v' \<and> t \<notin> set v' - set v \<and>
     (\<forall>x y. x \<in> set v' - set v \<longrightarrow> (x, y) \<in> wait_edges g \<longrightarrow> y \<in> set v')"
proof (induction g c t v and g ps t v arbitrary: v' and v' rule: wait_path_reaches_any_path_reaches.induct)
  case (1 g c t v)
  from "1.prems" have ct: "c \<noteq> t" by (auto simp: wait_path_reaches.simps [of g c])
  show ?case
  proof (cases "c \<in> set v")
    case True
    then show ?thesis using "1.prems" ct by (auto simp: wait_path_reaches.simps [of g c])
  next
    case new: False
    show ?thesis
    proof (cases "bt_get g c")
      case None
      then show ?thesis
        using "1.prems" ct new by (auto simp: wait_path_reaches.simps [of g c] wait_edges_def)
    next
      case (Some nxt)
      then have "any_path_reaches g nxt t (v @ [c]) = (False, v')"
        using "1.prems" ct new by (simp add: wait_path_reaches.simps [of g c])
      note f = "1.IH" [OF ct new Some this]
      have f1: "set v \<subseteq> set v' \<and> c \<in> set v' \<and> set nxt \<subseteq> set v' \<and> t \<notin> set v' - set v"
        using f ct by simp
      have "y \<in> set v'" if x: "x \<in> set v' - set v" and e: "(x, y) \<in> wait_edges g" for x y
      proof (cases "x = c")
        case True
        then have "y \<in> set nxt" using e Some by (simp add: wait_edges_def)
        then show ?thesis using f1 by blast
      next
        case False
        then have "x \<in> set v' - set (v @ [c])" using x by simp
        then show ?thesis using f e by blast
      qed
      with f1 show ?thesis by (intro conjI allI impI) simp_all
    qed
  qed
next
  case (3 g p ps t v)
  obtain d v1 where d: "wait_path_reaches g p t v = (d, v1)" by (cases "wait_path_reaches g p t v")
  have "\<not> d" using "3.prems" d by (cases d) simp_all
  then have f: "wait_path_reaches g p t v = (False, v1)" "any_path_reaches g ps t v1 = (False, v')"
    using "3.prems" d by simp_all
  note a = "3.IH"(1) [OF f(1)]
  have b: "set v1 \<subseteq> set v' \<and> set ps \<subseteq> set v' \<and> t \<notin> set v' - set v1 \<and>
     (\<forall>x y. x \<in> set v' - set v1 \<longrightarrow> (x, y) \<in> wait_edges g \<longrightarrow> y \<in> set v')"
    using "3.IH"(2) [OF f(1) [symmetric] _ f(2)] by simp
  have ab: "set v \<subseteq> set v1" "p \<in> set v1" "t \<notin> set v1 - set v" "set v1 \<subseteq> set v'" "set ps \<subseteq> set v'"
    "t \<notin> set v' - set v1" using a b by simp_all
  have "y \<in> set v'" if x: "x \<in> set v' - set v" and e: "(x, y) \<in> wait_edges g" for x y
  proof (cases "x \<in> set v1")
    case True
    then have "y \<in> set v1" using x e a by blast
    then show ?thesis using ab by blast
  next
    case False
    then show ?thesis using x e b by blast
  qed
  with ab show ?case by (intro conjI allI impI) auto
qed auto

lemma wait_path_reaches_iff:
  "fst (wait_path_reaches g c t []) \<longleftrightarrow> (c, t) \<in> (wait_edges g)\<^sup>*"
proof
  assume "(c, t) \<in> (wait_edges g)\<^sup>*"
  show "fst (wait_path_reaches g c t [])"
  proof (rule ccontr)
    assume "\<not> fst (wait_path_reaches g c t [])"
    then obtain v' where "wait_path_reaches g c t [] = (False, v')"
      by (cases "wait_path_reaches g c t []") auto
    note f = dfs_False(1) [OF this]
    from \<open>(c, t) \<in> (wait_edges g)\<^sup>*\<close> have "t \<in> set v'"
      by (induction rule: rtrancl_induct) (use f in auto)
    with f show False by simp
  qed
qed (metis dfs_True(1) prod.collapse)

lemma would_deadlock_iff:
  "would_deadlock s owner ps \<longleftrightarrow> (\<exists>p \<in> set ps. (p, owner) \<in> (wait_edges (POSIX_LOCK_WAITS s))\<^sup>*)"
  by (simp add: would_deadlock_def list_ex_iff wait_path_reaches_iff)

lemma acyclic_insert_edges:
  assumes "acyclic (wait_edges g)" and "\<forall>p \<in> set ps. (p, w) \<notin> (wait_edges g)\<^sup>*"
  shows "acyclic (wait_edges (bt_insert w ps g))"
proof (rule ccontr)
  assume "\<not> acyclic (wait_edges (bt_insert w ps g))"
  then obtain x where x: "(x, x) \<in> (wait_edges (bt_insert w ps g))\<^sup>+" by (auto simp: acyclic_def)
  let ?E = "wait_edges g"
  have sub: "wait_edges (bt_insert w ps g) \<subseteq> ?E \<union> {w} \<times> set ps"
    by (auto simp: wait_edges_def split: if_splits)
  have path: "(a, b) \<in> ?E\<^sup>+ \<or> (\<exists>p \<in> set ps. (a, w) \<in> ?E\<^sup>* \<and> (p, b) \<in> ?E\<^sup>*)"
    if "(a, b) \<in> (wait_edges (bt_insert w ps g))\<^sup>+" for a b
    using that
  proof (induction rule: trancl_induct)
    case (base y)
    then show ?case using sub by blast
  next
    case (step y z)
    show ?case
    proof (cases "(y, z) \<in> ?E")
      case True
      with step.IH show ?thesis by (blast intro: trancl_into_trancl rtrancl_into_rtrancl)
    next
      case False
      with step.hyps(2) sub have "y = w" and z: "z \<in> set ps" by auto
      with step.IH have "(a, w) \<in> ?E\<^sup>*" by (blast intro: trancl_into_rtrancl)
      with z show ?thesis by blast
    qed
  qed
  from path [OF x] show False
  proof
    assume "(x, x) \<in> ?E\<^sup>+"
    with assms(1) show False by (simp add: acyclic_def)
  next
    assume "\<exists>p \<in> set ps. (x, w) \<in> ?E\<^sup>* \<and> (p, x) \<in> ?E\<^sup>*"
    with assms(2) show False by (meson rtrancl_trans)
  qed
qed

lemma wait_edges_remove: "wait_edges (bt_remove w g) \<subseteq> wait_edges g"
  by (auto simp: wait_edges_def split: if_splits)

lemma acyclic_clear_wait:
  "acyclic (wait_edges (POSIX_LOCK_WAITS s)) \<Longrightarrow> acyclic (wait_edges (POSIX_LOCK_WAITS (clear_wait w s)))"
  by (simp add: clear_wait_def acyclic_subset [OF _ wait_edges_remove])

lemma setlk_WAITS [simp]: "POSIX_LOCK_WAITS (fst (snd (setlk path fl sz off owner s))) = POSIX_LOCK_WAITS s"
  by (simp add: setlk_def Let_def split_beta split: sum.split)

lemma setlk_WAITS_D: "setlk path fl sz off owner s = (r, s', woken) \<Longrightarrow> POSIX_LOCK_WAITS s' = POSIX_LOCK_WAITS s"
  by (metis fst_conv setlk_WAITS snd_conv)

definition no_cycle :: "posix_locks \<Rightarrow> bool" where
  "no_cycle s \<longleftrightarrow> acyclic (wait_edges (POSIX_LOCK_WAITS s))"

lemma no_cycle_clear: "no_cycle s \<Longrightarrow> no_cycle (clear_wait w s)"
  unfolding no_cycle_def by (rule acyclic_clear_wait)

lemma no_cycle_setlk: "setlk path fl sz off owner s = (r, s', woken) \<Longrightarrow> no_cycle s' = no_cycle s"
  by (simp add: no_cycle_def setlk_WAITS_D)

lemma no_cycle_register: "no_cycle (register_posix_waker path w s) = no_cycle s"
  by (simp add: no_cycle_def register_posix_waker_def Let_def)

text \<open>A wait that passed the test is recorded; in between waits were at most removed.\<close>

lemma no_cycle_record:
  assumes pass: "\<not> would_deadlock s owner owners" and ok: "no_cycle s'"
    and sub: "wait_edges (POSIX_LOCK_WAITS s') \<subseteq> wait_edges (POSIX_LOCK_WAITS s)"
  shows "no_cycle (record_wait owner owners s')"
proof (cases "owners = []")
  case True
  then show ?thesis using ok by (simp add: no_cycle_def record_wait_def acyclic_subset [OF _ wait_edges_remove])
next
  case False
  have "\<forall>p \<in> set owners. (p, owner) \<notin> (wait_edges (POSIX_LOCK_WAITS s'))\<^sup>*"
    using pass rtrancl_mono [OF sub] by (auto simp: would_deadlock_iff)
  then show ?thesis using False ok acyclic_insert_edges by (simp add: no_cycle_def record_wait_def)
qed

lemma no_cycle_setlk_blocking_poll:
  assumes s: "no_cycle s" and others: "\<And>i s. no_cycle s \<Longrightarrow> no_cycle (others i s)"
    and quiet: "\<And>s. wait_edges (POSIX_LOCK_WAITS (others 2 s)) \<subseteq> wait_edges (POSIX_LOCK_WAITS s)"
  shows "no_cycle (fst (snd (setlk_blocking_poll path fl sz off owner w others s)))"
proof -
  obtain r s1 wk where r: "setlk path fl sz off owner s = (r, s1, wk)"
    by (cases "setlk path fl sz off owner s") auto
  have a1: "no_cycle s1" using no_cycle_setlk [OF r] s by simp
  define s2 where "s2 = others 0 s1"
  define s3 where "s3 = others 1 s2"
  define owners where "owners = conflicting_owners s2 path fl sz off owner"
  define s5 where "s5 = register_posix_waker path w (others 3 (record_wait owner owners (others 2 s3)))"
  have a3: "no_cycle s2" "no_cycle s3" using others a1 by (simp_all add: s2_def s3_def)
  have a5: "no_cycle s5" if "\<not> would_deadlock s3 owner owners"
    unfolding s5_def no_cycle_register by (intro others no_cycle_record [OF that] a3(2) quiet)
  obtain r6 s6 wk6 where r6: "setlk path fl sz off owner (others 4 s5) = (r6, s6, wk6)"
    by (cases "setlk path fl sz off owner (others 4 s5)") auto
  have a6: "no_cycle s6" if "\<not> would_deadlock s3 owner owners"
    using others [OF a5 [OF that]] no_cycle_setlk [OF r6] by simp
  show ?thesis
  proof (cases r)
    case (Inr n)
    then show ?thesis using a3(1) by (simp add: setlk_blocking_poll_def r s2_def no_cycle_clear)
  next
    case (Inl e)
    show ?thesis
      unfolding setlk_blocking_poll_def r Inl prod.case sum.case Let_def s2_def [symmetric] s3_def [symmetric] owners_def [symmetric]
        s5_def [symmetric] r6
      using a3 a6 others by (cases r6) (simp_all add: no_cycle_clear)
  qed
qed

section \<open>Properties\<close>

text \<open>
  C4. A write lock granted by F_SETLK is exclusive until its owner acts: after any sequence
  of lock requests, unlocks and releases by other processes, the owner still holds every byte
  of the range and nobody else holds any lock on it.
\<close>

theorem record_lock_exclusive_until_owner_acts:
  assumes "posix_ok s" and "fst (posix_acquire q s)" and "posix_covers q r" and "posix_exclusive q"
    and "\<forall>a \<in> set ops. lock_actor rq_owner posix_releaser a \<noteq> rq_owner q"
  shows "let s' = fold (lock_apply posix_acquire posix_release_op) ops (snd (posix_acquire q s))
    in posix_holds s' r (rq_owner q) True \<and> (\<forall>p e. posix_holds s' r p e \<longrightarrow> p = rq_owner q)"
  unfolding Let_def
  by (intro conjI allI posix.exclusive_until_owner_acts [OF assms])





text \<open>Requests used in the examples: a whole-file lock and a ten-byte lock at offset 5.\<close>

definition no_locks :: posix_locks where
  "no_locks = \<lparr>FILE_LOCKS = [], POSIX_LOCK_WAITERS = [], POSIX_LOCK_WAITS = []\<rparr>"

definition ten_bytes :: "int \<Rightarrow> Flock" where
  "ten_bytes t = \<lparr>fl_type = t, fl_whence = SEEK_SET, fl_start = 5, fl_len = 10, fl_pid = 0\<rparr>"

lemma no_locks_ok: "posix_ok no_locks"
  by (simp add: posix_ok_def no_locks_def locks_at_def exclusive_entry_def)

lemma ten_bytes_absolute: "to_absolute (ten_bytes t) sz off = Inr (5, 14)"
  by (simp add: to_absolute_def flock_base_def ten_bytes_def fcntl_consts saturating_add_i64_def
      saturating_sub_i64_def clamp_i64_def i64_max_def i64_min_def)

lemma ten_bytes_write:
  "setlk ''f'' (ten_bytes F_WRLCK) 100 0 7 no_locks =
     (Inr 0, no_locks\<lparr>FILE_LOCKS := [(''f'', [\<lparr>l_type = 1, l_start = 5, l_end = 14, l_pid = 7\<rparr>])]\<rparr>, [])"
  by (simp add: setlk_def ten_bytes_absolute)
     (simp add: ten_bytes_def no_locks_def fcntl_consts bt_or_insert_def normalize_locks_def
       merge_push_def wake_posix_waiters_def Let_def)

lemma flock_fits_ten_bytes: "t \<in> {F_RDLCK, F_WRLCK, F_UNLCK} \<Longrightarrow> flock_fits (ten_bytes t)"
  by (auto simp: flock_fits_def ten_bytes_def fits_signed_def fcntl_consts)


text \<open>The user structure survives its encoding, and decoding ignores the padding.\<close>

lemma Flock_roundtrip: "flock_fits fl \<Longrightarrow> Flock_from_bytes (Flock_to_bytes fl) = Some fl"
  by (simp add: Flock_from_bytes_def Flock_to_bytes_def flock_fits_def le_sint_bytes)

theorem record_lock_exclusive_until_owner_acts_witness:
  "let q = \<lparr>rq_path = ''f'', rq_bytes = Flock_to_bytes (ten_bytes F_WRLCK), rq_size = 100, rq_offset = 0, rq_owner = 7\<rparr>;
       q' = \<lparr>rq_path = ''f'', rq_bytes = Flock_to_bytes (ten_bytes F_RDLCK), rq_size = 100, rq_offset = 0, rq_owner = 8\<rparr>;
       s' = fold (lock_apply posix_acquire posix_release_op) [Acquire q', Release (Everywhere 8)]
              (snd (posix_acquire q no_locks))
   in posix_holds s' (''f'', 9) 7 True \<and> (\<forall>p e. posix_holds s' (''f'', 9) p e \<longrightarrow> p = 7)"
proof -
  let ?q = "\<lparr>rq_path = ''f'', rq_bytes = Flock_to_bytes (ten_bytes F_WRLCK), rq_size = 100, rq_offset = 0, rq_owner = 7\<rparr>"
  let ?q' = "\<lparr>rq_path = ''f'', rq_bytes = Flock_to_bytes (ten_bytes F_RDLCK), rq_size = 100, rq_offset = 0, rq_owner = 8\<rparr>"
  have rt: "Flock_from_bytes (Flock_to_bytes (ten_bytes F_WRLCK)) = Some (ten_bytes F_WRLCK)"
    by (rule Flock_roundtrip) (simp add: flock_fits_ten_bytes)
  have "fst (posix_acquire ?q no_locks)"
    by (simp add: posix_acquire_def fcntl_setlk_def rt ten_bytes_write)
  moreover have "posix_covers ?q (''f'', 9)" and "posix_exclusive ?q"
    by (simp_all add: posix_covers_def posix_exclusive_def rt ten_bytes_absolute) (simp_all add: ten_bytes_def)
  ultimately show ?thesis
    using record_lock_exclusive_until_owner_acts [OF no_locks_ok, of ?q "(''f'', 9)"
        "[Acquire ?q', Release (Everywhere 8)]"]
    by (simp add: Let_def)
qed

text \<open>
  C19. Deadlock detection is exact: \<^verbatim>\<open>would_deadlock\<close> answers true precisely when some
  process the caller would wait for already waits, directly or through others, for the caller.
  The depth-first search with its shared visited list always terminates.
\<close>

theorem would_deadlock_exact:
  "would_deadlock s owner ps \<longleftrightarrow> (\<exists>p \<in> set ps. (p, owner) \<in> (wait_edges (POSIX_LOCK_WAITS s))\<^sup>*)"
  by (rule would_deadlock_iff)

text \<open>
  C24. Blocking closes no cycle unless two deadlock tests overlap.  Other tasks may change the tables
  between all the critical sections of a poll of F_SETLKW, as long as they make no cycle themselves;
  only between the poll's own test for a deadlock and the recording of its wait nobody else may record
  a wait.  Then the recorded wait-for graph stays acyclic, whether the poll gets the lock, reports
  EDEADLK or goes to sleep.
\<close>

theorem setlkw_keeps_wait_graph_acyclic:
  assumes "acyclic (wait_edges (POSIX_LOCK_WAITS s))"
    and others: "\<And>i s. acyclic (wait_edges (POSIX_LOCK_WAITS s)) \<Longrightarrow> acyclic (wait_edges (POSIX_LOCK_WAITS (others i s)))"
    and quiet: "\<And>s. wait_edges (POSIX_LOCK_WAITS (others 2 s)) \<subseteq> wait_edges (POSIX_LOCK_WAITS s)"
  shows "acyclic (wait_edges (POSIX_LOCK_WAITS (fst (snd (setlk_blocking_poll path fl sz off owner w others s)))))"
  using no_cycle_setlk_blocking_poll [of s others path fl sz off owner w] assms by (simp add: no_cycle_def)

text \<open>Process 7 gives up another wait while process 8 blocks.\<close>

theorem setlkw_keeps_wait_graph_acyclic_witness:
  "acyclic (wait_edges (POSIX_LOCK_WAITS
     (fst (snd (setlk_blocking_poll ''f'' (ten_bytes F_RDLCK) 100 0 8 3 (\<lambda>i. clear_wait 7)
        (fst (snd (setlk ''f'' (ten_bytes F_WRLCK) 100 0 7 no_locks))))))))"
proof (rule setlkw_keeps_wait_graph_acyclic)
  show "acyclic (wait_edges (POSIX_LOCK_WAITS (fst (snd (setlk ''f'' (ten_bytes F_WRLCK) 100 0 7 no_locks)))))"
    by (simp add: no_locks_def wait_edges_def acyclic_def)
  show "wait_edges (POSIX_LOCK_WAITS (clear_wait 7 s)) \<subseteq> wait_edges (POSIX_LOCK_WAITS s)" for s
    by (simp add: clear_wait_def wait_edges_remove)
qed (rule acyclic_clear_wait)

text \<open>
  The deadlock check and the recording of the wait are separate steps, each under its own
  lock.  If two processes that hold what the other wants both pass the check before either
  has recorded its wait, both waits are recorded and form a cycle that nobody reports.
\<close>

lemma deadlock_check_race:
  assumes "a \<noteq> b"
  shows "let s' = record_wait b [a] (record_wait a [b] s)
    in would_deadlock s' a [b] \<and> would_deadlock s' b [a] \<and> \<not> acyclic (wait_edges (POSIX_LOCK_WAITS s'))"
proof -
  let ?s = "record_wait b [a] (record_wait a [b] s)"
  have e: "(a, b) \<in> wait_edges (POSIX_LOCK_WAITS ?s)" "(b, a) \<in> wait_edges (POSIX_LOCK_WAITS ?s)"
    using assms by (auto simp: record_wait_def wait_edges_def)
  then have "(a, a) \<in> (wait_edges (POSIX_LOCK_WAITS ?s))\<^sup>+"
    by (rule trancl_trans [OF r_into_trancl r_into_trancl])
  with e show ?thesis by (auto simp: Let_def would_deadlock_iff acyclic_def)
qed

lemma deadlock_check_race_witness:
  "\<not> would_deadlock no_locks 1 [2] \<and> \<not> would_deadlock no_locks 2 [1] \<and>
   would_deadlock (record_wait 2 [1] (record_wait 1 [2] no_locks)) 1 [2]"
proof -
  have "\<not> would_deadlock no_locks x [y]" if "x \<noteq> y" for x y
    using that by (simp add: would_deadlock_def wait_path_reaches.simps no_locks_def)
  then show ?thesis using deadlock_check_race [of 1 2 no_locks] by (simp add: Let_def)
qed

lemma fst_setlk:
  assumes "fl_type fl \<in> {F_RDLCK, F_WRLCK}" and "to_absolute fl sz off = Inr (a, b)"
  shows "fst (setlk path fl sz off p s) =
    (if \<exists>x \<in> set (locks_at s path). l_pid x \<noteq> p \<and>
        locks_conflict x \<lparr>l_type = fl_type fl, l_start = a, l_end = b, l_pid = 0\<rparr>
     then Inl EAGAIN else Inr 0)"
proof -
  have "locks_conflict x \<lparr>l_type = fl_type fl, l_start = a, l_end = b, l_pid = p\<rparr> =
    locks_conflict x \<lparr>l_type = fl_type fl, l_start = a, l_end = b, l_pid = 0\<rparr>" for x
    by (simp add: locks_conflict_def)
  moreover have "F_UNLCK \<notin> {F_RDLCK, F_WRLCK}" by (simp add: fcntl_consts)
  ultimately show ?thesis
    using assms
    by (auto simp: setlk_def Let_def setlk_entry list_ex_iff split_beta simp del: bt_get_or_insert)
qed

text \<open>
  F_GETLK answers for the request F_SETLK would decide: it reports F_UNLCK exactly when the
  same request would be granted; otherwise F_SETLK would return EAGAIN and the answer describes
  a lock of another process in the table, in absolute coordinates.
\<close>

lemma getlk_agrees_with_setlk:
  assumes "posix_ok s" and "getlk s path fl sz off p = (Inr n, fl')"
  shows "fst (setlk path fl sz off p s) = (if fl_type fl' = F_UNLCK then Inr 0 else Inl EAGAIN)
    \<and> (fl_type fl' \<noteq> F_UNLCK \<longrightarrow>
        (\<exists>x \<in> set (locks_at s path). l_pid x \<noteq> p \<and> l_pid x = fl_pid fl' \<and> l_type x = fl_type fl' \<and>
           l_start x = fl_start fl' \<and> fl_whence fl' = SEEK_SET \<and>
           fl_len fl' = (if l_end x = i64_max then 0 else l_end x - l_start x + 1)))"
proof -
  obtain a b where ab: "to_absolute fl sz off = Inr (a, b)" and ty: "fl_type fl \<in> {F_RDLCK, F_WRLCK}"
    using assms(2) by (auto simp: getlk_def split: if_splits sum.splits)
  define C where "C = filter (\<lambda>x. l_pid x \<noteq> p \<and>
    locks_conflict x \<lparr>l_type = fl_type fl, l_start = a, l_end = b, l_pid = 0\<rparr>) (locks_at s path)"
  have set: "fst (setlk path fl sz off p s) = (if C = [] then Inr 0 else Inl EAGAIN)"
    using fst_setlk [OF ty ab, of path p s] by (auto simp: C_def filter_empty_conv)
  have get: "fl' = (case min_by_key (\<lambda>l. (l_start l, l_end l)) C of
      Some x \<Rightarrow> fl\<lparr>fl_type := l_type x, fl_pid := l_pid x, fl_start := l_start x,
        fl_len := (if l_end x = i64_max then 0 else l_end x - l_start x + 1), fl_whence := SEEK_SET\<rparr>
    | None \<Rightarrow> fl\<lparr>fl_type := F_UNLCK\<rparr>)"
    using assms(2) ty ab by (auto simp: getlk_def Let_def C_def locks_at_def split: option.splits)
  show ?thesis
  proof (cases "min_by_key (\<lambda>l. (l_start l, l_end l)) C")
    case None
    then show ?thesis using set get by simp
  next
    case (Some x)
    have x: "x \<in> set C" using min_by_key_SomeD [OF Some] by simp
    then have "C \<noteq> []" by auto
    moreover from x have xl: "x \<in> set (locks_at s path)" "l_pid x \<noteq> p" by (simp_all add: C_def)
    moreover have "lock_wf x" using assms(1) xl(1) by (simp add: posix_ok_def)
    then have "l_type x \<noteq> F_UNLCK" by (auto simp: lock_wf_def fcntl_consts)
    ultimately show ?thesis using set get Some by (auto intro!: bexI [of _ x])
  qed
qed

lemma getlk_agrees_with_setlk_witness:
  "let s = fst (snd (setlk ''f'' (ten_bytes F_WRLCK) 100 0 7 no_locks))
   in fst (setlk ''f'' (ten_bytes F_RDLCK) 100 0 8 s) = Inl EAGAIN
      \<and> fl_pid (snd (getlk s ''f'' (ten_bytes F_RDLCK) 100 0 8)) = 7"
proof -
  let ?s = "fst (snd (setlk ''f'' (ten_bytes F_WRLCK) 100 0 7 no_locks))"
  have ok: "posix_ok ?s"
    using posix_ok_setlk [OF no_locks_ok, of "ten_bytes F_WRLCK" "''f''" 100 0 7]
    by (simp add: ten_bytes_def is_i64_def i64_min_def i64_max_def)
  have g: "getlk ?s ''f'' (ten_bytes F_RDLCK) 100 0 8 = (Inr 0,
      \<lparr>fl_type = 1, fl_whence = 0, fl_start = 5, fl_len = 10, fl_pid = 7\<rparr>)"
    by (simp add: getlk_def ten_bytes_absolute ten_bytes_write)
       (simp add: ten_bytes_def no_locks_def locks_conflict_def fcntl_consts i64_max_def Let_def)
  show ?thesis
    using getlk_agrees_with_setlk [OF ok g] g by (simp add: F_UNLCK_def Let_def)
qed

text \<open>
  A negative length locks one byte too many at the end and one too few at the start: for a
  request of length -n at offset a, the range is a-n+1 .. a, although the comment at
  \<^verbatim>\<open>to_absolute\<close> says that it extends back before the start (a-n .. a-1).
\<close>

lemma negative_length_range:
  assumes "fl_whence fl = SEEK_SET" and "fl_len fl < 0" and "is_i64 (fl_start fl)"
    and "0 \<le> fl_start fl + fl_len fl"
  shows "to_absolute fl sz off = Inr (fl_start fl + fl_len fl + 1, fl_start fl)"
  using assms
  by (auto simp: to_absolute_def flock_base_def saturating_add_i64_def clamp_i64_def is_i64_def
      i64_max_def i64_min_def Let_def fcntl_consts)

lemma negative_length_range_witness:
  "to_absolute \<lparr>fl_type = F_WRLCK, fl_whence = SEEK_SET, fl_start = 10, fl_len = -4, fl_pid = 0\<rparr> 0 0
     = Inr (7, 10)"
  using negative_length_range [of "\<lparr>fl_type = F_WRLCK, fl_whence = SEEK_SET, fl_start = 10, fl_len = -4, fl_pid = 0\<rparr>" 0 0]
  by (simp add: is_i64_def i64_min_def i64_max_def)

end
