(* ===== verification/Whole_File_Locks.thy ===== *)
theory Whole_File_Locks
  imports Posix_Locks
begin

unbundle bit_operations_syntax

text \<open>
  \<^verbatim>\<open>os/src/syscall/fs/file_lock/bsd_flock.rs\<close> and \<^verbatim>\<open>lease.rs\<close>: the locks of
  \<^verbatim>\<open>flock(2)\<close>, owned by open file descriptions, and the leases of
  \<^verbatim>\<open>fcntl(F_SETLEASE)\<close>, owned by processes.  Both interpret the contract of an
  advisory lock table.
\<close>

section \<open>flock\<close>

definition LOCK_SH :: "32 word" where "LOCK_SH = 1"
definition LOCK_EX :: "32 word" where "LOCK_EX = 2"
definition LOCK_NB :: "32 word" where "LOCK_NB = 4"
definition LOCK_UN :: "32 word" where "LOCK_UN = 8"

lemmas flock_consts = LOCK_SH_def LOCK_EX_def LOCK_NB_def LOCK_UN_def

record FlockOwner =
  lock_type :: "32 word"
  file_ptr :: nat

record FlockInodeState =
  flock_locks :: "FlockOwner list"
  flock_waker :: atomic_waker

type_synonym flock_table = "(string, FlockInodeState) btree_map"

definition flock_try_lock :: "string \<Rightarrow> nat \<Rightarrow> 32 word \<Rightarrow> flock_table \<Rightarrow> unit sys_result \<times> flock_table" where
  "flock_try_lock path ptr ty table =
     (let table1 = bt_or_insert path \<lparr>flock_locks = [], flock_waker = None\<rparr> table;
          state = the (bt_get table1 path);
          state1 = state\<lparr>flock_locks := filter (\<lambda>e. file_ptr e \<noteq> ptr) (flock_locks state)\<rparr>
      in if list_ex (\<lambda>existing. lock_type existing = LOCK_EX \<or> ty = LOCK_EX) (flock_locks state1)
         then (Inl EAGAIN, bt_insert path state1 table1)
         else (Inr (), bt_insert path
           (state1\<lparr>flock_locks := flock_locks state1 @ [\<lparr>lock_type = ty, file_ptr = ptr\<rparr>]\<rparr>) table1))"

definition flock_unlock :: "string \<Rightarrow> nat \<Rightarrow> flock_table \<Rightarrow> flock_table \<times> waker list" where
  "flock_unlock path ptr table =
     (case bt_get table path of
        None \<Rightarrow> (table, [])
      | Some state \<Rightarrow>
          (let (slot, woken) = AtomicWaker_wake (flock_waker state)
           in (bt_insert path \<lparr>flock_locks = filter (\<lambda>e. file_ptr e \<noteq> ptr) (flock_locks state),
                              flock_waker = slot\<rparr> table, woken)))"

definition flock_register_waker :: "string \<Rightarrow> waker \<Rightarrow> flock_table \<Rightarrow> flock_table" where
  "flock_register_waker path w table =
     (case bt_get table path of
        None \<Rightarrow> table
      | Some state \<Rightarrow> bt_insert path (state\<lparr>flock_waker := AtomicWaker_register w (flock_waker state)\<rparr>) table)"

text \<open>
  The system call.  \<open>fd_file\<close> is what the descriptor table answers: the inode path and the
  identity of the open file description, or an error.
\<close>

definition flock_poll ::
  "string \<Rightarrow> nat \<Rightarrow> 32 word \<Rightarrow> waker \<Rightarrow> flock_table \<Rightarrow> nat sys_result poll \<times> flock_table \<times> waker list" where
  "flock_poll path ptr ty w table =
     (case flock_try_lock path ptr ty table of
        (Inr _, t1) \<Rightarrow> (Ready (Inr 0), t1, [])
      | (Inl e, t1) \<Rightarrow>
          if e = EAGAIN then (Pending, flock_register_waker path w t1, [])
          else (Ready (Inl e), t1, []))"

definition sys_flock ::
  "(string \<times> nat) sys_result \<Rightarrow> 32 word \<Rightarrow> waker \<Rightarrow> flock_table \<Rightarrow> flock_table wait_event list \<Rightarrow>
   syscall_ret option \<times> flock_table \<times> waker list" where
  "sys_flock fd_file op w table evs =
     (let valid_mask = LOCK_SH OR LOCK_EX OR LOCK_NB OR LOCK_UN in
      if op AND NOT valid_mask \<noteq> 0 then (Some (Inl EINVAL), table, [])
      else case fd_file of
        Inl e \<Rightarrow> (Some (Inl e), table, [])
      | Inr (inode_path, ptr) \<Rightarrow>
          if op AND LOCK_UN \<noteq> 0 then
            (let (t1, woken) = flock_unlock inode_path ptr table in (Some (Inr 0), t1, woken))
          else
            (let ty = op AND (LOCK_SH OR LOCK_EX) in
             if ty \<noteq> LOCK_SH \<and> ty \<noteq> LOCK_EX then (Some (Inl EINVAL), table, [])
             else if op AND LOCK_NB \<noteq> 0 then
               (let (r, t1) = flock_try_lock inode_path ptr ty table
                in (Some (map_sum id (\<lambda>_. 0) r), t1, []))
             else block_on_interruptible (\<lambda>_. flock_poll inode_path ptr ty w) table evs))"

section \<open>Leases\<close>

record FileLease =
  ls_type :: int
  ls_pid :: int
  break_write_requested :: bool
  break_notified :: bool

type_synonym lease_table = "(string, FileLease list) btree_map"

definition file_leases_conflict :: "FileLease \<Rightarrow> FileLease \<Rightarrow> bool" where
  "file_leases_conflict existing new_lease \<longleftrightarrow>
     ls_pid existing \<noteq> ls_pid new_lease \<and> (ls_type existing = F_WRLCK \<or> ls_type new_lease = F_WRLCK)"

definition lease_breaks_on_access :: "int \<Rightarrow> bool \<Rightarrow> bool" where
  "lease_breaks_on_access lease_type write_access \<longleftrightarrow> lease_type = F_WRLCK \<or> write_access"

text \<open>One step of the \<^verbatim>\<open>filter_map\<close>: the updated lease and the process to notify.\<close>

definition notify_one :: "int \<Rightarrow> bool \<Rightarrow> FileLease \<Rightarrow> FileLease \<times> int option" where
  "notify_one requester_pid write_access lease =
     (if ls_pid lease = requester_pid \<or> \<not> lease_breaks_on_access (ls_type lease) write_access
      then (lease, None)
      else
        (let lease1 = lease\<lparr>break_write_requested := break_write_requested lease \<or> write_access\<rparr>
         in if break_notified lease1 then (lease1, None)
            else (lease1\<lparr>break_notified := True\<rparr>, Some (ls_pid lease1))))"

text \<open>The second component lists the processes that are sent SIGIO.\<close>

definition notify_file_lease_break :: "string \<Rightarrow> int \<Rightarrow> bool \<Rightarrow> lease_table \<Rightarrow> lease_table \<times> int list" where
  "notify_file_lease_break path requester_pid write_access leases =
     (case bt_get leases path of
        None \<Rightarrow> (leases, [])
      | Some entry \<Rightarrow>
          (bt_insert path (map (fst \<circ> notify_one requester_pid write_access) entry) leases,
           filter (\<lambda>pid. pid > 0)
             (List.map_filter (snd \<circ> notify_one requester_pid write_access) entry)))"

definition set_file_lease :: "string \<Rightarrow> int \<Rightarrow> int \<Rightarrow> bool \<Rightarrow> lease_table \<Rightarrow> syscall_ret \<times> lease_table" where
  "set_file_lease path lease_type owner_pid fd_opened_for_write leases =
     (if lease_type \<noteq> F_RDLCK \<and> lease_type \<noteq> F_WRLCK \<and> lease_type \<noteq> F_UNLCK then (Inl EINVAL, leases)
      else if lease_type = F_RDLCK \<and> fd_opened_for_write then (Inl EAGAIN, leases)
      else
        (let leases1 = bt_or_insert path [] leases; entry = the (bt_get leases1 path) in
         if lease_type = F_UNLCK then
           (let entry1 = filter (\<lambda>lease. ls_pid lease \<noteq> owner_pid) entry
            in (Inr 0, if entry1 = [] then bt_remove path leases1 else bt_insert path entry1 leases1))
         else
           (let new_lease = \<lparr>ls_type = lease_type, ls_pid = owner_pid,
                  break_write_requested = False, break_notified = False\<rparr> in
            if list_ex (\<lambda>existing. file_leases_conflict existing new_lease) entry then (Inl EAGAIN, leases1)
            else case position (\<lambda>lease. ls_pid lease = owner_pid) entry of
              Some i \<Rightarrow>
                (let existing = entry ! i in
                 if ls_type existing = F_WRLCK \<and> lease_type = F_RDLCK \<and> break_write_requested existing
                 then (Inl EAGAIN, leases1)
                 else (Inr 0, bt_insert path (entry[i := existing\<lparr>ls_type := lease_type,
                         break_write_requested := False, break_notified := False\<rparr>]) leases1))
            | None \<Rightarrow> (Inr 0, bt_insert path (entry @ [new_lease]) leases1))))"

definition get_file_lease :: "string \<Rightarrow> int \<Rightarrow> lease_table \<Rightarrow> int" where
  "get_file_lease path owner_pid leases =
     (case bt_get leases path of
        None \<Rightarrow> F_UNLCK
      | Some entry \<Rightarrow>
          (case find (\<lambda>lease. ls_pid lease = owner_pid) entry of
             None \<Rightarrow> F_UNLCK | Some lease \<Rightarrow> ls_type lease))"

definition release_file_leases :: "string \<Rightarrow> int \<Rightarrow> lease_table \<Rightarrow> lease_table" where
  "release_file_leases path owner_pid leases =
     (case bt_get leases path of
        None \<Rightarrow> leases
      | Some entry \<Rightarrow>
          (let entry1 = filter (\<lambda>lease. ls_pid lease \<noteq> owner_pid) entry
           in if entry1 = [] then bt_remove path leases else bt_insert path entry1 leases))"

definition release_file_leases_by_owner :: "int \<Rightarrow> lease_table \<Rightarrow> lease_table" where
  "release_file_leases_by_owner owner_pid leases =
     filter (\<lambda>e. snd e \<noteq> [])
       (map (\<lambda>(path, entry). (path, filter (\<lambda>lease. ls_pid lease \<noteq> owner_pid) entry)) leases)"

section \<open>The contract of flock\<close>

definition flocks_at :: "flock_table \<Rightarrow> string \<Rightarrow> FlockOwner list" where
  "flocks_at t path = (case bt_get t path of None \<Rightarrow> [] | Some st \<Rightarrow> flock_locks st)"

definition flock_ok :: "flock_table \<Rightarrow> bool" where
  "flock_ok t \<longleftrightarrow> (\<forall>path. \<forall>l \<in> set (flocks_at t path). \<forall>l' \<in> set (flocks_at t path).
     (file_ptr l = file_ptr l' \<longrightarrow> l = l') \<and> (file_ptr l \<noteq> file_ptr l' \<longrightarrow> lock_type l \<noteq> LOCK_EX))"

definition flock_holds :: "flock_table \<Rightarrow> string \<Rightarrow> nat \<Rightarrow> bool \<Rightarrow> bool" where
  "flock_holds t path ptr e \<longleftrightarrow>
     \<lparr>lock_type = (if e then LOCK_EX else LOCK_SH), file_ptr = ptr\<rparr> \<in> set (flocks_at t path)"

record flock_request =
  fq_path :: string
  fq_ptr :: nat
  fq_type :: "32 word"

definition flock_acquire :: "flock_request \<Rightarrow> flock_table \<Rightarrow> bool \<times> flock_table" where
  "flock_acquire q t =
     (case flock_try_lock (fq_path q) (fq_ptr q) (fq_type q) t of
        (Inr _, t1) \<Rightarrow> (True, t1) | (Inl _, t1) \<Rightarrow> (False, t1))"

definition flock_covers :: "flock_request \<Rightarrow> string \<Rightarrow> bool" where
  "flock_covers q path \<longleftrightarrow> path = fq_path q \<and> (fq_type q = LOCK_SH \<or> fq_type q = LOCK_EX)"

definition flock_release :: "string \<times> nat \<Rightarrow> flock_table \<Rightarrow> flock_table" where
  "flock_release x t = fst (flock_unlock (fst x) (snd x) t)"

lemma flocks_at_try_lock:
  "flocks_at (snd (flock_try_lock path ptr ty t)) path' =
     (if path' = path then
        (let rest = filter (\<lambda>e. file_ptr e \<noteq> ptr) (flocks_at t path) in
         if list_ex (\<lambda>e. lock_type e = LOCK_EX \<or> ty = LOCK_EX) rest then rest
         else rest @ [\<lparr>lock_type = ty, file_ptr = ptr\<rparr>])
      else flocks_at t path')"
  by (auto simp: flock_try_lock_def Let_def flocks_at_def split: option.splits)

lemma flock_try_lock_granted:
  "fst (flock_try_lock path ptr ty t) = Inr () \<longleftrightarrow>
     \<not> list_ex (\<lambda>e. lock_type e = LOCK_EX \<or> ty = LOCK_EX) (filter (\<lambda>e. file_ptr e \<noteq> ptr) (flocks_at t path))"
  by (auto simp: flock_try_lock_def Let_def flocks_at_def split: option.splits)

lemma flocks_at_unlock:
  "flocks_at (fst (flock_unlock path ptr t)) path' =
     (if path' = path then filter (\<lambda>e. file_ptr e \<noteq> ptr) (flocks_at t path) else flocks_at t path')"
  by (auto simp: flock_unlock_def flocks_at_def split: option.splits prod.splits)

lemma flock_acquire_simps:
  "fst (flock_acquire q t) \<longleftrightarrow> fst (flock_try_lock (fq_path q) (fq_ptr q) (fq_type q) t) = Inr ()"
  "snd (flock_acquire q t) = snd (flock_try_lock (fq_path q) (fq_ptr q) (fq_type q) t)"
  by (auto simp: flock_acquire_def split: prod.splits sum.splits)

interpretation flock: advisory_locks flock_ok flock_holds flock_acquire flock_release fq_ptr flock_covers
  "\<lambda>q. fq_type q = LOCK_EX" snd "\<lambda>x path. path = fst x"
proof
  fix s r p p' e assume "flock_ok s" "flock_holds s r p True" "flock_holds s r p' e"
  then show "p' = p" by (force simp: flock_ok_def flock_holds_def)
next
  fix s q assume "flock_ok s"
  then show "flock_ok (snd (flock_acquire q s))"
    by (auto simp: flock_ok_def flock_acquire_simps flocks_at_try_lock Let_def list_ex_iff)
next
  fix s x assume "flock_ok s"
  then show "flock_ok (flock_release x s)"
    by (auto simp: flock_ok_def flock_release_def flocks_at_unlock)
next
  fix s q r assume "fst (flock_acquire q s)" "flock_covers q r"
  then show "flock_holds (snd (flock_acquire q s)) r (fq_ptr q) (fq_type q = LOCK_EX)"
    by (auto simp: flock_holds_def flock_covers_def flock_acquire_simps flock_try_lock_granted
        flocks_at_try_lock Let_def)
qed (auto simp: flock_holds_def flock_acquire_simps flock_release_def flocks_at_try_lock flocks_at_unlock
    Let_def split: if_splits)

section \<open>The contract of leases\<close>

definition leases_at :: "lease_table \<Rightarrow> string \<Rightarrow> FileLease list" where
  "leases_at t path = (case bt_get t path of None \<Rightarrow> [] | Some entry \<Rightarrow> entry)"

definition lease_entry_ok :: "FileLease list \<Rightarrow> bool" where
  "lease_entry_ok ls \<longleftrightarrow> distinct (map ls_pid ls) \<and>
     (\<forall>l \<in> set ls. ls_type l \<in> {F_RDLCK, F_WRLCK} \<and>
        (\<forall>l' \<in> set ls. ls_pid l \<noteq> ls_pid l' \<longrightarrow> ls_type l \<noteq> F_WRLCK))"

definition lease_ok :: "lease_table \<Rightarrow> bool" where
  "lease_ok t \<longleftrightarrow> bt_ok t \<and> (\<forall>path. lease_entry_ok (leases_at t path))"

definition lease_holds :: "lease_table \<Rightarrow> string \<Rightarrow> int \<Rightarrow> bool \<Rightarrow> bool" where
  "lease_holds t path pid e \<longleftrightarrow>
     (\<exists>l \<in> set (leases_at t path). ls_pid l = pid \<and> ls_type l = (if e then F_WRLCK else F_RDLCK))"

record lease_request =
  lq_path :: string
  lq_type :: int
  lq_pid :: int
  lq_write_fd :: bool

definition lease_acquire :: "lease_request \<Rightarrow> lease_table \<Rightarrow> bool \<times> lease_table" where
  "lease_acquire q t =
     (case set_file_lease (lq_path q) (lq_type q) (lq_pid q) (lq_write_fd q) t of
        (Inr _, t1) \<Rightarrow> (True, t1) | (Inl _, t1) \<Rightarrow> (False, t1))"

definition lease_covers :: "lease_request \<Rightarrow> string \<Rightarrow> bool" where
  "lease_covers q path \<longleftrightarrow> path = lq_path q \<and> lq_type q \<noteq> F_UNLCK"

fun lease_release :: "posix_release \<Rightarrow> lease_table \<Rightarrow> lease_table" where
  "lease_release (OnFile path p) t = release_file_leases path p t"
| "lease_release (Everywhere p) t = release_file_leases_by_owner p t"

fun lease_scope :: "posix_release \<Rightarrow> string \<Rightarrow> bool" where
  "lease_scope (OnFile path p) r = (r = path)"
| "lease_scope (Everywhere p) r = True"

lemma leases_at_release:
  "leases_at (release_file_leases path p t) path' =
     (if path' = path then filter (\<lambda>l. ls_pid l \<noteq> p) (leases_at t path) else leases_at t path')"
  "bt_ok t \<Longrightarrow> bt_ok (release_file_leases path p t)"
  by (auto simp: release_file_leases_def leases_at_def Let_def split: option.splits)

lemma leases_at_release_all:
  assumes "bt_ok t"
  shows "leases_at (release_file_leases_by_owner p t) path = filter (\<lambda>l. ls_pid l \<noteq> p) (leases_at t path)"
    and "bt_ok (release_file_leases_by_owner p t)"
  using assms
    bt_get_filter_val [of "map (\<lambda>(path, entry). (path, filter (\<lambda>lease. ls_pid lease \<noteq> p) entry)) t"
      "\<lambda>e. e \<noteq> []" path]
  by (auto simp: release_file_leases_by_owner_def leases_at_def bt_ok_mapval bt_get_mapval
      split: option.splits)

lemma lease_entry_ok_filter: "lease_entry_ok ls \<Longrightarrow> lease_entry_ok (filter P ls)"
  by (auto simp: lease_entry_ok_def distinct_map_filter)

text \<open>The outcomes of \<^verbatim>\<open>set_file_lease\<close> on the list of one file.\<close>

lemma set_file_lease_cases:
  obtains (refused) e where "set_file_lease path ty p wr t = (Inl e, snd (set_file_lease path ty p wr t))"
      and "\<And>path'. leases_at (snd (set_file_lease path ty p wr t)) path' = leases_at t path'"
      and "bt_ok t \<longrightarrow> bt_ok (snd (set_file_lease path ty p wr t))"
  | (unlocked) "set_file_lease path ty p wr t = (Inr 0, snd (set_file_lease path ty p wr t))" and "ty = F_UNLCK"
      and "\<And>path'. leases_at (snd (set_file_lease path ty p wr t)) path' =
        (if path' = path then filter (\<lambda>l. ls_pid l \<noteq> p) (leases_at t path) else leases_at t path')"
      and "bt_ok t \<longrightarrow> bt_ok (snd (set_file_lease path ty p wr t))"
  | (granted) ls where "set_file_lease path ty p wr t = (Inr 0, snd (set_file_lease path ty p wr t))"
      and "ty \<in> {F_RDLCK, F_WRLCK}"
      and "\<And>path'. leases_at (snd (set_file_lease path ty p wr t)) path' = (if path' = path then ls else leases_at t path')"
      and "\<forall>l \<in> set (leases_at t path). ls_pid l \<noteq> p \<longrightarrow> ls_type l \<noteq> F_WRLCK \<and> ty \<noteq> F_WRLCK"
      and "position (\<lambda>l. ls_pid l = p) (leases_at t path) = None \<and>
          ls = leases_at t path @ [\<lparr>ls_type = ty, ls_pid = p, break_write_requested = False, break_notified = False\<rparr>] \<or>
        (\<exists>i. position (\<lambda>l. ls_pid l = p) (leases_at t path) = Some i \<and>
          ls = (leases_at t path)[i := (leases_at t path ! i)\<lparr>ls_type := ty, break_write_requested := False, break_notified := False\<rparr>])"
      and "bt_ok t \<longrightarrow> bt_ok (snd (set_file_lease path ty p wr t))"
proof -
  have ent: "the (bt_get (bt_or_insert path [] t) path) = leases_at t path"
    by (simp add: leases_at_def split: option.splits)
  have same: "leases_at (bt_or_insert path [] t) path' = leases_at t path'" for path'
    by (auto simp: leases_at_def split: option.splits if_splits)
  note defs = set_file_lease_def Let_def ent
  let ?nl = "\<lparr>ls_type = ty, ls_pid = p, break_write_requested = False, break_notified = False\<rparr>"
  have at: "leases_at (bt_insert path ls (bt_or_insert path [] t)) path' = (if path' = path then ls else leases_at t path')"
    for ls path' using same by (simp add: leases_at_def)
  consider (a) "ty \<notin> {F_RDLCK, F_WRLCK, F_UNLCK}" | (a') "ty = F_RDLCK" "wr"
    | (b) "ty = F_UNLCK" | (c) "ty \<in> {F_RDLCK, F_WRLCK}" "\<not> (ty = F_RDLCK \<and> wr)" by blast
  then show thesis
  proof cases
    case a
    then show thesis by (intro refused [of EINVAL]) (auto simp: set_file_lease_def)
  next
    case a'
    then show thesis by (intro refused [of EAGAIN]) (auto simp: set_file_lease_def)
  next
    case b
    then show thesis
      by (intro unlocked) (auto simp: set_file_lease_def Let_def leases_at_def fcntl_consts split: option.splits)
  next
    case c
    then have ty: "ty \<noteq> F_UNLCK" by (auto simp: fcntl_consts)
    show thesis
    proof (cases "list_ex (\<lambda>e. file_leases_conflict e ?nl) (leases_at t path)")
      case True
      then show thesis using c ty by (intro refused) (auto simp: defs same simp del: bt_get_or_insert)
    next
      case nc: False
      then have sh: "\<forall>l \<in> set (leases_at t path). ls_pid l \<noteq> p \<longrightarrow> ls_type l \<noteq> F_WRLCK \<and> ty \<noteq> F_WRLCK"
        by (auto simp: list_ex_iff file_leases_conflict_def)
      show thesis
      proof (cases "position (\<lambda>l. ls_pid l = p) (leases_at t path)")
        case None
        then show thesis
          using c ty nc sh
          by (intro granted [of "leases_at t path @ [?nl]"])
             (auto simp: defs at simp del: bt_get_or_insert position_None)
      next
        case (Some i)
        show thesis
        proof (cases "ls_type (leases_at t path ! i) = F_WRLCK \<and> ty = F_RDLCK \<and> break_write_requested (leases_at t path ! i)")
          case True
          then show thesis
            using c ty nc Some by (intro refused) (auto simp: defs same simp del: bt_get_or_insert)
        next
          case False
          then show thesis
            using c ty nc Some sh
            by (intro granted [of "(leases_at t path)[i := (leases_at t path ! i)\<lparr>ls_type := ty,
                  break_write_requested := False, break_notified := False\<rparr>]"])
               (auto simp: defs at simp del: bt_get_or_insert)
        qed
      qed
    qed
  qed
qed

lemma lease_entry_ok_granted:
  assumes ok: "lease_entry_ok es" and ty: "ty \<in> {F_RDLCK, F_WRLCK}"
    and sh: "\<forall>l \<in> set es. ls_pid l \<noteq> p \<longrightarrow> ls_type l \<noteq> F_WRLCK \<and> ty \<noteq> F_WRLCK"
    and ls: "position (\<lambda>l. ls_pid l = p) es = None \<and>
        ls = es @ [\<lparr>ls_type = ty, ls_pid = p, break_write_requested = False, break_notified = False\<rparr>] \<or>
      (\<exists>i. position (\<lambda>l. ls_pid l = p) es = Some i \<and>
        ls = es[i := (es ! i)\<lparr>ls_type := ty, break_write_requested := False, break_notified := False\<rparr>])"
  shows "lease_entry_ok ls"
    and "\<And>q ty'. (\<exists>l \<in> set ls. ls_pid l = q \<and> ls_type l = ty') \<longleftrightarrow>
      (if q = p then ty' = ty else \<exists>l \<in> set es. ls_pid l = q \<and> ls_type l = ty')"
proof -
  obtain new where new: "ls_pid new = p" "ls_type new = ty" and pids: "distinct (map ls_pid ls)"
    and set: "set ls = insert new {l \<in> set es. ls_pid l \<noteq> p}"
    using ls
  proof
    let ?n = "\<lparr>ls_type = ty, ls_pid = p, break_write_requested = False, break_notified = False\<rparr>"
    assume "position (\<lambda>l. ls_pid l = p) es = None \<and> ls = es @ [?n]"
    then show thesis using ok by (intro that [of ?n]) (auto simp: lease_entry_ok_def)
  next
    assume "\<exists>i. position (\<lambda>l. ls_pid l = p) es = Some i \<and>
        ls = es[i := (es ! i)\<lparr>ls_type := ty, break_write_requested := False, break_notified := False\<rparr>]"
    then obtain i where i: "i < length es" "ls_pid (es ! i) = p"
      and l: "ls = es[i := (es ! i)\<lparr>ls_type := ty, break_write_requested := False, break_notified := False\<rparr>]"
      by (auto dest: position_SomeD)
    have d: "distinct (map ls_pid es)" using ok by (simp add: lease_entry_ok_def)
    have "map ls_pid ls = map ls_pid es" using i by (simp add: l map_update list_update_same_conv)
    moreover have "x = es ! i" if "x \<in> set es" "ls_pid x = p" for x
      using that i d by (metis distinct_map inj_onD nth_mem)
    then have "set es - {es ! i} = {x \<in> set es. ls_pid x \<noteq> p}" using i by auto
    then have "set ls = insert ((es ! i)\<lparr>ls_type := ty, break_write_requested := False, break_notified := False\<rparr>)
        {x \<in> set es. ls_pid x \<noteq> p}"
      using i d by (simp add: l set_update_distinct distinct_map)
    ultimately show thesis using d i by (intro that) auto
  qed
  show "lease_entry_ok ls"
    using pids set new sh ty ok by (auto simp: lease_entry_ok_def)
  show "(\<exists>l \<in> set ls. ls_pid l = q \<and> ls_type l = ty') \<longleftrightarrow>
      (if q = p then ty' = ty else \<exists>l \<in> set es. ls_pid l = q \<and> ls_type l = ty')" for q ty'
    using set new by auto
qed

lemma lease_acquire_simps:
  "fst (lease_acquire q t) \<longleftrightarrow> (\<exists>n. fst (set_file_lease (lq_path q) (lq_type q) (lq_pid q) (lq_write_fd q) t) = Inr n)"
  "snd (lease_acquire q t) = snd (set_file_lease (lq_path q) (lq_type q) (lq_pid q) (lq_write_fd q) t)"
  by (auto simp: lease_acquire_def split: prod.splits sum.splits)

lemma lease_ok_set:
  assumes "lease_ok t"
  shows "lease_ok (snd (set_file_lease path ty p wr t))"
proof (cases rule: set_file_lease_cases [of path ty p wr t])
  case (granted ls)
  then show ?thesis
    using assms lease_entry_ok_granted(1) [OF _ granted(2,4,5)] by (auto simp: lease_ok_def)
qed (use assms in \<open>auto simp: lease_ok_def lease_entry_ok_filter\<close>)

lemma lease_holds_set_other:
  assumes "lease_ok t" and "q \<noteq> p"
  shows "lease_holds (snd (set_file_lease path ty p wr t)) r q e = lease_holds t r q e"
proof (cases rule: set_file_lease_cases [of path ty p wr t])
  case (granted ls)
  have "lease_entry_ok (leases_at t path)" using assms(1) by (simp add: lease_ok_def)
  from lease_entry_ok_granted(2) [OF this granted(2,4,5), of q] assms(2) granted(3) show ?thesis
    by (auto simp: lease_holds_def)
qed (use assms in \<open>auto simp: lease_holds_def\<close>)

lemma lease_holds_set_own:
  assumes "lease_ok t" and "fst (set_file_lease path ty p wr t) = Inr n" and "ty \<noteq> F_UNLCK"
  shows "lease_holds (snd (set_file_lease path ty p wr t)) path p (ty = F_WRLCK)"
proof (cases rule: set_file_lease_cases [of path ty p wr t])
  case (granted ls)
  have "lease_entry_ok (leases_at t path)" using assms(1) by (simp add: lease_ok_def)
  from lease_entry_ok_granted(2) [OF this granted(2,4,5), of p] granted(2,3) show ?thesis
    by (auto simp: lease_holds_def)
qed (use assms in \<open>auto dest: arg_cong [of _ _ fst]\<close>)

interpretation lease: advisory_locks lease_ok lease_holds lease_acquire lease_release lq_pid lease_covers
  "\<lambda>q. lq_type q = F_WRLCK" posix_releaser lease_scope
proof
  fix s r p p' e assume a: "lease_ok s" "lease_holds s r p True" "lease_holds s r p' e"
  from a(2,3) obtain l l' where "l \<in> set (leases_at s r)" "ls_pid l = p" "ls_type l = F_WRLCK"
    "l' \<in> set (leases_at s r)" "ls_pid l' = p'" unfolding lease_holds_def if_True by blast
  moreover have "lease_entry_ok (leases_at s r)" using a(1) by (simp add: lease_ok_def)
  ultimately show "p' = p" unfolding lease_entry_ok_def by metis
next
  fix s x assume "lease_ok s"
  then show "lease_ok (lease_release x s)"
    by (cases x) (auto simp: lease_ok_def leases_at_release leases_at_release_all lease_entry_ok_filter)
next
  fix s x r p e assume "lease_ok s"
  then show "lease_holds (lease_release x s) r p e \<longleftrightarrow> lease_holds s r p e \<and> \<not> (p = posix_releaser x \<and> lease_scope x r)"
    by (cases x) (auto simp: lease_ok_def lease_holds_def leases_at_release leases_at_release_all)
next
  fix s q r assume "lease_ok s" "fst (lease_acquire q s)" "lease_covers q r"
  then show "lease_holds (snd (lease_acquire q s)) r (lq_pid q) (lq_type q = F_WRLCK)"
    unfolding lease_acquire_simps lease_covers_def by (elim exE conjE) (simp add: lease_holds_set_own)
qed (simp_all add: lease_acquire_simps lease_ok_set lease_holds_set_other)

section \<open>Properties\<close>

text \<open>
  C29. An exclusive flock stays exclusive until its open file description acts: after any
  sequence of lock and unlock calls on other descriptions, this description still holds the
  lock and no other one holds any lock on the file.
\<close>

theorem flock_exclusive_until_owner_acts:
  assumes "flock_ok t" and "fst (flock_acquire q t)" and "flock_covers q path" and "fq_type q = LOCK_EX"
    and "\<forall>a \<in> set ops. lock_actor fq_ptr snd a \<noteq> fq_ptr q"
  shows "let t' = fold (lock_apply flock_acquire flock_release) ops (snd (flock_acquire q t))
    in flock_holds t' path (fq_ptr q) True \<and> (\<forall>ptr e. flock_holds t' path ptr e \<longrightarrow> ptr = fq_ptr q)"
  unfolding Let_def
  by (intro conjI allI flock.exclusive_until_owner_acts [OF assms])

theorem flock_exclusive_until_owner_acts_witness:
  "let q = \<lparr>fq_path = ''f'', fq_ptr = 1, fq_type = LOCK_EX\<rparr>; q' = \<lparr>fq_path = ''f'', fq_ptr = 2, fq_type = LOCK_SH\<rparr>;
       t' = fold (lock_apply flock_acquire flock_release) [Acquire q', Release (''f'', 2)] (snd (flock_acquire q []))
   in flock_holds t' ''f'' 1 True \<and> (\<forall>ptr e. flock_holds t' ''f'' ptr e \<longrightarrow> ptr = 1)"
proof -
  let ?q = "\<lparr>fq_path = ''f'', fq_ptr = 1, fq_type = LOCK_EX\<rparr>"
    and ?q' = "\<lparr>fq_path = ''f'', fq_ptr = 2, fq_type = LOCK_SH\<rparr>"
  have "flock_ok []" by (simp add: flock_ok_def flocks_at_def)
  moreover have "fst (flock_acquire ?q [])"
    by (simp add: flock_acquire_def flock_try_lock_def bt_or_insert_def)
  ultimately show ?thesis
    using flock_exclusive_until_owner_acts [of "[]" ?q "''f''" "[Acquire ?q', Release (''f'', 2)]"]
    by (simp add: flock_covers_def Let_def)
qed

text \<open>
  A write lease stays exclusive until its process acts: after any sequence of lease
  requests and releases by other processes, the process still has the write lease and no
  other process has a lease on the file.
\<close>

lemma lease_exclusive_until_owner_acts:
  assumes "lease_ok t" and "fst (lease_acquire q t)" and "lease_covers q path" and "lq_type q = F_WRLCK"
    and "\<forall>a \<in> set ops. lock_actor lq_pid posix_releaser a \<noteq> lq_pid q"
  shows "let t' = fold (lock_apply lease_acquire lease_release) ops (snd (lease_acquire q t))
    in lease_holds t' path (lq_pid q) True \<and> (\<forall>p e. lease_holds t' path p e \<longrightarrow> p = lq_pid q)"
  unfolding Let_def
  by (intro conjI allI lease.exclusive_until_owner_acts [OF assms])

lemma lease_exclusive_until_owner_acts_witness:
  "let q = \<lparr>lq_path = ''f'', lq_type = F_WRLCK, lq_pid = 5, lq_write_fd = True\<rparr>;
       q' = \<lparr>lq_path = ''f'', lq_type = F_RDLCK, lq_pid = 6, lq_write_fd = False\<rparr>;
       t' = fold (lock_apply lease_acquire lease_release) [Acquire q', Release (Everywhere 6)] (snd (lease_acquire q []))
   in lease_holds t' ''f'' 5 True \<and> (\<forall>p e. lease_holds t' ''f'' p e \<longrightarrow> p = 5)"
proof -
  let ?q = "\<lparr>lq_path = ''f'', lq_type = F_WRLCK, lq_pid = 5, lq_write_fd = True\<rparr>"
    and ?q' = "\<lparr>lq_path = ''f'', lq_type = F_RDLCK, lq_pid = 6, lq_write_fd = False\<rparr>"
  have "lease_ok []" by (simp add: lease_ok_def leases_at_def lease_entry_ok_def)
  moreover have "fst (lease_acquire ?q [])"
    by (simp add: lease_acquire_def set_file_lease_def bt_or_insert_def fcntl_consts)
  ultimately show ?thesis
    using lease_exclusive_until_owner_acts [of "[]" ?q "''f''" "[Acquire ?q', Release (Everywhere 6)]"]
    by (simp add: lease_covers_def Let_def F_WRLCK_def F_UNLCK_def)
qed

lemma set_map_filter_notify:
  "set (List.map_filter (snd \<circ> notify_one r w) ls) =
     {ls_pid l | l. l \<in> set ls \<and> ls_pid l \<noteq> r \<and> lease_breaks_on_access (ls_type l) w \<and> \<not> break_notified l}"
  by (induction ls) (auto simp: List.map_filter_simps notify_one_def Let_def split: if_splits)

lemma notify_one_again: "snd (notify_one r w (fst (notify_one r w l))) = None"
  by (simp add: notify_one_def Let_def)

text \<open>
  Breaking a lease signals each conflicting holder once: an access notifies exactly the
  other processes whose lease it breaks and that were not notified before, and repeating the
  access sends no further signal.
\<close>

lemma lease_break_signals_each_holder_once:
  "set (snd (notify_file_lease_break path r w t)) =
     {ls_pid l | l. l \<in> set (leases_at t path) \<and> 0 < ls_pid l \<and> ls_pid l \<noteq> r \<and>
        lease_breaks_on_access (ls_type l) w \<and> \<not> break_notified l}
   \<and> snd (notify_file_lease_break path r w (fst (notify_file_lease_break path r w t))) = []"
proof -
  have again: "List.map_filter (snd \<circ> notify_one r w) (map (fst \<circ> notify_one r w) ls) = []" for ls
    by (induction ls) (simp_all add: List.map_filter_simps notify_one_again)
  then show ?thesis
    by (auto simp: notify_file_lease_break_def leases_at_def set_map_filter_notify split: option.splits)
qed

text \<open>
  \<^verbatim>\<open>flock_try_lock\<close> gives up the caller's old lock before it tests for conflicts and
  never wakes anybody: the waker slot is left alone on every path, and after EAGAIN the caller
  holds nothing.  A task blocked by the old lock stays asleep although it could be granted.
\<close>

lemma flock_conversion_wakes_nobody:
  assumes "bt_get t path = Some st" and "flock_try_lock path ptr ty t = (r, t')"
  shows "(\<exists>st'. bt_get t' path = Some st' \<and> flock_waker st' = flock_waker st)
    \<and> (r = Inl EAGAIN \<longrightarrow> (\<forall>e. \<not> flock_holds t' path ptr e))"
proof -
  have "flocks_at t' path = (let rest = filter (\<lambda>e. file_ptr e \<noteq> ptr) (flocks_at t path) in
      if r \<noteq> Inr () then rest else rest @ [\<lparr>lock_type = ty, file_ptr = ptr\<rparr>])"
    using flocks_at_try_lock [of path ptr ty t path] flock_try_lock_granted [of path ptr ty t] assms(2)
    by (simp add: Let_def)
  moreover have "\<exists>st'. bt_get t' path = Some st' \<and> flock_waker st' = flock_waker st"
    using assms by (auto simp: flock_try_lock_def Let_def split: if_splits)
  ultimately show ?thesis by (auto simp: flock_holds_def Let_def)
qed

text \<open>
  Description 1 holds the file exclusively and task 9 waits for a shared lock; 1 converts its
  lock to shared.  Nobody wakes 9, although its request would now be granted.
\<close>

lemma flock_conversion_wakes_nobody_witness:
  "let t = [(''f'', \<lparr>flock_locks = [\<lparr>lock_type = LOCK_EX, file_ptr = 1\<rparr>], flock_waker = Some 9\<rparr>)];
       t' = snd (flock_try_lock ''f'' 1 LOCK_SH t)
   in (\<exists>st'. bt_get t' ''f'' = Some st' \<and> flock_waker st' = Some 9)
      \<and> fst (flock_try_lock ''f'' 2 LOCK_SH t) = Inl EAGAIN
      \<and> fst (flock_try_lock ''f'' 2 LOCK_SH t') = Inr ()"
proof -
  let ?st = "\<lparr>flock_locks = [\<lparr>lock_type = LOCK_EX, file_ptr = 1\<rparr>], flock_waker = Some 9\<rparr>"
  have g: "bt_get [(''f'', ?st)] ''f'' = Some ?st" by simp
  show ?thesis
    using flock_conversion_wakes_nobody [OF g surjective_pairing, of 1 LOCK_SH]
    by (simp add: Let_def) (simp add: flock_try_lock_def Let_def bt_or_insert_def flock_consts)
qed

end
