(* ===== verification/Fd_Syscalls.thy ===== *)
theory Fd_Syscalls
  imports Fd_Table Whole_File_Locks
begin

text \<open>
  The calls of \<^verbatim>\<open>syscall/fs/fd_ops.rs\<close> and \<^verbatim>\<open>fcntl.rs\<close> on descriptors: opening, duplicating, closing,
  their flags and \<^verbatim>\<open>exec\<close>.  They work on the table and the statuses of theory \<open>Fd_Table\<close>, on the paths
  that \<^verbatim>\<open>/proc/self/fd\<close> shows, and, when a regular file is closed, on the record locks and leases of
  theories \<open>Posix_Locks\<close> and \<open>Whole_File_Locks\<close>.  What a file object answers is an argument.
\<close>

section \<open>State\<close>

record fd_world =
  w_table :: FdTable
  w_statuses :: statuses
  w_paths :: "nat \<rightharpoonup> string"
  w_locks :: posix_locks
  w_leases :: lease_table

text \<open>References and paths of the file objects, and the process that calls\<close>

record file_env =
  socket_refs :: "nat \<Rightarrow> nat"
  file_refs :: "nat \<Rightarrow> nat"
  inode_path :: "nat \<Rightarrow> string"
  ofd_lock_owner :: "nat \<Rightarrow> int"
  owner_pid :: int

section \<open>Paths\<close>

definition path_insert :: "string \<Rightarrow> nat \<Rightarrow> (nat \<rightharpoonup> string) \<Rightarrow> (nat \<rightharpoonup> string)" where
  "path_insert path fd m = m(fd \<mapsto> path)"

definition dup_fd_path :: "nat \<Rightarrow> nat \<Rightarrow> (nat \<rightharpoonup> string) \<Rightarrow> (nat \<rightharpoonup> string)" where
  "dup_fd_path old_fd new_fd m = (case m old_fd of None \<Rightarrow> m | Some path \<Rightarrow> m(new_fd \<mapsto> path))"

definition path_remove :: "nat \<Rightarrow> (nat \<rightharpoonup> string) \<Rightarrow> (nat \<rightharpoonup> string)" where
  "path_remove fd m = m(fd := None)"

section \<open>Opening and duplicating\<close>

text \<open>The end of \<^verbatim>\<open>openat\<close>, once the file is found\<close>

definition open_fd :: "file_env \<Rightarrow> OpenFlags \<Rightarrow> FileClass \<Rightarrow> string \<Rightarrow> fd_world \<Rightarrow> syscall_ret \<times> fd_world" where
  "open_fd env flags f abs_path w =
     (case alloc_fd (w_table w) of
        (Inl e, t1) \<Rightarrow> (Inl e, w\<lparr>w_table := t1\<rparr>)
      | (Inr new_fd, t1) \<Rightarrow>
          let fd_path = (case f of File i \<Rightarrow> inode_path env i | _ \<Rightarrow> abs_path);
              (d, sts) = FileDescriptor_new flags f (w_statuses w);
              t2 = snd (snd (set_fd (socket_refs env) new_fd d t1)) in
          (Inr new_fd, w\<lparr>w_table := t2, w_statuses := sts, w_paths := path_insert fd_path new_fd (w_paths w)\<rparr>))"

text \<open>Installing a descriptor in a slot just reserved, and giving the slot back when that fails\<close>

definition install_dup :: "file_env \<Rightarrow> nat \<Rightarrow> FileDescriptor \<Rightarrow> syscall_ret \<times> FdTable \<Rightarrow> fd_world \<Rightarrow> syscall_ret \<times> fd_world" where
  "install_dup env old_fd d alloc w =
     (case alloc of
        (Inl e, t1) \<Rightarrow> (Inl e, w\<lparr>w_table := t1\<rparr>)
      | (Inr new_fd, t1) \<Rightarrow>
          (case set_fd (socket_refs env) new_fd d t1 of
             (Inl e, _, t2) \<Rightarrow> (Inl e, w\<lparr>w_table := snd (take_fd new_fd t2)\<rparr>)
           | (Inr _, _, t2) \<Rightarrow> (Inr new_fd, w\<lparr>w_table := t2, w_paths := dup_fd_path old_fd new_fd (w_paths w)\<rparr>)))"

definition dup_fd :: "file_env \<Rightarrow> nat \<Rightarrow> bool \<Rightarrow> fd_world \<Rightarrow> syscall_ret \<times> fd_world" where
  "dup_fd env old_fd with_cloexec w =
     (case get_fd (w_table w) old_fd of
        Inl e \<Rightarrow> (Inl e, w)
      | Inr d \<Rightarrow>
          install_dup env old_fd (if with_cloexec then set_cloexec d else unset_cloexec d) (alloc_fd (w_table w)) w)"

definition sys_dup :: "file_env \<Rightarrow> nat \<Rightarrow> fd_world \<Rightarrow> syscall_ret \<times> fd_world" where
  "sys_dup env fd w = dup_fd env fd False w"

definition sys_dup3 :: "file_env \<Rightarrow> nat \<Rightarrow> nat \<Rightarrow> OpenFlags \<Rightarrow> fd_world \<Rightarrow> syscall_ret \<times> fd_world" where
  "sys_dup3 env old new flags w =
     (let t = w_table w in
      if old = new then (Inl EINVAL, w)
      else if old \<ge> length (files t) \<or> new \<ge> soft_limit t then (Inl EMFILE, w)
      else if old \<ge> length (files t) \<or> old \<ge> 2 ^ 63 \<or> new \<ge> 2 ^ 63 \<or> new \<ge> soft_limit t then (Inl EBADF, w)
      else if try_get t old = None then (Inl EINVAL, w)
      else
        case (if length (files t) \<le> new then resize (new + 1) t else (Inr (), t)) of
          (Inl e, t1) \<Rightarrow> (Inl e, w\<lparr>w_table := t1\<rparr>)
        | (Inr _, t1) \<Rightarrow>
            (case get_fd t1 old of
               Inl e \<Rightarrow> (Inl e, w\<lparr>w_table := t1\<rparr>)
             | Inr d \<Rightarrow>
                 if flags AND NOT O_CLOEXEC \<noteq> 0 then (Inl EINVAL, w\<lparr>w_table := t1\<rparr>)
                 else
                   let d' = (if flags AND O_CLOEXEC \<noteq> 0 then set_cloexec d else unset_cloexec d) in
                   (Inr new, w\<lparr>w_table := snd (snd (set_fd (socket_refs env) new d' t1))\<rparr>)))"

section \<open>Descriptor and status flags\<close>

definition fcntl_dupfd :: "file_env \<Rightarrow> nat \<Rightarrow> nat \<Rightarrow> bool \<Rightarrow> fd_world \<Rightarrow> syscall_ret \<times> fd_world" where
  "fcntl_dupfd env fd arg with_cloexec w =
     (case get_fd (w_table w) fd of
        Inl e \<Rightarrow> (Inl e, w)
      | Inr d \<Rightarrow>
          install_dup env fd (if with_cloexec then set_cloexec d else unset_cloexec d) (alloc_fd_larger_than arg (w_table w)) w)"

definition fcntl_getfd :: "nat \<Rightarrow> fd_world \<Rightarrow> syscall_ret" where
  "fcntl_getfd fd w = (case get_fd (w_table w) fd of Inl e \<Rightarrow> Inl e | Inr d \<Rightarrow> Inr (if cloexec d then 1 else 0))"

definition fcntl_setfd :: "nat \<Rightarrow> nat \<Rightarrow> fd_world \<Rightarrow> syscall_ret \<times> fd_world" where
  "fcntl_setfd fd arg w =
     (case get_fd (w_table w) fd of
        Inl e \<Rightarrow> (Inl e, w)
      | Inr d \<Rightarrow> (Inr 0, w\<lparr>w_table := snd (if even arg then tab_unset_cloexec fd (w_table w) else tab_set_cloexec fd (w_table w))\<rparr>))"

definition fcntl_getfl :: "nat \<Rightarrow> fd_world \<Rightarrow> OpenFlags sys_result" where
  "fcntl_getfl fd w = (case get_fd (w_table w) fd of Inl e \<Rightarrow> Inl e | Inr d \<Rightarrow> Inr (getfl_flags d (w_statuses w)))"

text \<open>
  The file is told first, and may refuse: \<open>set_nb\<close> and \<open>set_app\<close> are its answers.  The argument has
  been truncated to the flags that exist.
\<close>

definition fcntl_setfl :: "unit sys_result \<Rightarrow> unit sys_result \<Rightarrow> nat \<Rightarrow> OpenFlags \<Rightarrow> fd_world \<Rightarrow> syscall_ret \<times> fd_world" where
  "fcntl_setfl set_nb set_app fd flags w =
     (case get_fd (w_table w) fd of
        Inl e \<Rightarrow> (Inl e, w)
      | Inr d \<Rightarrow>
          (case (set_nb, set_app) of
             (Inl e, _) \<Rightarrow> (Inl e, w)
           | (Inr _, Inl e) \<Rightarrow> (Inl e, w)
           | (Inr _, Inr _) \<Rightarrow>
               let (r, sts) = tab_set_status_flags fd flags (w_table w) (w_statuses w) in (r, w\<lparr>w_statuses := sts\<rparr>)))"

section \<open>Closing\<close>

text \<open>Closing a regular file gives up the record locks and the leases of the process on it.\<close>

definition release_on_close ::
    "file_env \<Rightarrow> FileDescriptor \<Rightarrow> posix_locks \<Rightarrow> lease_table \<Rightarrow> (posix_locks \<times> lease_table) \<times> waker list" where
  "release_on_close env d locks leases =
     (case fd_file d of
        File f \<Rightarrow>
          let path = inode_path env f;
              (l1, woken1) = release_posix_locks path (owner_pid env) locks;
              leases1 = release_file_leases path (owner_pid env) leases;
              (l2, woken2) = (if file_refs env f \<le> 2 then release_posix_locks path (ofd_lock_owner env f) l1 else (l1, [])) in
          ((l2, leases1), woken1 @ woken2)
      | _ \<Rightarrow> ((locks, leases), []))"

definition close_one :: "file_env \<Rightarrow> nat \<Rightarrow> fd_world \<Rightarrow> fd_world \<times> waker list" where
  "close_one env fd w =
     (case close_fd (socket_refs env) fd (w_table w) of
        (None, _, t1) \<Rightarrow> (w\<lparr>w_table := t1\<rparr>, [])
      | (Some d, _, t1) \<Rightarrow>
          let ((locks, leases), woken) = release_on_close env d (w_locks w) (w_leases w) in
          (w\<lparr>w_table := t1, w_locks := locks, w_leases := leases, w_paths := path_remove fd (w_paths w)\<rparr>, woken))"

definition sys_close :: "file_env \<Rightarrow> nat \<Rightarrow> fd_world \<Rightarrow> syscall_ret \<times> fd_world \<times> waker list" where
  "sys_close env fd w =
     (if fd \<ge> 2 ^ 63 \<or> fd \<ge> length (files (w_table w)) then (Inl EBADF, w, [])
      else if try_get (w_table w) fd = None then (Inr 0, w, [])
      else (Inr 0, close_one env fd w))"

definition CLOSE_RANGE_UNSHARE :: "32 word" where "CLOSE_RANGE_UNSHARE = 2"

definition CLOSE_RANGE_CLOEXEC :: "32 word" where "CLOSE_RANGE_CLOEXEC = 4"

text \<open>The flag is set on the copy that \<^verbatim>\<open>try_get\<close> returns.\<close>

definition cloexec_copy :: "nat \<Rightarrow> fd_world \<Rightarrow> fd_world" where
  "cloexec_copy fd w =
     (if fd \<ge> length (files (w_table w)) then w
      else case try_get (w_table w) fd of
             None \<Rightarrow> w
           | Some d \<Rightarrow> (let desc = set_cloexec d in w))"

definition close_in_range :: "file_env \<Rightarrow> nat \<Rightarrow> fd_world \<times> waker list \<Rightarrow> fd_world \<times> waker list" where
  "close_in_range env fd = (\<lambda>(w, woken).
     if fd \<ge> length (files (w_table w)) then (w, woken)
     else let (w1, woken1) = close_one env fd w in (w1, woken @ woken1))"

definition sys_close_range :: "file_env \<Rightarrow> nat \<Rightarrow> nat \<Rightarrow> 32 word \<Rightarrow> fd_world \<Rightarrow> syscall_ret \<times> fd_world \<times> waker list" where
  "sys_close_range env first_fd last_fd flags w =
     (if first_fd > last_fd then (Inl EINVAL, w, [])
      else if flags AND NOT (CLOSE_RANGE_UNSHARE OR CLOSE_RANGE_CLOEXEC) \<noteq> 0 then (Inl EINVAL, w, [])
      else if flags AND CLOSE_RANGE_UNSHARE = CLOSE_RANGE_UNSHARE then (Inl EINVAL, w, [])
      else if flags AND CLOSE_RANGE_CLOEXEC = CLOSE_RANGE_CLOEXEC then (Inr 0, fold cloexec_copy [first_fd..<Suc last_fd] w, [])
      else (Inr 0, fold (close_in_range env) [first_fd..<Suc last_fd] (w, [])))"

definition exec_fds :: "file_env \<Rightarrow> fd_world \<Rightarrow> fd_world" where
  "exec_fds env w = w\<lparr>w_table := close_on_exec (socket_refs env) (w_table w)\<rparr>"

definition setrlimit_nofile :: "nat \<Rightarrow> nat \<Rightarrow> fd_world \<Rightarrow> syscall_ret \<times> fd_world" where
  "setrlimit_nofile cur limit_max w =
     (if cur > limit_max then (Inl EINVAL, w) else (Inr 0, w\<lparr>w_table := set_limit cur limit_max (w_table w)\<rparr>))"

section \<open>Every call on the table\<close>

definition world_ok :: "fd_world \<Rightarrow> bool" where
  "world_ok w \<longleftrightarrow> tab_ok (w_statuses w) (w_table w)"

lemma install_dup_spec:
  assumes a: "reserves new_fd (w_table w) t1" and f: "free_slot (w_table w) new_fd"
  shows "\<exists>t2. install_dup env old_fd d (Inr new_fd, t1) w =
      (Inr new_fd, w\<lparr>w_table := t2, w_paths := dup_fd_path old_fd new_fd (w_paths w)\<rparr>) \<and>
    fd_ok t2 \<and> try_get t2 = (try_get (w_table w))(new_fd \<mapsto> d) \<and> is_reserved t2 = is_reserved (w_table w)"
  using set_reserved [OF a f, of "socket_refs env" d] by (auto simp: install_dup_def)

lemma open_fd_spec:
  assumes ok: "world_ok w" and o1: "open_fd env flags f path w = (r, w')"
  shows "world_ok w' \<and>
    (case r of Inl e \<Rightarrow> e = EMFILE \<and> w' = w
     | Inr fd \<Rightarrow> free_slot (w_table w) fd \<and> (\<forall>j < fd. \<not> free_slot (w_table w) j) \<and>
         (\<exists>d. try_get (w_table w') = (try_get (w_table w))(fd \<mapsto> d) \<and> fd_file d = f \<and> status d = length (w_statuses w)) \<and>
         is_reserved (w_table w') = is_reserved (w_table w))"
proof -
  have fk: "fd_ok (w_table w)" using ok by (simp add: world_ok_def tab_ok_def)
  obtain a t1 where a: "alloc_fd (w_table w) = (a, t1)" by (cases "alloc_fd (w_table w)")
  note A = alloc_fd_spec [OF fk a]
  show ?thesis
  proof (cases a)
    case (Inl e)
    then have "t1 = w_table w" "e = EMFILE" using A by auto
    with o1 a Inl ok show ?thesis by (auto simp: open_fd_def)
  next
    case (Inr fd)
    obtain d sts where n: "FileDescriptor_new flags f (w_statuses w) = (d, sts)" by (cases "FileDescriptor_new flags f (w_statuses w)")
    have A': "free_slot (w_table w) fd" "\<forall>j < fd. \<not> free_slot (w_table w) j" "reserves fd (w_table w) t1" using A Inr by auto
    from set_reserved [OF A'(3,1), of "socket_refs env" d] obtain t2 where
      t2: "snd (snd (set_fd (socket_refs env) fd d t1)) = t2" "fd_ok t2" "try_get t2 = (try_get (w_table w))(fd \<mapsto> d)"
        "is_reserved t2 = is_reserved (w_table w)"
      by auto
    have w': "r = Inr fd" "w_table w' = t2" "w_statuses w' = sts"
      using o1 a Inr n t2(1) by (auto simp: open_fd_def Let_def)
    have "tab_ok sts (w_table w)" "desc_ok sts d" using tab_ok_new [OF _ n] ok by (auto simp: world_ok_def)
    then have "tab_ok sts t2" using t2(3) by (rule_tac tab_ok_change [OF _ t2(2)]) (auto split: if_splits)
    moreover have "fd_file d = f" "status d = length (w_statuses w)" using n by (auto simp: FileDescriptor_new_def)
    ultimately show ?thesis using w' A'(1,2) t2(3,4) by (auto simp: world_ok_def)
  qed
qed

text \<open>What the three calls that duplicate into the lowest slot from a bound on do\<close>

definition duplicates :: "nat \<Rightarrow> nat \<Rightarrow> FileDescriptor \<Rightarrow> fd_world \<Rightarrow> nat \<Rightarrow> fd_world \<Rightarrow> bool" where
  "duplicates bound old_fd d w new_fd w' \<longleftrightarrow> bound \<le> new_fd \<and> free_slot (w_table w) new_fd \<and>
     (\<forall>j. bound \<le> j \<and> j < new_fd \<longrightarrow> \<not> free_slot (w_table w) j) \<and> w_statuses w' = w_statuses w \<and>
     try_get (w_table w') = (try_get (w_table w))(new_fd \<mapsto> d) \<and> is_reserved (w_table w') = is_reserved (w_table w) \<and>
     w_paths w' = dup_fd_path old_fd new_fd (w_paths w)"

lemma dup_cases:
  assumes ok: "world_ok w"
  shows "case dup_fd env old_fd c w of
      (Inl e, w') \<Rightarrow> w' = w \<and> (if try_get (w_table w) old_fd = None then e = EBADF else e = EMFILE)
    | (Inr new_fd, w') \<Rightarrow> \<exists>d. try_get (w_table w) old_fd = Some d \<and>
        duplicates 0 old_fd (if c then set_cloexec d else unset_cloexec d) w new_fd w' \<and> world_ok w'"
proof (cases "try_get (w_table w) old_fd")
  case None
  then show ?thesis by (simp add: dup_fd_def get_fd_def)
next
  case (Some d)
  have fk: "fd_ok (w_table w)" using ok by (simp add: world_ok_def tab_ok_def)
  let ?d = "if c then set_cloexec d else unset_cloexec d"
  obtain a t1 where a: "alloc_fd (w_table w) = (a, t1)" by (cases "alloc_fd (w_table w)")
  note A = alloc_fd_spec [OF fk a]
  show ?thesis
  proof (cases a)
    case (Inl e)
    then show ?thesis using A Some a by (simp add: dup_fd_def get_fd_def install_dup_def)
  next
    case (Inr fd)
    then have A': "free_slot (w_table w) fd" "\<forall>j < fd. \<not> free_slot (w_table w) j" "reserves fd (w_table w) t1" using A by auto
    from install_dup_spec [OF A'(3,1), of env old_fd ?d] obtain t2 where
      t2: "install_dup env old_fd ?d (Inr fd, t1) w = (Inr fd, w\<lparr>w_table := t2, w_paths := dup_fd_path old_fd fd (w_paths w)\<rparr>)"
        "fd_ok t2" "try_get t2 = (try_get (w_table w))(fd \<mapsto> ?d)" "is_reserved t2 = is_reserved (w_table w)"
      by blast
    have "desc_ok (w_statuses w) ?d" using tab_okD(2) Some ok desc_ok_cloexec by (auto simp: world_ok_def)
    then have "tab_ok (w_statuses w) t2"
      by (intro tab_ok_change [OF ok [unfolded world_ok_def] t2(2)]) (auto simp: t2(3) split: if_splits)
    then show ?thesis using Some a Inr t2 A'
      by (simp add: dup_fd_def get_fd_def duplicates_def world_ok_def)
  qed
qed

lemma dupfd_cases:
  assumes ok: "world_ok w"
  shows "case fcntl_dupfd env fd arg c w of
      (Inl e, w') \<Rightarrow> world_ok w' \<and> try_get (w_table w') = try_get (w_table w) \<and>
        (if try_get (w_table w) fd = None then e = EBADF else e = EINVAL \<or> e = EMFILE)
    | (Inr new_fd, w') \<Rightarrow> \<exists>d. try_get (w_table w) fd = Some d \<and>
        duplicates arg fd (if c then set_cloexec d else unset_cloexec d) w new_fd w' \<and> world_ok w'"
proof (cases "try_get (w_table w) fd")
  case None
  then show ?thesis using ok by (simp add: fcntl_dupfd_def get_fd_def)
next
  case (Some d)
  have fk: "fd_ok (w_table w)" using ok by (simp add: world_ok_def tab_ok_def)
  let ?d = "if c then set_cloexec d else unset_cloexec d"
  obtain a t1 where a: "alloc_fd_larger_than arg (w_table w) = (a, t1)" by (cases "alloc_fd_larger_than arg (w_table w)")
  note A = alloc_fd_larger_spec [OF fk a]
  show ?thesis
  proof (cases a)
    case (Inl e)
    then have "fd_ok t1" "try_get t1 = try_get (w_table w)" "e = EINVAL \<or> e = EMFILE" using A by auto
    moreover from this have "tab_ok (w_statuses w) t1" by (intro tab_ok_change [OF ok [unfolded world_ok_def]]) auto
    ultimately show ?thesis using Some a Inl by (auto simp: fcntl_dupfd_def get_fd_def install_dup_def world_ok_def)
  next
    case (Inr new)
    then have A': "arg \<le> new" "free_slot (w_table w) new" "\<forall>j. arg \<le> j \<and> j < new \<longrightarrow> \<not> free_slot (w_table w) j" "reserves new (w_table w) t1"
      using A by auto
    from install_dup_spec [OF A'(4,2), of env fd ?d] obtain t2 where
      t2: "install_dup env fd ?d (Inr new, t1) w = (Inr new, w\<lparr>w_table := t2, w_paths := dup_fd_path fd new (w_paths w)\<rparr>)"
        "fd_ok t2" "try_get t2 = (try_get (w_table w))(new \<mapsto> ?d)" "is_reserved t2 = is_reserved (w_table w)"
      by blast
    have "desc_ok (w_statuses w) ?d" using tab_okD(2) Some ok desc_ok_cloexec by (auto simp: world_ok_def)
    then have "tab_ok (w_statuses w) t2"
      by (intro tab_ok_change [OF ok [unfolded world_ok_def] t2(2)]) (auto simp: t2(3) split: if_splits)
    then show ?thesis using Some a Inr t2 A'
      by (simp add: fcntl_dupfd_def get_fd_def duplicates_def world_ok_def)
  qed
qed

lemma dup3_cases:
  assumes ok: "world_ok w"
  shows "case sys_dup3 env old new flags w of
      (Inl e, w') \<Rightarrow> world_ok w' \<and> try_get (w_table w') = try_get (w_table w) \<and> is_reserved (w_table w') = is_reserved (w_table w)
    | (Inr fd, w') \<Rightarrow> fd = new \<and> old \<noteq> new \<and> world_ok w' \<and> w_paths w' = w_paths w \<and>
        (\<exists>d. try_get (w_table w) old = Some d \<and>
           try_get (w_table w') = (try_get (w_table w))(new \<mapsto> (if flags AND O_CLOEXEC \<noteq> 0 then set_cloexec d else unset_cloexec d))) \<and>
        is_reserved (w_table w') = (is_reserved (w_table w))(new := False)"
proof -
  let ?t = "w_table w"
  have fk: "fd_ok ?t" using ok by (simp add: world_ok_def tab_ok_def)
  show ?thesis
  proof (cases "old = new \<or> old \<ge> length (files ?t) \<or> new \<ge> soft_limit ?t \<or> old \<ge> 2 ^ 63 \<or> new \<ge> 2 ^ 63 \<or> try_get ?t old = None")
    case True
    then consider (same) "old = new"
      | (full) "old \<noteq> new" "old \<ge> length (files ?t) \<or> new \<ge> soft_limit ?t"
      | (neg) "old \<noteq> new" "\<not> (old \<ge> length (files ?t) \<or> new \<ge> soft_limit ?t)" "old \<ge> 2 ^ 63 \<or> new \<ge> 2 ^ 63"
      | (shut) "old \<noteq> new" "\<not> (old \<ge> length (files ?t) \<or> new \<ge> soft_limit ?t)" "\<not> (old \<ge> 2 ^ 63 \<or> new \<ge> 2 ^ 63)" "try_get ?t old = None"
      by argo
    then have "\<exists>e. sys_dup3 env old new flags w = (Inl e, w)"
      by cases (simp_all add: sys_dup3_def Let_def)
    then show ?thesis using ok by auto
  next
    case False
    then obtain d where d: "try_get ?t old = Some d" by auto
    define t1 where "t1 = (if length (files ?t) \<le> new then snd (resize (new + 1) ?t) else ?t)"
    have t1: "fd_ok t1" "try_get t1 = try_get ?t" "is_reserved t1 = is_reserved ?t" "soft_limit t1 = soft_limit ?t"
      using False fk resized [OF fk, of "new + 1"] by (auto simp: t1_def resize_def)
    have res: "(if length (files ?t) \<le> new then resize (new + 1) ?t else (Inr (), ?t)) = (Inr (), t1)"
      using False by (auto simp: t1_def resize_def)
    have g: "get_fd t1 old = Inr d" using d by (simp add: get_fd_def t1(2))
    have ok1: "tab_ok (w_statuses w) t1" using t1(1,2) by (intro tab_ok_change [OF ok [unfolded world_ok_def]]) auto
    let ?d = "if flags AND O_CLOEXEC \<noteq> 0 then set_cloexec d else unset_cloexec d"
    show ?thesis
    proof (cases "flags AND NOT O_CLOEXEC \<noteq> 0")
      case True
      then have "sys_dup3 env old new flags w = (Inl EINVAL, w\<lparr>w_table := t1\<rparr>)"
        unfolding sys_dup3_def Let_def res using False g d by simp
      then show ?thesis using t1 ok1 by (simp add: world_ok_def)
    next
      case no: False
      obtain x sock t2 where s: "set_fd (socket_refs env) new ?d t1 = (x, sock, t2)" by (cases "set_fd (socket_refs env) new ?d t1") auto
      have x: "fd_ok t2" "try_get t2 = (try_get ?t)(new \<mapsto> ?d)" "is_reserved t2 = (is_reserved ?t)(new := False)"
        using set_fd_spec [OF t1(1), where sc = "socket_refs env" and fd = new and d = ?d] s t1 False by (auto split: sum.splits)
      have "desc_ok (w_statuses w) ?d" using tab_okD(2) d ok desc_ok_cloexec by (auto simp: world_ok_def)
      then have "tab_ok (w_statuses w) t2"
        by (intro tab_ok_change [OF ok [unfolded world_ok_def] x(1)]) (auto simp: x(2) split: if_splits)
      moreover have "sys_dup3 env old new flags w = (Inr new, w\<lparr>w_table := t2\<rparr>)"
        unfolding sys_dup3_def Let_def res using False no g s d by simp
      ultimately show ?thesis using False d x by (auto simp: world_ok_def)
    qed
  qed
qed

lemma close_one_spec:
  assumes ok: "world_ok w"
  shows "world_ok (fst (close_one env fd w))" "try_get (w_table (fst (close_one env fd w))) = (try_get (w_table w))(fd := None)"
    "w_statuses (fst (close_one env fd w)) = w_statuses w" "is_reserved (w_table (fst (close_one env fd w))) = is_reserved (w_table w)"
proof -
  have fk: "fd_ok (w_table w)" using ok by (simp add: world_ok_def tab_ok_def)
  note c = close_fd_spec [OF fk, of "socket_refs env" fd]
  have t: "w_table (fst (close_one env fd w)) = snd (snd (close_fd (socket_refs env) fd (w_table w)))"
    by (auto simp: close_one_def split: prod.splits option.splits)
  show s: "w_statuses (fst (close_one env fd w)) = w_statuses w"
    by (auto simp: close_one_def split: prod.splits option.splits)
  show "try_get (w_table (fst (close_one env fd w))) = (try_get (w_table w))(fd := None)"
    "is_reserved (w_table (fst (close_one env fd w))) = is_reserved (w_table w)"
    unfolding t by (rule c)+
  have "tab_ok (w_statuses w) (snd (snd (close_fd (socket_refs env) fd (w_table w))))"
    using ok unfolding world_ok_def by (rule tab_ok_change [OF _ c(2)]) (auto simp: c(3) split: if_splits)
  then show "world_ok (fst (close_one env fd w))" by (simp add: world_ok_def t s)
qed

lemma close_range_fold:
  "world_ok w \<Longrightarrow> world_ok (fst (fold (close_in_range env) fds (w, ws))) \<and>
     try_get (w_table (fst (fold (close_in_range env) fds (w, ws)))) = (\<lambda>fd. if fd \<in> set fds then None else try_get (w_table w) fd)"
proof (induction fds arbitrary: w ws)
  case (Cons fd fds)
  show ?case
  proof (cases "fd \<ge> length (files (w_table w))")
    case True
    then have "try_get (w_table w) fd = None" by (simp add: try_get_def)
    with Cons.IH [OF Cons.prems, of ws] True show ?thesis by (auto simp: close_in_range_def fun_eq_iff)
  next
    case False
    obtain w1 ws1 where c: "close_one env fd w = (w1, ws1)" by (cases "close_one env fd w")
    note C = close_one_spec [OF Cons.prems, of env fd, unfolded c fst_conv]
    from Cons.IH [OF C(1), of "ws @ ws1"] False c C(2) show ?thesis by (auto simp: close_in_range_def fun_eq_iff)
  qed
qed simp

lemma cloexec_copy_id: "fold cloexec_copy fds w = w"
proof -
  have "cloexec_copy fd w = w" for fd by (simp add: cloexec_copy_def split: option.splits)
  then show ?thesis by (induction fds) auto
qed

lemma exec_fds_spec:
  assumes ok: "world_ok w"
  shows "world_ok (exec_fds env w)"
    "try_get (w_table (exec_fds env w)) fd = (case try_get (w_table w) fd of Some d \<Rightarrow> if cloexec d then None else Some d | None \<Rightarrow> None)"
proof -
  have fk: "fd_ok (w_table w)" using ok by (simp add: world_ok_def tab_ok_def)
  note c = close_many [OF fk, of "socket_refs env" "cloexec_fds (w_table w)", folded close_on_exec_def]
  show "try_get (w_table (exec_fds env w)) fd = (case try_get (w_table w) fd of Some d \<Rightarrow> if cloexec d then None else Some d | None \<Rightarrow> None)"
    using c by (auto simp: exec_fds_def cloexec_fds_iff split: option.splits)
  have c1: "fd_ok (close_on_exec (socket_refs env) (w_table w))" using c by blast
  have c2: "try_get (close_on_exec (socket_refs env) (w_table w)) fd = Some d \<Longrightarrow> try_get (w_table w) fd = Some d" for fd d
    using c by (simp split: if_splits)
  have "tab_ok (w_statuses w) (close_on_exec (socket_refs env) (w_table w))"
    by (rule tab_ok_change [OF ok [unfolded world_ok_def] c1]) (use c2 in blast)
  then show "world_ok (exec_fds env w)" by (simp add: world_ok_def exec_fds_def)
qed

text \<open>A process as \<^verbatim>\<open>new_with_stdio\<close> starts it\<close>

definition stdio_world :: fd_world where
  "stdio_world = (let (t, sts) = new_with_stdio 0 1 1 [] in
     \<lparr>w_table = t, w_statuses = sts, w_paths = Map.empty, w_locks = \<lparr>FILE_LOCKS = [], POSIX_LOCK_WAITERS = [], POSIX_LOCK_WAITS = []\<rparr>,
      w_leases = []\<rparr>)"

lemma stdio_ok: "world_ok stdio_world"
proof -
  have "flags_within O_CLOEXEC 0" "flags_within getfl_visible_flags 0" by (rule flags_within_ops)+
  then show ?thesis
    by (auto simp: stdio_world_def new_with_stdio_def FileDescriptor_new_def FdTable_new_def Let_def world_ok_def tab_ok_def fd_ok_def
        is_reserved_def try_get_def desc_ok_def nth_Cons' numeral_3_eq_3 less_Suc_eq split: if_splits)
qed

lemma setfd_ok: "world_ok w \<Longrightarrow> world_ok (snd (fcntl_setfd fd arg w))"
proof -
  assume ok: "world_ok w"
  show ?thesis
  proof (cases "try_get (w_table w) fd")
    case None
    then show ?thesis using ok by (simp add: fcntl_setfd_def get_fd_def)
  next
    case (Some d)
    have k: "fd_ok (w_table w)" "desc_ok (w_statuses w) d" using ok Some tab_okD by (auto simp: world_ok_def)
    have set: "tab_ok (w_statuses w) (w_table w\<lparr>files := (files (w_table w))[fd := Some e]\<rparr>)" if "desc_ok (w_statuses w) e" for e
    proof (rule tab_ok_change [OF ok [unfolded world_ok_def]])
      let ?t = "w_table w\<lparr>files := (files (w_table w))[fd := Some e]\<rparr>"
      have g: "try_get ?t = (try_get (w_table w))(fd \<mapsto> e)" "is_reserved ?t = is_reserved (w_table w)"
        using Some by (auto simp: try_get_def is_reserved_def fun_eq_iff nth_list_update split: if_splits)
      have "\<not> is_reserved (w_table w) fd" using k(1) Some by (auto simp: fd_ok_def)
      then show "fd_ok ?t" using k(1) unfolding fd_ok_def g by auto
      show "try_get ?t j = Some d' \<Longrightarrow> try_get (w_table w) j = Some d' \<or> desc_ok (w_statuses w) d'" for j d'
        using that unfolding g by (simp split: if_splits)
    qed
    from set [OF desc_ok_cloexec(1) [OF k(2)]] set [OF desc_ok_cloexec(2) [OF k(2)]] Some show ?thesis
      by (simp add: fcntl_setfd_def get_fd_def tab_set_cloexec_def tab_unset_cloexec_def world_ok_def)
  qed
qed

lemma setfl_ok: "world_ok w \<Longrightarrow> world_ok (snd (fcntl_setfl nb app fd flags w))"
proof -
  assume ok: "world_ok w"
  show ?thesis
  proof (cases "try_get (w_table w) fd")
    case None
    then show ?thesis using ok by (simp add: fcntl_setfl_def get_fd_def)
  next
    case (Some d)
    then have "status d < length (w_statuses w)" using ok tab_okD(2) by (auto simp: world_ok_def desc_ok_def)
    from tab_ok_flag_ops(1) [OF ok [unfolded world_ok_def] this, of flags] ok Some show ?thesis
      by (auto simp: fcntl_setfl_def get_fd_def tab_set_status_flags_def world_ok_def split: sum.splits)
  qed
qed

lemma close_ok: "world_ok w \<Longrightarrow> world_ok (fst (snd (sys_close env fd w)))"
  using close_one_spec(1) by (simp add: sys_close_def)

lemma close_range_ok: "world_ok w \<Longrightarrow> world_ok (fst (snd (sys_close_range env a b flags w)))"
  using close_range_fold [of w env "[a..<Suc b]" "[]"] unfolding sys_close_range_def cloexec_copy_id by (simp del: upt_Suc)

lemma setrlimit_ok: "world_ok w \<Longrightarrow> world_ok (snd (setrlimit_nofile cur limit_max w))"
proof -
  assume ok: "world_ok w"
  have g: "try_get (set_limit a b t) = try_get t" "is_reserved (set_limit a b t) = is_reserved t" for a b t
    by (simp_all add: fun_eq_iff try_get_def is_reserved_def set_limit_def)
  have "fd_ok (set_limit cur limit_max (w_table w))"
    using ok unfolding world_ok_def tab_ok_def fd_ok_def g by (simp add: set_limit_def)
  then have "tab_ok (w_statuses w) (set_limit cur limit_max (w_table w))" by (rule tab_ok_change [OF ok [unfolded world_ok_def]]) (simp add: g)
  with ok show ?thesis by (simp add: setrlimit_nofile_def world_ok_def)
qed

text \<open>One process makes any of the calls, and forks; its child goes on with the copied table.\<close>

datatype fd_call = Open OpenFlags FileClass string | Dup nat | Dup3 nat nat OpenFlags | DupFd nat nat bool | SetFd nat nat
  | SetFl "unit sys_result" "unit sys_result" nat OpenFlags | Close nat | CloseRange nat nat "32 word" | Exec | SetLimit nat nat | Fork

fun fd_exec :: "file_env \<Rightarrow> fd_call \<Rightarrow> fd_world \<Rightarrow> fd_world" where
  "fd_exec env (Open flags f path) w = snd (open_fd env flags f path w)"
| "fd_exec env (Dup fd) w = snd (sys_dup env fd w)"
| "fd_exec env (Dup3 old new flags) w = snd (sys_dup3 env old new flags w)"
| "fd_exec env (DupFd fd arg c) w = snd (fcntl_dupfd env fd arg c w)"
| "fd_exec env (SetFd fd arg) w = snd (fcntl_setfd fd arg w)"
| "fd_exec env (SetFl nb app fd flags) w = snd (fcntl_setfl nb app fd flags w)"
| "fd_exec env (Close fd) w = fst (snd (sys_close env fd w))"
| "fd_exec env (CloseRange a b flags) w = fst (snd (sys_close_range env a b flags w))"
| "fd_exec env Exec w = exec_fds env w"
| "fd_exec env (SetLimit cur limit_max) w = snd (setrlimit_nofile cur limit_max w)"
| "fd_exec env Fork w = w\<lparr>w_table := from_another (w_table w)\<rparr>"

lemma fork_ok: "world_ok w \<Longrightarrow> world_ok (w\<lparr>w_table := from_another (w_table w)\<rparr>)"
proof -
  assume ok: "world_ok w"
  have g: "try_get (from_another t) = try_get t" "\<not> is_reserved (from_another t) fd" for t fd
    by (simp_all add: fun_eq_iff try_get_def is_reserved_def from_another_def)
  have "fd_ok (from_another (w_table w))" unfolding fd_ok_def using g(2) by (simp add: from_another_def)
  then have "tab_ok (w_statuses w) (from_another (w_table w))" by (rule tab_ok_change [OF ok [unfolded world_ok_def]]) (simp add: g)
  then show ?thesis by (simp add: world_ok_def)
qed

lemma fd_exec_ok:
  assumes "world_ok w"
  shows "world_ok (fd_exec env c w)"
proof (cases c)
  case (Open flags f path)
  then show ?thesis using open_fd_spec [OF assms] by (cases "open_fd env flags f path w") auto
next
  case (Dup fd)
  then show ?thesis using dup_cases [OF assms, where env = env and old_fd = fd and c = False] assms
    by (cases "dup_fd env fd False w") (auto simp: sys_dup_def split: sum.splits)
next
  case (Dup3 old new flags)
  then show ?thesis using dup3_cases [OF assms, where env = env and old = old and new = new and flags = flags]
    by (cases "sys_dup3 env old new flags w") (auto split: sum.splits)
next
  case (DupFd fd arg b)
  then show ?thesis using dupfd_cases [OF assms, where env = env and fd = fd and arg = arg and c = b]
    by (cases "fcntl_dupfd env fd arg b w") (auto split: sum.splits)
qed (use assms in \<open>simp_all add: setfd_ok setfl_ok close_ok close_range_ok setrlimit_ok fork_ok exec_fds_spec(1)\<close>)

text \<open>No file object answers anything, and no reference is left anywhere.\<close>

definition no_files :: file_env where
  "no_files = \<lparr>socket_refs = \<lambda>s. 0, file_refs = \<lambda>f. 0, inode_path = \<lambda>f. [], ofd_lock_owner = \<lambda>f. -1, owner_pid = 1\<rparr>"

lemma stdio_table:
  "w_table stdio_world = \<lparr>soft_limit = 128, hard_limit = 256,
     files = [Some \<lparr>descriptor_flags = 0, status = 0, fd_file = Abs 0\<rparr>, Some \<lparr>descriptor_flags = 0, status = 1, fd_file = Abs 1\<rparr>,
       Some \<lparr>descriptor_flags = 0, status = 2, fd_file = Abs 1\<rparr>], reserved = [False, False, False], owners = 1\<rparr>"
  "w_statuses stdio_world = replicate 3 \<lparr>os_flags = 0, os_rw_hint = 0\<rparr>"
  by (simp_all add: stdio_world_def new_with_stdio_def FileDescriptor_new_def FdTable_new_def Let_def numeral_3_eq_3)

section \<open>Properties\<close>

text \<open>
  C5.  Descriptor tables stay well formed.  From a table with the standard streams, any sequence of
  opening, duplicating, flag changes, closing, \<^verbatim>\<open>exec\<close>, limit changes and forking leaves a table whose
  two columns have the same length, in which no slot is both open and reserved, every descriptor
  refers to an existing status and keeps no flag but \<^verbatim>\<open>O_CLOEXEC\<close>, and every status keeps only flags
  that \<^verbatim>\<open>F_GETFL\<close> may show.
\<close>

theorem fd_calls_keep_tables_well_formed:
  "tab_ok (w_statuses (fold (fd_exec env) calls stdio_world)) (w_table (fold (fd_exec env) calls stdio_world))"
proof -
  have "world_ok w \<Longrightarrow> world_ok (fold (fd_exec env) calls w)" for w by (induction calls arbitrary: w) (auto simp: fd_exec_ok)
  from this [OF stdio_ok] show ?thesis by (simp add: world_ok_def)
qed

text \<open>
  C23.  \<^verbatim>\<open>dup\<close> takes the lowest number that is neither open nor reserved.  The new descriptor shares the
  status and the file of the old one and is not close-on-exec; every other slot and every
  reservation stays as it was.  It fails with \<^verbatim>\<open>EBADF\<close> exactly when the old number is not open, and
  with \<^verbatim>\<open>EMFILE\<close> otherwise, and then nothing changes.
\<close>

theorem dup_takes_lowest_free_fd:
  assumes "world_ok w"
  shows "case sys_dup env fd w of
      (Inl e, w') \<Rightarrow> w' = w \<and> (if try_get (w_table w) fd = None then e = EBADF else e = EMFILE)
    | (Inr new, w') \<Rightarrow> free_slot (w_table w) new \<and> (\<nexists>j. j < new \<and> free_slot (w_table w) j) \<and>
        (\<exists>d d'. try_get (w_table w) fd = Some d \<and> try_get (w_table w') = (try_get (w_table w))(new \<mapsto> d') \<and>
           same_open_file_description d d' \<and> fd_file d' = fd_file d \<and> \<not> cloexec d') \<and>
        is_reserved (w_table w') = is_reserved (w_table w)"
proof (cases "fst (sys_dup env fd w)")
  case (Inl e)
  then show ?thesis using dup_cases [OF assms, where env = env and old_fd = fd and c = False]
    by (cases "sys_dup env fd w") (auto simp: sys_dup_def split: sum.splits)
next
  case (Inr new)
  then obtain w' where r: "sys_dup env fd w = (Inr new, w')" by (cases "sys_dup env fd w") simp
  then obtain d where d: "try_get (w_table w) fd = Some d" "duplicates 0 fd (unset_cloexec d) w new w'"
    using dup_cases [OF assms, where env = env and old_fd = fd and c = False] by (auto simp: sys_dup_def)
  then show ?thesis unfolding r
    by (auto simp: duplicates_def same_open_file_description_def intro: exI [of _ "unset_cloexec d"])
qed

theorem dup_takes_lowest_free_fd_witness:
  "\<exists>w'. sys_dup no_files 1 stdio_world = (Inr 3, w') \<and> free_slot (w_table stdio_world) 3 \<and>
     (\<exists>d d'. try_get (w_table stdio_world) 1 = Some d \<and> try_get (w_table w') 3 = Some d' \<and> same_open_file_description d d')"
proof -
  obtain w' where r: "sys_dup no_files 1 stdio_world = (Inr 3, w')"
    by (simp add: sys_dup_def dup_fd_def get_fd_def try_get_def stdio_table alloc_fd_def vacant_def push_reserved_def
        install_dup_def set_fd_def Let_def)
  show ?thesis using dup_takes_lowest_free_fd [where env = no_files and fd = 1, OF stdio_ok] unfolding r by auto
qed

text \<open>
  C31.  \<^verbatim>\<open>F_SETFL\<close> reaches every duplicate and nothing else.  After it succeeds, a descriptor of the same
  open file shows the requested status flags where they may be changed and its old ones elsewhere,
  so that the access mode stays; a descriptor of another open file shows what it did before; and
  no descriptor changes whether it is close-on-exec.
\<close>

theorem setfl_reaches_every_duplicate:
  assumes ok: "world_ok w" and s: "fcntl_setfl (Inr ()) (Inr ()) fd flags w = (Inr r, w')"
    and d: "try_get (w_table w) fd = Some d" "try_get (w_table w) fd' = Some d'"
  shows "fcntl_getfl fd' w' = Inr (if same_open_file_description d d'
      then (getfl_flags d' (w_statuses w) AND NOT mutable_flags) OR (flags AND mutable_flags)
      else getfl_flags d' (w_statuses w)) \<and> fcntl_getfd fd' w' = fcntl_getfd fd' w"
proof -
  have lt: "status d < length (w_statuses w)" using tab_okD(2) [OF ok [unfolded world_ok_def] d(1)] by (simp add: desc_ok_def)
  have w': "w_table w' = w_table w" "w_statuses w' = desc_set_status_flags flags d (w_statuses w)"
    using s d(1) by (auto simp: fcntl_setfl_def get_fd_def tab_set_status_flags_def)
  show ?thesis
    using d lt by (auto simp: fcntl_getfl_def fcntl_getfd_def get_fd_def w' getfl_flags_def desc_set_status_flags_def on_status_def
        flags_insert_def flags_remove_def same_open_file_description_def)
qed

theorem setfl_reaches_every_duplicate_witness:
  "\<exists>w'. fcntl_setfl (Inr ()) (Inr ()) 1 O_NONBLOCK stdio_world = (Inr 0, w') \<and> fcntl_getfl 1 w' = Inr O_NONBLOCK \<and>
     fcntl_getfl 2 w' = Inr 0"
proof -
  have d: "try_get (w_table stdio_world) 1 = Some \<lparr>descriptor_flags = 0, status = 1, fd_file = Abs 1\<rparr>"
    "try_get (w_table stdio_world) 2 = Some \<lparr>descriptor_flags = 0, status = 2, fd_file = Abs 1\<rparr>"
    by (simp_all add: stdio_table try_get_def)
  obtain w' where w': "fcntl_setfl (Inr ()) (Inr ()) 1 O_NONBLOCK stdio_world = (Inr 0, w')"
    using d(1) by (simp add: fcntl_setfl_def get_fd_def tab_set_status_flags_def)
  from setfl_reaches_every_duplicate [OF stdio_ok w' d(1) d(1)] setfl_reaches_every_duplicate [OF stdio_ok w' d(1) d(2)] w'
  show ?thesis by (simp add: same_open_file_description_def getfl_flags_def stdio_table mutable_flags_def
      O_APPEND_def O_NONBLOCK_def O_ASYNC_def O_DIRECT_def O_NOATIME_def)
qed

text \<open>
  \<^verbatim>\<open>exec\<close> closes exactly the close-on-exec descriptors: afterwards a number is open if and only if
  it was open without that flag, and then it is the same descriptor.
\<close>

lemma exec_closes_exactly_cloexec:
  assumes "world_ok w"
  shows "try_get (w_table (exec_fds env w)) fd = Some d \<longleftrightarrow> try_get (w_table w) fd = Some d \<and> \<not> cloexec d"
  by (auto simp: exec_fds_spec(2) [OF assms] split: option.splits)

lemma exec_closes_exactly_cloexec_witness:
  "world_ok stdio_world \<and> try_get (w_table (exec_fds no_files stdio_world)) 0 = Some \<lparr>descriptor_flags = 0, status = 0, fd_file = Abs 0\<rparr>"
proof -
  have "try_get (w_table stdio_world) 0 = Some \<lparr>descriptor_flags = 0, status = 0, fd_file = Abs 0\<rparr>"
    by (simp add: stdio_table try_get_def)
  with exec_closes_exactly_cloexec [OF stdio_ok, of no_files 0] stdio_ok show ?thesis
    by (simp add: cloexec_def flags_contain_def O_CLOEXEC_def)
qed

text \<open>
  C20.  Closing any descriptor of a regular file gives up all record locks of the process on the file,
  whatever other descriptors it still has for it, and, when the open file goes with it, the locks
  that the open file owns.  Locks of other owners and on other files stay.
\<close>

theorem close_releases_record_locks:
  assumes d: "try_get (w_table w) fd = Some d" "fd_file d = File f" and fd: "fd < 2 ^ 63"
  shows "held (locks_at (w_locks (fst (snd (sys_close env fd w)))) path) p t b \<longleftrightarrow>
    held (locks_at (w_locks w) path) p t b \<and>
    \<not> (path = inode_path env f \<and> (p = owner_pid env \<or> file_refs env f \<le> 2 \<and> p = ofd_lock_owner env f))"
proof -
  have lt: "fd < length (files (w_table w))" using d(1) by (simp add: try_get_def split: if_splits)
  obtain sock t1 where c: "close_fd (socket_refs env) fd (w_table w) = (Some d, sock, t1)"
    using d(1) by (simp add: close_fd_def Let_def)
  let ?l1 = "fst (release_posix_locks (inode_path env f) (owner_pid env) (w_locks w))"
  have "w_locks (fst (snd (sys_close env fd w))) =
      (if file_refs env f \<le> 2 then fst (release_posix_locks (inode_path env f) (ofd_lock_owner env f) ?l1) else ?l1)"
    using lt fd d by (auto simp: sys_close_def close_one_def c release_on_close_def Let_def split: prod.splits)
  then show ?thesis by (auto simp: release_posix_locks_at held_filter_owner simp del: filter_filter)
qed

definition locked_world :: fd_world where
  "locked_world = stdio_world\<lparr>w_table := FdTable_new 128 256 [Some \<lparr>descriptor_flags = 0, status = 0, fd_file = File 0\<rparr>],
     w_locks := \<lparr>FILE_LOCKS = [(''/a'', [\<lparr>l_type = F_WRLCK, l_start = 0, l_end = 9, l_pid = 3\<rparr>,
       \<lparr>l_type = F_WRLCK, l_start = 20, l_end = 29, l_pid = 4\<rparr>])], POSIX_LOCK_WAITERS = [], POSIX_LOCK_WAITS = []\<rparr>\<rparr>"

theorem close_releases_record_locks_witness:
  "let w' = fst (snd (sys_close (no_files\<lparr>inode_path := \<lambda>f. ''/a'', owner_pid := 3\<rparr>) 0 locked_world)) in
   held (locks_at (w_locks locked_world) ''/a'') 3 F_WRLCK 5 \<and> \<not> held (locks_at (w_locks w') ''/a'') 3 F_WRLCK 5 \<and>
   held (locks_at (w_locks w') ''/a'') 4 F_WRLCK 25"
proof -
  have d: "try_get (w_table locked_world) 0 = Some \<lparr>descriptor_flags = 0, status = 0, fd_file = File 0\<rparr>"
    by (simp add: locked_world_def try_get_def FdTable_new_def)
  have f: "fd_file \<lparr>descriptor_flags = 0, status = 0, fd_file = File 0\<rparr> = File 0" by simp
  have l: "locks_at (w_locks locked_world) ''/a'' = [\<lparr>l_type = F_WRLCK, l_start = 0, l_end = 9, l_pid = 3\<rparr>,
      \<lparr>l_type = F_WRLCK, l_start = 20, l_end = 29, l_pid = 4\<rparr>]"
    by (simp add: locked_world_def locks_at_def)
  let ?env = "no_files\<lparr>inode_path := \<lambda>f. ''/a'', owner_pid := 3\<rparr>"
  have p: "inode_path ?env 0 = ''/a''" "owner_pid ?env = 3" "ofd_lock_owner ?env 0 = - 1" by (simp_all add: no_files_def)
  have "held (locks_at (w_locks locked_world) ''/a'') 3 F_WRLCK 5" "held (locks_at (w_locks locked_world) ''/a'') 4 F_WRLCK 25"
    by (simp_all add: l held_def)
  then show ?thesis
    using close_releases_record_locks [where env = ?env and path = "''/a''", OF d f, unfolded p] by (simp only: Let_def) simp
qed

text \<open>
  \<^verbatim>\<open>close_range\<close> with \<^verbatim>\<open>CLOSE_RANGE_CLOEXEC\<close> succeeds and changes nothing: the flag is set on copies
  of the descriptors, so they all survive the next \<^verbatim>\<open>exec\<close> as they would have without the call.
\<close>

lemma close_range_cloexec_has_no_effect:
  assumes "first_fd \<le> last_fd"
  shows "sys_close_range env first_fd last_fd CLOSE_RANGE_CLOEXEC w = (Inr 0, w, [])"
  using assms by (simp add: sys_close_range_def cloexec_copy_id CLOSE_RANGE_CLOEXEC_def CLOSE_RANGE_UNSHARE_def del: upt_Suc)

lemma close_range_cloexec_has_no_effect_witness:
  "(0 :: nat) \<le> 2 \<and> sys_close_range no_files 0 2 CLOSE_RANGE_CLOEXEC stdio_world = (Inr 0, stdio_world, [])"
  using close_range_cloexec_has_no_effect [of 0 2] by simp

text \<open>
  \<^verbatim>\<open>dup3\<close> does not respect reservations.  While one thread is about to install a file at the number
  it was given, another can duplicate onto that number and close it again; the next allocation then
  returns the same number, and two threads install at it, the later one over the earlier.
\<close>

lemma dup3_takes_a_reserved_fd:
  assumes ok: "world_ok w" and a: "alloc_fd (w_table w) = (Inr fd, t1)" and d: "try_get (w_table w) old = Some d"
    and b: "fd < soft_limit (w_table w)" "fd < 2 ^ 63" "old < 2 ^ 63"
  shows "\<exists>w2 t4. sys_dup3 env old fd 0 (w\<lparr>w_table := t1\<rparr>) = (Inr fd, w2) \<and>
    fst (sys_close env fd w2) = Inr 0 \<and> alloc_fd (w_table (fst (snd (sys_close env fd w2)))) = (Inr fd, t4)"
proof -
  let ?w1 = "w\<lparr>w_table := t1\<rparr>"
  have fk: "fd_ok (w_table w)" using ok by (simp add: world_ok_def tab_ok_def)
  have A: "free_slot (w_table w) fd" "\<forall>j < fd. \<not> free_slot (w_table w) j" "reserves fd (w_table w) t1" using alloc_fd_spec [OF fk a] by auto
  have t1: "fd_ok t1" "try_get t1 = try_get (w_table w)" "is_reserved t1 = (is_reserved (w_table w))(fd := True)"
      "soft_limit t1 = soft_limit (w_table w)" using A(3) by (auto simp: reserves_def)
  have ok1: "world_ok ?w1" using tab_ok_change [OF ok [unfolded world_ok_def] t1(1)] t1(2) by (simp add: world_ok_def)
  have ne: "old \<noteq> fd" using d A(1) by (auto simp: free_slot_def)
  have old: "try_get t1 old = Some d" using d t1(2) by simp
  then have oldlen: "old < length (files t1)" by (simp add: try_get_def split: if_splits)
  have fdlen: "fd < length (files t1)" using A(3) by (simp add: reserves_def)
  have "\<exists>w2. sys_dup3 env old fd 0 ?w1 = (Inr fd, w2)"
    using ne old oldlen b t1(4) fdlen by (auto simp: sys_dup3_def Let_def get_fd_def)
  then obtain w2 where w2: "sys_dup3 env old fd 0 ?w1 = (Inr fd, w2)" by blast
  from dup3_cases [OF ok1, where env = env and old = old and new = fd and flags = 0] w2 obtain e where
    D: "world_ok w2" "try_get (w_table w2) = (try_get t1)(fd \<mapsto> e)" "is_reserved (w_table w2) = (is_reserved t1)(fd := False)"
    by auto
  have open2: "try_get (w_table w2) fd = Some e" using D(2) by simp
  then have lt2: "fd < length (files (w_table w2))" by (simp add: try_get_def split: if_splits)
  have c: "sys_close env fd w2 = (Inr 0, close_one env fd w2)" using lt2 open2 b(2) by (simp add: sys_close_def)
  let ?t3 = "w_table (fst (close_one env fd w2))"
  note C = close_one_spec [OF D(1), of env fd]
  have fk3: "fd_ok ?t3" using C(1) by (simp add: world_ok_def tab_ok_def)
  have same: "free_slot ?t3 j = free_slot (w_table w) j" for j
    using A(1) unfolding free_slot_def C(2,4) D(2,3) t1(2,3) by auto
  have len3: "fd < length (files ?t3)"
  proof -
    have "length (files ?t3) = length (files (w_table w2))"
      by (auto simp: close_one_def close_fd_def Let_def split: option.splits prod.splits)
    then show ?thesis using lt2 by simp
  qed
  obtain r t4 where r: "alloc_fd ?t3 = (r, t4)" by (cases "alloc_fd ?t3")
  have "r = Inr fd"
  proof (cases r)
    case (Inl e)
    then have "\<not> free_slot ?t3 fd" using alloc_fd_spec [OF fk3 r] len3 by auto
    then show ?thesis using same A(1) by simp
  next
    case (Inr fd')
    then have "free_slot (w_table w) fd'" "\<forall>j < fd'. \<not> free_slot (w_table w) j" using alloc_fd_spec [OF fk3 r] same by auto
    with A(1,2) Inr show ?thesis by (metis linorder_neqE_nat)
  qed
  then show ?thesis using w2 c r by auto
qed

lemma dup3_takes_a_reserved_fd_witness:
  "\<exists>t1 w2 t4. alloc_fd (w_table stdio_world) = (Inr 3, t1) \<and>
     sys_dup3 no_files 0 3 0 (stdio_world\<lparr>w_table := t1\<rparr>) = (Inr 3, w2) \<and> fst (sys_close no_files 3 w2) = Inr 0 \<and>
     alloc_fd (w_table (fst (snd (sys_close no_files 3 w2)))) = (Inr 3, t4)"
proof -
  obtain t1 where a: "alloc_fd (w_table stdio_world) = (Inr 3, t1)"
    by (simp add: alloc_fd_def stdio_table vacant_def push_reserved_def)
  have d: "try_get (w_table stdio_world) 0 = Some \<lparr>descriptor_flags = 0, status = 0, fd_file = Abs 0\<rparr>"
    by (simp add: stdio_table try_get_def)
  from dup3_takes_a_reserved_fd [OF stdio_ok a d, of no_files] a show ?thesis by (auto simp: stdio_table)
qed

end
