(* ===== verification/Rseq.thy ===== *)
theory Rseq
  imports User_Memory
begin

text \<open>
  Restartable sequences (\<^verbatim>\<open>task/rseq.rs\<close>): a thread registers a 32-byte area in which the kernel
  publishes the processor it runs on, and whose critical section the kernel aborts before the thread
  returns to user code.
\<close>

section \<open>State\<close>

definition RSEQ_LEN :: nat where "RSEQ_LEN = 32"
definition RSEQ_ALIGN :: nat where "RSEQ_ALIGN = 32"
definition RSEQ_FLAG_UNREGISTER :: nat where "RSEQ_FLAG_UNREGISTER = 1"
definition RSEQ_CPU_ID_UNINITIALIZED :: nat where "RSEQ_CPU_ID_UNINITIALIZED = 2 ^ 32 - 1"
definition RSEQ_CPU_ID_START_OFFSET :: nat where "RSEQ_CPU_ID_START_OFFSET = 0"
definition RSEQ_CS_OFFSET :: nat where "RSEQ_CS_OFFSET = 8"
definition RSEQ_NODE_ID_OFFSET :: nat where "RSEQ_NODE_ID_OFFSET = 20"

record RseqState =
  rs_abi_addr :: nat
  rs_len :: nat
  rs_sig :: nat

definition RseqState_default :: RseqState where "RseqState_default = \<lparr>rs_abi_addr = 0, rs_len = 0, rs_sig = 0\<rparr>"

definition is_registered :: "RseqState \<Rightarrow> bool" where "is_registered s \<longleftrightarrow> rs_abi_addr s \<noteq> 0"

text \<open>The descriptor of a critical section, as far as the kernel reads it\<close>

record RseqCs =
  start_ip :: nat
  post_commit_offset :: nat
  abort_ip :: nat

definition user_addr :: "nat \<Rightarrow> nat \<Rightarrow> nat sys_result" where
  "user_addr base offset = (if base + offset \<le> usize_max then Inr (base + offset) else Inl EFAULT)"

definition u32_bytes :: "nat \<Rightarrow> byte list" where "u32_bytes v = le_bytes 4 (int v)"

definition u64_bytes :: "nat \<Rightarrow> byte list" where "u64_bytes v = le_bytes 8 (int v)"

lemma length_u32_bytes [simp]: "length (u32_bytes v) = 4"
  by (simp add: u32_bytes_def)

definition bytes_nat :: "byte list \<Rightarrow> nat" where "bytes_nat bs = nat (le_uint bs)"

text \<open>Writing at an offset of the area\<close>

definition write_at :: "nat \<Rightarrow> nat \<Rightarrow> byte list \<Rightarrow> user_mem \<Rightarrow> unit sys_result \<times> user_mem" where
  "write_at abi offset bs m =
     (case user_addr abi offset of
        Inl e \<Rightarrow> (Inl e, m)
      | Inr a \<Rightarrow> (case copy_to_user a bs m of (Inl e, m1) \<Rightarrow> (Inl e, m1) | (Inr n, m1) \<Rightarrow> (Inr (), m1)))"

definition write_ids :: "nat \<Rightarrow> nat \<Rightarrow> user_mem \<Rightarrow> unit sys_result \<times> user_mem" where
  "write_ids abi cpu_id m =
     (case write_at abi RSEQ_CPU_ID_START_OFFSET (u32_bytes cpu_id @ u32_bytes cpu_id) m of
        (Inl e, m1) \<Rightarrow> (Inl e, m1)
      | (Inr u, m1) \<Rightarrow> write_at abi RSEQ_NODE_ID_OFFSET (u32_bytes 0 @ u32_bytes 0) m1)"

definition clear_rseq_cs :: "nat \<Rightarrow> user_mem \<Rightarrow> unit sys_result \<times> user_mem" where
  "clear_rseq_cs abi m = write_at abi RSEQ_CS_OFFSET (u64_bytes 0) m"

text \<open>The initial contents of the area: both processor numbers, and zeros\<close>

definition rseq_abi_bytes :: "nat \<Rightarrow> byte list" where
  "rseq_abi_bytes cpu_id = u32_bytes cpu_id @ u32_bytes cpu_id @ replicate 24 0"

section \<open>Registration\<close>

definition rseq_unregister :: "nat \<Rightarrow> nat \<Rightarrow> nat \<Rightarrow> RseqState \<Rightarrow> bool \<Rightarrow> user_mem \<Rightarrow>
    unit sys_result \<times> RseqState \<times> bool \<times> user_mem" where
  "rseq_unregister abi len sig st pending m =
     (if \<not> is_registered st \<or> rs_abi_addr st \<noteq> abi then (Inl EINVAL, st, pending, m)
      else if rs_len st \<noteq> len then (Inl EINVAL, st, pending, m)
      else if rs_sig st \<noteq> sig then (Inl EPERM, st, pending, m)
      else (case write_ids (rs_abi_addr st) RSEQ_CPU_ID_UNINITIALIZED m of
              (Inl e, m1) \<Rightarrow> (Inl e, st, pending, m1)
            | (Inr u, m1) \<Rightarrow> (Inr (), RseqState_default, False, m1)))"

definition rseq_register :: "nat \<Rightarrow> nat \<Rightarrow> nat \<Rightarrow> nat \<Rightarrow> RseqState \<Rightarrow> bool \<Rightarrow> user_mem \<Rightarrow>
    unit sys_result \<times> RseqState \<times> bool \<times> user_mem" where
  "rseq_register hart abi len sig st pending m =
     (if is_registered st then
        (if rs_abi_addr st \<noteq> abi \<or> rs_len st \<noteq> len then Inl EINVAL
         else if rs_sig st \<noteq> sig then Inl EPERM else Inl EBUSY, st, pending, m)
      else if len \<noteq> RSEQ_LEN \<or> abi mod RSEQ_ALIGN \<noteq> 0 then (Inl EINVAL, st, pending, m)
      else (case probe_user_write abi RSEQ_LEN m of
              Inl e \<Rightarrow> (Inl e, st, pending, m)
            | Inr n \<Rightarrow>
                (case copy_to_user abi (rseq_abi_bytes hart) m of
                   (Inl e, m1) \<Rightarrow> (Inl e, st, pending, m1)
                 | (Inr n, m1) \<Rightarrow> (Inr (), \<lparr>rs_abi_addr = abi, rs_len = len, rs_sig = sig\<rparr>, True, m1))))"

definition rseq :: "nat \<Rightarrow> nat \<Rightarrow> nat \<Rightarrow> nat \<Rightarrow> nat \<Rightarrow> RseqState \<Rightarrow> bool \<Rightarrow> user_mem \<Rightarrow>
    unit sys_result \<times> RseqState \<times> bool \<times> user_mem" where
  "rseq hart abi len flags sig st pending m =
     (if odd flags then
        if flags \<noteq> RSEQ_FLAG_UNREGISTER then (Inl EINVAL, st, pending, m)
        else rseq_unregister abi len sig st pending m
      else if flags \<noteq> 0 then (Inl EINVAL, st, pending, m)
      else rseq_register hart abi len sig st pending m)"

definition sys_rseq :: "nat \<Rightarrow> nat \<Rightarrow> nat \<Rightarrow> nat \<Rightarrow> nat \<Rightarrow> RseqState \<Rightarrow> bool \<Rightarrow> user_mem \<Rightarrow>
    syscall_ret \<times> RseqState \<times> bool \<times> user_mem" where
  "sys_rseq hart abi len flags sig st pending m =
     (case rseq hart abi len flags sig st pending m of (Inl e, s) \<Rightarrow> (Inl e, s) | (Inr u, s) \<Rightarrow> (Inr 0, s))"

section \<open>Returning to user code\<close>

definition mark_rseq_pending :: "RseqState \<Rightarrow> bool \<Rightarrow> bool" where
  "mark_rseq_pending st pending \<longleftrightarrow> st \<noteq> RseqState_default \<or> pending"

definition read_cs :: "nat \<Rightarrow> user_mem \<Rightarrow> RseqCs sys_result" where
  "read_cs a m =
     (case copy_from_user a 32 m of
        Inl e \<Rightarrow> Inl e
      | Inr bs \<Rightarrow> Inr \<lparr>start_ip = bytes_nat (take 8 (drop 8 bs)), post_commit_offset = bytes_nat (take 8 (drop 16 bs)),
                    abort_ip = bytes_nat (take 8 (drop 24 bs))\<rparr>)"

text \<open>Whether the program counter is in the critical section; the subtraction wraps around.\<close>

definition in_section :: "RseqCs \<Rightarrow> nat \<Rightarrow> bool" where
  "in_section cs pc \<longleftrightarrow> sub64 pc (start_ip cs) < post_commit_offset cs"

text \<open>The signature that the program put in front of the abort handler\<close>

definition abort_signature :: "RseqCs \<Rightarrow> user_mem \<Rightarrow> nat sys_result" where
  "abort_signature cs m =
     (if abort_ip cs < 4 then Inl EFAULT
      else case copy_from_user (abort_ip cs - 4) 4 m of Inl e \<Rightarrow> Inl e | Inr bs \<Rightarrow> Inr (bytes_nat bs))"

text \<open>
  The address of the critical section that the area names, after the processor numbers have been
  published
\<close>

definition read_cs_addr :: "nat \<Rightarrow> user_mem \<Rightarrow> nat sys_result" where
  "read_cs_addr abi m =
     (case user_addr abi RSEQ_CS_OFFSET of
        Inl e \<Rightarrow> Inl e
      | Inr a \<Rightarrow> (case copy_from_user a 8 m of Inl e \<Rightarrow> Inl e | Inr bs \<Rightarrow> Inr (bytes_nat bs)))"

text \<open>The result, the pending flag, the program counter to resume at, and the user memory\<close>

definition rseq_fixup :: "RseqState \<Rightarrow> bool \<Rightarrow> nat \<Rightarrow> nat \<Rightarrow> user_mem \<Rightarrow> unit sys_result \<times> bool \<times> nat \<times> user_mem" where
  "rseq_fixup st pending pc cs_addr m =
     (case read_cs cs_addr m of
        Inl e \<Rightarrow> (Inl e, pending, pc, m)
      | Inr cs \<Rightarrow>
          if \<not> in_section cs pc then
            (case clear_rseq_cs (rs_abi_addr st) m of
               (Inl e, m1) \<Rightarrow> (Inl e, pending, pc, m1)
             | (Inr u, m1) \<Rightarrow> (Inr (), False, pc, m1))
          else
            (case abort_signature cs m of
               Inl e \<Rightarrow> (Inl e, pending, pc, m)
             | Inr signature \<Rightarrow>
                 if signature \<noteq> rs_sig st then (Inl EFAULT, pending, pc, m)
                 else
                   (case clear_rseq_cs (rs_abi_addr st) m of
                      (Inl e, m1) \<Rightarrow> (Inl e, pending, pc, m1)
                    | (Inr u, m1) \<Rightarrow> (Inr (), False, abort_ip cs, m1))))"

definition rseq_prepare_user_return :: "nat \<Rightarrow> bool \<Rightarrow> RseqState \<Rightarrow> bool \<Rightarrow> nat \<Rightarrow> user_mem \<Rightarrow>
    unit sys_result \<times> bool \<times> nat \<times> user_mem" where
  "rseq_prepare_user_return hart force st pending pc m =
     (if \<not> is_registered st \<or> (\<not> force \<and> \<not> pending) then (Inr (), pending, pc, m)
      else
        (case write_ids (rs_abi_addr st) hart m of
           (Inl e, m1) \<Rightarrow> (Inl e, pending, pc, m1)
         | (Inr u, m1) \<Rightarrow>
             (case read_cs_addr (rs_abi_addr st) m1 of
                Inl e \<Rightarrow> (Inl e, pending, pc, m1)
              | Inr cs_addr \<Rightarrow>
                  if cs_addr = 0 then (Inr (), False, pc, m1) else rseq_fixup st pending pc cs_addr m1)))"

section \<open>Properties\<close>

text \<open>What a successful write leaves in memory\<close>

lemma write_at_ok:
  assumes "write_at abi offset bs m = (Inr u, m')"
  shows "user_bytes m' (abi + offset) (length bs) = bs"
    "\<And>x. x < abi + offset \<or> abi + offset + length bs \<le> x \<Longrightarrow> mem_bytes m' x = mem_bytes m x"
    "may_read m' = may_read m" "may_write m' = may_write m"
proof -
  obtain n where "copy_to_user (abi + offset) bs m = (Inr n, m')"
    using assms(1) by (auto simp: write_at_def user_addr_def split: if_splits prod.splits sum.splits)
  from copy_to_user_cases [OF this] show "user_bytes m' (abi + offset) (length bs) = bs"
    "\<And>x. x < abi + offset \<or> abi + offset + length bs \<le> x \<Longrightarrow> mem_bytes m' x = mem_bytes m x"
    "may_read m' = may_read m" "may_write m' = may_write m" by auto
qed

lemma user_bytes_cong: "(\<And>i. i < n \<Longrightarrow> mem_bytes m (a + i) = mem_bytes m' (a + i)) \<Longrightarrow> user_bytes m a n = user_bytes m' a n"
  by (simp add: user_bytes_def)

lemma write_ids_ok:
  assumes "write_ids abi cpu_id m = (Inr u, m')"
  shows "user_bytes m' abi 8 = u32_bytes cpu_id @ u32_bytes cpu_id" "user_bytes m' (abi + 20) 8 = u32_bytes 0 @ u32_bytes 0"
    "user_bytes m' (abi + 8) 8 = user_bytes m (abi + 8) 8" "may_read m' = may_read m" "may_write m' = may_write m"
    "\<And>x. abi + 32 \<le> x \<Longrightarrow> mem_bytes m' x = mem_bytes m x"
proof -
  obtain m1 where w: "write_at abi 0 (u32_bytes cpu_id @ u32_bytes cpu_id) m = (Inr (), m1)"
      "write_at abi 20 (u32_bytes 0 @ u32_bytes 0) m1 = (Inr u, m')"
    using assms by (auto simp: write_ids_def RSEQ_CPU_ID_START_OFFSET_def RSEQ_NODE_ID_OFFSET_def split: prod.splits sum.splits)
  have "user_bytes m' abi 8 = user_bytes m1 abi 8"
    by (rule user_bytes_cong) (use write_at_ok(2) [OF w(2)] in auto)
  then show "user_bytes m' abi 8 = u32_bytes cpu_id @ u32_bytes cpu_id"
    using write_at_ok(1) [OF w(1)] by simp
  show "user_bytes m' (abi + 20) 8 = u32_bytes 0 @ u32_bytes 0" using write_at_ok(1) [OF w(2)] by simp
  show "user_bytes m' (abi + 8) 8 = user_bytes m (abi + 8) 8"
    by (rule user_bytes_cong) (use write_at_ok(2) [OF w(1)] write_at_ok(2) [OF w(2)] in auto)
  show "may_read m' = may_read m" "may_write m' = may_write m"
    using write_at_ok(3,4) [OF w(1)] write_at_ok(3,4) [OF w(2)] by simp_all
  show "mem_bytes m' x = mem_bytes m x" if "abi + 32 \<le> x" for x
    using that write_at_ok(2) [OF w(1), of x] write_at_ok(2) [OF w(2), of x] by simp
qed

lemma clear_rseq_cs_ok:
  assumes "clear_rseq_cs abi m = (Inr u, m')"
  shows "user_bytes m' (abi + 8) 8 = u64_bytes 0" "user_bytes m' abi 8 = user_bytes m abi 8"
proof -
  have w: "write_at abi 8 (u64_bytes 0) m = (Inr u, m')" using assms by (simp add: clear_rseq_cs_def RSEQ_CS_OFFSET_def)
  have len: "length (u64_bytes v) = 8" for v by (simp add: u64_bytes_def)
  show "user_bytes m' (abi + 8) 8 = u64_bytes 0" using write_at_ok(1) [OF w] len by simp
  show "user_bytes m' abi 8 = user_bytes m abi 8" by (rule user_bytes_cong) (use write_at_ok(2) [OF w] len in auto)
qed

text \<open>
  C21.  A restartable sequence is never resumed in the middle.  When the kernel has prepared a
  registered thread for user code, the area shows the processor it runs on and names no critical
  section any more, and no second preparation is pending.  The thread goes on where it was, outside
  the section that the area had named, or at that section's abort handler, in front of which stands
  the signature of the registration.
\<close>

theorem rseq_aborts_critical_section:
  assumes reg: "is_registered st" and due: "force \<or> pending"
    and ok: "rseq_prepare_user_return hart force st pending pc m = (Inr u, pending', pc', m')"
  shows "\<not> pending' \<and> user_bytes m' (rs_abi_addr st) 8 = u32_bytes hart @ u32_bytes hart \<and>
    bytes_nat (user_bytes m' (rs_abi_addr st + 8) 8) = 0 \<and>
    (let cs_addr = bytes_nat (user_bytes m (rs_abi_addr st + 8) 8) in
     if cs_addr = 0 then pc' = pc
     else \<exists>m1 cs. write_ids (rs_abi_addr st) hart m = (Inr (), m1) \<and> read_cs cs_addr m1 = Inr cs \<and>
       (if in_section cs pc then pc' = abort_ip cs \<and> abort_signature cs m1 = Inr (rs_sig st) else pc' = pc))"
proof -
  obtain m1 where w: "write_ids (rs_abi_addr st) hart m = (Inr (), m1)"
    using ok reg due by (auto simp: rseq_prepare_user_return_def split: prod.splits sum.splits)
  note w' = write_ids_ok [OF w]
  let ?a = "bytes_nat (user_bytes m (rs_abi_addr st + 8) 8)"
  have r: "read_cs_addr (rs_abi_addr st) m1 = Inr x \<Longrightarrow> x = ?a" for x
    by (auto simp: read_cs_addr_def user_addr_def copy_from_user_def RSEQ_CS_OFFSET_def w'(3) split: if_splits)
  have "(if ?a = 0 then (Inr (), False, pc, m1) else rseq_fixup st pending pc ?a m1) = (Inr u, pending', pc', m')"
    using ok reg due r by (auto simp: rseq_prepare_user_return_def w split: sum.splits if_splits)
  then consider (none) "?a = 0" "\<not> pending'" "pc' = pc" "m' = m1"
    | (cs) "?a \<noteq> 0" "rseq_fixup st pending pc ?a m1 = (Inr u, pending', pc', m')" by (auto split: if_splits)
  then show ?thesis
  proof cases
    case none
    then show ?thesis using w' by (simp add: Let_def)
  next
    case cs
    then obtain c where c: "read_cs ?a m1 = Inr c" "\<not> pending'" "clear_rseq_cs (rs_abi_addr st) m1 = (Inr (), m')"
        "if in_section c pc then pc' = abort_ip c \<and> abort_signature c m1 = Inr (rs_sig st) else pc' = pc"
      by (auto simp: rseq_fixup_def split: sum.splits prod.splits if_splits)
    have "bytes_nat (user_bytes m' (rs_abi_addr st + 8) 8) = 0"
      by (simp add: clear_rseq_cs_ok(1) [OF c(3)] bytes_nat_def u64_bytes_def)
    moreover have "user_bytes m' (rs_abi_addr st) 8 = u32_bytes hart @ u32_bytes hart"
      using clear_rseq_cs_ok(2) [OF c(3)] w'(1) by simp
    ultimately show ?thesis using cs(1) c w by (auto simp: Let_def)
  qed
qed

text \<open>A thread inside the section from 4096 to 8192, whose abort handler is at 12288\<close>

definition rseq_memory :: user_mem where
  "rseq_memory = \<lparr>mem_bytes = (\<lambda>a. 0)(73 := 2, 513 + 8 := 16, 513 + 16 := 16, 512 + 25 := 48, 12284 := 7),
     may_read = \<lambda>a. True, may_write = \<lambda>a. True, lacks_page = \<lambda>a. False, in_use = True\<rparr>"

theorem rseq_aborts_critical_section_witness:
  "case rseq_prepare_user_return 3 True \<lparr>rs_abi_addr = 64, rs_len = 32, rs_sig = 7\<rparr> True 5000 rseq_memory of
     (r, pending', pc', m') \<Rightarrow> r = Inr () \<and> pc' = 12288 \<and> \<not> pending' \<and> bytes_nat (user_bytes m' 72 8) = 0"
proof -
  let ?st = "\<lparr>rs_abi_addr = 64, rs_len = 32, rs_sig = 7\<rparr>"
  obtain x p' pc' m' where e: "rseq_prepare_user_return 3 True ?st True 5000 rseq_memory = (x, p', pc', m')"
    by (metis prod_cases4)
  obtain m1 where w: "write_ids 64 3 rseq_memory = (Inr (), m1)"
    by (simp add: write_ids_def write_at_def user_addr_def copy_to_user_ok range_ok_iff rseq_memory_def usize_max_def u32_bytes_def
        Let_def RSEQ_CPU_ID_START_OFFSET_def RSEQ_NODE_ID_OFFSET_def)
  note w' = write_ids_ok [OF w]
  have far: "user_bytes m1 a n = user_bytes rseq_memory a n" if "96 \<le> a" for a n
    by (rule user_bytes_cong) (use w'(6) that in simp)
  have cs: "bytes_nat (user_bytes m1 72 8) = 512"
    "bytes_nat (user_bytes m1 520 8) = 4096" "bytes_nat (user_bytes m1 528 8) = 4096" "bytes_nat (user_bytes m1 536 8) = 12288"
    "bytes_nat (user_bytes m1 12284 4) = 7"
    using w'(3) by (simp_all add: far) (simp_all add: bytes_nat_def user_bytes_def rseq_memory_def upt_rec)
  have split: "take 8 (drop 8 (user_bytes m1 512 32)) = user_bytes m1 520 8" "take 8 (drop 16 (user_bytes m1 512 32)) = user_bytes m1 528 8"
    "take 8 (drop 24 (user_bytes m1 512 32)) = user_bytes m1 536 8"
    using user_bytes_sub [of m1 512 8 8 16] user_bytes_sub [of m1 512 16 8 8] user_bytes_sub [of m1 512 24 8 0] by simp_all
  have r: "range_ok (may_read m1) a n \<longleftrightarrow> a \<noteq> 0 \<and> a + n \<le> usize_max" "range_ok (may_write m1) a n \<longleftrightarrow> a \<noteq> 0 \<and> a + n \<le> usize_max" for a n
    using w'(4,5) by (simp_all add: range_ok_def list_all_iff rseq_memory_def)
  have c: "read_cs 512 m1 = Inr \<lparr>start_ip = 4096, post_commit_offset = 4096, abort_ip = 12288\<rparr>"
    by (simp add: read_cs_def copy_from_user_def r split cs usize_max_def)
  have "rseq_fixup ?st True 5000 512 m1 = (Inr (), False, 12288, snd (clear_rseq_cs 64 m1))"
    by (simp add: rseq_fixup_def c in_section_def sub64_def wrap64_def abort_signature_def copy_from_user_def r cs usize_max_def
        clear_rseq_cs_def write_at_def user_addr_def copy_to_user_ok u64_bytes_def RSEQ_CS_OFFSET_def)
  then have "x = Inr () \<and> pc' = 12288" using e
    by (simp add: rseq_prepare_user_return_def is_registered_def w read_cs_addr_def user_addr_def copy_from_user_def r cs usize_max_def
        RSEQ_CS_OFFSET_def)
  then show ?thesis using rseq_aborts_critical_section [of ?st True True 3 5000 rseq_memory] e by (simp add: is_registered_def)
qed

text \<open>
  Registration and release.  A thread that registered an area gets its old state back by unregistering
  it with the same arguments; meanwhile every other registration is refused, and a wrong signature
  cannot unregister.
\<close>

lemma rseq_register_once:
  assumes "rseq hart abi 32 0 sig RseqState_default False m = (Inr u, st, pending, m')"
  shows "pending \<and> is_registered st \<and> abi mod 32 = 0 \<and>
    (\<forall>hart' abi' len' sig'. \<exists>e. rseq hart' abi' len' 0 sig' st pending m' = (Inl e, st, pending, m')) \<and>
    (\<forall>sig'. sig' \<noteq> sig \<longrightarrow> rseq hart abi 32 1 sig' st pending m' = (Inl EPERM, st, pending, m')) \<and>
    (\<exists>m''. rseq hart abi 32 1 sig st pending m' = (Inr (), RseqState_default, False, m''))"
proof -
  have st: "st = \<lparr>rs_abi_addr = abi, rs_len = 32, rs_sig = sig\<rparr>" "pending" "abi mod 32 = 0" "range_ok (may_write m) abi 32"
      "may_write m' = may_write m"
    using assms by (auto simp: rseq_def rseq_register_def RSEQ_LEN_def RSEQ_ALIGN_def probe_user_write_def copy_to_user_ok
        is_registered_def RseqState_default_def Let_def rseq_abi_bytes_def u32_bytes_def split: if_splits prod.splits sum.splits)
  have a: "abi \<noteq> 0" "abi + 32 \<le> usize_max" using st(4) by (simp_all add: range_ok_def)
  have w: "\<exists>m1. write_at abi k bs m0 = (Inr (), m1) \<and> may_write m1 = may_write m0"
    if k: "k + length bs \<le> 32" "may_write m0 = may_write m" for k bs m0
    using a k st(4) range_ok_sub [OF st(4) k(1)]
    by (auto simp: write_at_def user_addr_def copy_to_user_ok)
  obtain m1 where m1: "write_at abi 0 (u32_bytes c @ u32_bytes c) m' = (Inr (), m1 c)" "may_write (m1 c) = may_write m" for c
    using w [of 0 "u32_bytes c @ u32_bytes c" m' for c] st(5) by (simp add: u32_bytes_def) metis
  have ids: "\<exists>m''. write_ids abi c m' = (Inr (), m'')" for c
    using w [of 20 "u32_bytes 0 @ u32_bytes 0" "m1 c"] m1 [of c]
    by (auto simp: write_ids_def RSEQ_CPU_ID_START_OFFSET_def RSEQ_NODE_ID_OFFSET_def u32_bytes_def)
  show ?thesis
    using ids [of RSEQ_CPU_ID_UNINITIALIZED] st a
    by (auto simp: rseq_def rseq_register_def rseq_unregister_def is_registered_def RSEQ_FLAG_UNREGISTER_def)
qed

end
