(* ===== verification/Signal_Frame.thy ===== *)
theory Signal_Frame
  imports Signal_Types Rseq Blocking
begin

text \<open>
  \<^verbatim>\<open>signal/frame.rs\<close> with the RISC-V contexts of \<^verbatim>\<open>arch/riscv64/qemu/context\<close>: before a handler runs,
  the interrupted context, the signal mask and the alternate stack are written to the user's stack
  as the bytes of one structure; \<^verbatim>\<open>rt_sigreturn\<close> reads them back.  The theory also holds the fields of
  a task that signals use.
\<close>

section \<open>Contexts\<close>

record TrapContext =
  gp :: "64 word list"
  sstatus :: "64 word"
  sepc :: "64 word"
  kernel_stack :: "64 word"
  kernel_hartid :: "64 word"
  origin_a0 :: "64 word"
  fp_f :: "64 word list"
  fcsr :: "32 word"

record MachineContext =
  mc_x :: "64 word list"
  mc_f :: "64 word list"
  mc_fcsr :: "32 word"

text \<open>Register 0 is always zero; its place in the saved context holds the program counter.\<close>

definition as_mctx :: "TrapContext \<Rightarrow> MachineContext" where
  "as_mctx cx = \<lparr>mc_x = (gp cx)[0 := sepc cx], mc_f = fp_f cx, mc_fcsr = fcsr cx\<rparr>"

definition copy_from_mctx :: "MachineContext \<Rightarrow> TrapContext \<Rightarrow> TrapContext" where
  "copy_from_mctx mctx cx = cx\<lparr>gp := (mc_x mctx)[0 := 0], fp_f := mc_f mctx, fcsr := mc_fcsr mctx, sepc := mc_x mctx ! 0\<rparr>"

definition get_a0 :: "TrapContext \<Rightarrow> 64 word" where "get_a0 cx = gp cx ! 10"
definition get_sp :: "TrapContext \<Rightarrow> nat" where "get_sp cx = unat (gp cx ! 2)"
definition set_reg :: "nat \<Rightarrow> 64 word \<Rightarrow> TrapContext \<Rightarrow> TrapContext" where "set_reg i v cx = cx\<lparr>gp := (gp cx)[i := v]\<rparr>"

abbreviation set_ra :: "64 word \<Rightarrow> TrapContext \<Rightarrow> TrapContext" where "set_ra \<equiv> set_reg 1"
abbreviation set_sp :: "64 word \<Rightarrow> TrapContext \<Rightarrow> TrapContext" where "set_sp \<equiv> set_reg 2"
abbreviation set_a0 :: "64 word \<Rightarrow> TrapContext \<Rightarrow> TrapContext" where "set_a0 \<equiv> set_reg 10"
abbreviation set_a1 :: "64 word \<Rightarrow> TrapContext \<Rightarrow> TrapContext" where "set_a1 \<equiv> set_reg 11"
abbreviation set_a2 :: "64 word \<Rightarrow> TrapContext \<Rightarrow> TrapContext" where "set_a2 \<equiv> set_reg 12"

section \<open>The task\<close>

text \<open>
  \<open>t_waker\<close> says whether a waker is registered for an interruptible wait, and \<open>t_woke\<close> is the flag of
  that waker.
\<close>

record sig_task =
  t_tid :: nat
  t_pid :: nat
  t_status :: TaskStatus
  t_woke :: bool
  t_waker :: bool
  t_interrupted :: bool
  vfork_wait_child :: nat
  sig_mask :: SigSet
  sigsuspend_restore_mask :: "SigSet option"
  alt_signal_stack :: SignalStack
  sig_pending :: SigSet
  sig_pending_info :: "SigInfo option list"
  exec_teardown_kill :: bool
  t_rseq :: RseqState
  rseq_pending :: bool
  user_id :: nat
  effective_uid :: nat
  saved_uid :: nat
  sig_eintr :: bool
  sigtimedwait_timedout :: bool
  trap_cx :: TrapContext

section \<open>The bytes of a frame\<close>

definition word_bytes :: "64 word \<Rightarrow> byte list" where "word_bytes w = le_bytes 8 (uint w)"
definition half_bytes :: "32 word \<Rightarrow> byte list" where "half_bytes w = le_bytes 4 (uint w)"
definition bytes_word :: "byte list \<Rightarrow> 64 word" where "bytes_word bs = word_of_int (le_uint bs)"
definition bytes_half :: "byte list \<Rightarrow> 32 word" where "bytes_half bs = word_of_int (le_uint bs)"

definition words_bytes :: "64 word list \<Rightarrow> byte list" where "words_bytes ws = concat (map word_bytes ws)"

primrec bytes_words :: "nat \<Rightarrow> byte list \<Rightarrow> 64 word list" where
  "bytes_words 0 bs = []"
| "bytes_words (Suc n) bs = bytes_word (take 8 bs) # bytes_words n (drop 8 bs)"

text \<open>
  A machine context takes 520 bytes: 32 general registers, 32 floating-point registers, and \<^verbatim>\<open>fcsr\<close>
  with four bytes of padding, which nothing reads.
\<close>

definition mctx_bytes :: "MachineContext \<Rightarrow> byte list" where
  "mctx_bytes c = words_bytes (mc_x c) @ words_bytes (mc_f c) @ half_bytes (mc_fcsr c) @ replicate 4 0"

definition bytes_mctx :: "byte list \<Rightarrow> MachineContext" where
  "bytes_mctx bs = \<lparr>mc_x = bytes_words 32 bs, mc_f = bytes_words 32 (drop 256 bs), mc_fcsr = bytes_half (take 4 (drop 512 bs))\<rparr>"

definition stack_bytes :: "SignalStack \<Rightarrow> byte list" where
  "stack_bytes s = word_bytes (of_nat (ss_sp s)) @ half_bytes (ss_flags s) @ half_bytes 0 @ word_bytes (of_nat (ss_size s))"

definition bytes_stack :: "byte list \<Rightarrow> SignalStack" where
  "bytes_stack bs = \<lparr>ss_sp = unat (bytes_word (take 8 bs)), ss_flags = bytes_half (take 4 (drop 8 bs)),
     ss_size = unat (bytes_word (take 8 (drop 16 bs)))\<rparr>"

definition siginfo_bytes :: "SigInfo \<Rightarrow> byte list" where
  "siginfo_bytes i = half_bytes (si_signo i) @ half_bytes (si_errno i) @ half_bytes (si_code i) @ half_bytes 0 @
     half_bytes (si_pid i) @ half_bytes (si_uid i) @ half_bytes (si_status i) @ replicate 100 0"

definition SIGNAL_STACK_ALIGN :: nat where "SIGNAL_STACK_ALIGN = 16"
definition SIGNAL_FRAME_MAGIC :: "64 word" where "SIGNAL_FRAME_MAGIC = 0xdeadbeef"
definition PAD_SIZE :: nat where "PAD_SIZE = 128 - 8"

record UserContext =
  uc_stack :: SignalStack
  uc_sigmask :: SigSet
  uc_mcontext :: MachineContext

definition ucontext_bytes :: "UserContext \<Rightarrow> byte list" where
  "ucontext_bytes u = word_bytes 0 @ word_bytes 0 @ stack_bytes (uc_stack u) @ word_bytes (uc_sigmask u) @
     replicate PAD_SIZE 0 @ word_bytes 0 @ mctx_bytes (uc_mcontext u)"

definition bytes_ucontext :: "byte list \<Rightarrow> UserContext" where
  "bytes_ucontext bs = \<lparr>uc_stack = bytes_stack (drop 16 bs), uc_sigmask = bytes_word (take 8 (drop 40 bs)),
     uc_mcontext = bytes_mctx (drop 176 bs)\<rparr>"

definition normal_frame_bytes :: "SignalStack \<Rightarrow> SigSet \<Rightarrow> MachineContext \<Rightarrow> byte list" where
  "normal_frame_bytes stack sigmask mcontext =
     word_bytes SIGNAL_FRAME_MAGIC @ word_bytes 0 @ stack_bytes stack @ word_bytes sigmask @ mctx_bytes mcontext"

definition siginfo_frame_bytes :: "SigInfo \<Rightarrow> UserContext \<Rightarrow> byte list" where
  "siginfo_frame_bytes info ucontext =
     word_bytes SIGNAL_FRAME_MAGIC @ word_bytes (- 1) @ siginfo_bytes info @ ucontext_bytes ucontext"

text \<open>The sizes and offsets that the code computes from the layout\<close>

definition NORMAL_FRAME_SIZE :: nat where "NORMAL_FRAME_SIZE = 568"
definition SIGINFO_FRAME_SIZE :: nat where "SIGINFO_FRAME_SIZE = 840"
definition MCONTEXT_SIZE :: nat where "MCONTEXT_SIZE = 520"
definition UCONTEXT_SIZE :: nat where "UCONTEXT_SIZE = 696"
definition NORMAL_FRAME_MCONTEXT_OFFSET :: nat where "NORMAL_FRAME_MCONTEXT_OFFSET = 48"
definition SIGINFO_FRAME_SIGINFO_OFFSET :: nat where "SIGINFO_FRAME_SIGINFO_OFFSET = 16"
definition SIGINFO_FRAME_UCONTEXT_OFFSET :: nat where "SIGINFO_FRAME_UCONTEXT_OFFSET = 144"
definition SIGINFO_FRAME_MCONTEXT_OFFSET :: nat where "SIGINFO_FRAME_MCONTEXT_OFFSET = 320"

section \<open>Building a frame\<close>

definition USER_STACK_SIZE :: nat where "USER_STACK_SIZE = 1024 * 1024 * 8"

text \<open>\<^verbatim>\<open>VirtAddr::from\<close> asserts that an address is canonical.\<close>

definition virt_addr :: "nat \<Rightarrow> nat option" where
  "virt_addr v = (if v < 2 ^ 39 \<or> 2 ^ 64 - 2 ^ 39 \<le> v then Some v else None)"

text \<open>The mapped areas, as ranges of page numbers, and the address of the kernel's return trampoline\<close>

record frame_env =
  areas :: "(nat \<times> nat) list"
  sigreturn_va :: nat

text \<open>
  Where the frame goes, and how far down it may reach.  The outer \<open>None\<close> is a panic, the inner one an
  alternate stack that leaves the address space.
\<close>

definition choose_stack :: "frame_env \<Rightarrow> SigAction \<Rightarrow> SignalStack \<Rightarrow> nat \<Rightarrow> (nat \<times> nat) option option" where
  "choose_stack env a alt interrupted_sp =
     (if flags_contain (sa_flags a) SA_ONSTACK \<and> should_switch_for_signal alt interrupted_sp
      then Some (map_option (\<lambda>top. (top, ss_sp alt)) (stack_top alt))
      else if is_on_stack alt interrupted_sp then Some (Some (interrupted_sp, ss_sp alt))
      else map_option (\<lambda>va.
             let sp_vpn = va div PAGE_SIZE;
                 stack_bottom = (case find (\<lambda>(s, e). s \<le> sp_vpn \<and> sp_vpn < e) (areas env) of
                                   Some (s, e) \<Rightarrow> wrap64 (s * 2 ^ 12)
                                 | None \<Rightarrow> interrupted_sp - USER_STACK_SIZE) in
             Some (interrupted_sp, stack_bottom)) (virt_addr interrupted_sp))"

text \<open>
  The start of the frame: below the stack pointer by its size, rounded down to 16 bytes, inside the
  stack and writable.
\<close>

definition place_frame :: "nat \<Rightarrow> nat \<Rightarrow> nat \<Rightarrow> user_mem \<Rightarrow> nat option" where
  "place_frame user_sp stack_bottom raw_frame_size m =
     (if user_sp < raw_frame_size then None
      else
        let raw_frame_start = user_sp - raw_frame_size;
            frame_padding = raw_frame_start mod SIGNAL_STACK_ALIGN;
            frame_size = raw_frame_size + frame_padding;
            frame_start = raw_frame_start - frame_padding in
        if frame_start < stack_bottom then None
        else case probe_user_write frame_start frame_size m of Inl e \<Rightarrow> None | Inr n \<Rightarrow> Some frame_start)"

definition neg_errno :: "SysErrNo \<Rightarrow> 64 word" where
  "neg_errno e = (case e of SysErrNo i \<Rightarrow> - word_of_int i)"

definition restart_syscall :: "SigAction \<Rightarrow> TrapContext \<Rightarrow> TrapContext" where
  "restart_syscall a cx =
     (if get_a0 cx = neg_errno ERESTART then
        if flags_contain (sa_flags a) SA_RESTART then set_a0 (origin_a0 cx) (cx\<lparr>sepc := sepc cx + (- 4)\<rparr>)
        else set_a0 (neg_errno EINTR) cx
      else cx)"

definition verify_signal_frame_values :: "64 word \<Rightarrow> 64 word \<Rightarrow> byte list \<Rightarrow> nat \<Rightarrow> bool" where
  "verify_signal_frame_values expected_siginfo_flag expected_pc frame mctx_offset \<longleftrightarrow>
     bytes_word (take 8 frame) = SIGNAL_FRAME_MAGIC \<and> bytes_word (take 8 (drop 8 frame)) = expected_siginfo_flag \<and>
     bytes_word (take 8 (drop mctx_offset frame)) = expected_pc"

text \<open>Writing the frame and reading it back; \<open>None\<close> when either fails\<close>

definition write_frame :: "nat \<Rightarrow> byte list \<Rightarrow> 64 word \<Rightarrow> 64 word \<Rightarrow> nat \<Rightarrow> user_mem \<Rightarrow> bool \<times> user_mem" where
  "write_frame signal_sp frame flag expected_pc mctx_offset m =
     (case copy_to_user signal_sp frame m of
        (Inl e, m1) \<Rightarrow> (False, m1)
      | (Inr n, m1) \<Rightarrow>
          (case copy_from_user signal_sp (length frame) m1 of
             Inl e \<Rightarrow> (False, m1)
           | Inr bs \<Rightarrow> (verify_signal_frame_values flag expected_pc bs mctx_offset, m1)))"

text \<open>The context in which the handler starts, and the signals blocked while it runs\<close>

definition enter_handler :: "frame_env \<Rightarrow> nat \<Rightarrow> SigAction \<Rightarrow> nat \<Rightarrow> TrapContext \<Rightarrow> TrapContext" where
  "enter_handler env signo a signal_sp cx =
     (let cx1 = (if flags_contain (sa_flags a) SA_SIGINFO
                 then set_a1 (of_nat (signal_sp + SIGINFO_FRAME_SIGINFO_OFFSET))
                        (set_a2 (of_nat (signal_sp + SIGINFO_FRAME_UCONTEXT_OFFSET)) cx)
                 else cx);
          restorer = (if flags_contain (sa_flags a) SA_RESTORER then sa_restore a else sigreturn_va env) in
      set_ra (of_nat restorer) ((set_sp (of_nat signal_sp) (set_a0 (of_nat signo) cx1))\<lparr>sepc := of_nat (sa_handler a)\<rparr>))"

definition handler_mask :: "nat \<Rightarrow> SigAction \<Rightarrow> SigSet" where
  "handler_mask signo a =
     (if flags_contain (sa_flags a) SA_NODEFER then sa_mask a
      else sa_mask a OR (case from_sig signo of Some s \<Rightarrow> s | None \<Rightarrow> 0))"

text \<open>The mask that returning from the handler puts back\<close>

definition saved_mask :: "sig_task \<Rightarrow> SigSet" where
  "saved_mask t = (case sigsuspend_restore_mask t of Some old \<Rightarrow> old | None \<Rightarrow> sig_mask t)"

definition SEGV_EXIT :: nat where "SEGV_EXIT = SIGSEGV + 128"

text \<open>
  \<^verbatim>\<open>setup_frame\<close>.  \<open>None\<close> is a panic of the kernel; otherwise the first component is the exit code of a
  task that has no room for its frame.
\<close>

definition setup_frame :: "frame_env \<Rightarrow> nat \<Rightarrow> KSigAction \<Rightarrow> SigInfo option \<Rightarrow> sig_task \<Rightarrow> SigTable \<Rightarrow> user_mem \<Rightarrow>
    (nat option \<times> sig_task \<times> SigTable \<times> user_mem) option" where
  "setup_frame env signo k siginfo t0 table m =
     (let a = act k;
          table1 = (if flags_contain (sa_flags a) SA_RESETHAND then set_action signo default_action table else table);
          active_sig_mask = sig_mask t0;
          restore_sig_mask = saved_mask t0;
          t = t0\<lparr>sigsuspend_restore_mask := None\<rparr>;
          alt = alt_signal_stack t0;
          is_siginfo_frame = flags_contain (sa_flags a) SA_SIGINFO in
      case choose_stack env a alt (get_sp (trap_cx t0)) of
        None \<Rightarrow> None
      | Some None \<Rightarrow> Some (Some SEGV_EXIT, t, table1, m)
      | Some (Some (user_sp, stack_bottom)) \<Rightarrow>
          (case place_frame user_sp stack_bottom (if is_siginfo_frame then SIGINFO_FRAME_SIZE else NORMAL_FRAME_SIZE) m of
             None \<Rightarrow> Some (Some SEGV_EXIT, t, table1, m)
           | Some signal_sp \<Rightarrow>
               let cx = restart_syscall a (trap_cx t0);
                   expected_pc = sepc cx;
                   (ok, m1) =
                     (if is_siginfo_frame
                      then write_frame signal_sp
                             (siginfo_frame_bytes (case siginfo of Some i \<Rightarrow> i | None \<Rightarrow> SigInfo_new signo 0 0 0)
                                \<lparr>uc_stack = alt, uc_sigmask = restore_sig_mask, uc_mcontext = as_mctx cx\<rparr>)
                             (- 1) expected_pc SIGINFO_FRAME_MCONTEXT_OFFSET m
                      else write_frame signal_sp (normal_frame_bytes alt restore_sig_mask (as_mctx cx)) 0 expected_pc
                             NORMAL_FRAME_MCONTEXT_OFFSET m) in
               if \<not> ok then Some (Some SEGV_EXIT, t, table1, m1)
               else
                 Some (None,
                       t\<lparr>trap_cx := enter_handler env signo a signal_sp cx, sig_mask := active_sig_mask OR handler_mask signo a,
                         alt_signal_stack := if is_autodisarm alt then stack_disabled else alt\<rparr>,
                       table1, m1)))"

section \<open>Returning from a handler\<close>

text \<open>A read that fails gives \<^verbatim>\<open>EINVAL\<close>.\<close>

definition read_frame :: "nat \<Rightarrow> nat \<Rightarrow> user_mem \<Rightarrow> byte list sys_result" where
  "read_frame a n m = (case copy_from_user a n m of Inl e \<Rightarrow> Inl EINVAL | Inr bs \<Rightarrow> Inr bs)"

definition read_normal_frame :: "nat \<Rightarrow> user_mem \<Rightarrow> (SigSet \<times> SignalStack \<times> MachineContext) sys_result" where
  "read_normal_frame user_sp m =
     (case read_frame user_sp 24 m of
        Inl e \<Rightarrow> Inl e
      | Inr stack \<Rightarrow>
          (case read_frame (wrap64 (user_sp + 24)) 8 m of
             Inl e \<Rightarrow> Inl e
           | Inr sigmask \<Rightarrow>
               (case read_frame (wrap64 (user_sp + 32)) MCONTEXT_SIZE m of
                  Inl e \<Rightarrow> Inl e
                | Inr mctx \<Rightarrow> Inr (bytes_word sigmask, bytes_stack stack, bytes_mctx mctx))))"

definition read_siginfo_frame :: "nat \<Rightarrow> user_mem \<Rightarrow> (SigSet \<times> SignalStack \<times> MachineContext) sys_result" where
  "read_siginfo_frame user_sp m =
     (case read_frame (wrap64 (user_sp + 128)) UCONTEXT_SIZE m of
        Inl e \<Rightarrow> Inl e
      | Inr bs \<Rightarrow> let u = bytes_ucontext bs in Inr (uc_sigmask u, uc_stack u, uc_mcontext u))"

definition restore_frame :: "user_mem \<Rightarrow> sig_task \<Rightarrow> 64 word sys_result \<times> sig_task" where
  "restore_frame m t =
     (let signal_sp = get_sp (trap_cx t) in
      case read_frame signal_sp 8 m of
        Inl e \<Rightarrow> (Inl e, t)
      | Inr checkout \<Rightarrow>
          if bytes_word checkout \<noteq> SIGNAL_FRAME_MAGIC then (Inl EINVAL, t)
          else
            (case read_frame (wrap64 (signal_sp + 8)) 8 m of
               Inl e \<Rightarrow> (Inl e, t)
             | Inr flag \<Rightarrow>
                 let user_sp = wrap64 (signal_sp + 16) in
                 (case (if bytes_word flag = - 1 then read_siginfo_frame user_sp m else read_normal_frame user_sp m) of
                    Inl e \<Rightarrow> (Inl e, t)
                  | Inr (restored_sig_mask, restored_stack, restored_mctx) \<Rightarrow>
                      let cx = copy_from_mctx restored_mctx (trap_cx t);
                          t1 = t\<lparr>sig_mask := restored_sig_mask, trap_cx := cx\<rparr> in
                      (Inr (get_a0 cx),
                       case replace_from_user (alt_signal_stack t) restored_stack (get_sp cx) of
                         Inl e \<Rightarrow> t1
                       | Inr stack \<Rightarrow> t1\<lparr>alt_signal_stack := stack\<rparr>))))"

section \<open>What is written is restored\<close>

lemma length_encodings [simp]:
  "length (word_bytes w) = 8" "length (half_bytes h) = 4" "length (stack_bytes s) = 24" "length (siginfo_bytes i) = 128"
  by (simp_all add: word_bytes_def half_bytes_def stack_bytes_def siginfo_bytes_def)

lemma word_bytes_nonempty [simp]: "word_bytes w \<noteq> []"
  using length_encodings(1) [of w] by fastforce

lemma length_words_bytes [simp]: "length (words_bytes ws) = 8 * length ws"
  by (induction ws) (simp_all add: words_bytes_def)

lemma bytes_word [simp]: "bytes_word (word_bytes w) = w"
  using uint_lt2p [of w] by (simp add: bytes_word_def word_bytes_def)

lemma bytes_half [simp]: "bytes_half (half_bytes w) = w"
  using uint_lt2p [of w] by (simp add: bytes_half_def half_bytes_def)

lemma bytes_words [simp]: "bytes_words (length ws) (words_bytes ws @ r) = ws"
  by (induction ws) (simp_all add: words_bytes_def)

definition mctx_ok :: "MachineContext \<Rightarrow> bool" where
  "mctx_ok c \<longleftrightarrow> length (mc_x c) = 32 \<and> length (mc_f c) = 32"

lemma length_mctx_bytes [simp]: "mctx_ok c \<Longrightarrow> length (mctx_bytes c) = 520"
  by (simp add: mctx_bytes_def mctx_ok_def)

lemma bytes_mctx [simp]:
  assumes "mctx_ok c"
  shows "bytes_mctx (mctx_bytes c) = c"
proof -
  have l: "length (mc_x c) = 32" "length (mc_f c) = 32" using assms by (simp_all add: mctx_ok_def)
  have "bytes_words 32 (words_bytes (mc_x c) @ r) = mc_x c" "bytes_words 32 (words_bytes (mc_f c) @ r) = mc_f c" for r
    using bytes_words [of "mc_x c" r] bytes_words [of "mc_f c" r] l by simp_all
  then show ?thesis by (simp add: bytes_mctx_def mctx_bytes_def l)
qed

lemma bytes_mctx_pc: "mctx_ok c \<Longrightarrow> bytes_word (take 8 (mctx_bytes c)) = mc_x c ! 0"
  by (cases "mc_x c") (simp_all add: mctx_ok_def mctx_bytes_def words_bytes_def)

text \<open>The alternate stacks that \<^verbatim>\<open>sigaltstack\<close> can install\<close>

definition stack_ok :: "SignalStack \<Rightarrow> bool" where
  "stack_ok s \<longleftrightarrow> ss_sp s < 2 ^ 64 \<and> ss_size s < 2 ^ 64 \<and>
     (let mode = ss_flags s AND NOT SS_AUTODISARM in
      if mode = SS_DISABLE then ss_sp s = 0 \<and> ss_size s = 0 else (mode = 0 \<or> mode = SS_ONSTACK) \<and> MINSIGSTKSZ \<le> ss_size s)"

lemma bytes_stack [simp]:
  assumes "stack_ok s"
  shows "bytes_stack (stack_bytes s @ r) = s"
  using assms by (simp add: stack_ok_def bytes_stack_def stack_bytes_def unat_of_nat)

lemma bytes_stack' [simp]: "stack_ok s \<Longrightarrow> bytes_stack (stack_bytes s) = s"
  using bytes_stack [of s "[]"] by simp

lemma stack_ok_replace:
  assumes "replace_from_user s requested sp = Inr s'" "ss_sp requested < 2 ^ 64" "ss_size requested < 2 ^ 64"
  shows "stack_ok s'"
  using assms by (auto simp: replace_from_user_def stack_ok_def Let_def split: if_splits)

lemma stack_ok_disabled [simp]: "stack_ok stack_disabled"
  by (simp add: stack_ok_def stack_disabled_def SS_DISABLE_def SS_AUTODISARM_def)

text \<open>Putting an installed stack back gives the same stack, or leaves it when it is in use.\<close>

lemma replace_restores:
  assumes "stack_ok s" "current = (if is_autodisarm s then stack_disabled else s)"
  shows "(case replace_from_user current s sp of Inl e \<Rightarrow> current | Inr s' \<Rightarrow> s') = s"
proof (cases "is_on_stack current sp")
  case True
  then have "current = s" using assms by (auto simp: is_on_stack_def is_disabled_def stack_disabled_def split: if_splits)
  with True show ?thesis by (simp add: replace_from_user_def)
next
  case False
  with assms show ?thesis by (auto simp: replace_from_user_def stack_ok_def Let_def split: if_splits)
qed

text \<open>Reading parts of bytes that lie in readable memory\<close>

definition frame_at :: "user_mem \<Rightarrow> nat \<Rightarrow> byte list \<Rightarrow> bool" where
  "frame_at m sp bs \<longleftrightarrow> range_ok (may_read m) sp (length bs) \<and> user_bytes m sp (length bs) = bs"

lemma read_frame_at:
  assumes f: "frame_at m sp bs" and n: "i + n \<le> length bs" "0 < n"
  shows "read_frame (wrap64 (sp + i)) n m = Inr (take n (drop i bs))"
proof -
  have "sp + i < 2 ^ 64" using f n by (simp add: frame_at_def range_ok_def usize_max_def)
  moreover have "range_ok (may_read m) (sp + i) n" using f n by (auto simp: frame_at_def intro: range_ok_sub)
  moreover have "user_bytes m (sp + i) n = take n (drop i bs)"
    using user_bytes_sub [of m sp i n "length bs - (i + n)"] f n by (simp add: frame_at_def)
  ultimately show ?thesis using n by (simp add: read_frame_def copy_from_user_def wrap64_def)
qed

lemma read_frame_start:
  assumes "frame_at m sp bs" "n \<le> length bs" "0 < n"
  shows "read_frame sp n m = Inr (take n bs)"
  using read_frame_at [of m sp bs 0 n] assms by (simp add: frame_at_def range_ok_def usize_max_def wrap64_def)

text \<open>What \<^verbatim>\<open>rt_sigreturn\<close> does with a frame: the mask, the context and the alternate stack of the frame\<close>

definition resumed_task :: "SigSet \<Rightarrow> SignalStack \<Rightarrow> MachineContext \<Rightarrow> sig_task \<Rightarrow> sig_task" where
  "resumed_task sigmask stack mctx t =
     (let cx = copy_from_mctx mctx (trap_cx t) in
      t\<lparr>sig_mask := sigmask, trap_cx := cx,
        alt_signal_stack := case replace_from_user (alt_signal_stack t) stack (get_sp cx) of Inl e \<Rightarrow> alt_signal_stack t | Inr s \<Rightarrow> s\<rparr>)"

lemma restore_normal:
  assumes f: "frame_at m (get_sp (trap_cx t)) (normal_frame_bytes stack sigmask mctx)" and ok: "stack_ok stack" "mctx_ok mctx"
  shows "restore_frame m t = (Inr (get_a0 (copy_from_mctx mctx (trap_cx t))), resumed_task sigmask stack mctx t)"
proof -
  let ?sp = "get_sp (trap_cx t)" and ?b = "normal_frame_bytes stack sigmask mctx"
  have len: "length ?b = 568" using ok by (simp add: normal_frame_bytes_def)
  have top: "?sp + 568 < 2 ^ 64" using f by (simp add: frame_at_def range_ok_def usize_max_def len)
  have "read_frame ?sp 8 m = Inr (word_bytes SIGNAL_FRAME_MAGIC)"
    using read_frame_start [OF f, of 8] by (simp add: len) (simp add: normal_frame_bytes_def)
  moreover have "read_frame (wrap64 (?sp + 8)) 8 m = Inr (word_bytes 0)"
    using read_frame_at [OF f, of 8 8] by (simp add: len) (simp add: normal_frame_bytes_def)
  moreover have "read_frame (wrap64 (?sp + 16)) 24 m = Inr (stack_bytes stack)"
    using read_frame_at [OF f, of 16 24] by (simp add: len) (simp add: normal_frame_bytes_def)
  moreover have "read_frame (wrap64 (wrap64 (?sp + 16) + 24)) 8 m = Inr (word_bytes sigmask)"
    using read_frame_at [OF f, of 40 8] top by (simp add: len wrap64_def) (simp add: normal_frame_bytes_def add.commute)
  moreover have "read_frame (wrap64 (wrap64 (?sp + 16) + 32)) 520 m = Inr (mctx_bytes mctx)"
    using read_frame_at [OF f, of 48 520] top ok by (simp add: len wrap64_def) (simp add: normal_frame_bytes_def add.commute)
  ultimately show ?thesis using ok
    by (simp add: restore_frame_def read_normal_frame_def MCONTEXT_SIZE_def resumed_task_def Let_def split: sum.split)
qed

lemma restore_siginfo:
  assumes f: "frame_at m (get_sp (trap_cx t)) (siginfo_frame_bytes info u)" and ok: "stack_ok (uc_stack u)" "mctx_ok (uc_mcontext u)"
  shows "restore_frame m t =
    (Inr (get_a0 (copy_from_mctx (uc_mcontext u) (trap_cx t))), resumed_task (uc_sigmask u) (uc_stack u) (uc_mcontext u) t)"
proof -
  let ?sp = "get_sp (trap_cx t)" and ?b = "siginfo_frame_bytes info u"
  have lu: "length (ucontext_bytes u) = 696" using ok by (simp add: ucontext_bytes_def PAD_SIZE_def)
  have len: "length ?b = 840" by (simp add: siginfo_frame_bytes_def lu)
  have top: "?sp + 840 < 2 ^ 64" using f by (simp add: frame_at_def range_ok_def usize_max_def len)
  have u: "bytes_ucontext (ucontext_bytes u) = u"
    using ok by (simp add: bytes_ucontext_def ucontext_bytes_def PAD_SIZE_def)
  have "read_frame ?sp 8 m = Inr (word_bytes SIGNAL_FRAME_MAGIC)"
    using read_frame_start [OF f, of 8] by (simp add: len) (simp add: siginfo_frame_bytes_def)
  moreover have "read_frame (wrap64 (?sp + 8)) 8 m = Inr (word_bytes (- 1))"
    using read_frame_at [OF f, of 8 8] by (simp add: len) (simp add: siginfo_frame_bytes_def)
  moreover have "read_frame (wrap64 (wrap64 (?sp + 16) + 128)) 696 m = Inr (ucontext_bytes u)"
    using read_frame_at [OF f, of 144 696] top by (simp add: len wrap64_def) (simp add: siginfo_frame_bytes_def lu add.commute)
  ultimately show ?thesis
    by (simp add: restore_frame_def read_siginfo_frame_def UCONTEXT_SIZE_def resumed_task_def u Let_def split: sum.split)
qed

text \<open>A successful \<^verbatim>\<open>setup_frame\<close>: the frame is in memory below the handler's stack pointer.\<close>

definition cx_ok :: "TrapContext \<Rightarrow> bool" where
  "cx_ok cx \<longleftrightarrow> length (gp cx) = 32 \<and> length (fp_f cx) = 32 \<and> gp cx ! 0 = 0"

definition frame_bytes :: "nat \<Rightarrow> KSigAction \<Rightarrow> SigInfo option \<Rightarrow> sig_task \<Rightarrow> byte list" where
  "frame_bytes signo k siginfo t =
     (let mctx = as_mctx (restart_syscall (act k) (trap_cx t)) in
      if flags_contain (sa_flags (act k)) SA_SIGINFO
      then siginfo_frame_bytes (case siginfo of Some i \<Rightarrow> i | None \<Rightarrow> SigInfo_new signo 0 0 0)
             \<lparr>uc_stack = alt_signal_stack t, uc_sigmask = saved_mask t, uc_mcontext = mctx\<rparr>
      else normal_frame_bytes (alt_signal_stack t) (saved_mask t) mctx)"

lemma restart_cx_ok [simp]: "cx_ok cx \<Longrightarrow> cx_ok (restart_syscall a cx)"
  by (simp add: cx_ok_def restart_syscall_def set_reg_def)

lemma as_mctx_ok [simp]: "cx_ok cx \<Longrightarrow> mctx_ok (as_mctx cx)"
  by (simp add: cx_ok_def mctx_ok_def as_mctx_def)

lemma write_frame_ok:
  assumes "write_frame sp bs flag pc off m = (True, m1)" "bs \<noteq> []"
  shows "frame_at m1 sp bs \<and> may_read m1 = may_read m \<and> may_write m1 = may_write m"
proof -
  obtain n where c: "copy_to_user sp bs m = (Inr n, m1)"
    using assms(1) by (auto simp: write_frame_def split: prod.splits sum.splits)
  have "range_ok (may_read m1) sp (length bs)"
    using assms c by (auto simp: write_frame_def copy_from_user_def split: sum.splits if_splits)
  with copy_to_user_cases [OF c] show ?thesis by (simp add: frame_at_def)
qed

lemma setup_frame_ok:
  assumes s: "setup_frame env signo k siginfo t table m = Some (None, t1, table1, m1)" and ok: "cx_ok (trap_cx t)"
  shows "\<exists>sp. get_sp (trap_cx t1) = sp \<and> sp mod 16 = 0 \<and> frame_at m1 sp (frame_bytes signo k siginfo t) \<and>
    t1 = t\<lparr>sigsuspend_restore_mask := None, trap_cx := enter_handler env signo (act k) sp (restart_syscall (act k) (trap_cx t)),
           sig_mask := sig_mask t OR handler_mask signo (act k),
           alt_signal_stack := if is_autodisarm (alt_signal_stack t) then stack_disabled else alt_signal_stack t\<rparr>"
proof -
  let ?a = "act k" and ?alt = "alt_signal_stack t" and ?cx = "restart_syscall (act k) (trap_cx t)"
  let ?si = "flags_contain (sa_flags (act k)) SA_SIGINFO"
  obtain user_sp bottom where c: "choose_stack env ?a ?alt (get_sp (trap_cx t)) = Some (Some (user_sp, bottom))"
    using s by (auto simp: setup_frame_def Let_def split: option.splits)
  obtain sp where p: "place_frame user_sp bottom (if ?si then SIGINFO_FRAME_SIZE else NORMAL_FRAME_SIZE) m = Some sp"
    using s c by (auto simp: setup_frame_def Let_def split: option.splits)
  have sp16: "sp mod 16 = 0"
    using p by (auto simp: place_frame_def SIGNAL_STACK_ALIGN_def Let_def minus_mod_eq_mult_div split: if_splits sum.splits)
  let ?flag = "if ?si then - 1 else 0"
  let ?off = "if ?si then SIGINFO_FRAME_MCONTEXT_OFFSET else NORMAL_FRAME_MCONTEXT_OFFSET"
  let ?t = "t\<lparr>sigsuspend_restore_mask := None, trap_cx := enter_handler env signo ?a sp ?cx,
      sig_mask := sig_mask t OR handler_mask signo ?a, alt_signal_stack := if is_autodisarm ?alt then stack_disabled else ?alt\<rparr>"
  obtain written m2 where w: "write_frame sp (frame_bytes signo k siginfo t) ?flag (sepc ?cx) ?off m = (written, m2)"
    by (cases "write_frame sp (frame_bytes signo k siginfo t) ?flag (sepc ?cx) ?off m")
  have "setup_frame env signo k siginfo t table m =
      (let table1 = (if flags_contain (sa_flags ?a) SA_RESETHAND then set_action signo default_action table else table) in
       if written then Some (None, ?t, table1, m2) else Some (Some SEGV_EXIT, t\<lparr>sigsuspend_restore_mask := None\<rparr>, table1, m2))"
  proof (cases ?si)
    case True
    then have "write_frame sp (siginfo_frame_bytes (case siginfo of Some i \<Rightarrow> i | None \<Rightarrow> SigInfo_new signo 0 0 0)
          \<lparr>uc_stack = ?alt, uc_sigmask = saved_mask t, uc_mcontext = as_mctx ?cx\<rparr>) (- 1) (sepc ?cx) SIGINFO_FRAME_MCONTEXT_OFFSET m =
        (written, m2)"
      using w by (simp add: frame_bytes_def Let_def)
    moreover have "place_frame user_sp bottom SIGINFO_FRAME_SIZE m = Some sp" using p True by simp
    ultimately show ?thesis
      by (cases written) (simp_all only: setup_frame_def Let_def True c if_True if_False not_True_eq_False not_False_eq_True option.case prod.case)
  next
    case False
    then have "write_frame sp (normal_frame_bytes ?alt (saved_mask t) (as_mctx ?cx)) 0 (sepc ?cx) NORMAL_FRAME_MCONTEXT_OFFSET m =
        (written, m2)"
      using w by (simp add: frame_bytes_def Let_def)
    moreover have "place_frame user_sp bottom NORMAL_FRAME_SIZE m = Some sp" using p False by simp
    ultimately show ?thesis
      by (cases written) (simp_all only: setup_frame_def Let_def False c if_True if_False not_True_eq_False not_False_eq_True option.case prod.case)
  qed
  with s have "written" "t1 = ?t" "m2 = m1" by (simp_all add: Let_def split: if_splits)
  note t1 = \<open>t1 = ?t\<close> and w = w [unfolded \<open>m2 = m1\<close>] \<open>written\<close>
  have "frame_bytes signo k siginfo t \<noteq> []"
    by (simp add: frame_bytes_def Let_def siginfo_frame_bytes_def normal_frame_bytes_def)
  with write_frame_ok w have f: "frame_at m1 sp (frame_bytes signo k siginfo t)" by simp
  then have "sp < 2 ^ 64" by (simp add: frame_at_def range_ok_def usize_max_def)
  moreover have "length (gp ?cx) = 32" using ok by (simp add: restart_syscall_def set_reg_def cx_ok_def)
  ultimately have "get_sp (trap_cx t1) = sp" by (simp add: t1 enter_handler_def set_reg_def get_sp_def unat_of_nat Let_def)
  with sp16 f t1 show ?thesis by (intro exI [of _ sp] conjI)
qed

lemma copy_from_as_mctx:
  assumes "cx_ok cx"
  shows "copy_from_mctx (as_mctx cx) cx' =
    cx'\<lparr>gp := gp cx, sepc := sepc cx, fp_f := fp_f cx, fcsr := fcsr cx\<rparr>"
proof -
  have "(gp cx)[0 := 0] = gp cx" using assms by (metis cx_ok_def list_update_id)
  moreover have "0 < length (gp cx)" using assms by (simp add: cx_ok_def)
  ultimately show ?thesis by (simp add: copy_from_mctx_def as_mctx_def)
qed

text \<open>A frame is built whenever there is room for it and its memory can be used.\<close>

lemma length_frame_bytes:
  assumes "cx_ok (trap_cx t)"
  shows "length (frame_bytes signo k siginfo t) =
    (if flags_contain (sa_flags (act k)) SA_SIGINFO then SIGINFO_FRAME_SIZE else NORMAL_FRAME_SIZE)"
  using assms by (simp add: frame_bytes_def Let_def siginfo_frame_bytes_def normal_frame_bytes_def ucontext_bytes_def PAD_SIZE_def
      SIGINFO_FRAME_SIZE_def NORMAL_FRAME_SIZE_def)

lemma frame_verified:
  assumes ok: "cx_ok (trap_cx t)"
  shows "verify_signal_frame_values (if flags_contain (sa_flags (act k)) SA_SIGINFO then - 1 else 0)
    (sepc (restart_syscall (act k) (trap_cx t))) (frame_bytes signo k siginfo t)
    (if flags_contain (sa_flags (act k)) SA_SIGINFO then SIGINFO_FRAME_MCONTEXT_OFFSET else NORMAL_FRAME_MCONTEXT_OFFSET)"
proof -
  let ?c = "as_mctx (restart_syscall (act k) (trap_cx t))"
  have "bytes_word (take 8 (mctx_bytes ?c)) = sepc (restart_syscall (act k) (trap_cx t))"
    using bytes_mctx_pc [OF as_mctx_ok [OF restart_cx_ok [OF ok, of "act k"]]] restart_cx_ok [OF ok, of "act k"]
    by (simp add: as_mctx_def cx_ok_def)
  then show ?thesis
    by (simp add: verify_signal_frame_values_def frame_bytes_def Let_def siginfo_frame_bytes_def normal_frame_bytes_def
        ucontext_bytes_def PAD_SIZE_def SIGINFO_FRAME_MCONTEXT_OFFSET_def NORMAL_FRAME_MCONTEXT_OFFSET_def)
qed

lemma write_frame_succeeds:
  assumes w: "range_ok (may_write m) sp (length bs)" "range_ok (may_read m) sp (length bs)" and v: "verify_signal_frame_values flag pc bs off"
    and ne: "bs \<noteq> []"
  shows "\<exists>m1. write_frame sp bs flag pc off m = (True, m1)"
proof -
  obtain r m1 where c: "copy_to_user sp bs m = (r, m1)" by (cases "copy_to_user sp bs m")
  have r: "r = Inr (length bs)" using c copy_to_user_ok [OF w(1)] by simp
  from copy_to_user_cases [OF c] have "may_read m1 = may_read m" "user_bytes m1 sp (length bs) = bs" by (simp_all add: r)
  then show ?thesis using c r w(2) v ne by (simp add: write_frame_def copy_from_user_def)
qed

lemma setup_frame_succeeds:
  assumes c: "choose_stack env (act k) (alt_signal_stack t) (get_sp (trap_cx t)) = Some (Some (user_sp, bottom))"
    and p: "place_frame user_sp bottom (length (frame_bytes signo k siginfo t)) m = Some sp"
    and ok: "cx_ok (trap_cx t)" and r: "range_ok (may_read m) sp (length (frame_bytes signo k siginfo t))"
  shows "\<exists>t1 table1 m1. setup_frame env signo k siginfo t table m = Some (None, t1, table1, m1)"
proof -
  let ?b = "frame_bytes signo k siginfo t"
  have ne: "0 < length ?b" using length_frame_bytes [OF ok, of signo k siginfo] by (simp add: SIGINFO_FRAME_SIZE_def NORMAL_FRAME_SIZE_def)
  have "range_ok (may_write m) sp (length ?b)"
  proof -
    obtain n where n: "range_ok (may_write m) sp (length ?b + n)"
      using p ne by (auto simp: place_frame_def probe_user_write_def Let_def split: if_splits)
    then show ?thesis using range_ok_sub [of "may_write m" sp _ 0 "length ?b"] by fastforce
  qed
  then obtain m1 where w: "write_frame sp ?b (if flags_contain (sa_flags (act k)) SA_SIGINFO then - 1 else 0)
      (sepc (restart_syscall (act k) (trap_cx t))) (if flags_contain (sa_flags (act k)) SA_SIGINFO
        then SIGINFO_FRAME_MCONTEXT_OFFSET else NORMAL_FRAME_MCONTEXT_OFFSET) m = (True, m1)"
    using write_frame_succeeds [OF _ r frame_verified [OF ok]] ne by blast
  have p': "place_frame user_sp bottom (if flags_contain (sa_flags (act k)) SA_SIGINFO then SIGINFO_FRAME_SIZE else NORMAL_FRAME_SIZE) m = Some sp"
    using p by (simp only: length_frame_bytes [OF ok])
  show ?thesis
  proof (cases "flags_contain (sa_flags (act k)) SA_SIGINFO")
    case True
    then show ?thesis using w p' unfolding frame_bytes_def setup_frame_def Let_def c by simp
  next
    case False
    then show ?thesis using w p' unfolding frame_bytes_def setup_frame_def Let_def c by simp
  qed
qed

text \<open>
  C9.  A handler that leaves its frame alone returns to where it interrupted.  After a frame was
  built, whatever the handler did to its registers, to its mask and to the rest of memory, and
  through whichever of the two frame layouts, \<^verbatim>\<open>rt_sigreturn\<close> with the stack pointer of the frame
  succeeds.  It puts back every register, the program counter, the floating-point state and the
  alternate stack; a call that was to be restarted is restarted or answers \<^verbatim>\<open>EINTR\<close>; and the mask is
  the one before the signal, or before \<^verbatim>\<open>rt_sigsuspend\<close> when the signal ended it.
\<close>

theorem signal_frame_roundtrip:
  assumes s: "setup_frame env signo k siginfo t table m = Some (None, t1, table1, m1)"
    and ok: "cx_ok (trap_cx t)" "stack_ok (alt_signal_stack t)"
    and handler: "get_sp (trap_cx t2) = get_sp (trap_cx t1)" "alt_signal_stack t2 = alt_signal_stack t1"
      "frame_at m2 (get_sp (trap_cx t1)) (frame_bytes signo k siginfo t)"
  shows "let cx = restart_syscall (act k) (trap_cx t) in
    restore_frame m2 t2 = (Inr (get_a0 cx),
      t2\<lparr>sig_mask := saved_mask t, alt_signal_stack := alt_signal_stack t,
         trap_cx := (trap_cx t2)\<lparr>gp := gp cx, sepc := sepc cx, fp_f := fp_f cx, fcsr := fcsr cx\<rparr>\<rparr>)"
proof -
  let ?cx = "restart_syscall (act k) (trap_cx t)"
  have alt: "alt_signal_stack t2 = (if is_autodisarm (alt_signal_stack t) then stack_disabled else alt_signal_stack t)"
    using setup_frame_ok [OF s ok(1)] handler(2) by auto
  have "resumed_task (saved_mask t) (alt_signal_stack t) (as_mctx ?cx) t2 =
      t2\<lparr>sig_mask := saved_mask t, alt_signal_stack := alt_signal_stack t,
         trap_cx := (trap_cx t2)\<lparr>gp := gp ?cx, sepc := sepc ?cx, fp_f := fp_f ?cx, fcsr := fcsr ?cx\<rparr>\<rparr>"
    using replace_restores [OF ok(2) alt] ok(1) by (simp add: resumed_task_def copy_from_as_mctx Let_def)
  moreover have "restore_frame m2 t2 =
      (Inr (get_a0 (copy_from_mctx (as_mctx ?cx) (trap_cx t2))), resumed_task (saved_mask t) (alt_signal_stack t) (as_mctx ?cx) t2)"
  proof (cases "flags_contain (sa_flags (act k)) SA_SIGINFO")
    case True
    then show ?thesis using restore_siginfo [of m2 t2] handler ok by (simp add: frame_bytes_def Let_def)
  next
    case False
    then show ?thesis using restore_normal [of m2 t2] handler ok by (simp add: frame_bytes_def Let_def)
  qed
  ultimately show ?thesis using ok(1) by (simp add: copy_from_as_mctx get_a0_def Let_def)
qed

text \<open>A task at the top of a readable and writable stack, with an empty mask\<close>

definition some_task :: sig_task where
  "some_task = \<lparr>t_tid = 1, t_pid = 1, t_status = TRunning, t_woke = False, t_waker = False, t_interrupted = False, vfork_wait_child = 0,
     sig_mask = 0, sigsuspend_restore_mask = None, alt_signal_stack = stack_disabled, sig_pending = 0,
     sig_pending_info = replicate 65 None, exec_teardown_kill = False, t_rseq = RseqState_default, rseq_pending = False, user_id = 0, effective_uid = 0, saved_uid = 0, sig_eintr = False,
     sigtimedwait_timedout = False,
     trap_cx = \<lparr>gp = (replicate 32 0)[2 := 0x10000], sstatus = 0, sepc = 0x400000, kernel_stack = 0, kernel_hartid = 0, origin_a0 = 0,
       fp_f = replicate 32 0, fcsr = 0\<rparr>\<rparr>"

definition open_mem :: user_mem where
  "open_mem = \<lparr>mem_bytes = \<lambda>a. 0, may_read = \<lambda>a. True, may_write = \<lambda>a. True, lacks_page = \<lambda>a. False, in_use = True\<rparr>"

definition some_handler :: KSigAction where
  "some_handler = handler_action \<lparr>sa_handler = 0x1000, sa_flags = 0, sa_restore = 0, sa_mask = 0\<rparr>"

theorem signal_frame_roundtrip_witness:
  "\<exists>t1 table1 m1. setup_frame \<lparr>areas = [(0, 100)], sigreturn_va = 0\<rparr> SIGUSR1 some_handler None some_task SigTable_new open_mem =
       Some (None, t1, table1, m1) \<and>
     restore_frame m1 t1 = (Inr 0, t1\<lparr>sig_mask := 0, alt_signal_stack := stack_disabled, trap_cx := (trap_cx t1)\<lparr>
       gp := (replicate 32 0)[2 := 0x10000], sepc := 0x400000, fp_f := replicate 32 0, fcsr := 0\<rparr>\<rparr>)"
proof -
  let ?env = "\<lparr>areas = [(0, 100)], sigreturn_va = 0\<rparr>"
  have ok: "cx_ok (trap_cx some_task)" "stack_ok (alt_signal_stack some_task)" by (simp_all add: some_task_def cx_ok_def)
  have sp: "get_sp (trap_cx some_task) = 65536" by (simp add: some_task_def get_sp_def)
  have f: "flags_contain 0 SA_ONSTACK = False" "flags_contain 0 SA_SIGINFO = False" "flags_contain 0 SA_RESTART = False"
    by (simp_all add: flags_contain_def SA_ONSTACK_def SA_SIGINFO_def SA_RESTART_def)
  have c: "choose_stack ?env (act some_handler) (alt_signal_stack some_task) (get_sp (trap_cx some_task)) = Some (Some (65536, 0))"
    unfolding sp by (simp add: choose_stack_def some_handler_def handler_action_def f some_task_def is_on_stack_def is_disabled_def
        stack_disabled_def virt_addr_def PAGE_SIZE_def wrap64_def)
  have len: "length (frame_bytes SIGUSR1 some_handler None some_task) = 568"
    using length_frame_bytes [OF ok(1)] by (simp add: some_handler_def handler_action_def f NORMAL_FRAME_SIZE_def)
  have p: "place_frame 65536 0 568 open_mem = Some 64960"
    by (simp add: place_frame_def SIGNAL_STACK_ALIGN_def probe_user_write_def range_ok_def usize_max_def open_mem_def list_all_iff)
  have r: "range_ok (may_read open_mem) 64960 568" by (simp add: range_ok_def usize_max_def open_mem_def list_all_iff)
  from setup_frame_succeeds [OF c p [folded len] ok(1) r [folded len]] obtain t1 table1 m1 where
    s: "setup_frame ?env SIGUSR1 some_handler None some_task SigTable_new open_mem = Some (None, t1, table1, m1)" by blast
  have "frame_at m1 (get_sp (trap_cx t1)) (frame_bytes SIGUSR1 some_handler None some_task)" using setup_frame_ok [OF s ok(1)] by blast
  from signal_frame_roundtrip [OF s ok refl refl this]
  have "restore_frame m1 t1 = (Inr 0, t1\<lparr>sig_mask := 0, alt_signal_stack := stack_disabled, trap_cx := (trap_cx t1)\<lparr>
       gp := (replicate 32 0)[2 := 0x10000], sepc := 0x400000, fp_f := replicate 32 0, fcsr := 0\<rparr>\<rparr>)"
    by (simp add: restart_syscall_def some_task_def get_a0_def neg_errno_def saved_mask_def Let_def)
  with s show ?thesis by blast
qed

lemma setup_frame_panics:
  "setup_frame env signo k siginfo t table m = None \<longleftrightarrow>
     choose_stack env (act k) (alt_signal_stack t) (get_sp (trap_cx t)) = None"
proof (cases "choose_stack env (act k) (alt_signal_stack t) (get_sp (trap_cx t))")
  case None
  then show ?thesis by (simp add: setup_frame_def Let_def)
next
  case (Some place)
  show ?thesis
  proof (cases place)
    case None
    then show ?thesis using Some by (simp add: setup_frame_def Let_def)
  next
    case (Some spot)
    obtain user_sp stack_bottom where w: "spot = (user_sp, stack_bottom)" by (cases spot)
    show ?thesis
      by (cases "place_frame user_sp stack_bottom
            (if flags_contain (sa_flags (act k)) SA_SIGINFO then SIGINFO_FRAME_SIZE else NORMAL_FRAME_SIZE) m")
        (simp_all add: setup_frame_def Let_def split_beta \<open>choose_stack _ _ _ _ = _\<close> Some w)
  qed
qed

text \<open>
  C40.  A stack pointer that is no canonical address brings the kernel down.  Take a thread whose stack
  pointer is such an address and does not lie on its alternate stack.  A handled signal then panics in
  the assertion of \<^verbatim>\<open>VirtAddr::from\<close>, before anything has been checked, exactly when the handler goes on
  the ordinary stack: its action has no \<^verbatim>\<open>SA_ONSTACK\<close>, or the alternate stack is disabled.
\<close>

theorem wild_stack_pointer_panics:
  assumes "2 ^ 39 \<le> get_sp (trap_cx t)" "get_sp (trap_cx t) < 2 ^ 64 - 2 ^ 39"
    and "\<not> is_on_stack (alt_signal_stack t) (get_sp (trap_cx t))"
  shows "setup_frame env signo k siginfo t table m = None \<longleftrightarrow>
    \<not> flags_contain (sa_flags (act k)) SA_ONSTACK \<or> is_disabled (alt_signal_stack t)"
proof -
  have "choose_stack env (act k) (alt_signal_stack t) (get_sp (trap_cx t)) = None \<longleftrightarrow>
      \<not> flags_contain (sa_flags (act k)) SA_ONSTACK \<or> is_disabled (alt_signal_stack t)"
    using assms by (auto simp: choose_stack_def should_switch_for_signal_def virt_addr_def)
  then show ?thesis by (simp add: setup_frame_panics)
qed

theorem wild_stack_pointer_panics_witness:
  "setup_frame \<lparr>areas = [(0, 100)], sigreturn_va = 0\<rparr> SIGUSR1 some_handler None
     (some_task\<lparr>trap_cx := (trap_cx some_task)\<lparr>gp := (replicate 32 0)[2 := 0x1234567890123450]\<rparr>\<rparr>) SigTable_new open_mem = None"
  by (subst wild_stack_pointer_panics) (simp_all add: get_sp_def some_task_def is_on_stack_def is_disabled_def stack_disabled_def)

end
