(* ===== verification/Signal_Delivery.thy ===== *)
theory Signal_Delivery
  imports Signal_Frame
begin

text \<open>
  \<^verbatim>\<open>signal/delivery.rs\<close> and the sending calls of \<^verbatim>\<open>syscall/signal.rs\<close>: making a signal pending in the
  threads of a process, waking them, and the permission rules of \<^verbatim>\<open>kill\<close>.
\<close>

section \<open>State\<close>

record sig_process =
  parent_pid :: nat
  pgid :: nat
  sid :: nat
  p_tasks :: "nat list"
  sig_table :: SigTable
  group_exit_code :: "int option"
  stopped_signal :: "nat option"
  continued_signal :: "nat option"
  termination_signal :: "(nat \<times> bool) option"

text \<open>
  The live tasks and the processes by their numbers.  \<open>s_tids\<close> lists the live tasks in the order of
  the task table, \<open>s_ready\<close> the tasks handed to the ready queue, and \<open>s_events\<close> the processes whose
  child event was woken.
\<close>

record sig_world =
  s_tasks :: "nat \<Rightarrow> sig_task option"
  s_tids :: "nat list"
  s_procs :: "nat \<Rightarrow> sig_process option"
  s_ready :: "nat list"
  s_events :: "nat list"

definition set_sig_task :: "nat \<Rightarrow> sig_task \<Rightarrow> sig_world \<Rightarrow> sig_world" where
  "set_sig_task tid t w = w\<lparr>s_tasks := (s_tasks w)(tid \<mapsto> t)\<rparr>"

definition set_process :: "nat \<Rightarrow> sig_process \<Rightarrow> sig_world \<Rightarrow> sig_world" where
  "set_process pid p w = w\<lparr>s_procs := (s_procs w)(pid \<mapsto> p)\<rparr>"

record SignalCred =
  cred_pid :: nat
  cred_real_uid :: nat
  cred_effective_uid :: nat
  cred_saved_uid :: nat
  cred_sid :: nat

section \<open>One task\<close>

text \<open>Whether the signal may interrupt a system call\<close>

definition interrupts_wait :: "SigTable \<Rightarrow> SigSet \<Rightarrow> bool" where
  "interrupts_wait table sig =
     (case peek_front sig of
        None \<Rightarrow> False
      | Some signo \<Rightarrow>
          let action = table ! signo in
          if signo = SIGCHLD then is_handler action
          else \<not> is_ignored action \<and>
            (is_handler action \<or> (case from_sig signo of None \<Rightarrow> False | Some s \<Rightarrow> default_op s \<noteq> Ignore)))"

text \<open>The signal becomes pending; the information of the first sender is kept.\<close>

definition post_signal :: "SigSet \<Rightarrow> SigInfo option \<Rightarrow> bool \<Rightarrow> sig_task \<Rightarrow> sig_task" where
  "post_signal sig siginfo exec_teardown t =
     (let t1 = (if flags_contain sig (sig_flag SIGKILL)
                then if exec_teardown
                     then if flags_contain (sig_pending t) (sig_flag SIGKILL) then t else t\<lparr>exec_teardown_kill := True\<rparr>
                     else t\<lparr>exec_teardown_kill := False\<rparr>
                else t);
          t2 = (case peek_front sig of
                  None \<Rightarrow> t1
                | Some signo \<Rightarrow>
                    if flags_contain (sig_pending t1) sig then t1
                    else t1\<lparr>sig_pending_info := (sig_pending_info t1)[signo := siginfo]\<rparr>) in
      t2\<lparr>sig_pending := sig_pending t2 OR sig\<rparr>)"

text \<open>A registered waker is taken and called: it sets its flag and readies a blocked task.\<close>

definition wake_interruptible :: "sig_task \<Rightarrow> sig_task" where
  "wake_interruptible t = t\<lparr>t_waker := False, t_interrupted := True, t_woke := True,
     t_status := if t_status t = TBlocked then TReady else t_status t\<rparr>"

text \<open>
  The wake-up after posting: whether a stopped or \<^verbatim>\<open>vfork\<close>-blocked task was resumed, and whether the task
  goes to the ready queue.
\<close>

definition wake_for_signal :: "SigSet \<Rightarrow> bool \<Rightarrow> sig_task \<Rightarrow> bool \<times> bool \<times> sig_task" where
  "wake_for_signal sig interrupt_wait t =
     (let wake_stopped = (t_status t = TStopped \<and> sig AND (sig_flag SIGCONT OR sig_flag SIGKILL) \<noteq> 0);
          wake_vfork_parent = (t_status t = TVforkBlocked \<and> sig AND sig_flag SIGKILL \<noteq> 0) in
      if wake_stopped \<or> wake_vfork_parent
      then (True, True, t\<lparr>vfork_wait_child := if wake_vfork_parent then 0 else vfork_wait_child t, t_status := TReady\<rparr>)
      else if t_status t = TBlocked
      then (False, True, if interrupt_wait \<and> t_waker t then wake_interruptible t else t\<lparr>t_status := TReady\<rparr>)
      else (False, False, t))"

text \<open>The process remembers that a signal with a sender killed it.\<close>

definition note_sigkill :: "SigSet \<Rightarrow> SigInfo option \<Rightarrow> sig_process \<Rightarrow> sig_process" where
  "note_sigkill sig siginfo p =
     (if flags_contain sig (sig_flag SIGKILL) \<and> siginfo \<noteq> None \<and> group_exit_code p = None \<and> termination_signal p = None
      then p\<lparr>termination_signal := Some (SIGKILL, False)\<rparr> else p)"

definition add_signal_with_info :: "SigSet \<Rightarrow> SigInfo option \<Rightarrow> bool \<Rightarrow> nat \<Rightarrow> sig_world \<Rightarrow> bool \<times> sig_world" where
  "add_signal_with_info sig siginfo exec_teardown tid w =
     (case s_tasks w tid of
        None \<Rightarrow> (False, w)
      | Some t \<Rightarrow>
          (case s_procs w (t_pid t) of
             None \<Rightarrow> (False, w)
           | Some p \<Rightarrow>
               let w1 = set_process (t_pid t) (note_sigkill sig siginfo p) w;
                   (resumed, readied, t') =
                     wake_for_signal sig (interrupts_wait (sig_table p) sig) (post_signal sig siginfo exec_teardown t) in
               (resumed, (set_sig_task tid t' w1)\<lparr>s_ready := s_ready w1 @ (if readied then [tid] else [])\<rparr>)))"

section \<open>Permission\<close>

definition cred_of :: "sig_world \<Rightarrow> sig_task \<Rightarrow> SignalCred" where
  "cred_of w t = \<lparr>cred_pid = t_pid t, cred_real_uid = user_id t, cred_effective_uid = effective_uid t, cred_saved_uid = saved_uid t,
     cred_sid = (case s_procs w (t_pid t) of Some p \<Rightarrow> sid p | None \<Rightarrow> 0)\<rparr>"

definition signal_cred_from_task :: "nat \<Rightarrow> sig_world \<Rightarrow> SignalCred option" where
  "signal_cred_from_task tid w = map_option (cred_of w) (s_tasks w tid)"

text \<open>The credentials of the first live thread of a process\<close>

definition signal_cred_from_process :: "sig_process \<Rightarrow> sig_world \<Rightarrow> SignalCred option" where
  "signal_cred_from_process p w =
     (case find (\<lambda>tid. s_tasks w tid \<noteq> None) (p_tasks p) of
        None \<Rightarrow> None
      | Some tid \<Rightarrow> map_option (\<lambda>t. (cred_of w t)\<lparr>cred_sid := sid p\<rparr>) (s_tasks w tid))"

definition can_send_signal :: "SignalCred \<Rightarrow> SignalCred \<Rightarrow> nat \<Rightarrow> bool" where
  "can_send_signal sender target signo \<longleftrightarrow>
     cred_effective_uid sender = 0 \<or>
     signo = SIGCONT \<and> cred_sid sender = cred_sid target \<or>
     cred_real_uid sender = cred_real_uid target \<or> cred_real_uid sender = cred_saved_uid target \<or>
     cred_effective_uid sender = cred_real_uid target \<or> cred_effective_uid sender = cred_saved_uid target"

definition siginfo_from_sender :: "SignalCred \<Rightarrow> nat \<Rightarrow> SigInfo option" where
  "siginfo_from_sender sender signo = (if signo = 0 then None else Some (new_user signo (cred_pid sender) (cred_real_uid sender)))"

section \<open>Processes and groups\<close>

definition deliver_step :: "SigSet \<Rightarrow> SigInfo option \<Rightarrow> nat \<Rightarrow> nat \<times> sig_world \<Rightarrow> nat \<times> sig_world" where
  "deliver_step sig siginfo tid = (\<lambda>(resumed, w).
     let (r, w1) = add_signal_with_info sig siginfo False tid w in (if r then resumed + 1 else resumed, w1))"

definition deliver_signal_to_thread_group :: "nat \<Rightarrow> SigSet \<Rightarrow> SigInfo option \<Rightarrow> sig_world \<Rightarrow> nat \<times> sig_world" where
  "deliver_signal_to_thread_group pid sig siginfo w =
     (if sig = 0 then (0, w)
      else case s_procs w pid of
             None \<Rightarrow> (0, w)
           | Some p \<Rightarrow>
               let (resumed, w1) = fold (deliver_step sig siginfo) (p_tasks p) (0, w) in
               if resumed > 0 \<and> flags_contain sig (sig_flag SIGCONT) then
                 (resumed,
                  let w2 = (case s_procs w1 pid of None \<Rightarrow> w1 | Some p1 \<Rightarrow> set_process pid (p1\<lparr>continued_signal := Some SIGCONT\<rparr>) w1) in
                  if s_procs w2 (parent_pid p) \<noteq> None then w2\<lparr>s_events := s_events w2 @ [parent_pid p]\<rparr> else w2)
               else (resumed, w1))"

definition send_permitted_signal_to_process :: "SignalCred \<Rightarrow> nat \<Rightarrow> SigSet \<Rightarrow> nat \<Rightarrow> sig_world \<Rightarrow> nat sys_result \<times> sig_world" where
  "send_permitted_signal_to_process sender pid sig signo w =
     (case s_procs w pid of
        None \<Rightarrow> (Inl ESRCH, w)
      | Some p \<Rightarrow>
          (case signal_cred_from_process p w of
             None \<Rightarrow> (Inl ESRCH, w)
           | Some target \<Rightarrow>
               if \<not> can_send_signal sender target signo then (Inl EPERM, w)
               else let (n, w1) = deliver_signal_to_thread_group pid sig (siginfo_from_sender sender signo) w in (Inr n, w1)))"

definition send_user_signal_to_thread_group :: "nat \<Rightarrow> nat \<Rightarrow> SigSet \<Rightarrow> nat \<Rightarrow> sig_world \<Rightarrow> nat sys_result \<times> sig_world" where
  "send_user_signal_to_thread_group current pid sig signo w =
     (case signal_cred_from_task current w of
        None \<Rightarrow> (Inl ESRCH, w)
      | Some sender \<Rightarrow> send_permitted_signal_to_process sender pid sig signo w)"

text \<open>
  The loop over all tasks that signals each selected process once.  The accumulator holds the
  processes seen, whether one was found and whether one was permitted, and the resumed tasks.
\<close>

primrec signal_loop :: "(nat \<Rightarrow> sig_process \<Rightarrow> bool) \<Rightarrow> SignalCred \<Rightarrow> SigSet \<Rightarrow> nat \<Rightarrow> nat list \<Rightarrow>
    nat list \<times> bool \<times> bool \<times> nat \<Rightarrow> sig_world \<Rightarrow> nat sys_result \<times> sig_world" where
  "signal_loop chosen sender sig signo [] acc w =
     (case acc of (seen, found, permitted, resumed) \<Rightarrow>
        (if \<not> found then Inl ESRCH else if \<not> permitted then Inl EPERM else Inr resumed, w))"
| "signal_loop chosen sender sig signo (tid # tids) acc w =
     (case acc of (seen, found, permitted, resumed) \<Rightarrow>
        (case s_tasks w tid of
          None \<Rightarrow> signal_loop chosen sender sig signo tids acc w
        | Some t \<Rightarrow>
            (case s_procs w (t_pid t) of
               None \<Rightarrow> signal_loop chosen sender sig signo tids acc w
             | Some p \<Rightarrow>
                 if \<not> chosen (t_pid t) p \<or> t_pid t \<in> set seen then signal_loop chosen sender sig signo tids acc w
                 else
                   (case send_permitted_signal_to_process sender (t_pid t) sig signo w of
                      (Inr count, w1) \<Rightarrow> signal_loop chosen sender sig signo tids (t_pid t # seen, True, True, resumed + count) w1
                    | (Inl e, w1) \<Rightarrow>
                        if e = EPERM then signal_loop chosen sender sig signo tids (t_pid t # seen, True, permitted, resumed) w1
                        else (Inl e, w1)))))"

definition send_user_signal_to_process_group :: "nat \<Rightarrow> nat \<Rightarrow> SigSet \<Rightarrow> nat \<Rightarrow> sig_world \<Rightarrow> nat sys_result \<times> sig_world" where
  "send_user_signal_to_process_group current g sig signo w =
     (case signal_cred_from_task current w of
        None \<Rightarrow> (Inl ESRCH, w)
      | Some sender \<Rightarrow> signal_loop (\<lambda>pid p. pgid p = g) sender sig signo (s_tids w) ([], False, False, 0) w)"

definition send_user_signal_to_accessible_processes :: "nat \<Rightarrow> SigSet \<Rightarrow> nat \<Rightarrow> sig_world \<Rightarrow> nat sys_result \<times> sig_world" where
  "send_user_signal_to_accessible_processes current sig signo w =
     (case s_tasks w current of
        None \<Rightarrow> (Inl ESRCH, w)
      | Some t \<Rightarrow>
          signal_loop (\<lambda>pid p. pid \<noteq> 1 \<and> pid \<noteq> t_pid t) (cred_of w t) sig signo (s_tids w) ([], False, False, 0) w)"

definition send_signal_to_thread_group :: "nat \<Rightarrow> SigSet \<Rightarrow> sig_world \<Rightarrow> nat sys_result \<times> sig_world" where
  "send_signal_to_thread_group pid sig w =
     (if s_procs w pid = None then (Inl ESRCH, w)
      else let (n, w1) = deliver_signal_to_thread_group pid sig None w in (Inr n, w1))"

definition send_signal_to_thread :: "nat \<Rightarrow> SigSet \<Rightarrow> sig_world \<Rightarrow> sig_world" where
  "send_signal_to_thread tid sig w = snd (add_signal_with_info sig None False tid w)"

definition send_exec_teardown_kill :: "nat \<Rightarrow> sig_world \<Rightarrow> sig_world" where
  "send_exec_teardown_kill tid w = snd (add_signal_with_info (sig_flag SIGKILL) None True tid w)"

definition tkill_info :: "nat \<Rightarrow> nat \<Rightarrow> sig_world \<Rightarrow> SigInfo option" where
  "tkill_info current signo w =
     map_option (\<lambda>c. new_tkill signo (cred_pid c) (cred_real_uid c)) (signal_cred_from_task current w)"

definition send_user_signal_to_thread :: "nat \<Rightarrow> nat \<Rightarrow> SigSet \<Rightarrow> nat \<Rightarrow> sig_world \<Rightarrow> sig_world" where
  "send_user_signal_to_thread current tid sig signo w =
     snd (add_signal_with_info sig (tkill_info current signo w) False tid w)"

definition send_user_signal_to_thread_of_proc :: "nat \<Rightarrow> nat \<Rightarrow> nat \<Rightarrow> SigSet \<Rightarrow> nat \<Rightarrow> sig_world \<Rightarrow> sig_world" where
  "send_user_signal_to_thread_of_proc current pid tid sig signo w =
     (case s_tasks w tid of
        None \<Rightarrow> w
      | Some t \<Rightarrow> if t_pid t = pid then snd (add_signal_with_info sig (tkill_info current signo w) False tid w) else w)"

text \<open>The kernel's own signals to a group: no permission, each process once\<close>

definition group_step :: "nat \<Rightarrow> SigSet \<Rightarrow> nat \<Rightarrow> nat list \<times> sig_world \<Rightarrow> nat list \<times> sig_world" where
  "group_step g sig tid = (\<lambda>(sent, w).
     case s_tasks w tid of
       None \<Rightarrow> (sent, w)
     | Some t \<Rightarrow>
         (case s_procs w (t_pid t) of
            None \<Rightarrow> (sent, w)
          | Some p \<Rightarrow>
              if pgid p = g \<and> t_pid t \<notin> set sent then (t_pid t # sent, snd (send_signal_to_thread_group (t_pid t) sig w)) else (sent, w)))"

definition send_signal_to_process_group :: "nat \<Rightarrow> SigSet \<Rightarrow> sig_world \<Rightarrow> sig_world" where
  "send_signal_to_process_group g sig w = snd (fold (group_step g sig) (s_tids w) ([], w))"

section \<open>The sending calls\<close>

definition sys_kill :: "nat \<Rightarrow> int \<Rightarrow> nat \<Rightarrow> sig_world \<Rightarrow> syscall_ret \<times> sig_world" where
  "sys_kill current pid signo w =
     (if signo > SIG_MAX_NUM then (Inl EINVAL, w)
      else
        let sig = (if signo = 0 then 0 else case from_sig signo of Some s \<Rightarrow> s | None \<Rightarrow> 0);
            own_group = (case s_tasks w current of
                           None \<Rightarrow> 0
                         | Some t \<Rightarrow> (case s_procs w (t_pid t) of None \<Rightarrow> 0 | Some p \<Rightarrow> pgid p));
            (ret, w1) =
              (if pid > 0 then send_user_signal_to_thread_group current (nat pid) sig signo w
               else if pid = 0 then send_user_signal_to_process_group current own_group sig signo w
               else if pid = - 1 then send_user_signal_to_accessible_processes current sig signo w
               else send_user_signal_to_process_group current (nat (- pid)) sig signo w) in
        (case ret of Inl e \<Rightarrow> Inl e | Inr resumed \<Rightarrow> Inr 0, w1))"

definition sys_tkill :: "nat \<Rightarrow> nat \<Rightarrow> nat \<Rightarrow> sig_world \<Rightarrow> syscall_ret \<times> sig_world" where
  "sys_tkill current tid signo w =
     (if signo = 0 then (Inr 0, w)
      else if signo > SIG_MAX_NUM then (Inl EINVAL, w)
      else case from_sig signo of
             None \<Rightarrow> (Inr 0, w)
           | Some sig \<Rightarrow> (Inr 0, send_user_signal_to_thread current tid sig signo w))"

definition sys_tgkill :: "nat \<Rightarrow> nat \<Rightarrow> nat \<Rightarrow> nat \<Rightarrow> sig_world \<Rightarrow> syscall_ret \<times> sig_world" where
  "sys_tgkill current tgid tid signo w =
     (if signo = 0 then (Inr 0, w)
      else if signo > SIG_MAX_NUM then (Inl EINVAL, w)
      else case from_sig signo of
             None \<Rightarrow> (Inr 0, w)
           | Some sig \<Rightarrow> (Inr 0, send_user_signal_to_thread_of_proc current tgid tid sig signo w))"

section \<open>What a signal changes\<close>

text \<open>Tasks and processes refer to each other.\<close>

definition sig_world_ok :: "sig_world \<Rightarrow> bool" where
  "sig_world_ok w \<longleftrightarrow>
     (\<forall>pid p. s_procs w pid = Some p \<longrightarrow> distinct (p_tasks p) \<and> length (sig_table p) = SIG_MAX_NUM + 1 \<and>
        (\<forall>tid t. tid \<in> set (p_tasks p) \<and> s_tasks w tid = Some t \<longrightarrow> t_pid t = pid)) \<and>
     (\<forall>tid t. s_tasks w tid = Some t \<longrightarrow> tid \<in> set (s_tids w) \<and> length (sig_pending_info t) = SIG_MAX_NUM + 1 \<and>
        (\<exists>p. s_procs w (t_pid t) = Some p \<and> tid \<in> set (p_tasks p)))"

text \<open>The parts of a process and of a task that signals never change\<close>

definition proc_core :: "sig_process \<Rightarrow> nat \<times> nat \<times> nat \<times> nat list \<times> SigTable" where
  "proc_core p = (parent_pid p, pgid p, sid p, p_tasks p, sig_table p)"

definition task_core :: "sig_task \<Rightarrow> nat \<times> nat \<times> nat \<times> nat \<times> nat" where
  "task_core t = (t_pid t, user_id t, effective_uid t, saved_uid t, length (sig_pending_info t))"

definition like :: "sig_world \<Rightarrow> sig_world \<Rightarrow> bool" where
  "like w w' \<longleftrightarrow> s_tids w' = s_tids w \<and> (\<forall>pid. map_option proc_core (s_procs w' pid) = map_option proc_core (s_procs w pid)) \<and>
     (\<forall>tid. map_option task_core (s_tasks w' tid) = map_option task_core (s_tasks w tid))"

text \<open>What a signal does to a task of its target\<close>

definition signal_effect :: "sig_world \<Rightarrow> SigSet \<Rightarrow> SigInfo option \<Rightarrow> bool \<Rightarrow> sig_task \<Rightarrow> sig_task" where
  "signal_effect w sig siginfo exec_teardown t =
     (if sig = 0 then t
      else case s_procs w (t_pid t) of
             None \<Rightarrow> t
           | Some p \<Rightarrow> snd (snd (wake_for_signal sig (interrupts_wait (sig_table p) sig) (post_signal sig siginfo exec_teardown t))))"

lemma ok_proc:
  assumes "sig_world_ok w" "s_procs w pid = Some p"
  shows "distinct (p_tasks p)" "length (sig_table p) = SIG_MAX_NUM + 1"
  using assms unfolding sig_world_ok_def by blast+

lemma ok_member: "sig_world_ok w \<Longrightarrow> s_procs w pid = Some p \<Longrightarrow> tid \<in> set (p_tasks p) \<Longrightarrow> s_tasks w tid = Some t \<Longrightarrow> t_pid t = pid"
  unfolding sig_world_ok_def by blast

lemma ok_task:
  assumes "sig_world_ok w" "s_tasks w tid = Some t"
  shows "tid \<in> set (s_tids w)" "length (sig_pending_info t) = SIG_MAX_NUM + 1"
    "\<exists>p. s_procs w (t_pid t) = Some p \<and> tid \<in> set (p_tasks p)"
  using assms unfolding sig_world_ok_def by blast+

lemma like_refl [simp]: "like w w"
  by (simp add: like_def)

lemma like_trans: "like w1 w2 \<Longrightarrow> like w2 w3 \<Longrightarrow> like w1 w3"
  by (simp add: like_def)

lemma like_proc: "like w w' \<Longrightarrow> s_procs w pid = Some p \<Longrightarrow> \<exists>p'. s_procs w' pid = Some p' \<and> proc_core p' = proc_core p"
  unfolding like_def by (metis map_option_eq_Some)

lemma like_proc_None: "like w w' \<Longrightarrow> s_procs w' pid = None \<longleftrightarrow> s_procs w pid = None"
  unfolding like_def by (metis option.map_disc_iff)

lemma like_task: "like w w' \<Longrightarrow> s_tasks w tid = Some t \<Longrightarrow> \<exists>t'. s_tasks w' tid = Some t' \<and> task_core t' = task_core t"
  unfolding like_def by (metis map_option_eq_Some)

lemma like_task_None: "like w w' \<Longrightarrow> s_tasks w' tid = None \<longleftrightarrow> s_tasks w tid = None"
  unfolding like_def by (metis option.map_disc_iff)

lemma like_sym: "like w w' \<Longrightarrow> like w' w"
  by (simp add: like_def)

lemma signal_effect_like: "like w w' \<Longrightarrow> signal_effect w' sig siginfo e t = signal_effect w sig siginfo e t"
  using like_proc [of w w' "t_pid t"] like_proc_None [of w w' "t_pid t"]
  by (cases "s_procs w (t_pid t)") (auto simp: signal_effect_def proc_core_def)

lemma post_signal_core: "task_core (post_signal sig siginfo e t) = task_core t"
  by (simp add: post_signal_def task_core_def Let_def split: option.split)

lemma wake_for_signal_core: "task_core (snd (snd (wake_for_signal sig i t))) = task_core t"
  by (simp add: wake_for_signal_def task_core_def wake_interruptible_def Let_def)

lemma signal_effect_core [simp]: "task_core (signal_effect w sig siginfo e t) = task_core t"
  by (simp add: signal_effect_def post_signal_core wake_for_signal_core split: option.split)

lemma signal_effect_pid [simp]: "t_pid (signal_effect w sig siginfo e t) = t_pid t"
  using signal_effect_core [of w sig siginfo e t] unfolding task_core_def by simp

lemma sig_world_ok_like:
  assumes ok: "sig_world_ok w" and l: "like w w'"
  shows "sig_world_ok w'"
proof -
  have "distinct (p_tasks p') \<and> length (sig_table p') = SIG_MAX_NUM + 1 \<and>
      (\<forall>tid t. tid \<in> set (p_tasks p') \<and> s_tasks w' tid = Some t \<longrightarrow> t_pid t = pid)" if p': "s_procs w' pid = Some p'" for pid p'
  proof -
    obtain p where p: "s_procs w pid = Some p" "proc_core p = proc_core p'" using like_proc [OF like_sym [OF l] p'] by auto
    have m: "t_pid t = pid" if m: "tid \<in> set (p_tasks p')" and st: "s_tasks w' tid = Some t" for tid t
    proof -
      obtain t0 where "s_tasks w tid = Some t0" "task_core t0 = task_core t" using like_task [OF like_sym [OF l] st] by auto
      then show ?thesis using ok_member [OF ok p(1), of tid t0] p(2) m by (simp add: proc_core_def task_core_def)
    qed
    then have "\<forall>tid t. tid \<in> set (p_tasks p') \<and> s_tasks w' tid = Some t \<longrightarrow> t_pid t = pid" by blast
    then show ?thesis using ok_proc [OF ok p(1)] p(2) by (simp add: proc_core_def)
  qed
  moreover have "tid \<in> set (s_tids w') \<and> length (sig_pending_info t') = SIG_MAX_NUM + 1 \<and>
      (\<exists>p. s_procs w' (t_pid t') = Some p \<and> tid \<in> set (p_tasks p))" if t': "s_tasks w' tid = Some t'" for tid t'
  proof -
    obtain t where t: "s_tasks w tid = Some t" "task_core t = task_core t'" using like_task [OF like_sym [OF l] t'] by auto
    then obtain p where p: "s_procs w (t_pid t) = Some p" "tid \<in> set (p_tasks p)" using ok_task(3) [OF ok t(1)] by blast
    from like_proc [OF l p(1)] p(2) have "\<exists>p'. s_procs w' (t_pid t) = Some p' \<and> tid \<in> set (p_tasks p')" by (auto simp: proc_core_def)
    then show ?thesis using ok_task(1,2) [OF ok t(1)] t(2) l by (simp add: task_core_def like_def)
  qed
  ultimately show ?thesis unfolding sig_world_ok_def by blast
qed

lemma note_sigkill_core [simp]: "proc_core (note_sigkill sig siginfo p) = proc_core p"
  by (simp add: note_sigkill_def proc_core_def)

lemma add_signal_effect:
  assumes ok: "sig_world_ok w" and sig: "sig \<noteq> 0" and a: "add_signal_with_info sig siginfo e tid w = (r, w')"
  shows "like w w' \<and> s_tasks w' = (s_tasks w)(tid := map_option (signal_effect w sig siginfo e) (s_tasks w tid))"
proof (cases "s_tasks w tid")
  case None
  then show ?thesis using a by (auto simp: add_signal_with_info_def fun_upd_idem)
next
  case (Some t)
  obtain p where p: "s_procs w (t_pid t) = Some p" using ok_task(3) [OF ok Some] by blast
  have t': "snd (snd (wake_for_signal sig (interrupts_wait (sig_table p) sig) (post_signal sig siginfo e t))) = signal_effect w sig siginfo e t"
    using p sig by (simp add: signal_effect_def)
  obtain r1 b1 t1 where w1: "wake_for_signal sig (interrupts_wait (sig_table p) sig) (post_signal sig siginfo e t) = (r1, b1, t1)"
    by (metis prod_cases3)
  have "s_tasks w' = (s_tasks w)(tid \<mapsto> t1)" "s_tids w' = s_tids w" "s_procs w' = (s_procs w)(t_pid t \<mapsto> note_sigkill sig siginfo p)"
    using a Some p w1 by (auto simp: add_signal_with_info_def set_sig_task_def set_process_def)
  moreover have "t1 = signal_effect w sig siginfo e t" using t' w1 by simp
  ultimately show ?thesis using Some p by (auto simp: like_def)
qed

lemma deliver_fold:
  assumes sig: "sig \<noteq> 0"
  shows "sig_world_ok w \<Longrightarrow> distinct tids \<Longrightarrow>
    (let w' = snd (fold (deliver_step sig siginfo) tids (n, w)) in
     like w w' \<and> (\<forall>tid. s_tasks w' tid =
       (if tid \<in> set tids then map_option (signal_effect w sig siginfo False) (s_tasks w tid) else s_tasks w tid)))"
proof (induction tids arbitrary: n w)
  case (Cons a tids)
  obtain r w1 where a: "add_signal_with_info sig siginfo False a w = (r, w1)" by (cases "add_signal_with_info sig siginfo False a w")
  note A = add_signal_effect [OF Cons.prems(1) sig a]
  have ok1: "sig_world_ok w1" using sig_world_ok_like [OF Cons.prems(1)] A by blast
  let ?n = "if r then n + 1 else n"
  have f: "snd (fold (deliver_step sig siginfo) (a # tids) (n, w)) = snd (fold (deliver_step sig siginfo) tids (?n, w1))"
    by (simp add: deliver_step_def a)
  have IH: "like w1 (snd (fold (deliver_step sig siginfo) tids (?n, w1)))"
    "s_tasks (snd (fold (deliver_step sig siginfo) tids (?n, w1))) tid =
       (if tid \<in> set tids then map_option (signal_effect w1 sig siginfo False) (s_tasks w1 tid) else s_tasks w1 tid)" for tid
    using Cons.IH [OF ok1, of ?n] Cons.prems(2) by (simp_all add: Let_def)
  have e: "signal_effect w1 sig siginfo False = signal_effect w sig siginfo False"
    using A signal_effect_like by blast
  show ?case unfolding f Let_def using like_trans [OF _ IH(1)] IH(2) A Cons.prems(2) by (auto simp: e)
qed simp

lemma deliver_effect:
  assumes ok: "sig_world_ok w" and d: "deliver_signal_to_thread_group pid sig siginfo w = (n, w')"
  shows "like w w' \<and> (\<forall>tid. s_tasks w' tid = map_option (\<lambda>t. if t_pid t = pid then signal_effect w sig siginfo False t else t) (s_tasks w tid))"
proof (cases "sig = 0 \<or> s_procs w pid = None")
  case True
  then show ?thesis using d
    by (auto simp: deliver_signal_to_thread_group_def signal_effect_def option.map_ident_strong split: if_splits option.splits)
next
  case False
  then obtain p where p: "s_procs w pid = Some p" and sig: "sig \<noteq> 0" by auto
  obtain m w1 where f: "fold (deliver_step sig siginfo) (p_tasks p) (0, w) = (m, w1)"
    by (cases "fold (deliver_step sig siginfo) (p_tasks p) (0, w)")
  have F: "like w w1" "s_tasks w1 tid =
      (if tid \<in> set (p_tasks p) then map_option (signal_effect w sig siginfo False) (s_tasks w tid) else s_tasks w tid)" for tid
    using deliver_fold [OF sig ok ok_proc(1) [OF ok p], of siginfo 0] f by (simp_all add: Let_def)
  have "s_tasks w1 tid = map_option (\<lambda>t. if t_pid t = pid then signal_effect w sig siginfo False t else t) (s_tasks w tid)" for tid
  proof (cases "s_tasks w tid")
    case None
    then show ?thesis by (simp add: F)
  next
    case (Some t)
    obtain q where q: "s_procs w (t_pid t) = Some q" "tid \<in> set (p_tasks q)" using ok_task(3) [OF ok Some] by blast
    show ?thesis
    proof (cases "t_pid t = pid")
      case True
      then show ?thesis using q p Some by (simp add: F)
    next
      case False
      then have "tid \<notin> set (p_tasks p)" using ok_member [OF ok p _ Some] by blast
      then show ?thesis using False Some by (simp add: F)
    qed
  qed
  moreover have "s_tasks w' = s_tasks w1 \<and> like w1 w'"
    using d p sig f by (auto simp: deliver_signal_to_thread_group_def Let_def set_process_def like_def proc_core_def split: if_splits option.splits)
  ultimately show ?thesis using like_trans [OF F(1)] by auto
qed

section \<open>Permission\<close>

lemma like_cred:
  assumes ok: "sig_world_ok w" and l: "like w w'" and t: "s_tasks w tid = Some t" "s_tasks w' tid = Some t'"
  shows "cred_of w' t' = cred_of w t"
proof -
  have c: "task_core t' = task_core t" using like_task [OF l t(1)] t(2) by simp
  obtain p where p: "s_procs w (t_pid t) = Some p" using ok_task(3) [OF ok t(1)] by blast
  then show ?thesis using like_proc [OF l p] c by (auto simp: cred_of_def task_core_def proc_core_def)
qed

lemma like_process_cred:
  assumes ok: "sig_world_ok w" and l: "like w w'" and p: "s_procs w pid = Some p" "s_procs w' pid = Some p'"
  shows "signal_cred_from_process p' w' = signal_cred_from_process p w"
proof -
  have c: "proc_core p' = proc_core p" using like_proc [OF l p(1)] p(2) by simp
  have alive: "(\<lambda>tid. s_tasks w' tid \<noteq> None) = (\<lambda>tid. s_tasks w tid \<noteq> None)" using like_task_None [OF l] by auto
  show ?thesis
  proof (cases "find (\<lambda>tid. s_tasks w tid \<noteq> None) (p_tasks p)")
    case None
    then show ?thesis using c alive by (simp add: signal_cred_from_process_def proc_core_def)
  next
    case (Some tid)
    then obtain t where t: "s_tasks w tid = Some t" by (auto simp: find_Some_iff)
    then obtain t' where t': "s_tasks w' tid = Some t'" using like_task [OF l] by blast
    show ?thesis using Some t t' c alive like_cred [OF ok l t t'] by (simp add: signal_cred_from_process_def proc_core_def)
  qed
qed

definition may_signal :: "sig_world \<Rightarrow> SignalCred \<Rightarrow> nat \<Rightarrow> nat \<Rightarrow> bool" where
  "may_signal w sender signo pid \<longleftrightarrow>
     (case s_procs w pid of
        None \<Rightarrow> False
      | Some p \<Rightarrow> (case signal_cred_from_process p w of None \<Rightarrow> False | Some target \<Rightarrow> can_send_signal sender target signo))"

lemma may_signal_like:
  assumes ok: "sig_world_ok w" and l: "like w w'"
  shows "may_signal w' sender signo pid = may_signal w sender signo pid"
proof (cases "s_procs w pid")
  case None
  then show ?thesis using like_proc_None [OF l, of pid] by (simp add: may_signal_def)
next
  case (Some p)
  then obtain p' where p': "s_procs w' pid = Some p'" using like_proc [OF l] by blast
  then show ?thesis using Some like_process_cred [OF ok l Some p'] by (simp add: may_signal_def)
qed

lemma live_process_cred:
  assumes ok: "sig_world_ok w" and t: "s_tasks w tid = Some t" and p: "s_procs w (t_pid t) = Some p"
  shows "signal_cred_from_process p w \<noteq> None"
proof -
  have "tid \<in> set (p_tasks p)" using ok_task(3) [OF ok t] p by auto
  then have "find (\<lambda>tid. s_tasks w tid \<noteq> None) (p_tasks p) \<noteq> None" using t by (auto simp: find_None_iff)
  then obtain x where x: "find (\<lambda>tid. s_tasks w tid \<noteq> None) (p_tasks p) = Some x" by blast
  then have "s_tasks w x \<noteq> None" by (auto simp: find_Some_iff)
  with x show ?thesis by (simp add: signal_cred_from_process_def)
qed

lemma send_permitted:
  assumes ok: "sig_world_ok w" and t: "s_tasks w tid = Some t"
  shows "\<exists>n w'. send_permitted_signal_to_process sender (t_pid t) sig signo w =
      (if may_signal w sender signo (t_pid t) then Inr n else Inl EPERM, w') \<and> like w w' \<and>
    (\<forall>x. s_tasks w' x = map_option (\<lambda>u. if t_pid u = t_pid t \<and> may_signal w sender signo (t_pid t)
       then signal_effect w sig (siginfo_from_sender sender signo) False u else u) (s_tasks w x))"
proof -
  obtain p where p: "s_procs w (t_pid t) = Some p" using ok_task(3) [OF ok t] by blast
  obtain c where c: "signal_cred_from_process p w = Some c" using live_process_cred [OF ok t p] by blast
  obtain n w' where d: "deliver_signal_to_thread_group (t_pid t) sig (siginfo_from_sender sender signo) w = (n, w')"
    by (cases "deliver_signal_to_thread_group (t_pid t) sig (siginfo_from_sender sender signo) w")
  show ?thesis
  proof (cases "can_send_signal sender c signo")
    case True
    then show ?thesis using deliver_effect [OF ok d] p c d
      by (intro exI [of _ n] exI [of _ w']) (simp add: send_permitted_signal_to_process_def may_signal_def)
  next
    case False
    then show ?thesis using p c
      by (intro exI [of _ n] exI [of _ w]) (simp add: send_permitted_signal_to_process_def may_signal_def option.map_ident)
  qed
qed

text \<open>
  The loop over the tasks.  \<open>seen\<close> are the chosen processes of the tasks already visited in the world
  \<open>w0\<close> at the start; of these, the permitted ones have been signalled.
\<close>

definition signalled_in :: "sig_world \<Rightarrow> SignalCred \<Rightarrow> SigSet \<Rightarrow> nat \<Rightarrow> (nat \<Rightarrow> bool) \<Rightarrow> sig_world \<Rightarrow> bool" where
  "signalled_in w0 sender sig signo reached w \<longleftrightarrow> like w0 w \<and>
     (\<forall>tid. s_tasks w tid = map_option (\<lambda>t. if reached (t_pid t) \<and> may_signal w0 sender signo (t_pid t)
        then signal_effect w0 sig (siginfo_from_sender sender signo) False t else t) (s_tasks w0 tid))"

definition live_chosen :: "sig_world \<Rightarrow> (nat \<Rightarrow> sig_process \<Rightarrow> bool) \<Rightarrow> nat list \<Rightarrow> nat \<Rightarrow> bool" where
  "live_chosen w chosen tids pid \<longleftrightarrow>
     (\<exists>tid t p. tid \<in> set tids \<and> s_tasks w tid = Some t \<and> t_pid t = pid \<and> s_procs w pid = Some p \<and> chosen pid p)"

lemma signal_loop_result:
  assumes ok: "sig_world_ok w0" and core: "\<And>pid p p'. proc_core p = proc_core p' \<Longrightarrow> chosen pid p = chosen pid p'"
  shows "signalled_in w0 sender sig signo (\<lambda>pid. pid \<in> set seen) w \<Longrightarrow>
    permitted = (\<exists>pid \<in> set seen. may_signal w0 sender signo pid) \<Longrightarrow>
    \<exists>n w'. signal_loop chosen sender sig signo tids (seen, seen \<noteq> [], permitted, m) w =
        (let reached = (\<lambda>pid. pid \<in> set seen \<or> live_chosen w0 chosen tids pid) in
         (if \<not> (\<exists>pid. reached pid) then Inl ESRCH
          else if \<not> (\<exists>pid. reached pid \<and> may_signal w0 sender signo pid) then Inl EPERM else Inr n, w')) \<and>
      signalled_in w0 sender sig signo (\<lambda>pid. pid \<in> set seen \<or> live_chosen w0 chosen tids pid) w'"
proof (induction tids arbitrary: seen permitted m w)
  case Nil
  then show ?case by (cases seen) (auto simp: live_chosen_def Let_def)
next
  case (Cons tid tids)
  note S = Cons.prems(1) [unfolded signalled_in_def]
  have l: "like w0 w" using S by blast
  have ok': "sig_world_ok w" using sig_world_ok_like [OF ok l] .
  show ?case
  proof (cases "s_tasks w0 tid")
    case None
    then have "s_tasks w tid = None" using like_task_None [OF l] by blast
    moreover have "live_chosen w0 chosen (tid # tids) = live_chosen w0 chosen tids" using None by (auto simp: live_chosen_def fun_eq_iff)
    ultimately show ?thesis using Cons.IH [OF Cons.prems] by simp
  next
    case (Some t0)
    obtain t where t: "s_tasks w tid = Some t" "task_core t = task_core t0" using like_task [OF l Some] by blast
    then have pid: "t_pid t = t_pid t0" by (simp add: task_core_def)
    obtain p0 where p0: "s_procs w0 (t_pid t0) = Some p0" using ok_task(3) [OF ok Some] by blast
    obtain p where p: "s_procs w (t_pid t0) = Some p" "proc_core p = proc_core p0" using like_proc [OF l p0] by blast
    have ch: "chosen (t_pid t0) p = chosen (t_pid t0) p0" using core p(2) by blast
    let ?pid = "t_pid t0"
    show ?thesis
    proof (cases "\<not> chosen ?pid p0 \<or> ?pid \<in> set seen")
      case True
      have "(pid' \<in> set seen \<or> live_chosen w0 chosen (tid # tids) pid') = (pid' \<in> set seen \<or> live_chosen w0 chosen tids pid')" for pid'
        using True Some p0 by (auto simp: live_chosen_def)
      then show ?thesis using Cons.IH [OF Cons.prems] t p pid ch True by simp
    next
      case False
      let ?may = "may_signal w0 sender signo ?pid"
      have may: "may_signal w sender signo ?pid = ?may" using may_signal_like [OF ok l] .
      from send_permitted [OF ok' t(1), of sender sig signo] obtain n w1 where
        s1: "send_permitted_signal_to_process sender ?pid sig signo w = (if ?may then Inr n else Inl EPERM, w1)" and l1: "like w w1" and
        e1: "\<And>x. s_tasks w1 x = map_option (\<lambda>u. if t_pid u = ?pid \<and> ?may
          then signal_effect w sig (siginfo_from_sender sender signo) False u else u) (s_tasks w x)"
        by (auto simp: pid may)
      have S1: "signalled_in w0 sender sig signo (\<lambda>pid. pid \<in> set (?pid # seen)) w1"
        unfolding signalled_in_def
      proof (intro conjI allI)
        show "like w0 w1" using like_trans [OF l l1] .
        fix x
        show "s_tasks w1 x = map_option (\<lambda>t. if t_pid t \<in> set (?pid # seen) \<and> may_signal w0 sender signo (t_pid t)
          then signal_effect w0 sig (siginfo_from_sender sender signo) False t else t) (s_tasks w0 x)"
          using S e1 [of x] False signal_effect_like [OF l] by (cases "s_tasks w0 x") auto
      qed
      have P1: "(permitted \<or> ?may) = (\<exists>pid \<in> set (?pid # seen). may_signal w0 sender signo pid)"
        using Cons.prems(2) by auto
      have reach: "(pid' \<in> set (?pid # seen) \<or> live_chosen w0 chosen tids pid') = (pid' \<in> set seen \<or> live_chosen w0 chosen (tid # tids) pid')" for pid'
        using Some p0 False by (auto simp: live_chosen_def)
      have step: "signal_loop chosen sender sig signo (tid # tids) (seen, seen \<noteq> [], permitted, m) w =
          signal_loop chosen sender sig signo tids (?pid # seen, ?pid # seen \<noteq> [], permitted \<or> ?may, if ?may then m + n else m) w1"
        using t p pid ch False s1 by simp
      show ?thesis unfolding step using Cons.IH [OF S1 P1] unfolding reach by simp
    qed
  qed
qed

section \<open>Waking\<close>

text \<open>Every task whose status a delivery changed has been handed to the ready queue.\<close>

definition readied :: "sig_world \<Rightarrow> sig_world \<Rightarrow> bool" where
  "readied w w' \<longleftrightarrow> set (s_ready w) \<subseteq> set (s_ready w') \<and>
     (\<forall>tid t t'. s_tasks w tid = Some t \<and> s_tasks w' tid = Some t' \<and> t_status t' \<noteq> t_status t \<longrightarrow> tid \<in> set (s_ready w'))"

lemma readied_refl [simp]: "readied w w"
  by (auto simp: readied_def)

lemma readied_trans:
  assumes "readied w1 w2" "readied w2 w3" "like w1 w2"
  shows "readied w1 w3"
  unfolding readied_def
proof (intro conjI allI impI)
  show "set (s_ready w1) \<subseteq> set (s_ready w3)" using assms(1,2) by (auto simp: readied_def)
  fix tid t t'
  assume a: "s_tasks w1 tid = Some t \<and> s_tasks w3 tid = Some t' \<and> t_status t' \<noteq> t_status t"
  then obtain t2 where t2: "s_tasks w2 tid = Some t2" using like_task [OF assms(3)] by blast
  show "tid \<in> set (s_ready w3)"
  proof (cases "t_status t2 = t_status t")
    case True
    then show ?thesis using assms(2) a t2 by (metis readied_def)
  next
    case False
    then have "tid \<in> set (s_ready w2)" using assms(1) a t2 by (auto simp: readied_def)
    then show ?thesis using assms(2) by (auto simp: readied_def)
  qed
qed

lemma post_signal_status [simp]: "t_status (post_signal sig siginfo e t) = t_status t"
  by (simp add: post_signal_def Let_def split: option.split)

lemma wake_readies: "wake_for_signal sig i t = (r, b, t') \<Longrightarrow> t_status t' \<noteq> t_status t \<Longrightarrow> b"
  by (auto simp: wake_for_signal_def Let_def split: if_splits)

lemma add_signal_readied: "readied w (snd (add_signal_with_info sig siginfo e tid w))"
proof (cases "\<exists>t p. s_tasks w tid = Some t \<and> s_procs w (t_pid t) = Some p")
  case True
  then obtain t p where t: "s_tasks w tid = Some t" "s_procs w (t_pid t) = Some p" by blast
  obtain r b t' where k: "wake_for_signal sig (interrupts_wait (sig_table p) sig) (post_signal sig siginfo e t) = (r, b, t')"
    by (metis prod_cases3)
  show ?thesis using t k wake_readies [OF k] by (auto simp: add_signal_with_info_def readied_def set_sig_task_def set_process_def)
next
  case False
  then show ?thesis by (auto simp: add_signal_with_info_def split: option.splits)
qed

lemma deliver_fold_readied:
  "sig_world_ok w \<Longrightarrow> sig \<noteq> 0 \<Longrightarrow> readied w (snd (fold (deliver_step sig siginfo) tids (n, w)))"
proof (induction tids arbitrary: n w)
  case (Cons a tids)
  obtain r w1 where a: "add_signal_with_info sig siginfo False a w = (r, w1)" by (cases "add_signal_with_info sig siginfo False a w")
  have l: "like w w1" using add_signal_effect [OF Cons.prems a] by blast
  have "readied w w1" using add_signal_readied [of w sig siginfo False a] a by simp
  moreover have "readied w1 (snd (fold (deliver_step sig siginfo) tids (if r then n + 1 else n, w1)))"
    using Cons.IH [OF sig_world_ok_like [OF Cons.prems(1) l] Cons.prems(2)] .
  moreover have "snd (fold (deliver_step sig siginfo) (a # tids) (n, w)) =
      snd (fold (deliver_step sig siginfo) tids (if r then n + 1 else n, w1))"
    by (simp add: deliver_step_def a)
  ultimately show ?case using readied_trans [OF _ _ l] by simp
qed simp

lemma deliver_readied:
  assumes "sig_world_ok w"
  shows "readied w (snd (deliver_signal_to_thread_group pid sig siginfo w))"
proof (cases "sig = 0 \<or> s_procs w pid = None")
  case True
  then show ?thesis by (auto simp: deliver_signal_to_thread_group_def)
next
  case False
  then obtain p where p: "s_procs w pid = Some p" "sig \<noteq> 0" by auto
  obtain m w1 where f: "fold (deliver_step sig siginfo) (p_tasks p) (0, w) = (m, w1)"
    by (cases "fold (deliver_step sig siginfo) (p_tasks p) (0, w)")
  have "readied w w1" using deliver_fold_readied [OF assms p(2), of siginfo "p_tasks p" 0] f by simp
  then show ?thesis using p f
    by (auto simp: deliver_signal_to_thread_group_def Let_def set_process_def readied_def split: option.splits)
qed

text \<open>A signal that is not empty leaves no task blocked, and \<^verbatim>\<open>SIGKILL\<close> none asleep.\<close>

lemma signal_effect_wakes:
  assumes "sig \<noteq> 0" "s_procs w (t_pid t) = Some p"
  shows "t_status (signal_effect w sig siginfo e t) \<noteq> TBlocked"
  using assms by (simp add: signal_effect_def wake_for_signal_def wake_interruptible_def Let_def)

lemma post_signal_pending [simp]: "sig_pending (post_signal sig siginfo e t) = sig_pending t OR sig"
  by (simp add: post_signal_def Let_def split: option.split)

lemma wake_for_signal_pending [simp]:
  "sig_pending (snd (snd (wake_for_signal sig i t))) = sig_pending t"
  "exec_teardown_kill (snd (snd (wake_for_signal sig i t))) = exec_teardown_kill t"
  by (simp_all add: wake_for_signal_def wake_interruptible_def Let_def)

lemma signal_effect_pending:
  assumes "s_procs w (t_pid t) = Some p"
  shows "sig_pending (signal_effect w sig siginfo e t) = sig_pending t OR sig"
  using assms by (simp add: signal_effect_def)

lemma sigkill_flag: "bit (sig_flag SIGKILL) 8"
  by (simp add: bit_sig_flag SIGKILL_def)

lemma signal_effect_sigkill:
  assumes p: "s_procs w (t_pid t) = Some p" and t': "t' = signal_effect w (sig_flag SIGKILL) siginfo False t"
  shows "bit (sig_pending t') 8 \<and> \<not> exec_teardown_kill t' \<and> t_status t' \<notin> {TBlocked, TStopped, TVforkBlocked}"
proof -
  have nz: "sig_flag SIGKILL \<noteq> 0" by (simp add: SIGKILL_def)
  have "sig_flag SIGKILL AND (sig_flag SIGCONT OR sig_flag SIGKILL) = sig_flag SIGKILL"
    by (rule bit_word_eqI) (auto simp: bit_simps)
  then have st: "t_status t' \<notin> {TBlocked, TStopped, TVforkBlocked}"
    unfolding t' using p nz by (auto simp: signal_effect_def wake_for_signal_def wake_interruptible_def Let_def)
  have "flags_contain (sig_flag SIGKILL) (sig_flag SIGKILL)" by (simp add: flags_contain_def)
  then have "\<not> exec_teardown_kill t'" unfolding t' using p nz
    by (simp add: signal_effect_def post_signal_def Let_def split: option.split)
  moreover have "bit (sig_pending t') 8" using signal_effect_pending [OF p] sigkill_flag unfolding t' by (simp add: bit_or_iff)
  ultimately show ?thesis using st by blast
qed

section \<open>Properties\<close>

text \<open>The processes that a call of \<^verbatim>\<open>kill\<close> names\<close>

definition kill_target :: "sig_world \<Rightarrow> sig_task \<Rightarrow> int \<Rightarrow> nat \<Rightarrow> bool" where
  "kill_target w me pid q \<longleftrightarrow>
     (\<exists>tid t. s_tasks w tid = Some t \<and> t_pid t = q) \<and>
     (if pid > 0 then q = nat pid
      else if pid = - 1 then q \<noteq> 1 \<and> q \<noteq> t_pid me
      else \<exists>p mp. s_procs w q = Some p \<and> s_procs w (t_pid me) = Some mp \<and> pgid p = (if pid = 0 then pgid mp else nat (- pid)))"

definition kill_signal :: "nat \<Rightarrow> SigSet" where
  "kill_signal signo = (if signo = 0 then 0 else case from_sig signo of Some s \<Rightarrow> s | None \<Rightarrow> 0)"

lemma live_chosen_all:
  assumes "sig_world_ok w"
  shows "live_chosen w chosen (s_tids w) q \<longleftrightarrow> (\<exists>tid t p. s_tasks w tid = Some t \<and> t_pid t = q \<and> s_procs w q = Some p \<and> chosen q p)"
  using ok_task(1) [OF assms] by (auto simp: live_chosen_def)

lemma kill_loop:
  assumes ok: "sig_world_ok w" and core: "\<And>pid p p'. proc_core p = proc_core p' \<Longrightarrow> chosen pid p = chosen pid p'"
    and target: "\<And>q. target q \<longleftrightarrow> (\<exists>tid t p. s_tasks w tid = Some t \<and> t_pid t = q \<and> s_procs w q = Some p \<and> chosen q p)"
  shows "\<exists>n w'. signal_loop chosen sender sig signo (s_tids w) ([], False, False, 0) w =
      (if \<not> (\<exists>q. target q) then Inl ESRCH else if \<not> (\<exists>q. target q \<and> may_signal w sender signo q) then Inl EPERM else Inr n, w') \<and>
    signalled_in w sender sig signo target w'"
proof -
  have lc: "live_chosen w chosen (s_tids w) = target" using live_chosen_all [OF ok] target by (intro ext) simp
  have start: "signalled_in w sender sig signo (\<lambda>pid. pid \<in> set []) w" by (simp add: signalled_in_def option.map_ident)
  have none: "False = (\<exists>pid \<in> set []. may_signal w sender signo pid)" by simp
  show ?thesis using signal_loop_result [where chosen = chosen and m = 0 and tids = "s_tids w", OF ok core start none]
    by (simp only: lc Let_def list.set(1) empty_iff simp_thms)
qed

lemma kill_single:
  assumes ok: "sig_world_ok w"
  shows "\<exists>n w'. send_permitted_signal_to_process sender q sig signo w =
      (if \<not> (\<exists>tid t. s_tasks w tid = Some t \<and> t_pid t = q) then Inl ESRCH
       else if \<not> may_signal w sender signo q then Inl EPERM else Inr n, w') \<and>
    signalled_in w sender sig signo (\<lambda>q'. q' = q \<and> (\<exists>tid t. s_tasks w tid = Some t \<and> t_pid t = q)) w' \<and> readied w w'"
proof (cases "\<exists>tid t. s_tasks w tid = Some t \<and> t_pid t = q")
  case True
  then obtain tid t where t: "s_tasks w tid = Some t" "t_pid t = q" by blast
  from send_permitted [OF ok t(1), of sender sig signo] obtain n w' where
    s: "send_permitted_signal_to_process sender q sig signo w = (if may_signal w sender signo q then Inr n else Inl EPERM, w')" "like w w'"
    "\<And>x. s_tasks w' x = map_option (\<lambda>u. if t_pid u = q \<and> may_signal w sender signo q
       then signal_effect w sig (siginfo_from_sender sender signo) False u else u) (s_tasks w x)"
    by (auto simp: t(2))
  have "readied w (snd (send_permitted_signal_to_process sender q sig signo w))"
    using deliver_readied [OF ok, of q sig "siginfo_from_sender sender signo"]
    by (cases "deliver_signal_to_thread_group q sig (siginfo_from_sender sender signo) w")
      (simp add: send_permitted_signal_to_process_def split: option.split)
  moreover have "signalled_in w sender sig signo (\<lambda>q'. q' = q \<and> (\<exists>tid t. s_tasks w tid = Some t \<and> t_pid t = q)) w'"
    unfolding signalled_in_def
  proof (intro conjI allI)
    fix x
    show "s_tasks w' x = map_option (\<lambda>t. if (t_pid t = q \<and> (\<exists>tid t. s_tasks w tid = Some t \<and> t_pid t = q)) \<and> may_signal w sender signo (t_pid t)
        then signal_effect w sig (siginfo_from_sender sender signo) False t else t) (s_tasks w x)"
      using True s(3) [of x] by (cases "s_tasks w x") auto
  qed (rule s(2))
  ultimately show ?thesis using s True by (intro exI [of _ n] exI [of _ w']) simp
next
  case False
  have "send_permitted_signal_to_process sender q sig signo w = (Inl ESRCH, w)"
  proof (cases "s_procs w q")
    case None
    then show ?thesis by (simp add: send_permitted_signal_to_process_def)
  next
    case (Some p)
    have "s_tasks w tid = None" if "tid \<in> set (p_tasks p)" for tid
      using ok_member [OF ok Some that] False by (cases "s_tasks w tid") auto
    then have "find (\<lambda>tid. s_tasks w tid \<noteq> None) (p_tasks p) = None" by (simp add: find_None_iff)
    with Some show ?thesis by (simp add: send_permitted_signal_to_process_def signal_cred_from_process_def)
  qed
  moreover have none: "(\<lambda>q'. q' = q \<and> (\<exists>tid t. s_tasks w tid = Some t \<and> t_pid t = q)) = (\<lambda>q'. False)" using False by blast
  moreover have "signalled_in w sender sig signo (\<lambda>q'. False) w" by (simp add: signalled_in_def option.map_ident)
  ultimately show ?thesis using False unfolding none by (intro exI [of _ 0] exI [of _ w]) simp
qed

lemma kill_cases:
  assumes ok: "sig_world_ok w" and me: "s_tasks w current = Some me" and signo: "signo \<le> SIG_MAX_NUM"
  shows "\<exists>w'. sys_kill current pid signo w =
      (if \<not> (\<exists>q. kill_target w me pid q) then Inl ESRCH
       else if \<not> (\<exists>q. kill_target w me pid q \<and> may_signal w (cred_of w me) signo q) then Inl EPERM else Inr 0, w') \<and>
    signalled_in w (cred_of w me) (kill_signal signo) signo (kill_target w me pid) w' \<and> (0 < pid \<longrightarrow> readied w w')"
proof -
  let ?s = "kill_signal signo" and ?c = "cred_of w me"
  obtain mp where mp: "s_procs w (t_pid me) = Some mp" using ok_task(3) [OF ok me] by blast
  have cred: "signal_cred_from_task current w = Some ?c" by (simp add: signal_cred_from_task_def me)
  have live: "(\<exists>tid t. s_tasks w tid = Some t \<and> t_pid t = q) \<Longrightarrow> \<exists>p. s_procs w q = Some p" for q
    using ok_task(3) [OF ok] by blast
  consider (one) "pid > 0" | (own) "pid = 0" | (all) "pid = - 1" | (group) "pid < - 1" by linarith
  then show ?thesis
  proof cases
    case one
    have k: "(\<lambda>q'. q' = nat pid \<and> (\<exists>tid t. s_tasks w tid = Some t \<and> t_pid t = nat pid)) = kill_target w me pid"
      using one by (intro ext) (auto simp: kill_target_def)
    have e: "(\<exists>q. kill_target w me pid q) = (\<exists>tid t. s_tasks w tid = Some t \<and> t_pid t = nat pid)"
      "(\<exists>q. kill_target w me pid q \<and> may_signal w ?c signo q) =
        ((\<exists>tid t. s_tasks w tid = Some t \<and> t_pid t = nat pid) \<and> may_signal w ?c signo (nat pid))"
      using one by (auto simp: kill_target_def)
    obtain n w' where s: "send_permitted_signal_to_process ?c (nat pid) ?s signo w =
        (if \<not> (\<exists>tid t. s_tasks w tid = Some t \<and> t_pid t = nat pid) then Inl ESRCH
         else if \<not> may_signal w ?c signo (nat pid) then Inl EPERM else Inr n, w')"
      "signalled_in w ?c ?s signo (kill_target w me pid) w'" "readied w w'"
      using kill_single [OF ok, of ?c "nat pid" ?s signo] unfolding k by blast
    then have "sys_kill current pid signo w = (case (if \<not> (\<exists>tid t. s_tasks w tid = Some t \<and> t_pid t = nat pid) then Inl ESRCH
         else if \<not> may_signal w ?c signo (nat pid) then Inl EPERM else Inr n) of Inl e \<Rightarrow> Inl e | Inr x \<Rightarrow> Inr 0, w')"
      using one signo cred by (simp add: sys_kill_def send_user_signal_to_thread_group_def kill_signal_def Let_def)
    then show ?thesis using s(2,3) unfolding e by (intro exI [of _ w']) simp
  next
    case own
    have t: "kill_target w me pid q \<longleftrightarrow> (\<exists>tid t p. s_tasks w tid = Some t \<and> t_pid t = q \<and> s_procs w q = Some p \<and> pgid p = pgid mp)" for q
      using own mp by (auto simp: kill_target_def)
    from kill_loop [where chosen = "\<lambda>pid p. pgid p = pgid mp" and target = "kill_target w me pid" and sender = ?c and sig = ?s and signo = signo,
        OF ok _ t] obtain n w' where
      s: "signal_loop (\<lambda>pid p. pgid p = pgid mp) ?c ?s signo (s_tids w) ([], False, False, 0) w =
        (if \<not> (\<exists>q. kill_target w me pid q) then Inl ESRCH
         else if \<not> (\<exists>q. kill_target w me pid q \<and> may_signal w ?c signo q) then Inl EPERM else Inr n, w')"
      "signalled_in w ?c ?s signo (kill_target w me pid) w'"
      by (auto simp: proc_core_def)
    then show ?thesis using own signo cred me mp
      by (intro exI [of _ w']) (simp add: sys_kill_def send_user_signal_to_process_group_def kill_signal_def Let_def)
  next
    case all
    have t: "kill_target w me pid q \<longleftrightarrow>
        (\<exists>tid t p. s_tasks w tid = Some t \<and> t_pid t = q \<and> s_procs w q = Some p \<and> q \<noteq> 1 \<and> q \<noteq> t_pid me)" for q
      using all live [of q] by (auto simp: kill_target_def)
    from kill_loop [where chosen = "\<lambda>pid p. pid \<noteq> 1 \<and> pid \<noteq> t_pid me" and target = "kill_target w me pid" and sender = ?c and sig = ?s and
        signo = signo, OF ok _ t] obtain n w' where
      s: "signal_loop (\<lambda>pid p. pid \<noteq> 1 \<and> pid \<noteq> t_pid me) ?c ?s signo (s_tids w) ([], False, False, 0) w =
        (if \<not> (\<exists>q. kill_target w me pid q) then Inl ESRCH
         else if \<not> (\<exists>q. kill_target w me pid q \<and> may_signal w ?c signo q) then Inl EPERM else Inr n, w')"
      "signalled_in w ?c ?s signo (kill_target w me pid) w'"
      by auto
    then show ?thesis using all signo me
      by (intro exI [of _ w']) (simp add: sys_kill_def send_user_signal_to_accessible_processes_def kill_signal_def Let_def)
  next
    case group
    have t: "kill_target w me pid q \<longleftrightarrow> (\<exists>tid t p. s_tasks w tid = Some t \<and> t_pid t = q \<and> s_procs w q = Some p \<and> pgid p = nat (- pid))" for q
      using group mp by (auto simp: kill_target_def)
    from kill_loop [where chosen = "\<lambda>pid' p. pgid p = nat (- pid)" and target = "kill_target w me pid" and sender = ?c and sig = ?s and
        signo = signo, OF ok _ t] obtain n w' where
      s: "signal_loop (\<lambda>pid' p. pgid p = nat (- pid)) ?c ?s signo (s_tids w) ([], False, False, 0) w =
        (if \<not> (\<exists>q. kill_target w me pid q) then Inl ESRCH
         else if \<not> (\<exists>q. kill_target w me pid q \<and> may_signal w ?c signo q) then Inl EPERM else Inr n, w')"
      "signalled_in w ?c ?s signo (kill_target w me pid) w'"
      by (auto simp: proc_core_def)
    then show ?thesis using group signo cred
      by (intro exI [of _ w']) (simp add: sys_kill_def send_user_signal_to_process_group_def kill_signal_def Let_def)
  qed
qed

text \<open>
  The permission of \<^verbatim>\<open>kill\<close> in terms of the users: the target is represented by its first live thread.
\<close>

definition uid_rule :: "sig_world \<Rightarrow> sig_task \<Rightarrow> nat \<Rightarrow> nat \<Rightarrow> bool" where
  "uid_rule w me signo q \<longleftrightarrow>
     (\<exists>p mp tid rest u. s_procs w q = Some p \<and> s_procs w (t_pid me) = Some mp \<and>
        filter (\<lambda>tid. s_tasks w tid \<noteq> None) (p_tasks p) = tid # rest \<and> s_tasks w tid = Some u \<and>
        (effective_uid me = 0 \<or> user_id me \<in> {user_id u, saved_uid u} \<or> effective_uid me \<in> {user_id u, saved_uid u} \<or>
         signo = 18 \<and> sid mp = sid p))"

text \<open>
  A thread before and after it got a signal: exactly one more signal is pending, the information of
  its first sender is kept, and the thread does not sleep on.
\<close>

definition gets_signal :: "nat \<Rightarrow> sig_task \<Rightarrow> sig_task \<Rightarrow> sig_task \<Rightarrow> bool" where
  "gets_signal signo me t t' \<longleftrightarrow>
     (\<forall>n. bit (sig_pending t') n \<longleftrightarrow> bit (sig_pending t) n \<or> n = signo - 1) \<and>
     sig_pending_info t' =
       (if bit (sig_pending t) (signo - 1) then sig_pending_info t
        else (sig_pending_info t)[signo := Some \<lparr>si_signo = of_nat signo, si_errno = 0, si_code = 0, si_pid = of_nat (t_pid me),
          si_uid = of_nat (user_id me), si_status = 0\<rparr>]) \<and>
     sig_mask t' = sig_mask t \<and> t_status t' \<noteq> TBlocked \<and>
     (t_status t \<notin> {TBlocked, TStopped, TVforkBlocked} \<longrightarrow> t_status t' = t_status t)"

lemma find_filter: "find P xs = (case filter P xs of [] \<Rightarrow> None | x # _ \<Rightarrow> Some x)"
  by (induction xs) auto

lemma may_signal_uid:
  assumes ok: "sig_world_ok w" and me: "s_tasks w current = Some me"
  shows "may_signal w (cred_of w me) signo q \<longleftrightarrow> uid_rule w me signo q"
proof (cases "s_procs w q")
  case None
  then show ?thesis by (simp add: may_signal_def uid_rule_def)
next
  case (Some p)
  obtain mp where mp: "s_procs w (t_pid me) = Some mp" using ok_task(3) [OF ok me] by blast
  show ?thesis
  proof (cases "filter (\<lambda>tid. s_tasks w tid \<noteq> None) (p_tasks p)")
    case Nil
    then show ?thesis using Some by (simp add: may_signal_def uid_rule_def signal_cred_from_process_def find_filter)
  next
    case (Cons tid rest)
    then have "tid \<in> set (filter (\<lambda>tid. s_tasks w tid \<noteq> None) (p_tasks p))" by simp
    then obtain u where u: "s_tasks w tid = Some u" by auto
    have c: "signal_cred_from_process p w = Some ((cred_of w u)\<lparr>cred_sid := sid p\<rparr>)"
      using Cons u by (simp add: signal_cred_from_process_def find_filter)
    have "uid_rule w me signo q \<longleftrightarrow>
        effective_uid me = 0 \<or> user_id me \<in> {user_id u, saved_uid u} \<or> effective_uid me \<in> {user_id u, saved_uid u} \<or>
        signo = 18 \<and> sid mp = sid p"
      unfolding uid_rule_def using Some mp u Cons by auto
    then show ?thesis using Some mp c by (auto simp: may_signal_def can_send_signal_def cred_of_def SIGCONT_def)
  qed
qed

lemma kill_signal_flag: "1 \<le> signo \<Longrightarrow> signo \<le> 33 \<Longrightarrow> kill_signal signo = sig_flag signo"
  by (simp add: kill_signal_def from_sig_flag)

lemma kill_signal_none: "signo = 0 \<or> 33 < signo \<Longrightarrow> signo \<le> SIG_MAX_NUM \<Longrightarrow> kill_signal signo = 0"
  by (auto simp: kill_signal_def from_sig_beyond SIG_MAX_NUM_def)

lemma post_signal_mask [simp]: "sig_mask (post_signal sig siginfo e t) = sig_mask t"
  by (simp add: post_signal_def Let_def split: option.split)

lemma post_signal_info:
  assumes "1 \<le> signo" "signo \<le> 64"
  shows "sig_pending_info (post_signal (sig_flag signo) siginfo e t) =
    (if bit (sig_pending t) (signo - 1) then sig_pending_info t else (sig_pending_info t)[signo := siginfo])"
proof -
  have "peek_front (sig_flag signo) = Some signo" using assms by (auto simp: peek_front_Some bit_sig_flag)
  moreover have "flags_contain (sig_pending t) (sig_flag signo) \<longleftrightarrow> bit (sig_pending t) (signo - 1)"
    using assms by simp
  ultimately show ?thesis by (simp add: post_signal_def Let_def)
qed

lemma wake_for_signal_frame:
  "sig_mask (snd (snd (wake_for_signal sig i t))) = sig_mask t"
  "sig_pending_info (snd (snd (wake_for_signal sig i t))) = sig_pending_info t"
  "t_status (snd (snd (wake_for_signal sig i t))) \<noteq> TBlocked"
  "t_status t \<notin> {TBlocked, TStopped, TVforkBlocked} \<Longrightarrow> t_status (snd (snd (wake_for_signal sig i t))) = t_status t"
  by (auto simp: wake_for_signal_def wake_interruptible_def Let_def)

lemma signal_effect_gets:
  assumes signo: "1 \<le> signo" "signo \<le> 33" and p: "s_procs w (t_pid t) = Some p"
  shows "gets_signal signo me t (signal_effect w (sig_flag signo) (siginfo_from_sender (cred_of w me) signo) False t)"
proof -
  have nz: "sig_flag signo \<noteq> 0" using signo bit_sig_flag [of signo "signo - 1"] by auto
  show ?thesis using signo p nz
    by (auto simp: gets_signal_def signal_effect_def wake_for_signal_frame post_signal_info bit_or_iff bit_sig_flag
        siginfo_from_sender_def new_user_def cred_of_def)
qed

text \<open>
  C7.  \<^verbatim>\<open>kill\<close> reaches exactly the processes it names and may signal: the process, the caller's group,
  another group, or everyone but init and the caller.  A process may be signalled when the caller is
  root, when its real or effective user is the real or saved user of the target's first live thread,
  or with \<^verbatim>\<open>SIGCONT\<close> inside a session.  A signal from 1 to 33 becomes pending in every live thread of
  those processes, with the sender's number and user unless it was pending already, and ends a
  blocked wait; no other task changes.  The numbers 0 and 34 to 64 change no task at all.  The answer is
  \<^verbatim>\<open>ESRCH\<close> when no live process is named, \<^verbatim>\<open>EPERM\<close> when none of them may be signalled, and success
  otherwise.
\<close>

theorem kill_reaches_exactly_permitted:
  assumes ok: "sig_world_ok w" and me: "s_tasks w current = Some me" and signo: "signo \<le> SIG_MAX_NUM"
  shows "case sys_kill current pid signo w of (r, w') \<Rightarrow>
    r = (if \<not> (\<exists>q. kill_target w me pid q) then Inl ESRCH
         else if \<not> (\<exists>q. kill_target w me pid q \<and> uid_rule w me signo q) then Inl EPERM else Inr 0) \<and>
    dom (s_tasks w') = dom (s_tasks w) \<and>
    (\<forall>tid t. s_tasks w tid = Some t \<longrightarrow> (\<exists>t'. s_tasks w' tid = Some t' \<and>
       (if kill_target w me pid (t_pid t) \<and> uid_rule w me signo (t_pid t) \<and> 1 \<le> signo \<and> signo \<le> 33
        then gets_signal signo me t t' else t' = t)))"
proof -
  note may = may_signal_uid [OF ok me]
  obtain w' where k: "sys_kill current pid signo w =
      (if \<not> (\<exists>q. kill_target w me pid q) then Inl ESRCH
       else if \<not> (\<exists>q. kill_target w me pid q \<and> uid_rule w me signo q) then Inl EPERM else Inr 0, w')"
    "signalled_in w (cred_of w me) (kill_signal signo) signo (kill_target w me pid) w'"
    using kill_cases [OF assms] unfolding may by blast
  note S = k(2) [unfolded signalled_in_def may]
  have "dom (s_tasks w') = dom (s_tasks w)" using S by (auto simp: dom_def)
  moreover have "\<exists>t'. s_tasks w' tid = Some t' \<and>
      (if kill_target w me pid (t_pid t) \<and> uid_rule w me signo (t_pid t) \<and> 1 \<le> signo \<and> signo \<le> 33
       then gets_signal signo me t t' else t' = t)" if t: "s_tasks w tid = Some t" for tid t
  proof (cases "1 \<le> signo \<and> signo \<le> 33")
    case True
    obtain p where "s_procs w (t_pid t) = Some p" using ok_task(3) [OF ok t] by blast
    then show ?thesis using S t True signal_effect_gets [of signo w t p me] by (auto simp: kill_signal_flag)
  next
    case False
    then have "kill_signal signo = 0" using signo by (intro kill_signal_none) auto
    then show ?thesis using S t False by (auto simp: signal_effect_def)
  qed
  ultimately show ?thesis unfolding k(1) prod.case by blast
qed

text \<open>
  C18.  \<^verbatim>\<open>SIGKILL\<close> cannot be slept through.  When a process may be killed, every live thread of it has
  the signal pending as an ordinary, process-wide kill, even if an \<^verbatim>\<open>execve\<close> teardown was under way; a
  thread that was blocked, stopped or waiting in \<^verbatim>\<open>vfork\<close> is no longer asleep and has been handed to
  the ready queue.
\<close>

theorem sigkill_reaches_every_thread:
  assumes ok: "sig_world_ok w" and me: "s_tasks w current = Some me"
    and may: "may_signal w (cred_of w me) SIGKILL q" "0 < q" and t: "s_tasks w tid = Some t" "t_pid t = q"
  shows "\<exists>w' t'. sys_kill current (int q) SIGKILL w = (Inr 0, w') \<and> s_tasks w' tid = Some t' \<and>
    bit (sig_pending t') (SIGKILL - 1) \<and> \<not> exec_teardown_kill t' \<and> t_status t' \<notin> {TBlocked, TStopped, TVforkBlocked} \<and>
    (t_status t \<in> {TBlocked, TStopped, TVforkBlocked} \<longrightarrow> tid \<in> set (s_ready w'))"
proof -
  have target: "kill_target w me (int q) q" using t may(2) by (auto simp: kill_target_def)
  have sig: "kill_signal SIGKILL = sig_flag SIGKILL" by (simp add: kill_signal_def from_sig_flag SIGKILL_def)
  obtain w' where k: "sys_kill current (int q) SIGKILL w = (Inr 0, w')"
    "signalled_in w (cred_of w me) (sig_flag SIGKILL) SIGKILL (kill_target w me (int q)) w'" "readied w w'"
  proof -
    have "SIGKILL \<le> SIG_MAX_NUM" by (simp add: SIGKILL_def SIG_MAX_NUM_def)
    from kill_cases [OF ok me this, of "int q"] obtain w' where w': "sys_kill current (int q) SIGKILL w =
        (if \<not> (\<exists>x. kill_target w me (int q) x) then Inl ESRCH
         else if \<not> (\<exists>x. kill_target w me (int q) x \<and> may_signal w (cred_of w me) SIGKILL x) then Inl EPERM else Inr 0, w')"
      "signalled_in w (cred_of w me) (sig_flag SIGKILL) SIGKILL (kill_target w me (int q)) w'" "readied w w'"
      using may(2) unfolding sig by auto
    have "\<exists>x. kill_target w me (int q) x" "\<exists>x. kill_target w me (int q) x \<and> may_signal w (cred_of w me) SIGKILL x"
      using target may(1) by blast+
    with w'(1) have "sys_kill current (int q) SIGKILL w = (Inr 0, w')" by (simp only: if_False not_True_eq_False simp_thms)
    from that [OF this w'(2,3)] show thesis .
  qed
  let ?t = "signal_effect w (sig_flag SIGKILL) (siginfo_from_sender (cred_of w me) SIGKILL) False t"
  have t': "s_tasks w' tid = Some ?t" using k(2) t target may(1) by (simp add: signalled_in_def)
  obtain p where p: "s_procs w (t_pid t) = Some p" using ok_task(3) [OF ok t(1)] by blast
  have e: "bit (sig_pending ?t) 8 \<and> \<not> exec_teardown_kill ?t \<and> t_status ?t \<notin> {TBlocked, TStopped, TVforkBlocked}"
    by (rule signal_effect_sigkill [OF p refl])
  then have "t_status t \<in> {TBlocked, TStopped, TVforkBlocked} \<longrightarrow> tid \<in> set (s_ready w')"
    using k(3) t(1) t' by (auto simp: readied_def)
  with k(1) t' e show ?thesis by (intro exI [of _ w'] exI [of _ ?t]) (simp add: SIGKILL_def)
qed

lemma deliver_nothing: "send_permitted_signal_to_process sender q 0 signo w = (r, w') \<Longrightarrow> w' = w"
  by (auto simp: send_permitted_signal_to_process_def deliver_signal_to_thread_group_def split: option.splits if_splits)

lemma signal_loop_nothing: "signal_loop chosen sender 0 signo tids acc w = (r, w') \<Longrightarrow> w' = w"
proof (induction tids arbitrary: acc)
  case (Cons tid tids)
  obtain seen found permitted n where acc: "acc = (seen, found, permitted, n)" by (metis prod_cases4)
  show ?case
  proof (cases "\<exists>t p. s_tasks w tid = Some t \<and> s_procs w (t_pid t) = Some p \<and> chosen (t_pid t) p \<and> t_pid t \<notin> set seen")
    case True
    then obtain t p where t: "s_tasks w tid = Some t" "s_procs w (t_pid t) = Some p" "chosen (t_pid t) p" "t_pid t \<notin> set seen" by blast
    obtain x w1 where s: "send_permitted_signal_to_process sender (t_pid t) 0 signo w = (x, w1)"
      by (cases "send_permitted_signal_to_process sender (t_pid t) 0 signo w")
    then have "w1 = w" by (rule deliver_nothing)
    then show ?thesis using Cons t s acc by (auto split: sum.splits if_splits)
  next
    case False
    then have "signal_loop chosen sender 0 signo (tid # tids) acc w = signal_loop chosen sender 0 signo tids acc w"
      by (auto simp: acc split: option.splits)
    then show ?thesis using Cons by simp
  qed
qed (auto split: prod.splits)

lemma deliver_same:
  assumes "\<And>a b. can_send_signal a b signo = can_send_signal a b 0"
  shows "send_permitted_signal_to_process sender q 0 signo w = send_permitted_signal_to_process sender q 0 0 w"
  by (simp add: send_permitted_signal_to_process_def deliver_signal_to_thread_group_def assms split: option.splits)

lemma signal_loop_same:
  assumes "\<And>a b. can_send_signal a b signo = can_send_signal a b 0"
  shows "signal_loop chosen sender 0 signo tids acc w = signal_loop chosen sender 0 0 tids acc w"
proof (induction tids arbitrary: acc w)
  case (Cons tid tids)
  show ?case by (simp add: Cons deliver_same [OF assms] split: option.splits prod.splits sum.splits)
qed (simp split: prod.splits)

text \<open>
  C39.  Real-time signals are dropped.  A signal number from 34 to 64 is accepted, but the set of
  signals has no flag for it: \<^verbatim>\<open>kill\<close> answers what it answers for the null signal, and no task of the
  system changes.
\<close>

theorem realtime_signals_are_dropped:
  assumes "33 < signo" "signo \<le> 64"
  shows "sys_kill current pid signo w = sys_kill current pid 0 w \<and> snd (sys_kill current pid signo w) = w"
proof -
  have f: "from_sig signo = Some 0" by (rule from_sig_beyond) (use assms in auto)
  have c: "can_send_signal a b signo = can_send_signal a b 0" for a b
    using assms by (auto simp: can_send_signal_def SIGCONT_def)
  have "snd (sys_kill current pid 0 w) = w"
    by (auto simp: sys_kill_def Let_def send_user_signal_to_thread_group_def
        send_user_signal_to_process_group_def send_user_signal_to_accessible_processes_def
        split: option.splits if_splits prod.splits dest: deliver_nothing signal_loop_nothing)
  moreover have "sys_kill current pid signo w = sys_kill current pid 0 w"
    using assms by (simp add: sys_kill_def f SIG_MAX_NUM_def Let_def send_user_signal_to_thread_group_def
        send_user_signal_to_process_group_def send_user_signal_to_accessible_processes_def
        deliver_same [OF c] signal_loop_same [OF c] split: option.split)
  ultimately show ?thesis by simp
qed

text \<open>Two processes of one user, the second of them asleep\<close>

definition some_process :: "nat \<Rightarrow> sig_process" where
  "some_process tid = \<lparr>parent_pid = 0, pgid = tid, sid = 1, p_tasks = [tid], sig_table = SigTable_new, group_exit_code = None,
     stopped_signal = None, continued_signal = None, termination_signal = None\<rparr>"

definition some_world :: sig_world where
  "some_world = \<lparr>s_tasks = [1 \<mapsto> some_task, 2 \<mapsto> some_task\<lparr>t_tid := 2, t_pid := 2, t_status := TBlocked, exec_teardown_kill := True\<rparr>],
     s_tids = [1, 2], s_procs = [1 \<mapsto> some_process 1, 2 \<mapsto> some_process 2], s_ready = [], s_events = []\<rparr>"

lemma some_world_ok: "sig_world_ok some_world"
  by (auto simp: sig_world_ok_def some_world_def some_process_def some_task_def SigTable_new_def SIG_MAX_NUM_def)

lemma some_world_tasks:
  "s_tasks some_world 1 = Some some_task"
  "s_tasks some_world 2 = Some (some_task\<lparr>t_tid := 2, t_pid := 2, t_status := TBlocked, exec_teardown_kill := True\<rparr>)"
  by (simp_all add: some_world_def)

lemma some_world_may: "may_signal some_world (cred_of some_world some_task) SIGKILL 2"
  by (simp add: may_signal_def some_world_def some_process_def some_task_def signal_cred_from_process_def
      cred_of_def can_send_signal_def)

theorem kill_reaches_exactly_permitted_witness:
  "\<exists>w' t'. sys_kill 1 2 SIGUSR1 some_world = (Inr 0, w') \<and> s_tasks w' 1 = s_tasks some_world 1 \<and> s_tasks w' 2 = Some t' \<and>
     bit (sig_pending t') 9 \<and> t_status t' \<noteq> TBlocked"
proof -
  let ?t = "some_task\<lparr>t_tid := 2, t_pid := 2, t_status := TBlocked, exec_teardown_kill := True\<rparr>"
  have k: "kill_target some_world some_task 2 2" "\<not> kill_target some_world some_task 2 1"
    using some_world_tasks(2) by (auto simp: kill_target_def intro!: exI [of _ 2])
  have u: "uid_rule some_world some_task SIGUSR1 2"
    by (simp add: uid_rule_def some_world_def some_process_def some_task_def)
  have n: "SIGUSR1 \<le> SIG_MAX_NUM" "1 \<le> SIGUSR1" "SIGUSR1 \<le> 33" "SIGUSR1 - 1 = 9" by (simp_all add: SIGUSR1_def SIG_MAX_NUM_def)
  have p: "t_pid some_task = 1" "t_pid ?t = 2" by (simp_all add: some_task_def)
  obtain r w' where w': "sys_kill 1 2 SIGUSR1 some_world = (r, w')" by (cases "sys_kill 1 2 SIGUSR1 some_world")
  note T = kill_reaches_exactly_permitted [OF some_world_ok some_world_tasks(1) n(1), of 2, unfolded w' prod.case]
  have "r = Inr 0" using T k(1) u by metis
  moreover have "s_tasks w' 1 = Some some_task" using T some_world_tasks(1) k(2) p(1) by fastforce
  moreover obtain t' where "s_tasks w' 2 = Some t'" "gets_signal SIGUSR1 some_task ?t t'"
    using T some_world_tasks(2) k(1) u n p(2) by fastforce
  ultimately show ?thesis using w' some_world_tasks(1) n(4) by (auto simp: gets_signal_def)
qed

theorem realtime_signals_are_dropped_witness:
  "sys_kill 1 2 40 some_world = sys_kill 1 2 0 some_world \<and> snd (sys_kill 1 2 40 some_world) = some_world \<and> s_tasks some_world 2 \<noteq> None"
  using realtime_signals_are_dropped [of 40 1 2 some_world] some_world_tasks(2) by auto

theorem sigkill_reaches_every_thread_witness:
  "\<exists>w' t'. sys_kill 1 2 SIGKILL some_world = (Inr 0, w') \<and> s_tasks w' 2 = Some t' \<and> bit (sig_pending t') (SIGKILL - 1) \<and>
     \<not> exec_teardown_kill t' \<and> 2 \<in> set (s_ready w')"
  using sigkill_reaches_every_thread [OF some_world_ok some_world_tasks(1) some_world_may _ some_world_tasks(2)] by auto

end
