(* ===== verification/Signal_Handling.thy ===== *)
theory Signal_Handling
  imports Signal_Delivery
begin

text \<open>
  What a thread does with its pending signals (\<^verbatim>\<open>signal/pending.rs\<close>) before it goes back to user code
  (the loop of \<^verbatim>\<open>trap_return\<close> in \<^verbatim>\<open>trap/mod.rs\<close>): it enters a handler, ignores, stops, continues or
  exits.
\<close>

section \<open>Pending signals\<close>

definition check_if_any_sig :: "sig_task \<Rightarrow> nat option" where
  "check_if_any_sig t = peek_front (flags_remove (sig_mask t) (sig_pending t))"

definition signal_of :: "nat \<Rightarrow> SigSet" where
  "signal_of signo = (case from_sig signo of Some s \<Rightarrow> s | None \<Rightarrow> 0)"

definition take_signal :: "nat \<Rightarrow> sig_task \<Rightarrow> sig_task" where
  "take_signal signo t = t\<lparr>sig_pending := flags_remove (signal_of signo) (sig_pending t),
     sig_pending_info := (sig_pending_info t)[signo := None]\<rparr>"

definition consume_ignorable_pending_signal :: "SigTable \<Rightarrow> sig_task \<Rightarrow> bool \<times> sig_task" where
  "consume_ignorable_pending_signal table t =
     (case check_if_any_sig t of
        None \<Rightarrow> (False, t)
      | Some signo \<Rightarrow>
          let k = table ! signo;
              ignorable = (is_ignored k \<or> \<not> is_handler k \<and> default_op (signal_of signo) = Ignore) in
          if \<not> ignorable then (False, t)
          else if \<not> flags_contain (sig_pending t) (signal_of signo) then (False, t)
          else (True, take_signal signo t))"

text \<open>How a thread leaves the kernel, or that it does not\<close>

datatype sig_outcome = ToUser | Stops | ThreadExits nat | GroupExits nat | KernelPanics

definition stop_current :: "nat \<Rightarrow> nat \<Rightarrow> nat \<Rightarrow> sig_world \<Rightarrow> sig_world" where
  "stop_current current pid signo w =
     (case s_procs w pid of
        None \<Rightarrow> w
      | Some p \<Rightarrow>
          let w1 = set_process pid (p\<lparr>stopped_signal := Some signo\<rparr>) w;
              w2 = (case s_procs w1 (parent_pid p) of
                      None \<Rightarrow> w1
                    | Some parent \<Rightarrow>
                        let w' = w1\<lparr>s_events := s_events w1 @ [parent_pid p]\<rparr> in
                        if flags_contain (sa_flags (act (sig_table parent ! SIGCHLD))) SA_NOCLDSTOP then w'
                        else snd (send_signal_to_thread_group (parent_pid p) (sig_flag SIGCHLD) w')) in
          (case s_tasks w2 current of None \<Rightarrow> w2 | Some t \<Rightarrow> set_sig_task current (t\<lparr>t_status := TStopped\<rparr>) w2))"

definition default_outcome :: "nat \<Rightarrow> nat \<Rightarrow> bool \<Rightarrow> sig_process \<Rightarrow> nat \<Rightarrow> sig_world \<Rightarrow> sig_outcome \<times> sig_world" where
  "default_outcome current pid exec_teardown p signo w =
     (case default_op (signal_of signo) of
        Ignore \<Rightarrow> (ToUser, w)
      | Stop \<Rightarrow> (Stops, stop_current current pid signo w)
      | Continue \<Rightarrow> (ToUser, set_process pid (p\<lparr>stopped_signal := None\<rparr>) w)
      | op \<Rightarrow>
          if exec_teardown then (ThreadExits (signo + 128), w)
          else (GroupExits (signo + 128),
                if group_exit_code p = None \<and> termination_signal p = None
                then set_process pid (p\<lparr>termination_signal := Some (signo, op = CoreDump)\<rparr>) w else w))"

definition handle_signal :: "frame_env \<Rightarrow> nat \<Rightarrow> nat \<Rightarrow> sig_world \<Rightarrow> user_mem \<Rightarrow> sig_outcome \<times> sig_world \<times> user_mem" where
  "handle_signal env current signo w m =
     (case s_tasks w current of
        None \<Rightarrow> (KernelPanics, w, m)
      | Some t \<Rightarrow>
          (case s_procs w (t_pid t) of
             None \<Rightarrow> (KernelPanics, w, m)
           | Some p \<Rightarrow>
               let k = sig_table p ! signo;
                   exec_teardown = (signo = SIGKILL \<and> exec_teardown_kill t);
                   t1 = (take_signal signo t)\<lparr>exec_teardown_kill := exec_teardown_kill t \<and> \<not> exec_teardown\<rparr>;
                   w1 = set_sig_task current t1 w in
               if is_handler k then
                 (case setup_frame env signo k (sig_pending_info t ! signo) t1 (sig_table p) m of
                    None \<Rightarrow> (KernelPanics, w1, m)
                  | Some (Some code, t2, table, m1) \<Rightarrow>
                      (ThreadExits code, set_process (t_pid t) (p\<lparr>sig_table := table\<rparr>) (set_sig_task current t2 w1), m1)
                  | Some (None, t2, table, m1) \<Rightarrow>
                      (ToUser, set_process (t_pid t) (p\<lparr>sig_table := table\<rparr>) (set_sig_task current (t2\<lparr>sig_eintr := True\<rparr>) w1), m1))
               else if is_ignored k then (ToUser, w1, m)
               else let (out, w2) = default_outcome current (t_pid t) exec_teardown p signo w1 in (out, w2, m)))"

section \<open>Going back to user code\<close>

text \<open>A broken restartable-sequence area is forgotten, and the thread gets \<^verbatim>\<open>SIGSEGV\<close>.\<close>

definition prepare_rseq_user_return :: "nat \<Rightarrow> bool \<Rightarrow> nat \<Rightarrow> sig_world \<Rightarrow> user_mem \<Rightarrow> bool \<times> sig_world \<times> user_mem" where
  "prepare_rseq_user_return hart force current w m =
     (case s_tasks w current of
        None \<Rightarrow> (False, w, m)
      | Some t \<Rightarrow>
          (case rseq_prepare_user_return hart force (t_rseq t) (rseq_pending t) (unat (sepc (trap_cx t))) m of
             (Inr u, pending, pc, m1) \<Rightarrow>
               (True, set_sig_task current (t\<lparr>rseq_pending := pending, trap_cx := (trap_cx t)\<lparr>sepc := of_nat pc\<rparr>\<rparr>) w, m1)
           | (Inl e, pending, pc, m1) \<Rightarrow>
               (False, send_signal_to_thread current (sig_flag SIGSEGV)
                  (set_sig_task current (t\<lparr>t_rseq := RseqState_default, rseq_pending := False\<rparr>) w), m1)))"

text \<open>With no frame to carry it, the mask from before \<^verbatim>\<open>rt_sigsuspend\<close> is put back here.\<close>

definition restore_suspend_mask :: "sig_task \<Rightarrow> sig_task" where
  "restore_suspend_mask t =
     (case sigsuspend_restore_mask t of
        Some old \<Rightarrow> t\<lparr>sigsuspend_restore_mask := None, sig_mask := old\<rparr>
      | None \<Rightarrow> t)"

text \<open>One round of the loop of \<^verbatim>\<open>trap_return\<close>: how it ends, or \<open>None\<close> when another round follows\<close>

definition trap_return_round :: "frame_env \<Rightarrow> nat \<Rightarrow> nat \<Rightarrow> sig_world \<Rightarrow> user_mem \<Rightarrow> sig_outcome option \<times> sig_world \<times> user_mem" where
  "trap_return_round env hart current w m =
     (case s_tasks w current of
        None \<Rightarrow> (Some KernelPanics, w, m)
      | Some t \<Rightarrow>
          (case check_if_any_sig t of
             Some signo \<Rightarrow>
               (case prepare_rseq_user_return hart True current w m of
                  (rseq_ok, w1, m1) \<Rightarrow>
                    (let has_handler = (case s_procs w1 (t_pid t) of None \<Rightarrow> False | Some p \<Rightarrow> is_handler (sig_table p ! signo)) in
                     case handle_signal env current signo w1 m1 of
                       (out, w2, m2) \<Rightarrow>
                         (if out \<noteq> ToUser \<and> out \<noteq> Stops \<or> has_handler \<and> rseq_ok then Some out else None, w2, m2)))
           | None \<Rightarrow>
               (case prepare_rseq_user_return hart False current w m of
                  (rseq_ok, w1, m1) \<Rightarrow>
                    if rseq_ok then
                      (Some ToUser, case s_tasks w1 current of None \<Rightarrow> w1
                                    | Some t1 \<Rightarrow> set_sig_task current (restore_suspend_mask t1) w1, m1)
                    else (None, w1, m1))))"

text \<open>
  The loop, with fuel.  Before each round other tasks change the world (\<open>others\<close>): signals arrive, and
  a stopped thread is continued, after which it takes the next round.  The answer is \<^const>\<open>Stops\<close> when the
  thread is still stopped then, and \<^const>\<open>None\<close> when the fuel runs out.
\<close>

primrec trap_return_loop :: "nat \<Rightarrow> frame_env \<Rightarrow> nat \<Rightarrow> nat \<Rightarrow> (nat \<Rightarrow> sig_world \<times> user_mem \<Rightarrow> sig_world \<times> user_mem) \<Rightarrow>
    sig_world \<Rightarrow> user_mem \<Rightarrow> (sig_outcome \<times> sig_world \<times> user_mem) option" where
  "trap_return_loop 0 env hart current others w m = None"
| "trap_return_loop (Suc fuel) env hart current others w m =
     (case others fuel (w, m) of
        (w0, m0) \<Rightarrow>
          if map_option t_status (s_tasks w0 current) = Some TStopped then Some (Stops, w0, m0)
          else (case trap_return_round env hart current w0 m0 of
                  (Some out, w1, m1) \<Rightarrow> Some (out, w1, m1)
                | (None, w1, m1) \<Rightarrow> trap_return_loop fuel env hart current others w1 m1))"

text \<open>
  Without arrivals 36 rounds are enough: at most 33 signals are pending, the area of a restartable
  sequence breaks at most once, and one more round ends the loop.  \<open>n\<close> rounds before these may see
  arrivals.
\<close>

definition trap_return :: "nat \<Rightarrow> frame_env \<Rightarrow> nat \<Rightarrow> nat \<Rightarrow> (nat \<Rightarrow> sig_world \<times> user_mem \<Rightarrow> sig_world \<times> user_mem) \<Rightarrow>
    sig_world \<Rightarrow> user_mem \<Rightarrow> (sig_outcome \<times> sig_world \<times> user_mem) option" where
  "trap_return n env hart current others w m = trap_return_loop (n + 36) env hart current others w m"

section \<open>The number of pending signals\<close>

definition pending_count :: "SigSet \<Rightarrow> nat" where
  "pending_count s = card {i. i < 64 \<and> bit s i}"

lemma signal_of_flag [simp]: "1 \<le> n \<Longrightarrow> n \<le> 33 \<Longrightarrow> signal_of n = sig_flag n"
  by (simp add: signal_of_def from_sig_flag)

lemma bit_flags_remove [simp]: "bit (flags_remove k s) i \<longleftrightarrow> bit s i \<and> \<not> bit k i" for s :: SigSet
proof -
  have "bit s i \<Longrightarrow> i < 64" using bit_imp_le_length [of s i] by simp
  then show ?thesis by (auto simp: flags_remove_def bit_simps)
qed

lemma pending_count_remove:
  assumes "1 \<le> n" "n \<le> 64" "bit s (n - 1)"
  shows "pending_count (flags_remove (sig_flag n) s) < pending_count s"
proof -
  let ?A = "{i. i < 64 \<and> bit (flags_remove (sig_flag n) s) i}" and ?B = "{i. i < 64 \<and> bit s i}"
  have "?A \<subseteq> ?B" by auto
  moreover have "n - 1 \<in> ?B" "n - 1 \<notin> ?A" using assms by (simp_all add: bit_sig_flag)
  ultimately have "?A \<subset> ?B" by blast
  then show ?thesis unfolding pending_count_def by (intro psubset_card_mono) simp_all
qed

lemma pending_count_or: "1 \<le> n \<Longrightarrow> n \<le> 64 \<Longrightarrow> pending_count (s OR sig_flag n) \<le> Suc (pending_count s)"
proof -
  assume n: "1 \<le> n" "n \<le> 64"
  have "{i. i < 64 \<and> bit (s OR sig_flag n) i} \<subseteq> insert (n - 1) {i. i < 64 \<and> bit s i}"
    using n by (auto simp: bit_or_iff bit_sig_flag)
  from card_mono [OF _ this] show ?thesis unfolding pending_count_def by (simp add: card_insert_if split: if_splits)
qed

lemma pending_count_bound: "flags_within SigSet_all s \<Longrightarrow> pending_count s \<le> 33"
proof -
  assume "flags_within SigSet_all s"
  then have "{i. i < 64 \<and> bit s i} \<subseteq> {..<33}" by (auto simp: flags_within_bit)
  from card_mono [OF _ this] show ?thesis by (simp add: pending_count_def)
qed

lemma check_if_any_sigD:
  assumes "check_if_any_sig t = Some signo" "flags_within SigSet_all (sig_pending t)"
  shows "1 \<le> signo" "signo \<le> 33" "bit (sig_pending t) (signo - 1)" "\<not> bit (sig_mask t) (signo - 1)"
  using assms by (auto simp: check_if_any_sig_def peek_front_Some flags_within_bit)

section \<open>One round\<close>

text \<open>
  The running thread is in the tables, only declared signals are pending, and its registers are
  complete.  Its handlers are those of a table from before: they are only ever reset.
\<close>

definition runs :: "SigTable \<Rightarrow> nat \<Rightarrow> sig_task \<Rightarrow> sig_world \<Rightarrow> bool" where
  "runs table current t w \<longleftrightarrow> s_tasks w current = Some t \<and> flags_within SigSet_all (sig_pending t) \<and> cx_ok (trap_cx t) \<and>
     (\<exists>p. s_procs w (t_pid t) = Some p \<and> (\<forall>n. is_handler (sig_table p ! n) \<longrightarrow> sig_table p ! n = table ! n))"

text \<open>The thread starts a handler of the table: the program counter, and the signal as its argument.\<close>

definition enters :: "SigTable \<Rightarrow> sig_task \<Rightarrow> bool" where
  "enters table t \<longleftrightarrow> (\<exists>signo \<in> {1..33}. is_handler (table ! signo) \<and> sig_eintr t \<and>
     sepc (trap_cx t) = of_nat (sa_handler (act (table ! signo))) \<and> get_a0 (trap_cx t) = of_nat signo)"

lemma flags_within_or [intro]: "flags_within m a \<Longrightarrow> flags_within m b \<Longrightarrow> flags_within m (a OR b)"
  by (auto simp: flags_within_bit bit_simps)

lemma flags_within_sig_flag [simp]: "1 \<le> n \<Longrightarrow> n \<le> 33 \<Longrightarrow> flags_within SigSet_all (sig_flag n)"
  by (simp add: flags_within_bit bit_sig_flag)

lemma sepc_update_ok [simp]: "cx_ok (cx\<lparr>sepc := x\<rparr>) = cx_ok cx"
  by (simp add: cx_ok_def)

lemma enter_handler_ok:
  assumes "cx_ok cx"
  shows "cx_ok (enter_handler env signo a sp cx)" "sepc (enter_handler env signo a sp cx) = of_nat (sa_handler a)"
    "get_a0 (enter_handler env signo a sp cx) = of_nat signo"
  using assms by (simp_all add: cx_ok_def enter_handler_def set_reg_def get_a0_def Let_def)

lemma post_signal_fields [simp]:
  "sig_pending (post_signal sig info teardown t) = sig_pending t OR sig" "t_pid (post_signal sig info teardown t) = t_pid t"
  "sig_mask (post_signal sig info teardown t) = sig_mask t" "t_rseq (post_signal sig info teardown t) = t_rseq t"
  "sigsuspend_restore_mask (post_signal sig info teardown t) = sigsuspend_restore_mask t"
  "trap_cx (post_signal sig info teardown t) = trap_cx t"
  by (simp_all add: post_signal_def Let_def split: option.split)

lemma wake_for_signal_fields:
  assumes "wake_for_signal sig wait t = (resumed, r, t')"
  shows "sig_pending t' = sig_pending t" "t_pid t' = t_pid t" "sig_mask t' = sig_mask t" "t_rseq t' = t_rseq t"
    "sigsuspend_restore_mask t' = sigsuspend_restore_mask t" "trap_cx t' = trap_cx t"
  using assms by (auto simp: wake_for_signal_def wake_interruptible_def Let_def split: if_splits)

lemma note_sigkill_table [simp]: "sig_table (note_sigkill sig info p) = sig_table p"
  by (simp add: note_sigkill_def)

lemma prepare_round:
  assumes r: "runs table current t w" and p: "prepare_rseq_user_return hart force current w m = (ok, w', m')"
  shows "\<exists>t'. runs table current t' w' \<and> sig_mask t' = sig_mask t \<and> t_pid t' = t_pid t \<and>
    sigsuspend_restore_mask t' = sigsuspend_restore_mask t \<and>
    (if ok then sig_pending t' = sig_pending t \<and> t_rseq t' = t_rseq t
     else sig_pending t' = sig_pending t OR sig_flag SIGSEGV \<and> is_registered (t_rseq t) \<and> \<not> is_registered (t_rseq t'))"
proof -
  obtain pr where t: "s_tasks w current = Some t" "s_procs w (t_pid t) = Some pr" using r by (auto simp: runs_def)
  obtain x pending pc m1 where x: "rseq_prepare_user_return hart force (t_rseq t) (rseq_pending t) (unat (sepc (trap_cx t))) m = (x, pending, pc, m1)"
    by (metis prod_cases4)
  show ?thesis
  proof (cases x)
    case (Inr u)
    let ?t = "t\<lparr>rseq_pending := pending, trap_cx := (trap_cx t)\<lparr>sepc := of_nat pc\<rparr>\<rparr>"
    have e: "ok" "w' = set_sig_task current ?t w" using p by (simp_all add: prepare_rseq_user_return_def t(1) x Inr)
    then have "runs table current ?t w'" using r by (simp add: runs_def set_sig_task_def)
    then show ?thesis using e(1) by (intro exI [of _ ?t]) simp
  next
    case (Inl err)
    let ?t = "t\<lparr>t_rseq := RseqState_default, rseq_pending := False\<rparr>"
    obtain resumed rd t' where k: "wake_for_signal (sig_flag SIGSEGV) (interrupts_wait (sig_table pr) (sig_flag SIGSEGV))
        (post_signal (sig_flag SIGSEGV) None False ?t) = (resumed, rd, t')" by (metis prod_cases3)
    have e: "\<not> ok" "w' = (set_sig_task current t' (set_process (t_pid t) (note_sigkill (sig_flag SIGSEGV) None pr)
        (set_sig_task current ?t w)))\<lparr>s_ready := s_ready w @ (if rd then [current] else [])\<rparr>"
      using p t k by (simp_all add: prepare_rseq_user_return_def x Inl send_signal_to_thread_def add_signal_with_info_def
          set_sig_task_def set_process_def)
    have reg: "is_registered (t_rseq t)" using x Inl by (auto simp: rseq_prepare_user_return_def split: if_splits)
    note f = wake_for_signal_fields [OF k]
    have "runs table current t' w'"
      using r t f e(2) by (simp add: runs_def set_sig_task_def set_process_def flags_within_or SIGSEGV_def)
    then show ?thesis using e(1) f reg by (intro exI [of _ t']) (simp add: is_registered_def RseqState_default_def)
  qed
qed

lemma take_signal_fields [simp]:
  "sig_pending (take_signal signo t) = flags_remove (signal_of signo) (sig_pending t)" "trap_cx (take_signal signo t) = trap_cx t"
  "sig_mask (take_signal signo t) = sig_mask t" "t_pid (take_signal signo t) = t_pid t" "t_rseq (take_signal signo t) = t_rseq t"
  "sigsuspend_restore_mask (take_signal signo t) = sigsuspend_restore_mask t"
  by (simp_all add: take_signal_def)

lemma setup_frame_table:
  "setup_frame env signo k info t table m = Some (x, t1, table1, m1) \<Longrightarrow>
    table1 = (if flags_contain (sa_flags (act k)) SA_RESETHAND then set_action signo default_action table else table)"
  unfolding setup_frame_def Let_def by (simp split: option.splits prod.splits if_splits)

lemma reset_keeps_handlers:
  assumes "\<forall>n. is_handler (table ! n) \<longrightarrow> table ! n = table0 ! n"
  shows "\<forall>n. is_handler (set_action signo default_action table ! n) \<longrightarrow> set_action signo default_action table ! n = table0 ! n"
proof (intro allI impI)
  fix n assume h: "is_handler (set_action signo default_action table ! n)"
  show "set_action signo default_action table ! n = table0 ! n"
  proof (cases "n = signo \<and> signo < length table")
    case True
    then have False using h by (simp add: set_action_def is_handler_def default_action_def)
    then show ?thesis ..
  next
    case False
    then have "set_action signo default_action table ! n = table ! n" by (cases "signo < length table") (auto simp: set_action_def nth_list_update list_update_beyond)
    then show ?thesis using h assms by simp
  qed
qed

lemma handle_round:
  assumes r: "runs table current t w" and s: "1 \<le> signo" "signo \<le> 33" "bit (sig_pending t) (signo - 1)"
    and h: "handle_signal env current signo w m = (ToUser, w', m')"
  shows "\<exists>t'. runs table current t' w' \<and> sig_pending t' = flags_remove (sig_flag signo) (sig_pending t) \<and> t_rseq t' = t_rseq t \<and>
    (if \<exists>p. s_procs w (t_pid t) = Some p \<and> is_handler (sig_table p ! signo)
     then enters table t' \<and> sigsuspend_restore_mask t' = None
     else sig_mask t' = sig_mask t \<and> sigsuspend_restore_mask t' = sigsuspend_restore_mask t)"
proof -
  obtain p where t: "s_tasks w current = Some t" "s_procs w (t_pid t) = Some p"
      "\<forall>n. is_handler (sig_table p ! n) \<longrightarrow> sig_table p ! n = table ! n" "cx_ok (trap_cx t)"
    using r by (auto simp: runs_def)
  let ?k = "sig_table p ! signo" and ?info = "sig_pending_info t ! signo"
  let ?teardown = "signo = SIGKILL \<and> exec_teardown_kill t"
  let ?t1 = "(take_signal signo t)\<lparr>exec_teardown_kill := exec_teardown_kill t \<and> \<not> ?teardown\<rparr>"
  let ?w1 = "set_sig_task current ?t1 w"
  have sig: "signal_of signo = sig_flag signo" using s by simp
  have within: "flags_within SigSet_all (flags_remove (sig_flag signo) (sig_pending t))" using r by (auto simp: runs_def)
  show ?thesis
  proof (cases "is_handler ?k")
    case True
    then obtain t2 table1 where f: "setup_frame env signo ?k ?info ?t1 (sig_table p) m = Some (None, t2, table1, m')"
        "w' = set_process (t_pid t) (p\<lparr>sig_table := table1\<rparr>) (set_sig_task current (t2\<lparr>sig_eintr := True\<rparr>) ?w1)"
      using h by (auto simp: handle_signal_def t(1,2) Let_def split: option.splits)
    have "cx_ok (trap_cx ?t1)" using t(4) by simp
    from setup_frame_ok [OF f(1) this] obtain sp where t2:
      "t2 = ?t1\<lparr>sigsuspend_restore_mask := None, trap_cx := enter_handler env signo (act ?k) sp (restart_syscall (act ?k) (trap_cx t)),
         sig_mask := sig_mask t OR handler_mask signo (act ?k),
         alt_signal_stack := if is_autodisarm (alt_signal_stack ?t1) then stack_disabled else alt_signal_stack ?t1\<rparr>"
      by auto
    have tab: "\<forall>n. is_handler (table1 ! n) \<longrightarrow> table1 ! n = table ! n"
      using setup_frame_table [OF f(1)] t(3) reset_keeps_handlers [OF t(3)] by auto
    note e = enter_handler_ok [OF restart_cx_ok [OF t(4)], of env signo "act ?k" sp "act ?k"]
    let ?t = "t2\<lparr>sig_eintr := True\<rparr>"
    have "runs table current ?t w'"
      using within tab e(1) sig by (simp add: runs_def f(2) t2 set_process_def set_sig_task_def)
    moreover have "enters table ?t"
      unfolding enters_def using s True t(3) e(2,3) by (intro bexI [of _ signo]) (simp_all add: t2)
    ultimately show ?thesis using True t(2) sig by (intro exI [of _ ?t]) (simp add: t2)
  next
    case False
    have "s_tasks w' current = Some ?t1 \<and> (\<exists>p'. s_procs w' (t_pid t) = Some p' \<and> sig_table p' = sig_table p)"
      using h False by (auto simp: handle_signal_def t(1,2) Let_def default_outcome_def set_process_def set_sig_task_def
          split: if_splits SigOp.splits)
    then have "runs table current ?t1 w'" using within t(3,4) sig by (auto simp: runs_def)
    then show ?thesis using False t(2) sig by (intro exI [of _ ?t1]) simp
  qed
qed

section \<open>The whole loop\<close>

text \<open>
  The state in which the thread goes back: it starts a handler, or no signal can be delivered under
  the mask it runs with, or none could under the mask of the \<^verbatim>\<open>rt_sigsuspend\<close> whose mask was put back.
\<close>

definition settled :: "SigTable \<Rightarrow> sig_task \<Rightarrow> sig_task \<Rightarrow> bool" where
  "settled table t t' \<longleftrightarrow> sigsuspend_restore_mask t' = None \<and>
     (enters table t' \<or> check_if_any_sig t' = None \<or>
      (\<exists>old. sigsuspend_restore_mask t = Some old \<and> sig_mask t' = old \<and> flags_remove (sig_mask t) (sig_pending t') = 0))"

lemma settled_after:
  assumes "settled table t1 t'"
    and "sigsuspend_restore_mask t1 = None \<or> sigsuspend_restore_mask t1 = sigsuspend_restore_mask t \<and> sig_mask t1 = sig_mask t"
  shows "settled table t t'"
  using assms by (auto simp: settled_def)

lemma restore_settled:
  assumes "check_if_any_sig t = None"
  shows "settled table t (restore_suspend_mask t)"
  using assms by (cases "sigsuspend_restore_mask t")
    (auto simp: settled_def restore_suspend_mask_def check_if_any_sig_def)

text \<open>A stop keeps the thread in the tables; the signal to the parent may reach the thread itself.\<close>

definition same_frame :: "sig_task \<Rightarrow> sig_task \<Rightarrow> bool" where
  "same_frame t t' \<longleftrightarrow> sig_mask t' = sig_mask t \<and> t_pid t' = t_pid t \<and> sigsuspend_restore_mask t' = sigsuspend_restore_mask t"

lemma same_frame_refl [simp]: "same_frame t t"
  by (simp add: same_frame_def)

lemma same_frame_trans: "same_frame t1 t2 \<Longrightarrow> same_frame t2 t3 \<Longrightarrow> same_frame t1 t3"
  by (simp add: same_frame_def)

lemma runs_add_signal:
  assumes r: "runs table current t w" and sig: "flags_within SigSet_all sig"
  shows "\<exists>t'. runs table current t' (snd (add_signal_with_info sig info e tid w)) \<and> same_frame t t'"
proof (cases "\<exists>u q. s_tasks w tid = Some u \<and> s_procs w (t_pid u) = Some q")
  case False
  then have "snd (add_signal_with_info sig info e tid w) = w" by (auto simp: add_signal_with_info_def split: option.split)
  then show ?thesis using r by (intro exI [of _ t]) simp
next
  case True
  then obtain u q where u: "s_tasks w tid = Some u" "s_procs w (t_pid u) = Some q" by blast
  obtain resumed rd u' where k: "wake_for_signal sig (interrupts_wait (sig_table q) sig) (post_signal sig info e u) = (resumed, rd, u')"
    by (metis prod_cases3)
  note f = wake_for_signal_fields [OF k]
  have w': "s_tasks (snd (add_signal_with_info sig info e tid w)) = (s_tasks w)(tid \<mapsto> u')"
      "s_procs (snd (add_signal_with_info sig info e tid w)) = (s_procs w)(t_pid u \<mapsto> note_sigkill sig info q)"
    by (simp_all add: add_signal_with_info_def u k set_sig_task_def set_process_def)
  let ?t = "if tid = current then u' else t"
  have "flags_within SigSet_all (sig_pending ?t)" "cx_ok (trap_cx ?t)" "same_frame t ?t"
    using r u(1) f sig by (auto simp: runs_def same_frame_def)
  moreover have "\<exists>p. s_procs (snd (add_signal_with_info sig info e tid w)) (t_pid t) = Some p \<and>
      (\<forall>n. is_handler (sig_table p ! n) \<longrightarrow> sig_table p ! n = table ! n)"
    using r u(2) by (auto simp: runs_def w'(2))
  ultimately have "runs table current ?t (snd (add_signal_with_info sig info e tid w))"
    using r by (auto simp: runs_def w'(1) same_frame_def)
  then show ?thesis using \<open>same_frame t ?t\<close> by blast
qed

lemma runs_deliver_fold:
  assumes "flags_within SigSet_all sig"
  shows "runs table current t w \<Longrightarrow> \<exists>t'. runs table current t' (snd (fold (deliver_step sig info) tids (n, w))) \<and> same_frame t t'"
proof (induction tids arbitrary: t w n)
  case (Cons tid tids)
  obtain r w1 where a: "add_signal_with_info sig info False tid w = (r, w1)" by (cases "add_signal_with_info sig info False tid w")
  from runs_add_signal [OF Cons.prems assms, of info False tid] a obtain t1 where t1: "runs table current t1 w1" "same_frame t t1" by auto
  from Cons.IH [OF t1(1), of "if r then n + 1 else n"] t1(2) show ?case by (auto simp: deliver_step_def a intro: same_frame_trans)
qed (auto intro: exI [of _ t])

lemma runs_send_group:
  assumes sig: "flags_within SigSet_all sig" and r: "runs table current t w"
  shows "\<exists>t'. runs table current t' (snd (send_signal_to_thread_group pid sig w)) \<and> same_frame t t'"
proof (cases "sig = 0 \<or> s_procs w pid = None")
  case True
  then have "snd (send_signal_to_thread_group pid sig w) = w"
    by (auto simp: send_signal_to_thread_group_def deliver_signal_to_thread_group_def split_beta split: option.split)
  then show ?thesis using r by (intro exI [of _ t]) simp
next
  case False
  then obtain p where p: "s_procs w pid = Some p" "sig \<noteq> 0" by auto
  obtain n w1 where f: "fold (deliver_step sig None) (p_tasks p) (0, w) = (n, w1)" by (cases "fold (deliver_step sig None) (p_tasks p) (0, w)")
  from runs_deliver_fold [OF sig r, of None "p_tasks p" 0] f obtain t1 where t1: "runs table current t1 w1" "same_frame t t1" by auto
  have "\<exists>w2. snd (send_signal_to_thread_group pid sig w) = w2 \<and> s_tasks w2 = s_tasks w1 \<and>
      (\<forall>q. map_option sig_table (s_procs w2 q) = map_option sig_table (s_procs w1 q))"
    using p f by (auto simp: send_signal_to_thread_group_def deliver_signal_to_thread_group_def Let_def set_process_def split: option.split)
  then obtain w2 where w2: "snd (send_signal_to_thread_group pid sig w) = w2" "s_tasks w2 = s_tasks w1"
      "map_option sig_table (s_procs w2 (t_pid t1)) = map_option sig_table (s_procs w1 (t_pid t1))" by blast
  then have "runs table current t1 w2" using t1(1) by (auto simp: runs_def)
  then show ?thesis using w2(1) t1(2) by blast
qed

lemma runs_stop_current:
  assumes r: "runs table current t w"
  shows "\<exists>t'. runs table current t' (stop_current current (t_pid t) signo w) \<and> same_frame t t' \<and> t_status t' = TStopped"
proof -
  obtain p where p: "s_procs w (t_pid t) = Some p" "\<forall>n. is_handler (sig_table p ! n) \<longrightarrow> sig_table p ! n = table ! n"
    using r by (auto simp: runs_def)
  define w1 where "w1 = set_process (t_pid t) (p\<lparr>stopped_signal := Some signo\<rparr>) w"
  define w2 where "w2 = (case s_procs w1 (parent_pid p) of
                      None \<Rightarrow> w1
                    | Some parent \<Rightarrow>
                        let w' = w1\<lparr>s_events := s_events w1 @ [parent_pid p]\<rparr> in
                        if flags_contain (sa_flags (act (sig_table parent ! SIGCHLD))) SA_NOCLDSTOP then w'
                        else snd (send_signal_to_thread_group (parent_pid p) (sig_flag SIGCHLD) w'))"
  have r1: "runs table current t w1" using r p by (simp add: runs_def w1_def set_process_def)
  have r1': "runs table current t (w1\<lparr>s_events := ev\<rparr>)" for ev using r1 by (simp add: runs_def)
  have chld: "flags_within SigSet_all (sig_flag SIGCHLD)" by (simp add: SIGCHLD_def)
  have "\<exists>t2. runs table current t2 w1 \<and> same_frame t t2" "\<exists>t2. runs table current t2 (w1\<lparr>s_events := ev\<rparr>) \<and> same_frame t t2" for ev
    using r1 r1' same_frame_refl by blast+
  then have "\<exists>t2. runs table current t2 w2 \<and> same_frame t t2"
    using runs_send_group [OF chld r1'] by (simp add: w2_def Let_def split: option.split)
  then obtain t2 where t2: "runs table current t2 w2" "same_frame t t2" by blast
  have st: "stop_current current (t_pid t) signo w = set_sig_task current (t2\<lparr>t_status := TStopped\<rparr>) w2"
    using p(1) t2(1) by (simp add: stop_current_def w1_def [symmetric] w2_def [symmetric] runs_def)
  have "runs table current (t2\<lparr>t_status := TStopped\<rparr>) (set_sig_task current (t2\<lparr>t_status := TStopped\<rparr>) w2)"
    using t2(1) by (simp add: runs_def set_sig_task_def)
  then show ?thesis using t2(2) st by (intro exI [of _ "t2\<lparr>t_status := TStopped\<rparr>"]) (simp add: same_frame_def)
qed

lemma handle_stop:
  assumes r: "runs table current t w" and s: "1 \<le> signo" "signo \<le> 33" and h: "handle_signal env current signo w m = (Stops, w', m')"
  shows "\<exists>t'. runs table current t' w' \<and> same_frame t t' \<and> t_status t' = TStopped"
    and "\<not> (\<exists>p. s_procs w (t_pid t) = Some p \<and> is_handler (sig_table p ! signo))"
proof -
  obtain p where t: "s_tasks w current = Some t" "s_procs w (t_pid t) = Some p" using r by (auto simp: runs_def)
  let ?teardown = "signo = SIGKILL \<and> exec_teardown_kill t"
  let ?t1 = "(take_signal signo t)\<lparr>exec_teardown_kill := exec_teardown_kill t \<and> \<not> ?teardown\<rparr>"
  let ?w1 = "set_sig_task current ?t1 w"
  have n: "\<not> is_handler (sig_table p ! signo)" and w': "w' = stop_current current (t_pid t) signo ?w1"
    using h by (auto simp: handle_signal_def t Let_def default_outcome_def split: if_splits option.splits SigOp.splits)
  have "signal_of signo = sig_flag signo" using s by simp
  then have "runs table current ?t1 ?w1" using r by (auto simp: runs_def set_sig_task_def)
  from runs_stop_current [OF this, of signo] show "\<exists>t'. runs table current t' w' \<and> same_frame t t' \<and> t_status t' = TStopped"
    unfolding w' by (simp add: same_frame_def)
  show "\<not> (\<exists>p. s_procs w (t_pid t) = Some p \<and> is_handler (sig_table p ! signo))" using n t(2) by simp
qed

text \<open>What a round leaves to do\<close>

definition work :: "sig_task \<Rightarrow> nat" where
  "work t = pending_count (sig_pending t) + (if is_registered (t_rseq t) then 2 else 0)"

text \<open>The suspended mask is still owed as before, or was handed to a frame.\<close>

definition carries :: "sig_task \<Rightarrow> sig_task \<Rightarrow> bool" where
  "carries t t' \<longleftrightarrow> sigsuspend_restore_mask t' = None \<or>
     sigsuspend_restore_mask t' = sigsuspend_restore_mask t \<and> sig_mask t' = sig_mask t"

lemma settled_carries: "settled table t1 t' \<Longrightarrow> carries t t1 \<Longrightarrow> settled table t t'"
  unfolding carries_def by (rule settled_after)

lemma carries_refl [simp]: "carries t t"
  by (simp add: carries_def)

lemma same_frame_carries: "same_frame t t' \<Longrightarrow> carries t t'"
  by (simp add: same_frame_def carries_def)

lemma round_no_signal:
  assumes r: "runs table current t w" and none: "check_if_any_sig t = None"
    and rd: "trap_return_round env hart current w m = (res, w', m')"
  shows "case res of Some out \<Rightarrow> \<exists>t'. s_tasks w' current = Some t' \<and> settled table t t'
    | None \<Rightarrow> \<exists>t'. runs table current t' w' \<and> carries t t' \<and> work t' < work t"
proof -
  have t: "s_tasks w current = Some t" using r by (simp add: runs_def)
  obtain ok w1 m1 where p: "prepare_rseq_user_return hart False current w m = (ok, w1, m1)" by (metis prod_cases3)
  from prepare_round [OF r p] obtain t1 where t1: "runs table current t1 w1" "sig_mask t1 = sig_mask t"
      "sigsuspend_restore_mask t1 = sigsuspend_restore_mask t"
      "if ok then sig_pending t1 = sig_pending t \<and> t_rseq t1 = t_rseq t
       else sig_pending t1 = sig_pending t OR sig_flag SIGSEGV \<and> is_registered (t_rseq t) \<and> \<not> is_registered (t_rseq t1)"
    by blast
  have c: "carries t t1" using t1(2,3) by (simp add: carries_def)
  show ?thesis
  proof (cases ok)
    case True
    have "check_if_any_sig t1 = None" using none t1 True by (simp add: check_if_any_sig_def)
    from settled_carries [OF restore_settled [OF this] c] have "settled table t (restore_suspend_mask t1)" .
    moreover have "s_tasks w1 current = Some t1" using t1(1) by (simp add: runs_def)
    ultimately show ?thesis using rd by (auto simp: trap_return_round_def t none p True set_sig_task_def)
  next
    case False
    then have "work t1 < work t" using t1(4) pending_count_or [of SIGSEGV "sig_pending t"] by (simp add: work_def SIGSEGV_def)
    then show ?thesis using rd False t1(1) c by (auto simp: trap_return_round_def t none p)
  qed
qed

lemma round_signal:
  assumes r: "runs table current t w" and some: "check_if_any_sig t = Some signo"
    and rd: "trap_return_round env hart current w m = (res, w', m')"
  shows "case res of Some out \<Rightarrow> out = ToUser \<longrightarrow> (\<exists>t'. s_tasks w' current = Some t' \<and> settled table t t')
    | None \<Rightarrow> \<exists>t'. runs table current t' w' \<and> carries t t' \<and> (t_status t' = TStopped \<and> 0 < work t \<or> work t' < work t)"
proof -
  have t: "s_tasks w current = Some t" using r by (simp add: runs_def)
  have s: "1 \<le> signo" "signo \<le> 33" "bit (sig_pending t) (signo - 1)" using check_if_any_sigD [OF some] r [unfolded runs_def] by blast+
  obtain ok w1 m1 where p: "prepare_rseq_user_return hart True current w m = (ok, w1, m1)" by (metis prod_cases3)
  from prepare_round [OF r p] obtain t1 where t1: "runs table current t1 w1" "sig_mask t1 = sig_mask t" "t_pid t1 = t_pid t"
      "sigsuspend_restore_mask t1 = sigsuspend_restore_mask t"
      "if ok then sig_pending t1 = sig_pending t \<and> t_rseq t1 = t_rseq t
       else sig_pending t1 = sig_pending t OR sig_flag SIGSEGV \<and> is_registered (t_rseq t) \<and> \<not> is_registered (t_rseq t1)"
    by blast
  have b: "bit (sig_pending t1) (signo - 1)" using t1(5) s(3) by (auto simp: bit_or_iff split: if_splits)
  obtain out w2 m2 where h: "handle_signal env current signo w1 m1 = (out, w2, m2)" by (metis prod_cases3)
  obtain pr where pr: "s_procs w1 (t_pid t) = Some pr" using t1(1,3) by (auto simp: runs_def)
  let ?h = "is_handler (sig_table pr ! signo)"
  have hd: "(\<exists>q. s_procs w1 (t_pid t1) = Some q \<and> is_handler (sig_table q ! signo)) = ?h" using pr t1(3) by simp
  have res: "res = (if out \<noteq> ToUser \<and> out \<noteq> Stops \<or> ?h \<and> ok then Some out else None)" "w' = w2"
    using rd by (simp_all add: trap_return_round_def t some p h pr)
  consider (stop) "out = Stops" | (user) "out = ToUser" | (final) "out \<noteq> Stops" "out \<noteq> ToUser" by blast
  then show ?thesis
  proof cases
    case stop
    from handle_stop [OF t1(1) s(1,2) h [unfolded stop]] hd obtain t2 where
      t2: "runs table current t2 w2" "same_frame t1 t2" "t_status t2 = TStopped" "\<not> ?h" by blast
    have "carries t t2" using t2(2) t1(2,4) by (simp add: carries_def same_frame_def)
    moreover have "0 < work t" using pending_count_remove [of signo "sig_pending t"] s by (simp add: work_def)
    ultimately show ?thesis using res stop t2 by auto
  next
    case user
    from handle_round [OF t1(1) s(1,2) b h [unfolded user], unfolded hd] obtain t2 where t2: "runs table current t2 w2"
        "sig_pending t2 = flags_remove (sig_flag signo) (sig_pending t1)" "t_rseq t2 = t_rseq t1"
        "if ?h then enters table t2 \<and> sigsuspend_restore_mask t2 = None
         else sig_mask t2 = sig_mask t1 \<and> sigsuspend_restore_mask t2 = sigsuspend_restore_mask t1"
      by blast
    have c: "carries t t2" using t2(4) t1(2,4) by (auto simp: carries_def split: if_splits)
    show ?thesis
    proof (cases "?h \<and> ok")
      case True
      then have "settled table t t2" using t2(4) by (simp add: settled_def)
      moreover have "s_tasks w2 current = Some t2" using t2(1) by (simp add: runs_def)
      ultimately show ?thesis using res True by simp
    next
      case False
      have "pending_count (sig_pending t2) < pending_count (sig_pending t1)"
        using pending_count_remove [of signo "sig_pending t1"] s b t2(2) by simp
      then have "work t2 < work t"
        using t1(5) t2(3) pending_count_or [of SIGSEGV "sig_pending t"] by (auto simp: work_def SIGSEGV_def split: if_splits)
      then show ?thesis using res False user t2(1) c by auto
    qed
  next
    case final
    then show ?thesis using res by simp
  qed
qed

lemma trap_return_round_spec:
  assumes r: "runs table current t w" and rd: "trap_return_round env hart current w m = (res, w', m')"
  shows "case res of Some out \<Rightarrow> out = ToUser \<longrightarrow> (\<exists>t'. s_tasks w' current = Some t' \<and> settled table t t')
    | None \<Rightarrow> \<exists>t'. runs table current t' w' \<and> carries t t' \<and> (t_status t' = TStopped \<and> 0 < work t \<or> work t' < work t)"
proof (cases "check_if_any_sig t")
  case None
  from round_no_signal [OF r this rd] show ?thesis by (auto split: option.splits)
next
  case (Some signo)
  from round_signal [OF r this rd] show ?thesis .
qed

text \<open>
  What others may do to the thread between its rounds: post signals, wake and continue it.  Its mask,
  its registers, its restartable-sequence area and the actions of its process stay.
\<close>

definition only_signals :: "nat \<Rightarrow> sig_world \<Rightarrow> sig_world \<Rightarrow> bool" where
  "only_signals current w w' \<longleftrightarrow>
     (\<forall>t p. s_tasks w current = Some t \<and> s_procs w (t_pid t) = Some p \<longrightarrow>
        (\<exists>t' p'. s_tasks w' current = Some t' \<and> s_procs w' (t_pid t) = Some p' \<and> sig_table p' = sig_table p \<and> same_frame t t' \<and>
           trap_cx t' = trap_cx t \<and> t_rseq t' = t_rseq t \<and>
           (flags_within SigSet_all (sig_pending t) \<longrightarrow> flags_within SigSet_all (sig_pending t'))))"

lemma runs_only_signals:
  assumes "runs table current t w" "only_signals current w w'"
  shows "\<exists>t'. runs table current t' w' \<and> carries t t'"
proof -
  obtain p where p: "s_tasks w current = Some t" "s_procs w (t_pid t) = Some p" using assms(1) by (auto simp: runs_def)
  with assms(2) obtain t' p' where t': "s_tasks w' current = Some t'" "s_procs w' (t_pid t) = Some p'" "sig_table p' = sig_table p"
      "same_frame t t'" "trap_cx t' = trap_cx t" "flags_within SigSet_all (sig_pending t) \<longrightarrow> flags_within SigSet_all (sig_pending t')"
    unfolding only_signals_def by blast
  then have "runs table current t' w'" using assms(1) p by (auto simp: runs_def same_frame_def)
  then show ?thesis using same_frame_carries [OF t'(4)] by blast
qed

lemma add_signal_only:
  assumes "flags_within SigSet_all sig"
  shows "only_signals current w (snd (add_signal_with_info sig info e current w))"
  unfolding only_signals_def
proof (intro allI impI, elim conjE)
  fix t p
  assume t: "s_tasks w current = Some t" "s_procs w (t_pid t) = Some p"
  obtain resumed rd t' where k: "wake_for_signal sig (interrupts_wait (sig_table p) sig) (post_signal sig info e t) = (resumed, rd, t')"
    by (metis prod_cases3)
  have w': "s_tasks (snd (add_signal_with_info sig info e current w)) current = Some t'"
      "s_procs (snd (add_signal_with_info sig info e current w)) (t_pid t) = Some (note_sigkill sig info p)"
    by (simp_all add: add_signal_with_info_def t k set_sig_task_def set_process_def)
  show "\<exists>t' p'. s_tasks (snd (add_signal_with_info sig info e current w)) current = Some t' \<and>
      s_procs (snd (add_signal_with_info sig info e current w)) (t_pid t) = Some p' \<and> sig_table p' = sig_table p \<and> same_frame t t' \<and>
      trap_cx t' = trap_cx t \<and> t_rseq t' = t_rseq t \<and>
      (flags_within SigSet_all (sig_pending t) \<longrightarrow> flags_within SigSet_all (sig_pending t'))"
    using wake_for_signal_fields [OF k] assms unfolding w' by (auto simp: same_frame_def)
qed

definition ends_settled :: "SigTable \<Rightarrow> nat \<Rightarrow> sig_task \<Rightarrow> (sig_outcome \<times> sig_world \<times> user_mem) option \<Rightarrow> bool" where
  "ends_settled table current t res \<longleftrightarrow>
     (\<exists>out w' m'. res = Some (out, w', m') \<and> (out = ToUser \<longrightarrow> (\<exists>t'. s_tasks w' current = Some t' \<and> settled table t t')))"

lemma ends_settled_carries: "ends_settled table current t1 res \<Longrightarrow> carries t t1 \<Longrightarrow> ends_settled table current t res"
  unfolding ends_settled_def using settled_carries by blast

lemma quiet_loop_settles:
  assumes "\<And>i. i < fuel \<Longrightarrow> others i = id" "runs table current t w" "work t < fuel"
  shows "ends_settled table current t (trap_return_loop fuel env hart current others w m)"
  using assms
proof (induction fuel arbitrary: t w m)
  case (Suc fuel)
  have t: "s_tasks w current = Some t" using Suc.prems(2) by (simp add: runs_def)
  have q: "others fuel = id" by (rule Suc.prems(1)) simp
  show ?case
  proof (cases "t_status t = TStopped")
    case True
    then show ?thesis by (simp add: ends_settled_def q t)
  next
    case False
    obtain res w1 m1 where rd: "trap_return_round env hart current w m = (res, w1, m1)" by (metis prod_cases3)
    note R = trap_return_round_spec [OF Suc.prems(2) rd]
    show ?thesis
    proof (cases res)
      case (Some out)
      then show ?thesis using R False by (simp add: ends_settled_def q t rd)
    next
      case None
      then obtain t1 where t1: "runs table current t1 w1" "carries t t1" "t_status t1 = TStopped \<and> 0 < work t \<or> work t1 < work t" using R by auto
      have l: "trap_return_loop (Suc fuel) env hart current others w m = trap_return_loop fuel env hart current others w1 m1"
        using False by (simp add: q t rd None)
      have "ends_settled table current t1 (trap_return_loop fuel env hart current others w1 m1)"
      proof (cases "work t1 < work t")
        case True
        then show ?thesis using Suc.IH [OF Suc.prems(1) t1(1)] Suc.prems(3) by simp
      next
        case False
        then obtain fuel' where f: "fuel = Suc fuel'" and "t_status t1 = TStopped"
          using t1(3) Suc.prems(3) by (cases fuel) auto
        then show ?thesis using Suc.prems(1) [of fuel'] t1(1) by (simp add: ends_settled_def runs_def)
      qed
      then show ?thesis unfolding l by (rule ends_settled_carries [OF _ t1(2)])
    qed
  qed
qed simp

lemma trap_return_loop_settles:
  assumes quiet: "\<And>i. i < 36 \<Longrightarrow> others i = id" and sig: "\<And>i w m. only_signals current w (fst (others i (w, m)))"
  shows "runs table current t w \<Longrightarrow> ends_settled table current t (trap_return_loop (n + 36) env hart current others w m)"
proof (induction n arbitrary: t w m)
  case 0
  have "work t < 36" using pending_count_bound [of "sig_pending t"] 0 by (simp add: work_def runs_def)
  then show ?case using quiet_loop_settles [OF quiet 0] by simp
next
  case (Suc n)
  obtain w0 m0 where o: "others (n + 36) (w, m) = (w0, m0)" by (cases "others (n + 36) (w, m)")
  obtain t0 where t0: "runs table current t0 w0" "carries t t0"
    using runs_only_signals [OF Suc.prems] sig [of w "n + 36" m] o by auto
  have st: "s_tasks w0 current = Some t0" using t0(1) by (simp add: runs_def)
  obtain res w1 m1 where rd: "trap_return_round env hart current w0 m0 = (res, w1, m1)" by (metis prod_cases3)
  note R = trap_return_round_spec [OF t0(1) rd]
  have l: "trap_return_loop (Suc n + 36) env hart current others w m =
      (if t_status t0 = TStopped then Some (Stops, w0, m0)
       else case res of Some out \<Rightarrow> Some (out, w1, m1) | None \<Rightarrow> trap_return_loop (n + 36) env hart current others w1 m1)"
    unfolding add_Suc trap_return_loop.simps(2) using o st rd by (simp split: option.split)
  have "ends_settled table current t0 (trap_return_loop (Suc n + 36) env hart current others w m)"
  proof (cases "t_status t0 = TStopped")
    case True
    then show ?thesis unfolding l by (simp add: ends_settled_def)
  next
    case False
    show ?thesis
    proof (cases res)
      case (Some out)
      then show ?thesis unfolding l using False R by (simp add: ends_settled_def)
    next
      case None
      then obtain t1 where t1: "runs table current t1 w1" "carries t0 t1" using R by auto
      then show ?thesis unfolding l using False None ends_settled_carries [OF Suc.IH [OF t1(1)] t1(2)] by simp
    qed
  qed
  then show ?case by (rule ends_settled_carries [OF _ t0(2)])
qed

text \<open>
  C16.  The way back to user code ends once no more signals arrive.  Whatever signals are pending, which
  actions are installed and whether the restartable-sequence area is intact, and whatever signals
  others post in any number of rounds (continuing the thread when it was stopped), the loop of
  \<^verbatim>\<open>trap_return\<close> ends within 36 further rounds: the thread goes back to user code, exits, is stopped, or
  the kernel panics while it writes a frame.  A thread that goes back owes no mask of \<^verbatim>\<open>rt_sigsuspend\<close>
  any more, and one of three things holds: it starts one of its handlers with the signal number as
  argument; or no signal is pending that its mask admits; or its mask from before \<^verbatim>\<open>rt_sigsuspend\<close> was
  put back and no signal is pending that the temporary mask admitted.  (In the third case the mask
  that was put back is not looked at again.)
\<close>

theorem trap_return_settles:
  assumes t: "s_tasks w current = Some t" "s_procs w (t_pid t) = Some p" and ok: "flags_within SigSet_all (sig_pending t)" "cx_ok (trap_cx t)"
    and arrivals: "\<And>i w m. only_signals current w (fst (others i (w, m)))" and quiet: "\<And>i. i < 36 \<Longrightarrow> others i = id"
  shows "\<exists>out w' m'. trap_return n env hart current others w m = Some (out, w', m') \<and>
    (out = ToUser \<longrightarrow> (\<exists>t'. s_tasks w' current = Some t' \<and> sigsuspend_restore_mask t' = None \<and>
       (enters (sig_table p) t' \<or> check_if_any_sig t' = None \<or>
        (\<exists>old. sigsuspend_restore_mask t = Some old \<and> sig_mask t' = old \<and> flags_remove (sig_mask t) (sig_pending t') = 0))))"
proof -
  have "runs (sig_table p) current t w" using assms by (simp add: runs_def)
  from trap_return_loop_settles [OF quiet arrivals this] show ?thesis
    unfolding trap_return_def settled_def [symmetric] ends_settled_def [symmetric] .
qed

text \<open>A thread with a pending ignored signal; another signal arrives before the first round.\<close>

definition late_signal :: "nat \<Rightarrow> sig_world \<times> user_mem \<Rightarrow> sig_world \<times> user_mem" where
  "late_signal i = (if i < 36 then id else (\<lambda>(w, m). (snd (add_signal_with_info (sig_flag SIGCHLD) None False 1 w), m)))"

lemma late_signal_only: "only_signals 1 w (fst (late_signal i (w, m)))"
proof (cases "i < 36")
  case True
  then show ?thesis by (auto simp: late_signal_def only_signals_def)
next
  case False
  have "flags_within SigSet_all (sig_flag SIGCHLD)" by (simp add: SIGCHLD_def)
  then show ?thesis using False add_signal_only by (simp add: late_signal_def)
qed

theorem trap_return_settles_witness:
  "\<exists>out w' m'. trap_return 1 \<lparr>areas = [], sigreturn_va = 0\<rparr> 0 1 late_signal
     (set_sig_task 1 (some_task\<lparr>sig_pending := sig_flag SIGCHLD\<rparr>) some_world) open_mem = Some (out, w', m')"
proof -
  let ?t = "some_task\<lparr>sig_pending := sig_flag SIGCHLD\<rparr>"
  let ?w = "set_sig_task 1 ?t some_world"
  have t: "s_tasks ?w 1 = Some ?t" "s_procs ?w (t_pid ?t) = Some (some_process 1)"
    "flags_within SigSet_all (sig_pending ?t)" "cx_ok (trap_cx ?t)"
    by (simp_all add: set_sig_task_def some_world_def some_task_def SIGCHLD_def cx_ok_def)
  have q: "late_signal i = id" if "i < 36" for i using that by (simp add: late_signal_def)
  from trap_return_settles [where n = 1 and others = late_signal and env = "\<lparr>areas = [], sigreturn_va = 0\<rparr>" and hart = 0 and m = open_mem, OF t late_signal_only q]
  show ?thesis by blast
qed

end
