(* ===== verification/Signal_Calls.thy ===== *)
theory Signal_Calls
  imports Signal_Handling Timers
begin

text \<open>
  The system calls on masks, actions and pending signals (\<^verbatim>\<open>syscall/signal.rs\<close>), reading signals from a
  descriptor (\<^verbatim>\<open>fs/files/signalfd.rs\<close>), the alarm of the interval timer (\<^verbatim>\<open>signal/timer.rs\<close>), and
  the timer interrupt's check of the timers of \<^verbatim>\<open>rt_sigtimedwait\<close> (\<^verbatim>\<open>timer/timer_condvar.rs\<close>).
\<close>

section \<open>Masks\<close>

definition SIG_BLOCK :: nat where "SIG_BLOCK = 0"
definition SIG_UNBLOCK :: nat where "SIG_UNBLOCK = 1"
definition SIG_SETMASK :: nat where "SIG_SETMASK = 2"

text \<open>An optional copy to user memory\<close>

definition copy_out :: "nat \<Rightarrow> byte list \<Rightarrow> user_mem \<Rightarrow> syscall_ret \<times> user_mem" where
  "copy_out a bs m = (if a = 0 then (Inr 0, m) else copy_to_user a bs m)"

definition changed_mask :: "nat \<Rightarrow> SigSet \<Rightarrow> SigSet \<Rightarrow> SigSet option" where
  "changed_mask how s old =
     (if how = SIG_BLOCK then Some (old OR s)
      else if how = SIG_UNBLOCK then Some (old AND SigSet_not s)
      else if how = SIG_SETMASK then Some s else None)"

definition sys_rt_sigprocmask :: "nat \<Rightarrow> nat \<Rightarrow> nat \<Rightarrow> user_mem \<Rightarrow> sig_task \<Rightarrow> syscall_ret \<times> user_mem \<times> sig_task" where
  "sys_rt_sigprocmask how set_ptr old_ptr m t =
     (if how > 3 then (Inl EINVAL, m, t)
      else
        (case copy_out old_ptr (word_bytes (sig_mask t)) m of
           (Inl e, m1) \<Rightarrow> (Inl e, m1, t)
         | (Inr n, m1) \<Rightarrow>
             if set_ptr = 0 then (Inr 0, m1, t)
             else
               (case copy_from_user set_ptr 8 m1 of
                  Inl e \<Rightarrow> (Inl e, m1, t)
                | Inr bs \<Rightarrow>
                    (case changed_mask how (flags_remove UNBLOCKABLE (bytes_word bs)) (sig_mask t) of
                       None \<Rightarrow> (Inl EINVAL, m1, t)
                     | Some new_mask \<Rightarrow> (Inr 0, m1, t\<lparr>sig_mask := flags_remove UNBLOCKABLE new_mask\<rparr>)))))"

definition sys_rt_sigpending :: "nat \<Rightarrow> user_mem \<Rightarrow> sig_task \<Rightarrow> syscall_ret \<times> user_mem" where
  "sys_rt_sigpending set_ptr m t =
     (case copy_to_user set_ptr (word_bytes (sig_pending t)) m of (Inl e, m1) \<Rightarrow> (Inl e, m1) | (Inr n, m1) \<Rightarrow> (Inr 0, m1))"

section \<open>The alternate stack\<close>

definition sys_sigaltstack :: "nat \<Rightarrow> nat \<Rightarrow> user_mem \<Rightarrow> sig_task \<Rightarrow> syscall_ret \<times> user_mem \<times> sig_task" where
  "sys_sigaltstack new_stack old_stack m t =
     (case (if new_stack = 0 then Inr None else case copy_from_user new_stack 24 m of Inl e \<Rightarrow> Inl e | Inr bs \<Rightarrow> Inr (Some (bytes_stack bs))) of
        Inl e \<Rightarrow> (Inl e, m, t)
      | Inr requested \<Rightarrow>
          let user_sp = get_sp (trap_cx t);
              previous = user_view (alt_signal_stack t) user_sp in
          (case (case requested of None \<Rightarrow> Inr (alt_signal_stack t) | Some r \<Rightarrow> replace_from_user (alt_signal_stack t) r user_sp) of
             Inl e \<Rightarrow> (Inl e, m, t)
           | Inr stack \<Rightarrow>
               let t1 = t\<lparr>alt_signal_stack := stack\<rparr> in
               (case copy_out old_stack (stack_bytes previous) m of
                  (Inl e, m1) \<Rightarrow> (Inl e, m1, t1)
                | (Inr n, m1) \<Rightarrow> (Inr 0, m1, t1))))"

section \<open>Actions\<close>

definition raw_bytes :: "RawSigAction \<Rightarrow> byte list" where
  "raw_bytes r = word_bytes (of_nat (raw_handler r)) @ word_bytes (raw_flags r) @ word_bytes (of_nat (raw_restorer r)) @
     half_bytes (fst (raw_mask r)) @ half_bytes (snd (raw_mask r))"

definition bytes_raw :: "byte list \<Rightarrow> RawSigAction" where
  "bytes_raw bs = \<lparr>raw_handler = unat (bytes_word (take 8 bs)), raw_flags = bytes_word (take 8 (drop 8 bs)),
     raw_restorer = unat (bytes_word (take 8 (drop 16 bs))),
     raw_mask = (bytes_half (take 4 (drop 24 bs)), bytes_half (take 4 (drop 28 bs)))\<rparr>"

definition new_action :: "SigAction \<Rightarrow> KSigAction" where
  "new_action a =
     (if sa_handler a = SIG_DFL then default_action else if sa_handler a = SIG_IGN then ignore_action else handler_action a)"

definition sys_rt_sigaction :: "nat \<Rightarrow> nat \<Rightarrow> nat \<Rightarrow> nat \<Rightarrow> user_mem \<Rightarrow> SigTable \<Rightarrow> syscall_ret \<times> user_mem \<times> SigTable" where
  "sys_rt_sigaction signo act_ptr old_act sigsetsize m table =
     (if sigsetsize \<noteq> 8 then (Inl EINVAL, m, table)
      else if signo = 0 \<or> signo > SIG_MAX_NUM then (Inl EINVAL, m, table)
      else if (signo = SIGKILL \<or> signo = SIGSTOP) \<and> act_ptr \<noteq> 0 then (Inl EINVAL, m, table)
      else
        (case copy_out old_act (raw_bytes (from_sigaction (act (table ! signo)))) m of
           (Inl e, m1) \<Rightarrow> (Inl e, m1, table)
         | (Inr n, m1) \<Rightarrow>
             if act_ptr = 0 then (Inr 0, m1, table)
             else
               (case copy_from_user act_ptr 32 m1 of
                  Inl e \<Rightarrow> (Inl e, m1, table)
                | Inr bs \<Rightarrow>
                    let a = into_sigaction (bytes_raw bs) in
                    (Inr 0, m1, set_action signo (new_action (a\<lparr>sa_mask := flags_remove UNBLOCKABLE (sa_mask a)\<rparr>)) table))))"

section \<open>Waiting for signals\<close>

text \<open>
  A waiting thread is given, for each time it runs, what others did to it since, and the actions of its
  process.  The list is the course of the wait; a wait that has not ended at its end goes on.
\<close>

type_synonym sig_pause = "SigTable \<times> (sig_task \<Rightarrow> sig_task)"

primrec sigsuspend_rounds :: "SigSet \<Rightarrow> sig_pause list \<Rightarrow> sig_task \<Rightarrow> syscall_ret option \<times> sig_task" where
  "sigsuspend_rounds old_mask [] t = (None, t)"
| "sigsuspend_rounds old_mask (pause # pauses) t =
     (case pause of (table, others) \<Rightarrow>
        let t1 = others t in
        if flags_remove (sig_mask t1) (sig_pending t1) = 0 then sigsuspend_rounds old_mask pauses (t1\<lparr>t_status := TBlocked\<rparr>)
        else
          (case consume_ignorable_pending_signal table t1 of
             (True, t2) \<Rightarrow> sigsuspend_rounds old_mask pauses t2
           | (False, t2) \<Rightarrow> (Some (Inl EINTR), t2\<lparr>sigsuspend_restore_mask := Some old_mask\<rparr>)))"

definition sys_rt_sigsuspend :: "nat \<Rightarrow> user_mem \<Rightarrow> sig_pause list \<Rightarrow> sig_task \<Rightarrow> syscall_ret option \<times> sig_task" where
  "sys_rt_sigsuspend mask_ptr m pauses t =
     (case copy_from_user mask_ptr 8 m of
        Inl e \<Rightarrow> (Some (Inl e), t)
      | Inr bs \<Rightarrow> sigsuspend_rounds (sig_mask t) pauses (t\<lparr>sig_mask := flags_remove UNBLOCKABLE (bytes_word bs)\<rparr>))"

text \<open>
  \<^verbatim>\<open>rt_sigtimedwait\<close>.  Of the global timer heap, the entries that this thread has set for the call are
  kept here, by the time they are due.  \<open>sigtimedwait_fires\<close> is \<^verbatim>\<open>handle_sigtimedwait_timer\<close>.
\<close>

definition sigtimedwait_fires :: "sig_task \<Rightarrow> sig_task" where
  "sigtimedwait_fires t = t\<lparr>sigtimedwait_timedout := True, t_interrupted := True, t_waker := False, t_woke := t_woke t \<or> t_waker t,
     t_status := if t_waker t \<and> t_status t = TBlocked then TReady else t_status t\<rparr>"

text \<open>
  The timer interrupt at the time \<open>current\<close>: the entry at the top of the heap, which is ordered by
  ticks, fires and is popped as long as it is due.  Each round pops one, so as many rounds as there
  are entries are enough.
\<close>

fun check_timer_rounds :: "nat \<Rightarrow> nat \<Rightarrow> Timespec \<Rightarrow> Timespec list \<Rightarrow> sig_task \<Rightarrow> Timespec list \<times> sig_task" where
  "check_timer_rounds 0 freq current timers t = (timers, t)"
| "check_timer_rounds (Suc n) freq current timers t =
     (case min_by_key (to_tick freq) timers of
        None \<Rightarrow> (timers, t)
      | Some due \<Rightarrow>
          if timespec_le due current then check_timer_rounds n freq current (remove1 due timers) (sigtimedwait_fires t)
          else (timers, t))"

definition check_sigtimedwait_timers :: "nat \<Rightarrow> Timespec \<Rightarrow> Timespec list \<Rightarrow> sig_task \<Rightarrow> Timespec list \<times> sig_task" where
  "check_sigtimedwait_timers freq current timers t = check_timer_rounds (length timers) freq current timers t"

definition clear_interrupt_waiter :: "sig_task \<Rightarrow> sig_task" where
  "clear_interrupt_waiter t = t\<lparr>t_interrupted := False, t_waker := False\<rparr>"

text \<open>One poll: the result, if the wait is over\<close>

definition sigtimedwait_poll :: "SigSet \<Rightarrow> nat \<Rightarrow> user_mem \<Rightarrow> sig_task \<Rightarrow> syscall_ret option \<times> user_mem \<times> sig_task" where
  "sigtimedwait_poll sigset info_ptr m t0 =
     (let t = t0\<lparr>t_waker := True\<rparr> in
      if sigtimedwait_timedout t then (Some (Inl EAGAIN), m, clear_interrupt_waiter (t\<lparr>sigtimedwait_timedout := False\<rparr>))
      else
        (case peek_front (sigset AND sig_pending t) of
           None \<Rightarrow> (None, m, t)
         | Some signo \<Rightarrow>
             let info = (case sig_pending_info t ! signo of Some i \<Rightarrow> i | None \<Rightarrow> SigInfo_new signo 0 0 0);
                 t1 = clear_interrupt_waiter (take_signal signo t) in
             (case copy_out info_ptr (siginfo_bytes info) m of
                (Inl e, m1) \<Rightarrow> (Some (Inl e), m1, t1)
              | (Inr n, m1) \<Rightarrow> (Some (Inr signo), m1, t1))))"

text \<open>
  The wait: before each poll others act on the thread, and the timer interrupt runs at the given time.
\<close>

type_synonym wait_pause = "(sig_task \<Rightarrow> sig_task) \<times> Timespec"

primrec sigtimedwait_rounds :: "nat \<Rightarrow> SigSet \<Rightarrow> nat \<Rightarrow> wait_pause list \<Rightarrow> user_mem \<Rightarrow> Timespec list \<Rightarrow> sig_task \<Rightarrow>
    syscall_ret option \<times> user_mem \<times> Timespec list \<times> sig_task" where
  "sigtimedwait_rounds freq sigset info_ptr [] m timers t = (None, m, timers, t)"
| "sigtimedwait_rounds freq sigset info_ptr (pause # pauses) m timers t =
     (case pause of (others, current) \<Rightarrow>
      case check_sigtimedwait_timers freq current timers (others t) of (timers1, t1) \<Rightarrow>
      case sigtimedwait_poll sigset info_ptr m t1 of
        (Some r, m1, t2) \<Rightarrow> (Some r, m1, timers1, t2)
      | (None, m1, t2) \<Rightarrow> sigtimedwait_rounds freq sigset info_ptr pauses m1 timers1 t2)"

text \<open>The timeout: none, an error, or the time at which the timer is due\<close>

definition sigtimedwait_timeout :: "Timespec \<Rightarrow> nat \<Rightarrow> user_mem \<Rightarrow> Timespec option sys_result" where
  "sigtimedwait_timeout now timeout_ptr m =
     (if timeout_ptr = 0 then Inr None
      else if timeout_ptr = usize_max then Inl EINVAL
      else
        (case copy_from_user timeout_ptr 16 m of
           Inl e \<Rightarrow> Inl e
         | Inr bs \<Rightarrow>
             let ts = Timespec_new (unat (bytes_word (take 8 bs))) (unat (bytes_word (take 8 (drop 8 bs)))) in
             if ts_nsec ts \<ge> 1000000000 then Inl EINVAL else Inr (Some (timespec_add now ts))))"

definition sys_rt_sigtimedwait :: "nat \<Rightarrow> Timespec \<Rightarrow> nat \<Rightarrow> nat \<Rightarrow> nat \<Rightarrow> wait_pause list \<Rightarrow> user_mem \<Rightarrow> Timespec list \<Rightarrow> sig_task \<Rightarrow>
    syscall_ret option \<times> user_mem \<times> Timespec list \<times> sig_task" where
  "sys_rt_sigtimedwait freq now set_ptr info_ptr timeout_ptr pauses m timers t0 =
     (let t = t0\<lparr>sigtimedwait_timedout := False\<rparr> in
      case (if set_ptr = 0 then Inr 0 else case copy_from_user set_ptr 8 m of Inl e \<Rightarrow> Inl e | Inr bs \<Rightarrow> Inr (bytes_word bs)) of
        Inl e \<Rightarrow> (Some (Inl e), m, timers, t)
      | Inr sigset \<Rightarrow>
          (case sigtimedwait_timeout now timeout_ptr m of
             Inl e \<Rightarrow> (Some (Inl e), m, timers, t)
           | Inr due \<Rightarrow>
               sigtimedwait_rounds freq sigset info_ptr pauses m (timers @ (case due of None \<Rightarrow> [] | Some d \<Rightarrow> [d])) t))"

section \<open>Reading signals from a descriptor\<close>

text \<open>The task is \<open>None\<close> when it is gone.\<close>

definition signalfd_pending :: "SigSet \<Rightarrow> sig_task option \<Rightarrow> SigSet" where
  "signalfd_pending wanted task = (case task of None \<Rightarrow> 0 | Some t \<Rightarrow> sig_pending t AND wanted)"

definition signalfd_try_read :: "SigSet \<Rightarrow> nat \<Rightarrow> sig_task option \<Rightarrow> byte list sys_result \<times> sig_task option" where
  "signalfd_try_read wanted len task =
     (if len < 128 then (Inl EINVAL, task)
      else
        (case peek_front (signalfd_pending wanted task) of
           None \<Rightarrow> (Inl EAGAIN, task)
         | Some signo \<Rightarrow>
             (case task of
                None \<Rightarrow> (Inl ESRCH, task)
              | Some t \<Rightarrow>
                  if \<not> flags_contain (sig_pending t) (signal_of signo) then (Inl EAGAIN, task)
                  else
                    (Inr (siginfo_bytes (case sig_pending_info t ! signo of Some i \<Rightarrow> i | None \<Rightarrow> SigInfo_new signo 0 0 0)),
                     Some (take_signal signo t)))))"

definition signalfd_poll_in :: "SigSet \<Rightarrow> sig_task option \<Rightarrow> bool" where
  "signalfd_poll_in wanted task \<longleftrightarrow> signalfd_pending wanted task \<noteq> 0"

section \<open>The alarm of the interval timer\<close>

definition add_itimer_signal :: "nat \<Rightarrow> sig_world \<Rightarrow> sig_world" where
  "add_itimer_signal tid w =
     (case s_tasks w tid of
        None \<Rightarrow> w
      | Some t \<Rightarrow>
          let should_ready = (t_status t = TBlocked);
              t1 = t\<lparr>sig_pending := sig_pending t OR sig_flag SIGALRM, t_status := if should_ready then TReady else t_status t\<rparr> in
          (set_sig_task tid t1 w)\<lparr>s_ready := s_ready w @ (if should_ready then [tid] else [])\<rparr>)"

definition add_blocked_itimer_signal :: "nat \<Rightarrow> sig_world \<Rightarrow> sig_world" where
  "add_blocked_itimer_signal tid w =
     (case s_tasks w tid of
        None \<Rightarrow> w
      | Some t \<Rightarrow>
          if t_status t \<noteq> TBlocked then w
          else
            let t1 = (if t_waker t then wake_interruptible t else t);
                t2 = t1\<lparr>sig_pending := sig_pending t1 OR sig_flag SIGALRM, t_status := TReady\<rparr> in
            (set_sig_task tid t2 w)\<lparr>s_ready := s_ready w @ [tid]\<rparr>)"

definition deliver_itimer_signal :: "nat set \<Rightarrow> TimeVal \<Rightarrow> nat \<Rightarrow> TimerInner \<Rightarrow> sig_world \<Rightarrow> TimerInner \<times> sig_world" where
  "deliver_itimer_signal waiters now tid inner w =
     (if tid \<in> waiters then (inner, w)
      else let (fired, inner1) = take_expired_signal now inner in (inner1, if fired then add_itimer_signal tid w else w))"

definition deliver_blocked_itimer_signal :: "TimeVal \<Rightarrow> nat \<Rightarrow> TimerInner \<Rightarrow> sig_world \<Rightarrow> TimerInner \<times> sig_world" where
  "deliver_blocked_itimer_signal now tid inner w =
     (let (fired, inner1) = take_expired_signal now inner in (inner1, if fired then add_blocked_itimer_signal tid w else w))"

section \<open>Signals that cannot be blocked\<close>

definition spares :: "SigSet \<Rightarrow> bool" where
  "spares s \<longleftrightarrow> \<not> bit s (SIGKILL - 1) \<and> \<not> bit s (SIGSTOP - 1)"

definition mask_inv :: "sig_task \<Rightarrow> SigTable \<Rightarrow> bool \<Rightarrow> bool" where
  "mask_inv t table forged \<longleftrightarrow>
     (\<not> forged \<longrightarrow> spares (sig_mask t) \<and> (\<forall>old. sigsuspend_restore_mask t = Some old \<longrightarrow> spares old)) \<and>
     length table = SIG_MAX_NUM + 1 \<and> table ! SIGKILL = default_action \<and> table ! SIGSTOP = default_action \<and>
     (\<forall>k \<in> set table. spares (sa_mask (act k)))"

text \<open>What others do to a waiting thread leaves its masks alone.\<close>

definition keeps_masks :: "(sig_task \<Rightarrow> sig_task) \<Rightarrow> bool" where
  "keeps_masks f \<longleftrightarrow> (\<forall>t. sig_mask (f t) = sig_mask t \<and> sigsuspend_restore_mask (f t) = sigsuspend_restore_mask t)"

text \<open>
  What changes the masks of a thread and the actions of its process.  \<^verbatim>\<open>rt_sigreturn\<close> takes the mask from
  a frame in user memory, whatever is there; \<open>forged\<close> remembers that it took one that holds \<^verbatim>\<open>SIGKILL\<close> or
  \<^verbatim>\<open>SIGSTOP\<close>.
\<close>

inductive sig_call :: "sig_task \<times> SigTable \<times> bool \<Rightarrow> sig_task \<times> SigTable \<times> bool \<Rightarrow> bool" where
  procmask: "sys_rt_sigprocmask how set_ptr old_ptr m t = (r, m', t') \<Longrightarrow> sig_call (t, table, forged) (t', table, forged)"
| sigaction: "sys_rt_sigaction signo act_ptr old_act sigsetsize m table = (r, m', table') \<Longrightarrow>
    sig_call (t, table, forged) (t, table', forged)"
| altstack: "sys_sigaltstack new_stack old_stack m t = (r, m', t') \<Longrightarrow> sig_call (t, table, forged) (t', table, forged)"
| suspend: "sys_rt_sigsuspend mask_ptr m pauses t = (r, t') \<Longrightarrow> list_all (\<lambda>p. keeps_masks (snd p)) pauses \<Longrightarrow>
    sig_call (t, table, forged) (t', table, forged)"
| timedwait: "sys_rt_sigtimedwait freq now set_ptr info_ptr timeout_ptr waits m timers t = (r, m', timers', t') \<Longrightarrow>
    list_all (\<lambda>p. keeps_masks (fst p)) waits \<Longrightarrow> sig_call (t, table, forged) (t', table, forged)"
| posted: "sig_call (t, table, forged) (post_signal sig info teardown t, table, forged)"
| handler: "is_handler (table ! signo) \<Longrightarrow> 1 \<le> signo \<Longrightarrow> signo \<le> SIG_MAX_NUM \<Longrightarrow>
    setup_frame env signo (table ! signo) info t table m = Some (r, t', table', m') \<Longrightarrow> sig_call (t, table, forged) (t', table', forged)"
| unsuspended: "sig_call (t, table, forged) (restore_suspend_mask t, table, forged)"
| returned: "restore_frame m t = (r, t') \<Longrightarrow>
    sig_call (t, table, forged) (t', table, forged \<or> \<not> spares (sig_mask t'))"

lemma spares_remove [simp]: "spares (flags_remove UNBLOCKABLE s)"
  by (simp add: spares_def signo_defs)

lemma procmask_masks:
  assumes "sys_rt_sigprocmask how set_ptr old_ptr m t = (r, m', t')"
  shows "t' = t \<or> (\<exists>s. t' = t\<lparr>sig_mask := flags_remove UNBLOCKABLE s\<rparr>)"
  using assms by (auto simp: sys_rt_sigprocmask_def split: if_splits prod.splits sum.splits option.splits)

lemma sigaction_table:
  assumes "sys_rt_sigaction signo act_ptr old_act sigsetsize m table = (r, m', table')"
  shows "table' = table \<or> signo \<notin> {SIGKILL, SIGSTOP} \<and> (\<exists>a. table' = set_action signo (new_action (a\<lparr>sa_mask := flags_remove UNBLOCKABLE (sa_mask a)\<rparr>)) table)"
  using assms by (auto simp: sys_rt_sigaction_def Let_def split: if_splits prod.splits sum.splits)

lemma new_action_spares [simp]: "spares (sa_mask (act (new_action (a\<lparr>sa_mask := flags_remove UNBLOCKABLE s\<rparr>))))"
proof -
  have "spares 0" by (simp add: spares_def)
  then show ?thesis by (simp add: new_action_def default_action_def SigAction_default_def ignore_action_def handler_action_def)
qed

lemma altstack_masks:
  assumes "sys_sigaltstack new_stack old_stack m t = (r, m', t')"
  shows "sig_mask t' = sig_mask t" "sigsuspend_restore_mask t' = sigsuspend_restore_mask t"
  using assms by (auto simp: sys_sigaltstack_def Let_def split: if_splits prod.splits sum.splits option.splits)

lemma consume_masks:
  assumes "consume_ignorable_pending_signal table t = (b, t')"
  shows "sig_mask t' = sig_mask t" "sigsuspend_restore_mask t' = sigsuspend_restore_mask t"
  using assms by (auto simp: consume_ignorable_pending_signal_def Let_def split: option.splits if_splits)

lemma sigsuspend_rounds_masks:
  assumes "sigsuspend_rounds old pauses t = (r, t')" "list_all (\<lambda>p. keeps_masks (snd p)) pauses"
  shows "sig_mask t' = sig_mask t \<and> (sigsuspend_restore_mask t' = sigsuspend_restore_mask t \<or> sigsuspend_restore_mask t' = Some old)"
  using assms
proof (induction pauses arbitrary: t)
  case (Cons pause pauses)
  obtain tab others where pause: "pause = (tab, others)" by (cases pause)
  have k: "sig_mask (others t) = sig_mask t" "sigsuspend_restore_mask (others t) = sigsuspend_restore_mask t"
    using Cons.prems(2) by (simp_all add: pause keeps_masks_def)
  have rest: "list_all (\<lambda>p. keeps_masks (snd p)) pauses" using Cons.prems(2) by simp
  obtain b t2 where c: "consume_ignorable_pending_signal tab (others t) = (b, t2)"
    by (cases "consume_ignorable_pending_signal tab (others t)")
  note m = consume_masks [OF c]
  show ?case
  proof (cases "flags_remove (sig_mask (others t)) (sig_pending (others t)) = 0")
    case True
    with Cons.IH [of "(others t)\<lparr>t_status := TBlocked\<rparr>"] Cons.prems(1) rest k show ?thesis by (simp add: pause)
  next
    case False
    with Cons.IH [of t2] Cons.prems(1) rest k m show ?thesis by (cases b) (auto simp: pause c)
  qed
qed simp

lemma sigtimedwait_poll_masks:
  assumes "sigtimedwait_poll sigset info_ptr m t = (r, m', t')"
  shows "sig_mask t' = sig_mask t" "sigsuspend_restore_mask t' = sigsuspend_restore_mask t"
  using assms by (auto simp: sigtimedwait_poll_def clear_interrupt_waiter_def Let_def split: if_splits option.splits prod.splits sum.splits)

lemma check_timer_rounds_masks:
  "check_timer_rounds n freq current timers t = (timers', t') \<Longrightarrow>
     sig_mask t' = sig_mask t \<and> sigsuspend_restore_mask t' = sigsuspend_restore_mask t"
  by (induction n freq current timers t rule: check_timer_rounds.induct)
    (auto simp: sigtimedwait_fires_def split: option.splits if_splits)

lemma sigtimedwait_rounds_masks:
  assumes "sigtimedwait_rounds freq sigset info_ptr waits m timers t = (r, m', timers', t')" "list_all (\<lambda>p. keeps_masks (fst p)) waits"
  shows "sig_mask t' = sig_mask t \<and> sigsuspend_restore_mask t' = sigsuspend_restore_mask t"
  using assms
proof (induction waits arbitrary: m timers t)
  case (Cons pause waits)
  obtain others current where pause: "pause = (others, current)" by (cases pause)
  obtain ts1 t1 where k: "check_sigtimedwait_timers freq current timers (others t) = (ts1, t1)"
    by (cases "check_sigtimedwait_timers freq current timers (others t)")
  have m1: "sig_mask t1 = sig_mask t \<and> sigsuspend_restore_mask t1 = sigsuspend_restore_mask t"
    using check_timer_rounds_masks [OF k [unfolded check_sigtimedwait_timers_def]] Cons.prems(2) by (simp add: pause keeps_masks_def)
  obtain r1 m1 t2 where p: "sigtimedwait_poll sigset info_ptr m t1 = (r1, m1, t2)" by (metis prod_cases3)
  with sigtimedwait_poll_masks [OF p] m1 Cons show ?case by (cases r1) (auto simp: pause k)
qed simp

lemma timedwait_masks:
  assumes "sys_rt_sigtimedwait freq now set_ptr info_ptr timeout_ptr waits m timers t = (r, m', timers', t')"
    "list_all (\<lambda>p. keeps_masks (fst p)) waits"
  shows "sig_mask t' = sig_mask t \<and> sigsuspend_restore_mask t' = sigsuspend_restore_mask t"
  using assms(1) sigtimedwait_rounds_masks [OF _ assms(2)]
  by (fastforce simp: sys_rt_sigtimedwait_def Let_def split: if_splits sum.splits)

lemma setup_frame_masks:
  assumes "setup_frame env signo k info t table m = Some (r, t', table', m')"
  shows "sigsuspend_restore_mask t' = None \<and> (sig_mask t' = sig_mask t \<or> sig_mask t' = sig_mask t OR handler_mask signo (act k))"
  using assms unfolding setup_frame_def Let_def by (auto split: option.splits prod.splits if_splits)

lemma restore_kernel_frame:
  assumes "frame_at m (get_sp (trap_cx t)) (frame_bytes signo k info t0)" "cx_ok (trap_cx t0)" "stack_ok (alt_signal_stack t0)"
    "restore_frame m t = (r, t')"
  shows "sig_mask t' = saved_mask t0 \<and> sigsuspend_restore_mask t' = sigsuspend_restore_mask t"
  using assms restore_normal [of m t] restore_siginfo [of m t]
  by (auto simp: frame_bytes_def Let_def resumed_task_def split: if_splits)

lemma restore_frame_suspend: "restore_frame m t = (r, t') \<Longrightarrow> sigsuspend_restore_mask t' = sigsuspend_restore_mask t"
  by (auto simp: restore_frame_def Let_def split: sum.splits if_splits)

lemma sig_call_inv:
  assumes "sig_call s s'" "mask_inv (fst s) (fst (snd s)) (snd (snd s))"
  shows "mask_inv (fst s') (fst (snd s')) (snd (snd s'))"
  using assms
proof (induction rule: sig_call.induct)
  case (procmask how set_ptr old_ptr m t r m' t' table forged)
  then show ?case using procmask_masks [OF procmask.hyps] by (auto simp: mask_inv_def)
next
  case (sigaction signo act_ptr old_act sigsetsize m table r m' table' t forged)
  then have inv: "mask_inv t table forged" by simp
  from sigaction_table [OF sigaction.hyps] show ?case
  proof (elim disjE conjE exE)
    fix a assume a: "signo \<notin> {SIGKILL, SIGSTOP}" "table' = set_action signo (new_action (a\<lparr>sa_mask := flags_remove UNBLOCKABLE (sa_mask a)\<rparr>)) table"
    then show ?case using inv set_update_subset_insert [of table signo "new_action (a\<lparr>sa_mask := flags_remove UNBLOCKABLE (sa_mask a)\<rparr>)"]
      by (auto simp: mask_inv_def set_action_def)
  qed (use inv in simp)
next
  case (altstack new_stack old_stack m t r m' t' table forged)
  then show ?case using altstack_masks [OF altstack.hyps] by (simp add: mask_inv_def)
next
  case (suspend mask_ptr m pauses t r t' table forged)
  then show ?case using sigsuspend_rounds_masks [of "sig_mask t" pauses _ r t']
    by (fastforce simp: sys_rt_sigsuspend_def mask_inv_def split: sum.splits)
next
  case (timedwait freq now set_ptr info_ptr timeout_ptr waits m timers t r m' timers' t' table forged)
  then show ?case using timedwait_masks [OF timedwait.hyps] by (simp add: mask_inv_def)
next
  case (posted t table forged sig info teardown)
  then show ?case by (simp add: mask_inv_def)
next
  case (handler table signo env info t m r t' table' m' forged)
  then have inv: "mask_inv t table forged" by simp
  have n: "signo \<noteq> SIGKILL" "signo \<noteq> SIGSTOP"
    using inv handler.hyps(1) by (auto simp: mask_inv_def is_handler_def default_action_def)
  have "table ! signo \<in> set table" using inv handler.hyps(3) by (simp add: mask_inv_def)
  then have "spares (sa_mask (act (table ! signo)))" using inv by (simp add: mask_inv_def)
  moreover have "\<not> bit (signal_of signo) (SIGKILL - 1)" "\<not> bit (signal_of signo) (SIGSTOP - 1)"
    using n handler.hyps(2,3) from_sig_beyond [of signo] from_sig_flag [of signo]
    by (cases "signo \<le> 33"; auto simp: signal_of_def bit_sig_flag signo_defs)+
  ultimately have h: "spares (handler_mask signo (act (table ! signo)))"
    by (simp add: handler_mask_def spares_def bit_or_iff signal_of_def)
  have t': "\<not> forged \<longrightarrow> spares (sig_mask t')" "sigsuspend_restore_mask t' = None"
    using setup_frame_masks [OF handler.hyps(4)] inv h by (auto simp: mask_inv_def spares_def bit_or_iff)
  have "spares (sa_mask (act default_action))" by (simp add: default_action_def SigAction_default_def spares_def)
  then show ?case using setup_frame_table [OF handler.hyps(4)] inv t' n set_update_subset_insert [of table signo default_action]
    by (auto simp: mask_inv_def set_action_def)
next
  case (unsuspended t table forged)
  then show ?case by (auto simp: mask_inv_def restore_suspend_mask_def split: option.splits)
next
  case (returned m t r t' table forged)
  then show ?case using restore_frame_suspend [OF returned.hyps] by (auto simp: mask_inv_def)
qed

text \<open>
  C11.  \<^verbatim>\<open>SIGKILL\<close> and \<^verbatim>\<open>SIGSTOP\<close> stay deliverable unless \<^verbatim>\<open>rt_sigreturn\<close> takes them from user memory.
  Through any sequence of changes of the mask, waits for signals, installed actions, handlers entered
  and frames returned from, of a thread that started with an empty mask and default actions: the
  action of both signals stays the default.  As long as no \<^verbatim>\<open>rt_sigreturn\<close> has taken a mask with one
  of them from a frame, the thread never blocks either; each of them that is pending is found by the
  check before user code; and a frame that the kernel writes for the thread gives back a mask that
  admits both.
\<close>

theorem unblockable_signals_stay_admitted:
  assumes steps: "sig_call\<^sup>*\<^sup>* (t0, SigTable_new, False) (t, table, forged)"
    and start: "sig_mask t0 = 0" "sigsuspend_restore_mask t0 = None"
  shows "table ! SIGKILL = default_action \<and> table ! SIGSTOP = default_action \<and>
    (\<not> forged \<longrightarrow>
       \<not> bit (sig_mask t) (SIGKILL - 1) \<and> \<not> bit (sig_mask t) (SIGSTOP - 1) \<and>
       (bit (sig_pending t) (SIGKILL - 1) \<or> bit (sig_pending t) (SIGSTOP - 1) \<longrightarrow> check_if_any_sig t \<noteq> None) \<and>
       (\<forall>m t1 r t'. frame_at m (get_sp (trap_cx t1)) (frame_bytes signo k info t) \<and> cx_ok (trap_cx t) \<and> stack_ok (alt_signal_stack t) \<and>
          restore_frame m t1 = (r, t') \<longrightarrow> \<not> bit (sig_mask t') (SIGKILL - 1) \<and> \<not> bit (sig_mask t') (SIGSTOP - 1)))"
proof -
  have "mask_inv (fst (t, table, forged)) (fst (snd (t, table, forged))) (snd (snd (t, table, forged)))" using steps
  proof (induction rule: rtranclp_induct)
    case base
    show ?case using start by (simp add: mask_inv_def spares_def SigTable_new_def signo_defs default_action_def SigAction_default_def)
  next
    case (step y z)
    from sig_call_inv [OF step.hyps(2) step.IH] show ?case .
  qed
  then have inv: "mask_inv t table forged" by simp
  have found: "flags_remove (sig_mask t) (sig_pending t) \<noteq> 0" if "bit (sig_pending t) i" "\<not> bit (sig_mask t) i" for i
  proof
    assume "flags_remove (sig_mask t) (sig_pending t) = 0"
    moreover have "bit (flags_remove (sig_mask t) (sig_pending t)) i" using that by simp
    ultimately show False by simp
  qed
  have "spares (sig_mask t')" if "\<not> forged" "frame_at m (get_sp (trap_cx t1)) (frame_bytes signo k info t)" "cx_ok (trap_cx t)"
      "stack_ok (alt_signal_stack t)" "restore_frame m t1 = (r, t')" for m t1 r t'
    using restore_kernel_frame [OF that(2-5)] inv that(1) by (auto simp: mask_inv_def saved_mask_def split: option.split)
  then show ?thesis using inv found by (auto simp: mask_inv_def spares_def check_if_any_sig_def)
qed

theorem unblockable_signals_stay_admitted_witness:
  "check_if_any_sig (post_signal (sig_flag SIGKILL) None False some_task) \<noteq> None"
proof -
  have s: "sig_call\<^sup>*\<^sup>* (some_task, SigTable_new, False) (post_signal (sig_flag SIGKILL) None False some_task, SigTable_new, False)"
    by (rule r_into_rtranclp) (rule sig_call.posted)
  have "sig_mask some_task = 0" "sigsuspend_restore_mask some_task = None" by (simp_all add: some_task_def)
  moreover have "bit (sig_pending (post_signal (sig_flag SIGKILL) None False some_task)) (SIGKILL - 1)"
    by (simp add: bit_or_iff bit_sig_flag SIGKILL_def)
  ultimately show ?thesis using unblockable_signals_stay_admitted [OF s] by simp
qed

text \<open>
  C38.  \<^verbatim>\<open>rt_sigreturn\<close> does not protect them.  The mask in the frame is user memory, and it becomes the
  mask of the thread as it is.  A frame with \<^verbatim>\<open>SIGSTOP\<close> in its mask, which every other way to change
  the mask would have removed, leaves the thread deaf to that signal: once it is pending, the check
  before user code finds what it found before.
\<close>

theorem sigreturn_can_block_sigstop:
  assumes f: "frame_at m (get_sp (trap_cx t)) (normal_frame_bytes stack s mctx)" and ok: "stack_ok stack" "mctx_ok mctx"
    and s: "bit s (SIGSTOP - 1)"
  shows "\<exists>r t'. restore_frame m t = (Inr r, t') \<and> sig_mask t' = s \<and>
    check_if_any_sig (post_signal (sig_flag SIGSTOP) info False t') = check_if_any_sig t'"
proof -
  let ?t = "resumed_task s stack mctx t"
  have m: "sig_mask ?t = s" by (simp add: resumed_task_def Let_def)
  have "flags_remove s (sig_pending ?t OR sig_flag SIGSTOP) = flags_remove s (sig_pending ?t)"
    using s by (intro bit_word_eqI) (auto simp: bit_or_iff bit_sig_flag SIGSTOP_def)
  then show ?thesis using restore_normal [OF f ok] m by (simp add: check_if_any_sig_def)
qed

definition forged_frame :: "byte list" where
  "forged_frame = normal_frame_bytes stack_disabled UNBLOCKABLE \<lparr>mc_x = replicate 32 0, mc_f = replicate 32 0, mc_fcsr = 0\<rparr>"

theorem sigreturn_can_block_sigstop_witness:
  "\<exists>r t'. restore_frame (snd (copy_to_user 0x10000 forged_frame open_mem)) some_task = (Inr r, t') \<and> sig_mask t' = UNBLOCKABLE"
proof -
  let ?mc = "\<lparr>mc_x = replicate 32 0, mc_f = replicate 32 0, mc_fcsr = 0\<rparr>"
  have mc: "mctx_ok ?mc" by (simp add: mctx_ok_def)
  have len: "length forged_frame = 568" using mc by (simp add: forged_frame_def normal_frame_bytes_def)
  have r: "range_ok (\<lambda>a. True) 0x10000 568" by (simp add: range_ok_def list_all_iff usize_max_def)
  obtain m where c: "copy_to_user 0x10000 forged_frame open_mem = (Inr 568, m)"
    using r len by (simp add: copy_to_user_ok open_mem_def)
  have "frame_at m 0x10000 forged_frame"
    using copy_to_user_cases [OF c] r len by (simp add: frame_at_def open_mem_def)
  then have "frame_at m (get_sp (trap_cx some_task)) (normal_frame_bytes stack_disabled UNBLOCKABLE ?mc)"
    by (simp add: some_task_def get_sp_def forged_frame_def)
  from sigreturn_can_block_sigstop [OF this stack_ok_disabled mc, where info = None] show ?thesis by (auto simp: c SIGSTOP_def)
qed

section \<open>Waiting with and without a timeout\<close>

text \<open>A wait that ends with a signal has taken the lowest one of the set that was pending.\<close>

lemma sigtimedwait_takes_lowest:
  assumes "sigtimedwait_poll sigset info_ptr m t = (Some (Inr signo), m', t')"
  shows "1 \<le> signo \<and> bit sigset (signo - 1) \<and> bit (sig_pending t) (signo - 1) \<and>
    (\<forall>i < signo - 1. \<not> (bit sigset i \<and> bit (sig_pending t) i)) \<and>
    sig_pending t' = flags_remove (signal_of signo) (sig_pending t) \<and> \<not> t_interrupted t' \<and> \<not> t_waker t'"
  using assms by (auto simp: sigtimedwait_poll_def Let_def clear_interrupt_waiter_def peek_front_Some bit_and_iff
      split: if_splits option.splits prod.splits sum.splits)

lemma sigtimedwait_keeps_flag:
  "sigtimedwait_poll sigset info_ptr m t = (Some (Inr signo), m', t') \<Longrightarrow> \<not> sigtimedwait_timedout t'"
  by (auto simp: sigtimedwait_poll_def Let_def clear_interrupt_waiter_def take_signal_def
      split: if_splits option.splits prod.splits sum.splits)

lemma fires_timedout: "sigtimedwait_timedout (sigtimedwait_fires t)"
  by (simp add: sigtimedwait_fires_def)

lemma check_timer_rounds_fired:
  "check_timer_rounds n freq current timers t = (timers', t') \<Longrightarrow> sigtimedwait_timedout t \<Longrightarrow> sigtimedwait_timedout t'"
  by (induction n freq current timers t rule: check_timer_rounds.induct) (auto simp: fires_timedout split: option.splits if_splits)

lemma check_timers_cases:
  assumes c: "check_sigtimedwait_timers freq current timers t = (timers', t')"
  shows "timers' = timers \<and> t' = t \<or> sigtimedwait_timedout t'"
proof (cases "length timers")
  case 0
  then show ?thesis using c by (simp add: check_sigtimedwait_timers_def)
next
  case (Suc n)
  show ?thesis
  proof (cases "\<exists>due. min_by_key (to_tick freq) timers = Some due \<and> timespec_le due current")
    case True
    then obtain due where "min_by_key (to_tick freq) timers = Some due" "timespec_le due current" by blast
    then have "check_timer_rounds n freq current (remove1 due timers) (sigtimedwait_fires t) = (timers', t')"
      using c Suc by (simp add: check_sigtimedwait_timers_def)
    from check_timer_rounds_fired [OF this fires_timedout] show ?thesis by blast
  next
    case False
    then show ?thesis using c Suc by (auto simp: check_sigtimedwait_timers_def split: option.splits if_splits)
  qed
qed

text \<open>A wait that ends with a signal has let no timer expire.\<close>

lemma sigtimedwait_rounds_timers:
  assumes "sigtimedwait_rounds freq sigset info_ptr waits m timers t = (Some (Inr signo), m', timers', t')"
  shows "timers' = timers"
  using assms
proof (induction waits arbitrary: m timers t)
  case (Cons pause waits)
  obtain others current where pause: "pause = (others, current)" by (cases pause)
  obtain ts1 t1 where k: "check_sigtimedwait_timers freq current timers (others t) = (ts1, t1)"
    by (cases "check_sigtimedwait_timers freq current timers (others t)")
  obtain r1 m1 t2 where p: "sigtimedwait_poll sigset info_ptr m t1 = (r1, m1, t2)" by (metis prod_cases3)
  have "\<not> sigtimedwait_timedout t1"
  proof
    assume "sigtimedwait_timedout t1"
    then have "r1 = Some (Inl EAGAIN)" using p by (auto simp: sigtimedwait_poll_def Let_def)
    then show False using Cons.prems by (simp add: pause k p)
  qed
  then have "ts1 = timers" using check_timers_cases [OF k] by blast
  then show ?case using Cons.prems Cons.IH by (cases r1) (auto simp: pause k p)
qed simp

text \<open>
  C36.  A timer outlives its wait.  A \<^verbatim>\<open>rt_sigtimedwait\<close> with a timeout that ends with a signal leaves its
  timer in the heap.  Take a later \<^verbatim>\<open>rt_sigtimedwait\<close> of the thread that has no timeout, for signals of
  which none is pending or arrives.  With the timer gone it would go on waiting.  But when the timer
  becomes due during the wait, the timer interrupt pops it and the wait ends with \<^verbatim>\<open>EAGAIN\<close>, the answer
  for a timeout.
\<close>

theorem stale_sigtimedwait_timer:
  assumes first: "sys_rt_sigtimedwait freq now set_ptr info_ptr timeout_ptr waits m [] t = (Some (Inr signo), m1, timers1, t1)"
      "timeout_ptr \<noteq> 0"
    and second: "copy_from_user set_ptr2 8 m1 = Inr (word_bytes sigset)" "set_ptr2 \<noteq> 0" "sigset AND sig_pending t1 = 0"
  shows "\<exists>due. timers1 = [due] \<and>
    (\<forall>now2 before after. \<not> timespec_le due before \<and> timespec_le due after \<longrightarrow>
       (\<exists>t2. sys_rt_sigtimedwait freq now2 set_ptr2 info_ptr2 0 [(id, before), (id, after)] m1 timers1 t1 = (Some (Inl EAGAIN), m1, [], t2)) \<and>
       (\<exists>t3. sys_rt_sigtimedwait freq now2 set_ptr2 info_ptr2 0 [(id, before), (id, after)] m1 [] t1 = (None, m1, [], t3)))"
proof -
  obtain due where d: "sigtimedwait_timeout now timeout_ptr m = Inr (Some due)"
    using first by (auto simp: sys_rt_sigtimedwait_def sigtimedwait_timeout_def Let_def split: if_splits sum.splits)
  then have ts: "timers1 = [due]"
    using first(1) by (auto simp: sys_rt_sigtimedwait_def Let_def split: if_splits sum.splits dest: sigtimedwait_rounds_timers)
  have none: "peek_front (sigset AND sig_pending u) = None" if "sig_pending u = sig_pending t1" for u
    using second(3) that peek_front_None [of 0] by simp
  have to: "sigtimedwait_timeout now2 0 m1 = Inr None" for now2 by (simp add: sigtimedwait_timeout_def)
  have chk: "check_sigtimedwait_timers freq c [] u = ([], u)" for c u by (simp add: check_sigtimedwait_timers_def)
  have "(\<exists>t2. sys_rt_sigtimedwait freq now2 set_ptr2 info_ptr2 0 [(id, before), (id, after)] m1 timers1 t1 = (Some (Inl EAGAIN), m1, [], t2)) \<and>
       (\<exists>t3. sys_rt_sigtimedwait freq now2 set_ptr2 info_ptr2 0 [(id, before), (id, after)] m1 [] t1 = (None, m1, [], t3))"
    if c: "\<not> timespec_le due before" "timespec_le due after" for now2 before after
  proof -
    have b: "check_sigtimedwait_timers freq before [due] u = ([due], u)"
      and a: "check_sigtimedwait_timers freq after [due] u = ([], sigtimedwait_fires u)" for u
      using c by (simp_all add: check_sigtimedwait_timers_def)
    show ?thesis using second(1,2)
      by (simp add: ts sys_rt_sigtimedwait_def to a b chk sigtimedwait_poll_def none fires_timedout Let_def)
  qed
  then show ?thesis using ts by blast
qed

text \<open>Waiting for \<^verbatim>\<open>SIGUSR1\<close> twice, with a timeout of two seconds only the first time\<close>

definition wait_arguments :: "byte list" where
  "wait_arguments = word_bytes (sig_flag SIGUSR1) @ word_bytes 2 @ word_bytes 0"

definition wait_memory :: user_mem where
  "wait_memory = snd (copy_to_user 4096 wait_arguments open_mem)"

theorem stale_sigtimedwait_timer_witness:
  "\<exists>m1 timers1 t1 t2.
     sys_rt_sigtimedwait 1000 (Timespec_new 5 0) 4096 0 4104 [(id, Timespec_new 6 0)] wait_memory [] (some_task\<lparr>sig_pending := sig_flag SIGUSR1\<rparr>) =
       (Some (Inr SIGUSR1), m1, timers1, t1) \<and> timers1 = [Timespec_new 7 0] \<and>
     sys_rt_sigtimedwait 1000 (Timespec_new 6 0) 4096 0 0 [(id, Timespec_new 6 0), (id, Timespec_new 8 0)] m1 timers1 t1 =
       (Some (Inl EAGAIN), m1, [], t2)"
proof -
  let ?t = "some_task\<lparr>sig_pending := sig_flag SIGUSR1\<rparr>" and ?s = "sig_flag SIGUSR1"
  have r: "range_ok (\<lambda>a. True) a n \<longleftrightarrow> a \<noteq> 0 \<and> a + n \<le> usize_max" for a n by (simp add: range_ok_def list_all_iff)
  have len: "length wait_arguments = 24" by (simp add: wait_arguments_def)
  obtain m where c: "copy_to_user 4096 wait_arguments open_mem = (Inr 24, m)"
    by (simp add: copy_to_user_ok open_mem_def r len usize_max_def)
  note cc = copy_to_user_cases [OF c]
  have wm: "wait_memory = m" by (simp add: wait_memory_def c)
  have all: "user_bytes m 4096 24 = wait_arguments" using cc by (simp add: len)
  have "user_bytes m 4096 8 = word_bytes ?s"
    using user_bytes_sub [of m 4096 0 8 16] by (simp add: all) (simp add: wait_arguments_def)
  then have set: "copy_from_user 4096 8 wait_memory = Inr (word_bytes ?s)"
    using cc by (simp add: wm copy_from_user_def open_mem_def r usize_max_def)
  have "user_bytes m 4104 16 = word_bytes 2 @ word_bytes 0"
    using user_bytes_sub [of m 4096 8 16 0] by (simp add: all) (simp add: wait_arguments_def)
  then have due: "sigtimedwait_timeout (Timespec_new 5 0) 4104 wait_memory = Inr (Some (Timespec_new 7 0))"
    using cc by (simp add: sigtimedwait_timeout_def wm copy_from_user_def open_mem_def r usize_max_def Timespec_new_def timespec_add_def Let_def)
  have early: "\<not> timespec_le (Timespec_new 7 0) (Timespec_new 6 0)" and late: "timespec_le (Timespec_new 7 0) (Timespec_new 8 0)"
    by (simp_all add: timespec_le_def Timespec_new_def)
  have peek: "peek_front ?s = Some SIGUSR1" by (simp add: peek_front_Some bit_sig_flag SIGUSR1_def)
  let ?t1 = "clear_interrupt_waiter (take_signal SIGUSR1 (?t\<lparr>sigtimedwait_timedout := False, t_waker := True\<rparr>))"
  have "sigtimedwait_poll ?s 0 wait_memory (?t\<lparr>sigtimedwait_timedout := False\<rparr>) = (Some (Inr SIGUSR1), wait_memory, ?t1)"
    by (simp add: sigtimedwait_poll_def peek copy_out_def Let_def)
  then have first: "sys_rt_sigtimedwait 1000 (Timespec_new 5 0) 4096 0 4104 [(id, Timespec_new 6 0)] wait_memory [] ?t =
      (Some (Inr SIGUSR1), wait_memory, [Timespec_new 7 0], ?t1)"
    using early by (simp add: sys_rt_sigtimedwait_def set due check_sigtimedwait_timers_def)
  have "sig_pending ?t1 = flags_remove ?s ?s" by (simp add: clear_interrupt_waiter_def SIGUSR1_def)
  then have none: "?s AND sig_pending ?t1 = 0" by (simp add: flags_remove_def)
  show ?thesis using first early late stale_sigtimedwait_timer [OF first _ set _ none, of 0] by fastforce
qed

section \<open>Actions and masks read back\<close>

lemma bytes_raw_roundtrip:
  assumes "raw_handler r < 2 ^ 64" "raw_restorer r < 2 ^ 64"
  shows "bytes_raw (raw_bytes r) = r"
  using assms by (cases "raw_mask r") (simp add: bytes_raw_def raw_bytes_def unat_of_nat)

text \<open>Querying an action shows what was installed, and installing what was shown changes nothing.\<close>

lemma sigaction_query:
  assumes k: "table ! signo = handler_action a" and signo: "1 \<le> signo" "signo < length table" "signo \<le> SIG_MAX_NUM" "signo \<notin> {SIGKILL, SIGSTOP}"
    and a: "sa_handler a < 2 ^ 64" "sa_restore a < 2 ^ 64" "2 \<le> sa_handler a"
      "flags_within SigActionFlags_all (sa_flags a)" "flags_within SigSet_all (sa_mask a)" "spares (sa_mask a)"
    and q: "sys_rt_sigaction signo 0 p 8 m table = (Inr 0, m', table)" "p \<noteq> 0" "range_ok (may_read m) p 32" "range_ok (may_write m) p 32"
  shows "sys_rt_sigaction signo p 0 8 m' table = (Inr 0, m', table)"
proof -
  let ?b = "raw_bytes (from_sigaction a)"
  have len: "length ?b = 32" by (simp add: raw_bytes_def)
  have c: "copy_to_user p ?b m = (Inr 32, m')"
    using q signo k len by (auto simp: sys_rt_sigaction_def copy_out_def copy_to_user_ok handler_action_def Let_def split: if_splits)
  have f: "copy_from_user p 32 m' = Inr ?b" using copy_to_user_cases [OF c] q(3) len by (simp add: copy_from_user_def)
  have "bytes_raw ?b = from_sigaction a" using a by (intro bytes_raw_roundtrip) (simp_all add: from_sigaction_def)
  then have i: "into_sigaction (bytes_raw ?b) = a" using raw_sigaction_roundtrip [OF a(4,5)] by simp
  have "flags_remove UNBLOCKABLE (sa_mask a) = sa_mask a"
    using a(6) by (intro bit_word_eqI) (auto simp: spares_def signo_defs)
  then have "new_action (a\<lparr>sa_mask := flags_remove UNBLOCKABLE (sa_mask a)\<rparr>) = handler_action a"
    using a(3) by (simp add: new_action_def SIG_DFL_def SIG_IGN_def)
  moreover have "set_action signo (handler_action a) table = table" using k by (metis list_update_id set_action_def)
  ultimately show ?thesis using signo q(2) f i by (simp add: sys_rt_sigaction_def copy_out_def Let_def)
qed

text \<open>
  The signal that ends \<^verbatim>\<open>rt_sigsuspend\<close> meets the temporary mask, and the frame of its handler holds the
  mask from before.
\<close>

lemma sigsuspend_rounds_owe:
  "sigsuspend_rounds old pauses t = (Some r, t') \<Longrightarrow> r = Inl EINTR \<and> sigsuspend_restore_mask t' = Some old \<and>
    flags_remove (sig_mask t') (sig_pending t') \<noteq> 0"
proof (induction pauses arbitrary: t)
  case (Cons pause pauses)
  obtain tab others where pause: "pause = (tab, others)" by (cases pause)
  obtain b t2 where c: "consume_ignorable_pending_signal tab (others t) = (b, t2)"
    by (cases "consume_ignorable_pending_signal tab (others t)")
  have "\<not> b \<Longrightarrow> t2 = others t"
    using c by (auto simp: consume_ignorable_pending_signal_def Let_def split: option.splits if_splits)
  with Cons c show ?case by (cases b) (auto simp: pause Let_def split: if_splits)
qed simp

lemma sigsuspend_owes_mask:
  assumes s: "sys_rt_sigsuspend mask_ptr m pauses t = (Some (Inl EINTR), t1)" and p: "list_all (\<lambda>p. keeps_masks (snd p)) pauses"
    and r: "copy_from_user mask_ptr 8 m = Inr bs"
  shows "sig_mask t1 = flags_remove UNBLOCKABLE (bytes_word bs) \<and> saved_mask t1 = sig_mask t \<and> check_if_any_sig t1 \<noteq> None"
proof -
  have e: "sigsuspend_rounds (sig_mask t) pauses (t\<lparr>sig_mask := flags_remove UNBLOCKABLE (bytes_word bs)\<rparr>) = (Some (Inl EINTR), t1)"
    using s r by (simp add: sys_rt_sigsuspend_def)
  from sigsuspend_rounds_masks [OF e p] sigsuspend_rounds_owe [OF e] show ?thesis
    by (simp add: saved_mask_def check_if_any_sig_def)
qed

text \<open>A signal is read from one place: what a descriptor returned is no longer pending.\<close>

lemma signalfd_consumes:
  assumes "signalfd_try_read wanted len (Some t) = (Inr bs, task')" "flags_within SigSet_all (sig_pending t)"
  shows "\<exists>signo t'. 1 \<le> signo \<and> signo \<le> 33 \<and> bit wanted (signo - 1) \<and> bit (sig_pending t) (signo - 1) \<and> task' = Some t' \<and>
    sig_pending t' = flags_remove (sig_flag signo) (sig_pending t) \<and> length bs = 128"
proof -
  obtain signo where p: "peek_front (sig_pending t AND wanted) = Some signo" and
      e: "task' = Some (take_signal signo t)" "length bs = 128"
    using assms(1) by (auto simp: signalfd_try_read_def signalfd_pending_def split: if_splits option.splits)
  from p have s: "1 \<le> signo" "bit (sig_pending t) (signo - 1)" "bit wanted (signo - 1)" by (auto simp: peek_front_Some bit_and_iff)
  then have "signo \<le> 33" using assms(2) by (auto simp: flags_within_bit)
  with s e show ?thesis by (intro exI [of _ signo] exI [of _ "take_signal signo t"]) simp
qed

end
