(* ===== verification/Spec2Isabelle.thy ===== *)
theory Spec2Isabelle
  imports Msg_Queue Ready_Queue Pipe_File Futex Kernel_Heap Fd_Syscalls Signal_Calls
begin

text \<open>
  Verification of the ya2yos kernel (\<^verbatim>\<open>os/src\<close>), a Rust kernel for RISC-V and LoongArch
  with a Linux system call interface.

  \<^bold>\<open>Parts and how they interact.\<close>  Tasks run on several harts.  A hart takes its next task
  from a ready queue (\<^verbatim>\<open>task/scheduler\<close>), runs it until it blocks or is preempted, and
  puts it back when it is still runnable (\<^verbatim>\<open>task/processor.rs\<close>).  A system call that
  cannot proceed registers with a wait set (\<^verbatim>\<open>utils/poll.rs\<close>) and sleeps in
  \<^verbatim>\<open>block_on\<close> (\<^verbatim>\<open>task/future/mod.rs\<close>) until another task wakes it.  On top of this
  stand the objects processes synchronise with: System V message queues, file locks, pipes, and
  futexes, whose waiters sleep in queues of their own and are also woken by a heap of timeouts
  (\<^verbatim>\<open>timer/timer_condvar.rs\<close>) that the clock interrupt checks.  Processes reach files, pipes and
  sockets through descriptor tables (\<^verbatim>\<open>fs/fstruct.rs\<close>), and closing a descriptor releases file
  locks.  Memory comes from one place: the firmware's RAM ranges go to a buddy heap of pages
  (\<^verbatim>\<open>mm/frame_alloc\<close>), which feeds a cache of single pages and, when it runs short, the kernel's
  own heap (\<^verbatim>\<open>mm/heap_allocator.rs\<close>), another instance of the bundled \<^verbatim>\<open>buddy_system_allocator\<close>.
  Signals (\<^verbatim>\<open>signal\<close>) become pending in the threads of a process and wake them; on its way back to
  user code a thread consumes them (\<^verbatim>\<open>trap_return\<close>), and a handler runs on a frame in user memory until
  \<^verbatim>\<open>rt_sigreturn\<close>.

  \<^bold>\<open>Theories.\<close>
  \<^item> \<open>Prelude\<close>, \<open>BTree_Map\<close>, \<open>Bytes\<close>: error numbers (\<^verbatim>\<open>utils/error.rs\<close>), Rust integer
    operations, ordered tables, little-endian encodings.
  \<^item> \<open>User_Buffer\<close>: \<^verbatim>\<open>UserBuffer\<close> of \<^verbatim>\<open>mm/translate.rs\<close>, the fragments of a user range; every
    copying loop is shown to act on one contiguous buffer.
  \<^item> \<open>Poll_Set\<close>: \<^verbatim>\<open>utils/poll.rs\<close>; the locale \<open>wait_set\<close> is what blocking code relies on.
  \<^item> \<open>Blocking\<close>: \<^verbatim>\<open>block_on\<close> and \<^verbatim>\<open>interruptible\<close> as a loop over the events between two polls,
    and the sleep and wake protocol of \<^verbatim>\<open>MyWaker\<close>, \<^verbatim>\<open>run_tasks\<close> and the ready queue as a step relation
    with an inductive invariant; the entries of the task in the ready queues are counted, and a hart
    that may not run it puts it back.
  \<^item> \<open>Ready_Queue\<close>: \<^verbatim>\<open>task/scheduler/cfs.rs\<close> and \<^verbatim>\<open>rr.rs\<close>; both interpret the locale \<open>run_queue\<close>.
  \<^item> \<open>Msg_Queue\<close>: \<^verbatim>\<open>syscall/ipc/msg.rs\<close>, the System V message queues with their four system calls.
    Each call is the sequence of its critical sections, with what others do between them as an
    argument; the invariant is about any interleaving of sections, and two racing creations of one
    key are shown to give two queues.
  \<^item> \<open>Lock_Contract\<close>, \<open>Posix_Locks\<close>, \<open>Whole_File_Locks\<close>: \<^verbatim>\<open>syscall/fs/file_lock\<close>; the locale
    \<open>advisory_locks\<close> is interpreted on record locks, flock locks and leases.  A blocking \<^verbatim>\<open>F_SETLKW\<close> checks,
    records its wait and tries again in separate sections, with others between them.
  \<^item> \<open>Pipe_Buffer\<close>, \<open>Pipe_File\<close>: \<^verbatim>\<open>fs/files/pipe\<close>; the locale \<open>byte_queue\<close> is interpreted on the
    ring buffer, and the file operations refine a bounded stream of bytes.
  \<^item> \<open>Timers\<close>: time values, interval timers and clocks (\<^verbatim>\<open>timer\<close>), and the sleeping calls of
    \<^verbatim>\<open>syscall/task/schedule.rs\<close>.
  \<^item> \<open>Futex\<close>: \<^verbatim>\<open>task/futex.rs\<close>, the futex transitions of \<^verbatim>\<open>task/manager.rs\<close>, the timeout heap and the
    robust list calls of \<^verbatim>\<open>syscall/sync/futex.rs\<close>; waiting, waking, requeueing and timing out are a
    step relation over the sections of the queue lock.  Blocking on other objects is not one of
    its steps.
  \<^item> \<open>Linked_List\<close>, \<open>Powers\<close>, \<open>Buddy\<close>: \<^verbatim>\<open>crates/buddy_system_allocator\<close>, the intrusive lists over a
    store of words, shown to be lists, and the buddy heap over lists of addresses.
  \<^item> \<open>Memory_Contract\<close>: the locale \<open>byte_allocator\<close>, what any allocator of byte ranges promises; it is
    interpreted on the buddy heap with each of its release routines and on every layer above it.
  \<^item> \<open>Cma\<close>, \<open>Page_Frames\<close>, \<open>Kernel_Heap\<close>: \<^verbatim>\<open>buddy_cma.rs\<close> with its boot code and owner lock,
    \<^verbatim>\<open>page_cache.rs\<close>, \<^verbatim>\<open>frame_tracker.rs\<close> and \<^verbatim>\<open>heap_allocator.rs\<close>; the three together are one more
    \<open>byte_allocator\<close> although memory moves between them.
  \<^item> \<open>Open_Flags\<close>, \<open>Fd_Table\<close>, \<open>Fd_Syscalls\<close>: \<^verbatim>\<open>fs/fstruct.rs\<close> and the calls on descriptors of
    \<^verbatim>\<open>syscall/fs/fd_ops.rs\<close> and \<^verbatim>\<open>fcntl.rs\<close>, with the reservation of a number between its
    allocation and its use as a step relation, and closing composed with the file locks.  In that
    relation any thread may install over a reserved number, as \<^verbatim>\<open>dup3\<close> does; the number is then lost to
    the thread that reserved it.
  \<^item> \<open>User_Memory\<close>, \<open>Rseq\<close>: the copying routines of \<^verbatim>\<open>mm/translate.rs\<close> over the bytes and permissions
    of an address space, where a copy that fails may have written a part, and restartable sequences (\<^verbatim>\<open>task/rseq.rs\<close>).
  \<^item> \<open>Signal_Types\<close>, \<open>Signal_Frame\<close>, \<open>Signal_Delivery\<close>, \<open>Signal_Handling\<close>, \<open>Signal_Calls\<close>: \<^verbatim>\<open>signal\<close>,
    \<^verbatim>\<open>syscall/signal.rs\<close> and \<^verbatim>\<open>fs/files/signalfd.rs\<close>: signal sets and actions; the frame of a handler byte
    for byte, and its way back; sending with its permission rules; what a thread does with its pending
    signals before user code, with signals that arrive meanwhile and threads that stop and go on; and
    the calls on masks, actions and waits, whose effect on the masks is a step relation.  The timers of
    \<^verbatim>\<open>rt_sigtimedwait\<close> stay listed until the timer interrupt pops those that are due.

  \<^bold>\<open>Representation.\<close>  A shared object is a record; an operation takes and returns it, and also
  returns the tasks it wakes or the signals it sends, so that one critical section of the code is
  one step of the model.  A call of several sections takes as an argument what other threads do
  between them, where a theorem depends on it.  Tables keyed by \<^verbatim>\<open>BTreeMap\<close> are association lists in key order.
  Values of \<^verbatim>\<open>usize\<close> and \<^verbatim>\<open>u64\<close> are natural numbers with the wrap-around written out where it can
  happen, signed numbers are integers, flag words and bytes are machine words.  A failing system
  call is the left side of a sum; a panic (failed assertion, unwrap or index) is \<open>None\<close> or
  \<open>Panicked\<close>.  User memory, the clock, credentials and the contents of page frames are arguments.

  \<^bold>\<open>Blocking and bounds.\<close>  A blocking call takes the list of what the rest of the system does
  while it waits; running out of that list means that the call has not returned, so the list is
  not a bound on the code.  Loops of the code that end for a reason the types do not show
  (the depth-first search for deadlocks, the copy loops of user buffers) are total functions with
  a termination proof.  The fetch loops of the ready queues run as often as the queue has entries,
  which is the bound in the code.  The timeout check runs as often as the heap has timers, since
  each round removes one.  The robust list walk has the bound of the code, 2048 nodes; the retry
  loop for one word has none, is a partial function, and is shown to return when the word can be
  written and to run forever when its first byte can only be read.  The slow copy to user memory ends
  because every round copies at least one byte.  The futex steps draw fewer than 2 to the
  power of 64 keys.  The merge loops of the buddy heap end because the order of the block grows;
  the growth loop of the kernel heap and the refill loop of the page cache are partial functions,
  and are shown to return.  Ranges given to a heap lie above address 0 and end below 2 to the power of 64.
  The loop of \<^verbatim>\<open>trap_return\<close> has 36 rounds of fuel and one more for each round before which signals arrive, which is
  shown to be enough: at most 33 signals can be pending at its start, and a broken restartable sequence
  adds one signal and one round, once.

  \<^bold>\<open>What is shown.\<close>  No wake-up is lost by the sleep protocol, no ready task by the schedulers, no
  registered waiter by the wait sets; locks that are held stay exclusive; the deadlock search is
  exact; message queues and pipes deliver what was put in, in order, and keep their counters and
  limits; a task blocked on a futex stays findable by a wake of its address through every requeue
  and timeout, and wakes are served in order; an interval timer never fires early; every byte of memory has one owner through splitting,
  merging, caching and growing, releases coalesce, and an allocation is refused only without room;
  descriptor tables stay well formed, and a reserved number belongs to one thread until another installs over it; \<^verbatim>\<open>kill\<close> reaches exactly
  the threads it may, a handler returns to the state it interrupted, the way back to user code ends with
  a handler started, with nothing deliverable left, or with the mask of an \<^verbatim>\<open>rt_sigsuspend\<close> put back too late
  for the signals it admits, and no call blocks \<^verbatim>\<open>SIGKILL\<close> or \<^verbatim>\<open>SIGSTOP\<close>, except by a forged frame; every modelled handler's error branches are part of
  the definitions and of the theorems about it.  Several theorems state where the code departs from its comments or loses a
  wake-up; they are listed as findings of the development.

  \<^bold>\<open>Not modelled.\<close>  Assembly, device drivers, page tables, the ext4 library, the network stack,
  program loading and the performance counters.  Frames are laid out as on RISC-V; the decoding of traps
  and the diagnostic output about bad frames are left out.  The memory model is sequentially consistent:
  every critical section is atomic, and the orderings of single atomic accesses are not
  distinguished.
\<close>

end
